(* ===== verification/Prelude.thy ===== *)
theory Prelude
  imports Main "HOL-Library.Word" "HOL-Library.AList" "HOL-Library.Multiset"
begin

text \<open>
  Shared vocabulary of the development: the machine types of the C++ sources, byte buffers,
  hash maps, results that carry a fatal exit, message-processing threads, little-endian
  integers and bounds-checked buffer reads, each with the lemmas the component theories share.

  \<^item> A byte buffer together with the field that holds its length is one list of bytes.
  \<^item> \<open>std::unordered_map\<close> is an association list with distinct keys: \<open>find\<close> is
    \<open>map_of\<close>, \<open>m[k] = v\<close> is \<open>AList.update\<close>, \<open>erase\<close> is \<open>AList.delete\<close>, \<open>size\<close> is
    \<open>length\<close>; iteration follows the list, and results about iteration hold for every list,
    hence for every iteration order.
  \<^item> \<open>exit(EXIT_FAILURE)\<close> is the left summand of a result; so is a read outside a buffer.
\<close>

named_theorems edr_defs \<open>definitions that unfold freely\<close>
named_theorems umap_simps \<open>lookup, size and key facts of association lists\<close>
named_theorems result_simps \<open>evaluation of results\<close>

type_synonym byte = "8 word"
type_synonym bytes = "8 word list"
type_synonym u32 = "32 word"
type_synonym u64 = "64 word"
type_synonym ('k, 'v) umap = "('k \<times> 'v) list"

subsection \<open>Fatal exits and results\<close>

datatype edr_error =
    WrongChunkType
  | WrongMsgType
  | WrongMethodType
  | WrongCacheState
  | BaseNotFound
  | AddrNotFound
  | EvictFeatureNotFound
  | EvictCountNotFound
  | MultiLevelDelta
  | DeltaFailure
  | FileError
  | NetworkError
  | KeyNotFound
  | LoginError
  | WrongConfig
  | QueueNotEmpty
  | OutOfBounds
  | NullPointer
  | DivByZero

type_synonym 'a result = "edr_error + 'a"

definition bindR :: "'a result \<Rightarrow> ('a \<Rightarrow> 'b result) \<Rightarrow> 'b result" where
  "bindR r f = (case r of Inl e \<Rightarrow> Inl e | Inr a \<Rightarrow> f a)"

lemma bindR_Inr [simp]: "bindR (Inr a) f = f a"
  by (simp add: bindR_def)

lemma bindR_Inl [simp]: "bindR (Inl e) f = Inl e"
  by (simp add: bindR_def)

lemma bindR_eq_Inr: "bindR r f = Inr b \<longleftrightarrow> (\<exists>a. r = Inr a \<and> f a = Inr b)"
  by (cases r) auto

lemma bindR_assoc: "bindR (bindR r f) g = bindR r (\<lambda>a. bindR (f a) g)"
  by (cases r) auto

lemmas bindR_InrE = bindR_eq_Inr [THEN iffD1, elim_format]

text \<open>A thread takes one message at a time and may emit messages for the next queue.\<close>

fun run_thd :: "('s \<Rightarrow> 'm \<Rightarrow> ('s \<times> 'o list) result) \<Rightarrow> 's \<Rightarrow> 'm list \<Rightarrow> ('s \<times> 'o list) result" where
  "run_thd f s [] = Inr (s, [])"
| "run_thd f s (m # ms) =
     bindR (f s m) (\<lambda>(s', os). bindR (run_thd f s' ms) (\<lambda>(s'', os'). Inr (s'', os @ os')))"

lemma run_thd_append:
  "run_thd f s (ms @ ns) =
     bindR (run_thd f s ms) (\<lambda>(s', os). bindR (run_thd f s' ns) (\<lambda>(s'', os'). Inr (s'', os @ os')))"
  by (induction ms arbitrary: s) (auto simp: bindR_def split: sum.splits)

text \<open>An invariant that every step keeps, and that no step leaves by a fatal exit.\<close>

lemma run_thd_inv:
  assumes "\<And>s m s' os. I s \<Longrightarrow> f s m = Inr (s', os) \<Longrightarrow> I s'"
    and "I s" and "run_thd f s ms = Inr (s', os)"
  shows "I s'"
  using assms(2,3)
proof (induction ms arbitrary: s os)
  case Nil
  then show ?case by simp
next
  case (Cons m ms)
  then show ?case
    by (auto simp: bindR_eq_Inr split: prod.splits dest: assms(1))
qed

lemma run_thd_safe:
  assumes "\<And>s m. I s \<Longrightarrow> m \<in> set ms \<Longrightarrow> \<exists>s' os. f s m = Inr (s', os) \<and> I s'"
    and "I s"
  shows "\<exists>s' os. run_thd f s ms = Inr (s', os) \<and> I s'"
  using assms
proof (induction ms arbitrary: s)
  case Nil
  then show ?case by simp
next
  case (Cons m ms)
  obtain s1 o1 where 1: "f s m = Inr (s1, o1)" "I s1"
    using Cons.prems by (meson list.set_intros(1))
  obtain s2 o2 where "run_thd f s1 ms = Inr (s2, o2)" "I s2"
    using Cons.IH [OF _ 1(2)] Cons.prems(1) by (meson list.set_intros(2))
  with 1 show ?case by auto
qed

fun foldR :: "('s \<Rightarrow> 'a \<Rightarrow> 's result) \<Rightarrow> 's \<Rightarrow> 'a list \<Rightarrow> 's result" where
  "foldR f s [] = Inr s"
| "foldR f s (x # xs) = bindR (f s x) (\<lambda>s'. foldR f s' xs)"

lemma foldR_append: "foldR f s (xs @ ys) = bindR (foldR f s xs) (\<lambda>s'. foldR f s' ys)"
  by (induction xs arbitrary: s) (simp_all add: bindR_assoc)

lemma foldR_safe:
  assumes "\<And>s x. I s \<Longrightarrow> x \<in> set xs \<Longrightarrow> \<exists>s'. f s x = Inr s' \<and> I s'" and "I s"
  shows "\<exists>s'. foldR f s xs = Inr s' \<and> I s'"
  using assms
proof (induction xs arbitrary: s)
  case Nil
  then show ?case by simp
next
  case (Cons x xs)
  then obtain s1 where "f s x = Inr s1" "I s1" by (meson list.set_intros(1))
  with Cons show ?case by (auto intro: Cons.IH)
qed

subsection \<open>Buffers\<close>

definition mem_read :: "bytes \<Rightarrow> nat \<Rightarrow> nat \<Rightarrow> bytes result" where
  \<comment> \<open>\<open>memcpy(dst, buf + off, n)\<close>, a read past the buffer is an error\<close>
  "mem_read buf off n = (if off + n \<le> length buf then Inr (take n (drop off buf)) else Inl OutOfBounds)"

lemma mem_read_append [simp]:
  "mem_read (xs @ ys @ zs) (length xs) (length ys) = Inr ys"
  by (simp add: mem_read_def)

lemma mem_read_append2 [simp]: "mem_read (xs @ ys) (length xs) (length ys) = Inr ys"
  using mem_read_append [of xs ys "[]"] by simp

lemma mem_read_prefix: "mem_read xs off n = Inr d \<Longrightarrow> mem_read (xs @ ys) off n = Inr d"
  by (auto simp: mem_read_def split: if_splits)

lemma length_mem_read: "mem_read xs off n = Inr d \<Longrightarrow> length d = n"
  by (auto simp: mem_read_def split: if_splits)

definition mem_write :: "bytes \<Rightarrow> nat \<Rightarrow> bytes \<Rightarrow> bytes result" where
  \<comment> \<open>\<open>memcpy(buf + off, d, n)\<close>, a write past the buffer is an error\<close>
  "mem_write buf off d =
     (if off + length d \<le> length buf then Inr (take off buf @ d @ drop (off + length d) buf) else Inl OutOfBounds)"

lemma mem_write_ok:
  "off + length d \<le> length buf \<Longrightarrow>
   mem_write buf off d = Inr (take off buf @ d @ drop (off + length d) buf)"
  by (simp add: mem_write_def)

lemma mem_read_ok: "off + n \<le> length buf \<Longrightarrow> mem_read buf off n = Inr (take n (drop off buf))"
  by (simp add: mem_read_def)

lemma mem_write_read:
  assumes "mem_write buf off d = Inr buf'"
  shows "length buf' = length buf" and "mem_read buf' off (length d) = Inr d"
    and "o2 + n \<le> off \<Longrightarrow> mem_read buf' o2 n = mem_read buf o2 n"
  using assms by (auto simp: mem_write_def mem_read_def min_def drop_take split: if_splits)

definition to_u32 :: "nat \<Rightarrow> nat" where
  \<comment> \<open>implicit conversion of a \<open>uint64_t\<close> value to \<open>uint32_t\<close>\<close>
  "to_u32 n = n mod 2 ^ 32"

lemma to_u32_small [simp]: "n < 2 ^ 32 \<Longrightarrow> to_u32 n = n"
  by (simp add: to_u32_def)

lemma to_u32_le: "to_u32 n \<le> n"
  by (simp add: to_u32_def)

subsection \<open>Little-endian integers\<close>

lemma unat_lt: "unat (w :: 'a :: len word) < 2 ^ LENGTH('a)"
  by (rule unsigned_less)

lemma unat_byte_lt [simp]: "unat (b :: byte) < 256"
  using unat_lt [of b] by simp

fun nat_le :: "nat \<Rightarrow> nat \<Rightarrow> bytes" where
  "nat_le 0 x = []"
| "nat_le (Suc n) x = of_nat (x mod 256) # nat_le n (x div 256)"

fun le_nat :: "bytes \<Rightarrow> nat" where
  "le_nat [] = 0"
| "le_nat (b # bs) = unat b + 256 * le_nat bs"

lemma length_nat_le [simp]: "length (nat_le n x) = n"
  by (induction n arbitrary: x) simp_all

lemma le_nat_nat_le: "le_nat (nat_le n x) = x mod 256 ^ n"
proof (induction n arbitrary: x)
  case 0
  then show ?case by simp
next
  case (Suc n)
  have "unat (of_nat (x mod 256) :: byte) = x mod 256"
    by (simp add: unat_of_nat)
  with Suc show ?case
    by (simp add: mod_mult2_eq)
qed

lemma le_nat_bound: "le_nat bs < 256 ^ length bs"
proof (induction bs)
  case Nil
  then show ?case by simp
next
  case (Cons b bs)
  then have "unat b + 256 * le_nat bs < 256 * (le_nat bs + 1)" by simp
  also have "\<dots> \<le> 256 * 256 ^ length bs" using Cons by simp
  finally show ?case by simp
qed

lemma nat_le_le_nat: "nat_le (length bs) (le_nat bs) = bs"
proof (induction bs)
  case Nil
  then show ?case by simp
next
  case (Cons b bs)
  have b: "unat b < 256" by (rule unat_byte_lt)
  then have "(unat b + 256 * le_nat bs) mod 256 = unat b" by simp
  moreover from b have "(unat b + 256 * le_nat bs) div 256 = le_nat bs" by simp
  ultimately show ?case using Cons by simp
qed

definition u32_le :: "u32 \<Rightarrow> bytes" where "u32_le w = nat_le 4 (unat w)"
definition u64_le :: "u64 \<Rightarrow> bytes" where "u64_le w = nat_le 8 (unat w)"
definition le_u32 :: "bytes \<Rightarrow> u32" where "le_u32 bs = of_nat (le_nat bs)"
definition le_u64 :: "bytes \<Rightarrow> u64" where "le_u64 bs = of_nat (le_nat bs)"

lemma length_u32_le [simp]: "length (u32_le w) = 4"
  by (simp add: u32_le_def)

lemma length_u64_le [simp]: "length (u64_le w) = 8"
  by (simp add: u64_le_def)

lemma le_u32_u32_le [simp]: "le_u32 (u32_le w) = w"
  using unat_lt [of w] by (simp add: le_u32_def u32_le_def le_nat_nat_le)

lemma le_u64_u64_le [simp]: "le_u64 (u64_le w) = w"
  using unat_lt [of w] by (simp add: le_u64_def u64_le_def le_nat_nat_le)

subsection \<open>Hash maps as association lists\<close>

abbreviation umap_ok :: "('k, 'v) umap \<Rightarrow> bool" where
  "umap_ok m \<equiv> distinct (map fst m)"

lemma map_of_update [simp, umap_simps]:
  "map_of (AList.update k v m) = (map_of m)(k \<mapsto> v)"
  by (simp add: update_conv')

lemma map_of_delete [simp, umap_simps]:
  "map_of (AList.delete k m) = (map_of m)(k := None)"
  by (simp add: delete_conv')

lemma umap_ok_update [intro, umap_simps]: "umap_ok m \<Longrightarrow> umap_ok (AList.update k v m)"
  by (rule distinct_update)

lemma umap_ok_delete [intro, umap_simps]: "umap_ok m \<Longrightarrow> umap_ok (AList.delete k m)"
  by (rule distinct_delete)

lemma umap_empty_iff: "m = [] \<longleftrightarrow> map_of m = Map.empty"
  by (metis map_of_eq_empty_iff)

text \<open>Inserting a list of pairs, as the loaders and the index updates do.\<close>

definition umap_inserts :: "('k, 'v) umap \<Rightarrow> ('k \<times> 'v) list \<Rightarrow> ('k, 'v) umap" where
  "umap_inserts m ps = fold (\<lambda>(k, v) m. AList.update k v m) ps m"

lemma umap_inserts_Nil [simp]: "umap_inserts m [] = m"
  by (simp add: umap_inserts_def)

lemma umap_inserts_Cons [simp]:
  "umap_inserts m (p # ps) = umap_inserts (AList.update (fst p) (snd p) m) ps"
  by (simp add: umap_inserts_def case_prod_beta)

lemma umap_inserts_append:
  "umap_inserts m (ps @ qs) = umap_inserts (umap_inserts m ps) qs"
  by (induction ps arbitrary: m) simp_all

lemma map_of_umap_inserts: "map_of (umap_inserts m ps) = map_of m ++ map_of (rev ps)"
  by (induction ps arbitrary: m) simp_all

lemma umap_inserts_ok: "umap_ok m \<Longrightarrow> umap_ok (umap_inserts m ps)"
  by (induction ps arbitrary: m) (auto intro: umap_ok_update)

lemma map_of_rev_distinct: "distinct (map fst ps) \<Longrightarrow> map_of (rev ps) = map_of ps"
  by (rule map_of_inject_set [THEN iffD2]) (simp_all add: rev_map [symmetric])

lemma update_fresh: "k \<notin> set (map fst m) \<Longrightarrow> AList.update k v m = m @ [(k, v)]"
  by (induction m) auto

lemma umap_inserts_fresh:
  "umap_ok ps \<Longrightarrow> set (map fst m) \<inter> set (map fst ps) = {} \<Longrightarrow> umap_inserts m ps = m @ ps"
proof (induction ps arbitrary: m)
  case Nil
  then show ?case by simp
next
  case (Cons p ps)
  then have "AList.update (fst p) (snd p) m = m @ [p]"
    using update_fresh [of "fst p" m "snd p"] by auto
  with Cons show ?case by auto
qed

end
