(* ===== verification/Data_Types.thy ===== *)
theory Data_Types
  imports Prelude
begin

text \<open>
  The data model of \<open>include/const_var.h\<close> and \<open>include/data_structure.h\<close>, and the
  arithmetic helpers of \<open>include/define.h\<close> (namespace \<open>tool\<close>). Enums are datatypes with the
  constructors of the source, structs are records with its fields. A fixed-size array that is
  used with a length field is a list of bytes of that length, so the length field is
  \<open>length\<close> of the buffer.
\<close>

subsection \<open>Constants\<close>

definition MAX_CHUNK_SIZE :: nat where "MAX_CHUNK_SIZE = 2 ^ 14"
definition CHUNK_HASH_SIZE :: nat where "CHUNK_HASH_SIZE = 32"
definition CRYPTO_BLOCK_SIZE :: nat where "CRYPTO_BLOCK_SIZE = 16"
definition SUPER_FEATURE_PER_CHUNK :: nat where "SUPER_FEATURE_PER_CHUNK = 3"
definition FEATURE_PER_SUPER_FEATURE :: nat where "FEATURE_PER_SUPER_FEATURE = 4"
definition FEATURE_PER_CHUNK :: nat where
  "FEATURE_PER_CHUNK = SUPER_FEATURE_PER_CHUNK * FEATURE_PER_SUPER_FEATURE"
definition MAX_CONTAINER_SIZE :: nat where "MAX_CONTAINER_SIZE = 2 ^ 22"
definition CONTAINER_ID_LENGTH :: nat where "CONTAINER_ID_LENGTH = 8"
definition ENC_MAX_CHUNK_SIZE :: nat where
  "ENC_MAX_CHUNK_SIZE = MAX_CHUNK_SIZE + CRYPTO_BLOCK_SIZE + 4"

lemmas size_consts [edr_defs] =
  MAX_CHUNK_SIZE_def CHUNK_HASH_SIZE_def CRYPTO_BLOCK_SIZE_def SUPER_FEATURE_PER_CHUNK_def
  FEATURE_PER_SUPER_FEATURE_def FEATURE_PER_CHUNK_def MAX_CONTAINER_SIZE_def
  CONTAINER_ID_LENGTH_def ENC_MAX_CHUNK_SIZE_def

subsection \<open>Enumerations\<close>

datatype data_type =
    NORMAL_CHUNK | COMPRESSED_NORMAL_CHUNK | RECIPE_CHUNK | FULL_EDR_CACHE_CHUNK
  | FULL_EDR_UNCOMPRESS_CHUNK | CACHE_RESTORE_DELTA | CACHE_RESTORE_BASE
  | COMP_NORMAL_CHUNK | UNCOMP_NORMAL_CHUNK
  | MULTI_LEVEL_TYPE \<comment> \<open>\<open>MULTI_LEVEL_DELTA_CHUNK\<close> of the other enum, stored in a header type\<close>

datatype chunk_status =
    UNIQUE_CHUNK | UNIQUE_CHUNK_AFTER_CACHE | DUPLICATE_CHUNK | SIMILAR_CHUNK
  | NON_SIMILAR_CHUNK | COMP_DELTA_CHUNK | UNCOMP_DELTA_CHUNK | COMP_BASE_CHUNK
  | UNCOMP_BASE_CHUNK | CACHE_INSERT_CHUNK | CACHE_DELTA_CHUNK | CACHE_EVICT_CHUNK
  | MULTI_LEVEL_DELTA_CHUNK | CHUNK_PAIR | SINGLE_CHUNK

datatype network_protocol =
    CLIENT_LOGIN_UPLOAD | CLIENT_LOGIN_DOWNLOAD | SERVER_LOGIN_RESPONSE | CLIENT_UPLOAD_CHUNK
  | CLIENT_UPLOAD_RECIPE | CLIENT_UPLOAD_RECIPE_END | SERVER_FILE_NON_EXIST
  | SERVER_RESTORE_RECIPE | CLIENT_RESTORE_READY | CLIENT_KEY_GEN | KEY_MANAGER_KEY_GEN_REPLY
  | CLIENT_RESTORE_RECIPE_REPLY | SERVER_RESTORE_CHUNK | SERVER_RESTORE_FINAL
  | CLIENT_UPLOAD_FEATURE

datatype client_opt_type = UPLOAD_OPT | DOWNLOAD_OPT

datatype edr_design = ONLY_SIMILAR_ENC | SIMILAR_ENC_COMP | FULL_EDR

subsection \<open>Structures\<close>

record raw_chunk =
  raw_data :: bytes
  raw_fp :: bytes

record file_recipe_head =
  rh_size :: nat
  rh_chunk_num :: nat

record chunk_t =
  c_raw :: raw_chunk
  c_head :: file_recipe_head
  c_type :: data_type

record feature_chunk = chunk_t +
  c_features :: "u64 list"

record enc_feature_chunk = feature_chunk +
  c_enc_data :: bytes
  c_key :: bytes
  c_seed :: u64

record send_chunk =
  sc_type :: data_type
  sc_features :: "u64 list"
  sc_compressed_fp :: bytes
  sc_data :: bytes

record select_comp_2_sender =
  s2_chunk :: send_chunk
  s2_key :: bytes

record key_for_chunk =
  a_stat :: chunk_status
  a_container :: bytes
  a_offset :: nat
  a_len :: nat
  a_base_fp :: bytes
  a_compressed_fp :: bytes

record chunk_info =
  ci_fp :: bytes
  ci_features :: "u64 list"
  ci_addr :: key_for_chunk
  ci_stat :: chunk_status

record wrapped_chunk =
  w_info :: chunk_info
  w_data :: bytes

record reader_2_decoder =
  rd_type :: chunk_status
  rd_data :: bytes
  rd_base_type :: chunk_status
  rd_base_data :: bytes

subsection \<open>Arithmetic helpers of namespace tool\<close>

definition CompareLimit :: "u32 \<Rightarrow> u32 \<Rightarrow> u32 \<Rightarrow> u32" where
  "CompareLimit input lower upper =
     (if input \<le> lower then lower else if input \<ge> upper then upper else input)"

definition DivCeil :: "u32 \<Rightarrow> u32 \<Rightarrow> u32" where
  "DivCeil a b = (let tmp = a div b in if a mod b = 0 then tmp else tmp + 1)"

definition ALPHABET :: bytes where
  \<comment> \<open>\<open>abcdefghijklmnopqrstuvwxyz0123456789\<close> in ASCII\<close>
  "ALPHABET = map of_nat ([97..<123] @ [48..<58])"

text \<open>\<open>CreateUUID\<close>: the stream of values of \<open>rand()\<close> is an argument.\<close>

definition CreateUUID :: "(nat \<Rightarrow> nat) \<Rightarrow> nat \<Rightarrow> bytes" where
  "CreateUUID rand idLen = map (\<lambda>i. ALPHABET ! (rand i mod length ALPHABET)) [0..<idLen]"

lemma length_CreateUUID [simp]: "length (CreateUUID rand n) = n"
  by (simp add: CreateUUID_def)

lemma ALPHABET_nonzero: "0 \<notin> set ALPHABET"
  by (auto simp: ALPHABET_def upt_rec_numeral)

lemma CreateUUID_nonzero: "0 \<notin> set (CreateUUID rand n)"
proof -
  have "ALPHABET ! (x mod length ALPHABET) \<in> set ALPHABET" for x
    by (rule nth_mem) (simp add: ALPHABET_def)
  with ALPHABET_nonzero have "ALPHABET ! (x mod length ALPHABET) \<noteq> 0" for x by metis
  then show ?thesis by (fastforce simp: CreateUUID_def)
qed

definition GetStrongSeed :: "u64 \<Rightarrow> u64 \<Rightarrow> u64 \<Rightarrow> u64" where
  \<comment> \<open>\<open>a\<close> is \<open>clock()\<close>, \<open>b\<close> the time in microseconds, \<open>c\<close> the process id\<close>
  "GetStrongSeed a b c =
    (let a = a - b; a = a - c; a = xor a (drop_bit 13 c);
         b = b - c; b = b - a; b = xor b (push_bit 8 a);
         c = c - a; c = c - b; c = xor c (drop_bit 13 b);
         a = a - b; a = a - c; a = xor a (drop_bit 12 c);
         b = b - c; b = b - a; b = xor b (push_bit 16 a);
         c = c - a; c = c - b; c = xor c (drop_bit 5 b);
         a = a - b; a = a - c; a = xor a (drop_bit 3 c);
         b = b - c; b = b - a; b = xor b (push_bit 10 a);
         c = c - a; c = c - b; c = xor c (drop_bit 15 b)
     in c)"

lemma CompareLimit_bounds:
  "lower \<le> upper \<Longrightarrow> lower \<le> CompareLimit x lower upper \<and> CompareLimit x lower upper \<le> upper"
  by (auto simp: CompareLimit_def)

lemma DivCeil_correct:
  assumes "b \<noteq> 0"
  shows "unat (DivCeil a b) = (unat a + unat b - 1) div unat b"
proof -
  let ?a = "unat a" and ?b = "unat b"
  have b: "0 < ?b" using assms by (simp add: unat_gt_0)
  have q: "?a = ?b * (?a div ?b) + ?a mod ?b" by simp
  have mod: "a mod b = 0 \<longleftrightarrow> ?a mod ?b = 0"
    by (metis unat_mod_distrib unsigned_0 word_unat_eq_iff)
  show ?thesis
  proof (cases "?a mod ?b = 0")
    case True
    have "(?a + ?b - 1) div ?b = ?a div ?b"
    proof -
      have "?a + ?b - 1 = (?b - 1) + ?b * (?a div ?b)" using True q b by linarith
      then have "(?a + ?b - 1) div ?b = ?a div ?b + (?b - 1) div ?b"
        using b by (metis div_mult_self2 add.commute not_gr0)
      then show ?thesis using b by simp
    qed
    with True mod show ?thesis by (simp add: DivCeil_def unat_div_distrib)
  next
    case False
    define r where "r = ?a mod ?b"
    have r: "0 < r" "r < ?b" using False b by (auto simp: r_def)
    have "?b * (?a div ?b + 1) = ?b * (?a div ?b) + ?b" by simp
    moreover have "?a = ?b * (?a div ?b) + r" using q by (simp add: r_def)
    ultimately have "?a + ?b - 1 = (r - 1) + ?b * (?a div ?b + 1)" using r(1) by linarith
    then have d: "(?a + ?b - 1) div ?b = ?a div ?b + 1"
      using b r by (metis add.commute div_mult_self2 div_less less_imp_diff_less add_0 not_gr0)
    have "1 < ?b" using r by linarith
    moreover have "0 < ?a" using False by (cases "?a = 0") auto
    ultimately have "?a div ?b < ?a" by (rule div_less_dividend)
    then have "?a div ?b + 1 < 2 ^ LENGTH(32)" using unat_lt [of a] by simp
    then have "unat (a div b + 1) = ?a div ?b + 1"
      by (simp add: unat_word_ariths unat_div_distrib)
    with False mod d show ?thesis by (simp add: DivCeil_def)
  qed
qed

end
