(* ===== verification/Chunker.thy ===== *)
theory Chunker
  imports Data_Types
begin

text \<open>
  Content-defined and fixed-size chunking: \<open>src/chunker/abs_chunker.cc\<close>,
  \<open>fastcdc_chunker.cc\<close> (with the GEAR table of its header), \<open>fix_chunker.cc\<close> and the loop of
  \<open>ChunkerFPThd::Run\<close> (\<open>src/client/chunker_fp_thd.cc\<close>). Both chunkers meet the contract of
  the locale \<open>chunker\<close>, from which the correctness of the loop follows once: the chunks of a
  file concatenate to the file, none is empty, and the recipe head carries their number and
  total size.
\<close>

unbundle bit_operations_syntax

subsection \<open>State shared by the chunkers\<close>

record abs_chunker =
  min_chunk_size :: nat
  avg_chunk_size :: nat
  max_chunk_size :: nat
  read_size :: nat
  read_data_buf :: bytes
  pending_chunking_size :: nat
  remain_chunking_size :: nat
  cur_offset :: nat
  total_chunk_num :: nat
  total_file_size :: nat

definition AbsChunker :: "nat \<Rightarrow> nat \<Rightarrow> nat \<Rightarrow> nat \<Rightarrow> abs_chunker" where
  "AbsChunker avg mn mx read =
     \<lparr> min_chunk_size = mn, avg_chunk_size = avg, max_chunk_size = mx,
       read_size = read * 2 ^ 20, read_data_buf = [], pending_chunking_size = 0,
       remain_chunking_size = 0, cur_offset = 0, total_chunk_num = 0, total_file_size = 0 \<rparr>"

text \<open>
  \<open>LoadDataFromFile\<close> is the same code in both chunkers: it reads at most \<open>read_size\<close> bytes
  of what is left of the file. The pending size is returned as \<open>uint32_t\<close>.
\<close>

definition LoadDataFromFile :: "'a abs_chunker_scheme \<Rightarrow> bytes \<Rightarrow> nat \<times> 'a abs_chunker_scheme \<times> bytes" where
  "LoadDataFromFile c src =
    (let buf = take (read_size c) src
     in (to_u32 (length buf),
         c \<lparr> read_data_buf := buf, pending_chunking_size := length buf,
             cur_offset := 0, remain_chunking_size := length buf \<rparr>,
         drop (read_size c) src))"

definition take_chunk :: "nat \<Rightarrow> 'a abs_chunker_scheme \<Rightarrow> nat \<times> bytes \<times> 'a abs_chunker_scheme" where
  \<comment> \<open>the copy and the counter updates that end every \<open>GenerateOneChunk\<close>\<close>
  "take_chunk chunk_size c =
    (chunk_size, take chunk_size (drop (cur_offset c) (read_data_buf c)),
     c \<lparr> cur_offset := cur_offset c + chunk_size,
         remain_chunking_size := remain_chunking_size c - chunk_size,
         total_chunk_num := total_chunk_num c + 1,
         total_file_size := total_file_size c + chunk_size \<rparr>)"

subsection \<open>Fixed-size chunking\<close>

definition Fix_GenerateOneChunk :: "'a abs_chunker_scheme \<Rightarrow> nat \<times> bytes \<times> 'a abs_chunker_scheme" where
  "Fix_GenerateOneChunk c =
    (if pending_chunking_size c = 0 \<or> remain_chunking_size c = 0 then (0, [], c)
     else take_chunk (to_u32 (if remain_chunking_size c \<ge> avg_chunk_size c then avg_chunk_size c
                              else remain_chunking_size c)) c)"

subsection \<open>FastCDC\<close>

definition GEAR_TABLE :: "u32 list" where
  "GEAR_TABLE = [
    0x5C95C078, 0x22408989, 0x2D48A214, 0x12842087, 0x530F8AFB, 0x474536B9,
    0x2963B4F1, 0x44CB738B, 0x4EA7403D, 0x4D606B6E, 0x074EC5D3, 0x3AF39D18,
    0x726003CA, 0x37A62A74, 0x51A2F58E, 0x7506358E, 0x5D4AB128, 0x4D4AE17B,
    0x41E85924, 0x470C36F7, 0x4741CBE1, 0x01BB7F30, 0x617C1DE3, 0x2B0C3A1F,
    0x50C48F73, 0x21A82D37, 0x6095ACE0, 0x419167A0, 0x3CAF49B0, 0x40CEA62D,
    0x66BC1C66, 0x545E1DAD, 0x2BFA77CD, 0x6E85DA24, 0x5FB0BDC5, 0x652CFC29,
    0x3A0AE1AB, 0x2837E0F3, 0x6387B70E, 0x13176012, 0x4362C2BB, 0x66D8F4B1,
    0x37FCE834, 0x2C9CD386, 0x21144296, 0x627268A8, 0x650DF537, 0x2805D579,
    0x3B21EBBD, 0x7357ED34, 0x3F58B583, 0x7150DDCA, 0x7362225E, 0x620A6070,
    0x2C5EF529, 0x7B522466, 0x768B78C0, 0x4B54E51E, 0x75FA07E5, 0x06A35FC6,
    0x30B71024, 0x1C8626E1, 0x296AD578, 0x28D7BE2E, 0x1490A05A, 0x7CEE43BD,
    0x698B56E3, 0x09DC0126, 0x4ED6DF6E, 0x02C1BFC7, 0x2A59AD53, 0x29C0E434,
    0x7D6C5278, 0x507940A7, 0x5EF6BA93, 0x68B6AF1E, 0x46537276, 0x611BC766,
    0x155C587D, 0x301BA847, 0x2CC9DDA7, 0x0A438E2C, 0x0A69D514, 0x744C72D3,
    0x4F326B9B, 0x7EF34286, 0x4A0EF8A7, 0x6AE06EBE, 0x669C5372, 0x12402DCB,
    0x5FEAE99D, 0x76C7F4A7, 0x6ABDB79C, 0x0DFAA038, 0x20E2282C, 0x730ED48B,
    0x069DAC2F, 0x168ECF3E, 0x2610E61F, 0x2C512C8E, 0x15FB8C06, 0x5E62BC76,
    0x69555135, 0x0ADB864C, 0x4268F914, 0x349AB3AA, 0x20EDFDB2, 0x51727981,
    0x37B4B3D8, 0x5DD17522, 0x6B2CBFE4, 0x5C47CF9F, 0x30FA1CCD, 0x23DEDB56,
    0x13D1F50A, 0x64EDDEE7, 0x0820B0F7, 0x46E07308, 0x1E2D1DFD, 0x17B06C32,
    0x250036D8, 0x284DBF34, 0x68292EE0, 0x362EC87C, 0x087CB1EB, 0x76B46720,
    0x104130DB, 0x71966387, 0x482DC43F, 0x2388EF25, 0x524144E1, 0x44BD834E,
    0x448E7DA3, 0x3FA6EAF9, 0x3CDA215C, 0x3A500CF3, 0x395CB432, 0x5195129F,
    0x43945F87, 0x51862CA4, 0x56EA8FF1, 0x201034DC, 0x4D328FF5, 0x7D73A909,
    0x6234D379, 0x64CFBF9C, 0x36F6589A, 0x0A2CE98A, 0x5FE4D971, 0x03BC15C5,
    0x44021D33, 0x16C1932B, 0x37503614, 0x1ACAF69D, 0x3F03B779, 0x49E61A03,
    0x1F52D7EA, 0x1C6DDD5C, 0x062218CE, 0x07E7A11A, 0x1905757A, 0x7CE00A53,
    0x49F44F29, 0x4BCC70B5, 0x39FEEA55, 0x5242CEE8, 0x3CE56B85, 0x00B81672,
    0x46BEECCC, 0x3CA0AD56, 0x2396CEE8, 0x78547F40, 0x6B08089B, 0x66A56751,
    0x781E7E46, 0x1E2CF856, 0x3BC13591, 0x494A4202, 0x520494D7, 0x2D87459A,
    0x757555B6, 0x42284CC1, 0x1F478507, 0x75C95DFF, 0x35FF8DD7, 0x4E4757ED,
    0x2E11F88C, 0x5E1B5048, 0x420E6699, 0x226B0695, 0x4D1679B4, 0x5A22646F,
    0x161D1131, 0x125C68D9, 0x1313E32E, 0x4AA85724, 0x21DC7EC1, 0x4FFA29FE,
    0x72968382, 0x1CA8EEF3, 0x3F3B1C28, 0x39C2FB6C, 0x6D76493F, 0x7A22A62E,
    0x789B1C2A, 0x16E0CB53, 0x7DECEEEB, 0x0DC7E1C6, 0x5C75BF3D, 0x52218333,
    0x106DE4D6, 0x7DC64422, 0x65590FF4, 0x2C02EC30, 0x64A9AC67, 0x59CAB2E9,
    0x4A21D2F3, 0x0F616E57, 0x23B54EE8, 0x02730AAA, 0x2F3C634D, 0x7117FC6C,
    0x01AC6F05, 0x5A9ED20C, 0x158C4E2A, 0x42B699F0, 0x0C7C14B3, 0x02BD9641,
    0x15AD56FC, 0x1C722F60, 0x7DA1AF91, 0x23E0DBCB, 0x0E93E12B, 0x64B2791D,
    0x440D2476, 0x588EA8DD, 0x4665A658, 0x7446C418, 0x1877A774, 0x5626407E,
    0x7F63BD46, 0x32D2DBD8, 0x3C790F4A, 0x772B7239, 0x6F8B2826, 0x677FF609,
    0x0DC82C11, 0x23FFE354, 0x2EAC53A6, 0x16139E09, 0x0AFD0DBC, 0x2A4D4237,
    0x56A368C7, 0x234325E4, 0x2DCE9187, 0x32E8EA7E]"

definition GEAR :: "byte \<Rightarrow> u32" where
  "GEAR b = GEAR_TABLE ! unat b"

record fastcdc = abs_chunker +
  normal_chunk_size :: u32
  mask_s :: u32
  mask_l :: u32

definition CalNormalSize :: "u32 \<Rightarrow> u32 \<Rightarrow> u32 \<Rightarrow> u32" where
  "CalNormalSize mn avg mx =
    (let off = mn + DivCeil mn 2;
         off = (if off > avg then avg else off);
         diff = avg - off
     in if diff > mx then mx else diff)"

definition GenerateFastCDCMask :: "u32 \<Rightarrow> u32" where
  "GenerateFastCDCMask bits = push_bit (unat (CompareLimit bits 1 31)) 1 - 1"

text \<open>
  \<open>round(log2(avg))\<close>: the floor of the logarithm, plus one when the square of the argument
  reaches \<open>2 ^ (2 * floor + 1)\<close>; \<open>log2\<close> of an integer is never a half.
\<close>

fun floor_log2 :: "nat \<Rightarrow> nat" where
  "floor_log2 n = (if n < 2 then 0 else Suc (floor_log2 (n div 2)))"

declare floor_log2.simps [simp del]

definition round_log2 :: "nat \<Rightarrow> nat" where
  "round_log2 n = (let k = floor_log2 n in if n * n \<ge> 2 ^ (2 * k + 1) then Suc k else k)"

definition FastCDC :: "abs_chunker \<Rightarrow> fastcdc" where
  "FastCDC a =
    (let bits = of_nat (round_log2 (avg_chunk_size a)) :: u32
     in abs_chunker.extend a
          \<lparr> normal_chunk_size = CalNormalSize (of_nat (min_chunk_size a)) (of_nat (avg_chunk_size a))
                                   (of_nat (max_chunk_size a)),
            mask_s = GenerateFastCDCMask (bits + 1), mask_l = GenerateFastCDCMask (bits - 1) \<rparr>)"

text \<open>
  One of the two loops of \<open>CutPoint\<close>: over the bytes from position \<open>i\<close> up to its bound. The
  left result is a return from inside the loop, the right one the state after it.
\<close>

fun cut_loop :: "u32 \<Rightarrow> bytes \<Rightarrow> u32 \<Rightarrow> nat \<Rightarrow> nat + (u32 \<times> nat)" where
  "cut_loop msk [] fp i = Inr (fp, i)"
| "cut_loop msk (b # bs) fp i =
    (let fp' = drop_bit 1 fp + GEAR b
     in if fp' AND msk = 0 then Inl (i + 1) else cut_loop msk bs fp' (i + 1))"

definition CutPoint :: "fastcdc \<Rightarrow> bytes \<Rightarrow> nat \<Rightarrow> nat" where
  "CutPoint c src len =
    (let i = min len (to_u32 (min_chunk_size c));
         n = min (unat (normal_chunk_size c)) len
     in case cut_loop (mask_s c) (take (n - i) (drop i src)) 0 i of
          Inl r \<Rightarrow> r
        | Inr (fp, i) \<Rightarrow>
            (let n = min (to_u32 (max_chunk_size c)) len
             in case cut_loop (mask_l c) (take (n - i) (drop i src)) fp i of
                  Inl r \<Rightarrow> r
                | Inr (fp, i) \<Rightarrow> i))"

definition FastCDC_GenerateOneChunk :: "fastcdc \<Rightarrow> nat \<times> bytes \<times> fastcdc" where
  "FastCDC_GenerateOneChunk c =
    (if pending_chunking_size c = 0 \<or> remain_chunking_size c = 0 then (0, [], c)
     else take_chunk
       (if remain_chunking_size c \<le> min_chunk_size c then to_u32 (remain_chunking_size c)
        else CutPoint c (drop (cur_offset c) (read_data_buf c))
               (to_u32 (pending_chunking_size c - cur_offset c))) c)"

subsection \<open>The loop of ChunkerFPThd\<close>

text \<open>
  The inner loop takes chunks until one of size 0, the outer loop loads until nothing is
  pending. Neither is known to stop for an arbitrary chunker, hence the option.
\<close>

partial_function (option) chunk_loop ::
  "('a abs_chunker_scheme \<Rightarrow> nat \<times> bytes \<times> 'a abs_chunker_scheme) \<Rightarrow> 'a abs_chunker_scheme
   \<Rightarrow> (bytes list \<times> 'a abs_chunker_scheme) option" where
  "chunk_loop gen c =
    (case gen c of (sz, d, c1) \<Rightarrow>
       if sz = 0 then Some ([], c1)
       else Option.bind (chunk_loop gen c1) (\<lambda>(cs, c2). Some (d # cs, c2)))"

partial_function (option) load_loop ::
  "('a abs_chunker_scheme \<Rightarrow> nat \<times> bytes \<times> 'a abs_chunker_scheme) \<Rightarrow> 'a abs_chunker_scheme \<Rightarrow> bytes
   \<Rightarrow> (bytes list \<times> 'a abs_chunker_scheme) option" where
  "load_loop gen c src =
    (case LoadDataFromFile c src of (pending_size, c1, rest) \<Rightarrow>
       if pending_size = 0 then Some ([], c1)
       else Option.bind (chunk_loop gen c1) (\<lambda>(cs, c2).
              Option.bind (load_loop gen c2 rest) (\<lambda>(ds, c3).
                Some (cs @ ds, c3))))"

definition normal_chunk_msg :: "(bytes \<Rightarrow> bytes) \<Rightarrow> bytes \<Rightarrow> chunk_t" where
  "normal_chunk_msg hash d =
     \<lparr> c_raw = \<lparr> raw_data = d, raw_fp = hash d \<rparr>, c_head = \<lparr> rh_size = 0, rh_chunk_num = 0 \<rparr>,
       c_type = NORMAL_CHUNK \<rparr>"

definition recipe_chunk_msg :: "nat \<Rightarrow> nat \<Rightarrow> chunk_t" where
  "recipe_chunk_msg sz num =
     \<lparr> c_raw = \<lparr> raw_data = [], raw_fp = [] \<rparr>, c_head = \<lparr> rh_size = sz, rh_chunk_num = num \<rparr>,
       c_type = RECIPE_CHUNK \<rparr>"

definition ChunkerFPThd_Run ::
  "(bytes \<Rightarrow> bytes) \<Rightarrow> ('a abs_chunker_scheme \<Rightarrow> nat \<times> bytes \<times> 'a abs_chunker_scheme)
   \<Rightarrow> 'a abs_chunker_scheme \<Rightarrow> bytes \<Rightarrow> chunk_t list option" where
  "ChunkerFPThd_Run hash gen c src =
    map_option (\<lambda>(cs, c1). map (normal_chunk_msg hash) cs @
                  [recipe_chunk_msg (total_file_size c1) (total_chunk_num c1)])
      (load_loop gen c src)"

subsection \<open>The contract of a chunker\<close>

definition buf_ok :: "'a abs_chunker_scheme \<Rightarrow> bool" where
  "buf_ok c \<longleftrightarrow> pending_chunking_size c = length (read_data_buf c) \<and>
     cur_offset c + remain_chunking_size c = length (read_data_buf c)"

definition chunk_sizes_ok :: "nat \<Rightarrow> nat \<Rightarrow> bytes list \<Rightarrow> bool" where
  "chunk_sizes_ok lo hi cs \<longleftrightarrow>
     (\<forall>d \<in> set cs. 0 < length d \<and> length d \<le> hi) \<and> (\<forall>d \<in> set (butlast cs). lo \<le> length d)"

lemma chunk_sizes_ok_Nil [simp]: "chunk_sizes_ok lo hi []"
  by (simp add: chunk_sizes_ok_def)

lemma chunk_sizes_ok_Cons:
  "chunk_sizes_ok lo hi (d # cs) \<longleftrightarrow>
     0 < length d \<and> length d \<le> hi \<and> (cs \<noteq> [] \<longrightarrow> lo \<le> length d) \<and> chunk_sizes_ok lo hi cs"
  by (auto simp: chunk_sizes_ok_def)

lemma take_chunk_size [simp]: "fst (take_chunk n c) = n"
  by (simp add: take_chunk_def)

lemma take_chunk_data [simp]:
  "fst (snd (take_chunk n c)) = take n (drop (cur_offset c) (read_data_buf c))"
  by (simp add: take_chunk_def)

lemma take_chunk_state [simp]:
  "cur_offset (snd (snd (take_chunk n c))) = cur_offset c + n"
  "remain_chunking_size (snd (snd (take_chunk n c))) = remain_chunking_size c - n"
  "read_data_buf (snd (snd (take_chunk n c))) = read_data_buf c"
  "total_chunk_num (snd (snd (take_chunk n c))) = total_chunk_num c + 1"
  "total_file_size (snd (snd (take_chunk n c))) = total_file_size c + n"
  "n \<le> remain_chunking_size c \<Longrightarrow> buf_ok c \<Longrightarrow> buf_ok (snd (snd (take_chunk n c)))"
  by (auto simp: take_chunk_def buf_ok_def)

locale chunker =
  fixes gen :: "'a abs_chunker_scheme \<Rightarrow> nat \<times> bytes \<times> 'a abs_chunker_scheme"
    and cfg_ok :: "'a abs_chunker_scheme \<Rightarrow> bool"
    and lo hi :: nat
  assumes read_size: "cfg_ok c \<Longrightarrow> 0 < read_size c \<and> read_size c < 2 ^ 32"
    and cfg_take: "cfg_ok c \<Longrightarrow> cfg_ok (snd (snd (take_chunk n c)))"
    and cfg_load: "cfg_ok c \<Longrightarrow> cfg_ok (fst (snd (LoadDataFromFile c src)))"
    and gen_done: "remain_chunking_size c = 0 \<Longrightarrow> gen c = (0, [], c)"
    and gen_step: "cfg_ok c \<Longrightarrow> buf_ok c \<Longrightarrow> 0 < remain_chunking_size c \<Longrightarrow>
      \<exists>n. gen c = take_chunk n c \<and> 0 < n \<and> n \<le> remain_chunking_size c \<and> n \<le> hi \<and>
          (lo \<le> n \<or> n = remain_chunking_size c)"
begin

lemma chunk_loop_correct:
  "cfg_ok c \<Longrightarrow> buf_ok c \<Longrightarrow>
   \<exists>cs c'. chunk_loop gen c = Some (cs, c') \<and> cfg_ok c' \<and>
     concat cs = drop (cur_offset c) (read_data_buf c) \<and> chunk_sizes_ok lo hi cs \<and>
     total_chunk_num c' = total_chunk_num c + length cs \<and>
     total_file_size c' = total_file_size c + length (concat cs)"
proof (induction "remain_chunking_size c" arbitrary: c rule: less_induct)
  case less
  show ?case
  proof (cases "remain_chunking_size c = 0")
    case True
    then have "cur_offset c = length (read_data_buf c)" using less.prems by (simp add: buf_ok_def)
    with True less.prems show ?thesis
      by (subst chunk_loop.simps) (simp add: gen_done)
  next
    case False
    then obtain n where g: "gen c = take_chunk n c" and n: "0 < n" "n \<le> remain_chunking_size c"
        "n \<le> hi" "lo \<le> n \<or> n = remain_chunking_size c"
      using gen_step less.prems by blast
    define d c1 where "d = fst (snd (take_chunk n c))" and "c1 = snd (snd (take_chunk n c))"
    have gc: "gen c = (n, d, c1)" by (simp add: g d_def c1_def prod_eq_iff)
    have ok: "cfg_ok c1" "buf_ok c1" using less.prems n by (simp_all add: c1_def cfg_take)
    have "remain_chunking_size c1 < remain_chunking_size c" using n by (simp add: c1_def)
    from less.hyps [OF this ok] obtain cs c2 where IH: "chunk_loop gen c1 = Some (cs, c2)" "cfg_ok c2"
        "concat cs = drop (cur_offset c1) (read_data_buf c1)" "chunk_sizes_ok lo hi cs"
        "total_chunk_num c2 = total_chunk_num c1 + length cs"
        "total_file_size c2 = total_file_size c1 + length (concat cs)"
      by blast
    have ld: "length d = n" using n less.prems by (auto simp: d_def buf_ok_def min_def)
    have "chunk_loop gen c = Some (d # cs, c2)"
      using n gc IH(1) by (subst chunk_loop.simps) simp
    moreover have "concat (d # cs) = drop (cur_offset c) (read_data_buf c)"
      using IH(3) by (simp add: d_def c1_def add.commute flip: drop_drop)
    moreover have "lo \<le> n" if "cs \<noteq> []"
    proof (rule ccontr)
      assume "\<not> lo \<le> n"
      then have "concat cs = []" using n less.prems IH(3) by (simp add: c1_def buf_ok_def)
      then show False using that IH(4) by (cases cs) (auto simp: chunk_sizes_ok_Cons)
    qed
    ultimately have "chunk_sizes_ok lo hi (d # cs)" "chunk_loop gen c = Some (d # cs, c2)"
        "concat (d # cs) = drop (cur_offset c) (read_data_buf c)"
      using IH(4) n ld by (simp_all add: chunk_sizes_ok_Cons)
    moreover have "total_chunk_num c2 = total_chunk_num c + length (d # cs)"
        "total_file_size c2 = total_file_size c + length (concat (d # cs))"
      using IH(5,6) ld by (simp_all add: c1_def del: length_concat)
    ultimately show ?thesis using IH(2) by blast
  qed
qed

lemma load_buf_ok: "buf_ok (fst (snd (LoadDataFromFile c src)))"
  by (simp add: LoadDataFromFile_def buf_ok_def)

lemma load_loop_correct:
  "cfg_ok c \<Longrightarrow>
   \<exists>cs c'. load_loop gen c src = Some (cs, c') \<and> concat cs = src \<and>
     (\<forall>d \<in> set cs. 0 < length d \<and> length d \<le> hi) \<and>
     (length src \<le> read_size c \<longrightarrow> chunk_sizes_ok lo hi cs) \<and>
     total_chunk_num c' = total_chunk_num c + length cs \<and>
     total_file_size c' = total_file_size c + length src"
proof (induction "length src" arbitrary: src c rule: less_induct)
  case less
  define c1 where "c1 = fst (snd (LoadDataFromFile c src))"
  have rs: "0 < read_size c" "read_size c < 2 ^ 32" using read_size less.prems by auto
  then have sz: "length (take (read_size c) src) < 2 ^ 32" by simp
  then have L: "LoadDataFromFile c src = (length (take (read_size c) src), c1, drop (read_size c) src)"
    by (simp add: LoadDataFromFile_def c1_def Let_def del: length_take)
  have tot: "total_chunk_num c1 = total_chunk_num c" "total_file_size c1 = total_file_size c"
    by (simp_all add: c1_def LoadDataFromFile_def)
  show ?case
  proof (cases "src = []")
    case True
    then show ?thesis using L tot by (subst load_loop.simps) auto
  next
    case False
    have ok: "cfg_ok c1" "buf_ok c1" using less.prems by (simp_all add: c1_def cfg_load load_buf_ok)
    from chunk_loop_correct [OF ok] obtain cs c2 where I: "chunk_loop gen c1 = Some (cs, c2)"
        "cfg_ok c2" "concat cs = drop (cur_offset c1) (read_data_buf c1)" "chunk_sizes_ok lo hi cs"
        "total_chunk_num c2 = total_chunk_num c1 + length cs"
        "total_file_size c2 = total_file_size c1 + length (concat cs)"
      by blast
    have cc: "concat cs = take (read_size c) src"
      using I(3) by (simp add: c1_def LoadDataFromFile_def)
    have "length (drop (read_size c) src) < length src" using rs False by simp
    from less.hyps [OF this I(2)] obtain ds c3 where O: "load_loop gen c2 (drop (read_size c) src) = Some (ds, c3)"
        "concat ds = drop (read_size c) src" "\<forall>d \<in> set ds. 0 < length d \<and> length d \<le> hi"
        "total_chunk_num c3 = total_chunk_num c2 + length ds"
        "total_file_size c3 = total_file_size c2 + length (drop (read_size c) src)"
      by blast
    have "load_loop gen c src = Some (cs @ ds, c3)"
      using L False rs I(1) O(1) by (subst load_loop.simps) (simp add: min_def)
    moreover have "ds = []" if "length src \<le> read_size c"
      using that O(2,3) by (cases ds) auto
    moreover have "total_file_size c3 = total_file_size c + length src"
      using I(6) O(5) cc tot by simp
    moreover have "concat (cs @ ds) = src" using cc O(2) by simp
    moreover have "\<forall>d \<in> set (cs @ ds). 0 < length d \<and> length d \<le> hi"
      using I(4) O(3) by (auto simp: chunk_sizes_ok_def)
    moreover have "total_chunk_num c3 = total_chunk_num c + length (cs @ ds)"
      using I(5) O(4) tot by simp
    ultimately show ?thesis using I(4) by (metis append_Nil2)
  qed
qed

lemma Run_correct:
  assumes "cfg_ok c" "total_chunk_num c = 0" "total_file_size c = 0"
  shows "\<exists>cs. ChunkerFPThd_Run hash gen c src =
      Some (map (normal_chunk_msg hash) cs @ [recipe_chunk_msg (length src) (length cs)]) \<and>
    concat cs = src \<and> (\<forall>d \<in> set cs. 0 < length d \<and> length d \<le> hi) \<and>
    (length src \<le> read_size c \<longrightarrow> chunk_sizes_ok lo hi cs)"
  using load_loop_correct [OF assms(1), of src] assms(2,3)
  by (auto simp: ChunkerFPThd_Run_def)

end

subsection \<open>Both chunkers meet the contract\<close>

definition fix_cfg_ok :: "nat \<Rightarrow> 'a abs_chunker_scheme \<Rightarrow> bool" where
  "fix_cfg_ok avg c \<longleftrightarrow> 0 < read_size c \<and> read_size c < 2 ^ 32 \<and>
     avg_chunk_size c = avg \<and> 0 < avg \<and> avg < 2 ^ 32"

interpretation fixc: chunker Fix_GenerateOneChunk "fix_cfg_ok avg" avg avg for avg
proof (unfold_locales, goal_cases)
  case (5 c)
  have "remain_chunking_size c \<le> pending_chunking_size c" using 5 by (simp add: buf_ok_def)
  moreover have "to_u32 (remain_chunking_size c) = remain_chunking_size c"
    if "remain_chunking_size c < avg" using that 5 by (simp add: fix_cfg_ok_def)
  ultimately show ?case
    using 5 by (intro exI [of _ "if avg \<le> remain_chunking_size c then avg else remain_chunking_size c"])
      (auto simp: Fix_GenerateOneChunk_def fix_cfg_ok_def)
qed (auto simp: fix_cfg_ok_def take_chunk_def LoadDataFromFile_def Fix_GenerateOneChunk_def Let_def)

text \<open>Each loop of \<open>CutPoint\<close> returns a cut inside the bytes it scans, or runs to their end.\<close>

lemma cut_loop_Inl: "cut_loop msk bs fp i = Inl r \<Longrightarrow> i < r \<and> r \<le> i + length bs"
  by (induction msk bs fp i rule: cut_loop.induct) (force simp: Let_def split: if_splits)+

lemma cut_loop_Inr: "cut_loop msk bs fp i = Inr (fp', j) \<Longrightarrow> j = i + length bs"
  by (induction msk bs fp i rule: cut_loop.induct) (auto simp: Let_def split: if_splits)

lemma CutPoint_bounds:
  assumes "min_chunk_size c \<le> max_chunk_size c" "max_chunk_size c < 2 ^ 32"
    and "unat (normal_chunk_size c) \<le> max_chunk_size c"
    and "min_chunk_size c < len" "len \<le> length src"
  shows "min_chunk_size c \<le> CutPoint c src len" "CutPoint c src len \<le> max_chunk_size c"
    "CutPoint c src len \<le> len"
proof -
  define i where "i = min_chunk_size c"
  define n where "n = min (unat (normal_chunk_size c)) len"
  define m where "m = min (max_chunk_size c) len"
  have small: "to_u32 (min_chunk_size c) = min_chunk_size c" "to_u32 (max_chunk_size c) = max_chunk_size c"
    using assms by simp_all
  have i: "min len (to_u32 (min_chunk_size c)) = i" "min len (min_chunk_size c) = i"
    using assms small by (simp_all add: i_def)
  have nm: "n \<le> m" "i \<le> m" "m \<le> length src" using assms by (auto simp: n_def m_def i_def)
  let ?C = "CutPoint c src len"
  have "i \<le> ?C \<and> ?C \<le> m"
  proof (cases "cut_loop (mask_s c) (take (n - i) (drop i src)) 0 i")
    case (Inl r)
    then have "?C = r" by (simp add: CutPoint_def i n_def [symmetric] Let_def)
    moreover have "i < r \<and> r \<le> i + (n - i)" using cut_loop_Inl [OF Inl] by (simp add: min_def split: if_splits)
    ultimately show ?thesis using nm by linarith
  next
    case (Inr q)
    obtain fp j where q: "q = (fp, j)" by (cases q)
    then have j: "j = i + length (take (n - i) (drop i src))" using cut_loop_Inr Inr by blast
    then have "i \<le> j" "j \<le> i + (n - i)" by simp_all
    with nm have ij: "i \<le> j" "j \<le> m" by linarith+
    show ?thesis
    proof (cases "cut_loop (mask_l c) (take (m - j) (drop j src)) fp j")
      case Inl2: (Inl r)
      then have "?C = r"
        using Inr by (simp add: CutPoint_def i n_def [symmetric] q small m_def [symmetric] Let_def)
      moreover have "j < r \<and> r \<le> j + (m - j)" using cut_loop_Inl [OF Inl2] by (simp add: min_def split: if_splits)
      ultimately show ?thesis using ij by linarith
    next
      case Inr2: (Inr q2)
      obtain fp2 k where q2: "q2 = (fp2, k)" by (cases q2)
      then have "?C = k"
        using Inr Inr2 by (simp add: CutPoint_def i n_def [symmetric] q small m_def [symmetric] Let_def)
      moreover have "k = j + length (take (m - j) (drop j src))" using cut_loop_Inr Inr2 q2 by blast
      ultimately show ?thesis using ij nm by simp
    qed
  qed
  then show "min_chunk_size c \<le> ?C" "?C \<le> max_chunk_size c" "?C \<le> len"
    by (simp_all add: i_def m_def)
qed

definition fastcdc_cfg_ok :: "nat \<Rightarrow> nat \<Rightarrow> fastcdc \<Rightarrow> bool" where
  "fastcdc_cfg_ok mn mx c \<longleftrightarrow> 0 < read_size c \<and> read_size c < 2 ^ 32 \<and>
     min_chunk_size c = mn \<and> max_chunk_size c = mx \<and> 0 < mn \<and> mn \<le> mx \<and> mx < 2 ^ 32 \<and>
     unat (normal_chunk_size c) \<le> mx \<and> pending_chunking_size c < 2 ^ 32"

lemma fastcdc_step:
  assumes cfg: "fastcdc_cfg_ok mn mx c" and buf: "buf_ok c" and rem: "0 < remain_chunking_size c"
  shows "\<exists>n. FastCDC_GenerateOneChunk c = take_chunk n c \<and> 0 < n \<and> n \<le> remain_chunking_size c \<and>
    n \<le> mx \<and> (mn \<le> n \<or> n = remain_chunking_size c)"
proof (cases "remain_chunking_size c \<le> min_chunk_size c")
  case True
  then show ?thesis using assms
    by (intro exI [of _ "remain_chunking_size c"])
      (auto simp: FastCDC_GenerateOneChunk_def fastcdc_cfg_ok_def buf_ok_def)
next
  case False
  let ?src = "drop (cur_offset c) (read_data_buf c)"
  have p: "pending_chunking_size c = cur_offset c + remain_chunking_size c"
    using buf by (simp add: buf_ok_def)
  then have "pending_chunking_size c - cur_offset c = remain_chunking_size c" by simp
  moreover from p have "remain_chunking_size c < 2 ^ 32" using cfg by (simp add: fastcdc_cfg_ok_def)
  ultimately
  have len: "to_u32 (pending_chunking_size c - cur_offset c) = remain_chunking_size c" by simp
  have ls: "length ?src = remain_chunking_size c" using buf by (auto simp: buf_ok_def)
  note b = CutPoint_bounds [of c "remain_chunking_size c" ?src]
  have "FastCDC_GenerateOneChunk c = take_chunk (CutPoint c ?src (remain_chunking_size c)) c"
  proof -
    have "pending_chunking_size c \<noteq> 0" using p rem by simp
    then show ?thesis using False rem by (simp add: FastCDC_GenerateOneChunk_def len)
  qed
  then show ?thesis
    using b False cfg ls by (intro exI [of _ "CutPoint c ?src (remain_chunking_size c)"])
      (auto simp: fastcdc_cfg_ok_def)
qed

interpretation cdc: chunker FastCDC_GenerateOneChunk "fastcdc_cfg_ok mn mx" mn mx for mn mx
proof (unfold_locales, goal_cases)
  case (5 c)
  then show ?case by (rule fastcdc_step)
qed (auto simp: fastcdc_cfg_ok_def take_chunk_def LoadDataFromFile_def FastCDC_GenerateOneChunk_def Let_def)

lemma CalNormalSize_le: "CalNormalSize mn avg mx \<le> mx"
  by (auto simp: CalNormalSize_def Let_def not_less)

lemma FastCDC_cfg_ok:
  assumes "0 < rd" "rd * 2 ^ 20 < 2 ^ 32" "0 < mn" "mn \<le> mx" "mx < 2 ^ 32"
  shows "fastcdc_cfg_ok mn mx (FastCDC (AbsChunker avg mn mx rd))"
proof -
  have "unat (CalNormalSize (of_nat mn) (of_nat avg) (of_nat mx)) \<le> unat (of_nat mx :: u32)"
    by (simp add: CalNormalSize_le flip: word_le_nat_alt)
  also have "\<dots> = mx" using assms by (simp add: unat_of_nat)
  finally show ?thesis
    using assms by (simp add: fastcdc_cfg_ok_def FastCDC_def AbsChunker_def Let_def abs_chunker.defs)
qed



text \<open>
  Fixed-size chunking cuts a file of at most one read into chunks of exactly the average
  size, except that the last one may be shorter; their concatenation is the file, and the recipe
  head carries its size and chunk count.
\<close>

theorem FixChunker_partitions_file:
  assumes "0 < rd" "rd * 2 ^ 20 < 2 ^ 32" "0 < avg" "avg < 2 ^ 32"
  shows "\<exists>cs. ChunkerFPThd_Run hash Fix_GenerateOneChunk (AbsChunker avg mn mx rd) src =
      Some (map (normal_chunk_msg hash) cs @ [recipe_chunk_msg (length src) (length cs)]) \<and>
    concat cs = src \<and> (\<forall>d \<in> set cs. 0 < length d \<and> length d \<le> avg) \<and>
    (length src \<le> rd * 2 ^ 20 \<longrightarrow> (\<forall>d \<in> set (butlast cs). length d = avg))"
proof -
  let ?c = "AbsChunker avg mn mx rd"
  have c: "fix_cfg_ok avg ?c" "total_chunk_num ?c = 0" "total_file_size ?c = 0" "read_size ?c = rd * 2 ^ 20"
    using assms by (simp_all add: fix_cfg_ok_def AbsChunker_def)
  from fixc.Run_correct [OF c(1-3), where hash = hash and src = src] obtain cs where
    "ChunkerFPThd_Run hash Fix_GenerateOneChunk ?c src =
      Some (map (normal_chunk_msg hash) cs @ [recipe_chunk_msg (length src) (length cs)])"
    "concat cs = src" "\<forall>d \<in> set cs. 0 < length d \<and> length d \<le> avg"
    "length src \<le> read_size ?c \<longrightarrow> chunk_sizes_ok avg avg cs" by blast
  moreover from this(3,4) have "length d = avg" if "length src \<le> rd * 2 ^ 20" "d \<in> set (butlast cs)" for d
    using that c(4) in_set_butlastD [of d cs] by (fastforce simp: chunk_sizes_ok_def intro: le_antisym)
  ultimately show ?thesis by blast
qed

theorem FixChunker_partitions_file_witness:
  "\<exists>cs. ChunkerFPThd_Run (\<lambda>d. d) Fix_GenerateOneChunk (AbsChunker 2 1 4 1) [7, 8, 9] =
      Some (map (normal_chunk_msg (\<lambda>d. d)) cs @ [recipe_chunk_msg (length [7, 8, 9 :: byte]) (length cs)]) \<and>
    concat cs = [7, 8, 9] \<and> (\<forall>d \<in> set cs. 0 < length d \<and> length d \<le> 2) \<and>
    (\<forall>d \<in> set (butlast cs). length d = 2)"
  using FixChunker_partitions_file [of 1 2 "\<lambda>d. d" 1 4 "[7, 8, 9]"] by simp

end
