(* ===== verification/Kv_Store.thy ===== *)
theory Kv_Store
  imports Data_Types
begin

text \<open>
  Key-value stores. The locale \<open>kv_store\<close> is the contract of \<open>AbsDatabase\<close>
  (\<open>include/database/abs_db.h\<close>) that the deduplication and similarity code relies on; the
  in-memory database of \<open>src/database/in_mem_db.cc\<close> meets it. The database file that its
  destructor writes and its constructor loads is modelled byte by byte, with the semantics of
  \<open>std::istream::read\<close> at the end of a file.
\<close>

subsection \<open>The interface\<close>

locale kv_store =
  fixes query :: "'s \<Rightarrow> 'k \<Rightarrow> 'v option"
    and insert :: "'s \<Rightarrow> 'k \<Rightarrow> 'v \<Rightarrow> 's"
    and delete :: "'s \<Rightarrow> 'k \<Rightarrow> 's"
    and ok :: "'s \<Rightarrow> bool"
  assumes query_insert: "ok s \<Longrightarrow> query (insert s k v) = (query s)(k \<mapsto> v)"
    and query_delete: "ok s \<Longrightarrow> query (delete s k) = (query s)(k := None)"
    and ok_insert: "ok s \<Longrightarrow> ok (insert s k v)"
    and ok_delete: "ok s \<Longrightarrow> ok (delete s k)"
begin

definition insert_all :: "'s \<Rightarrow> 'k list \<Rightarrow> 'v \<Rightarrow> 's" where
  "insert_all s ks v = fold (\<lambda>k s. insert s k v) ks s"

lemma insert_all_ok: "ok s \<Longrightarrow> ok (insert_all s ks v)"
  by (induction ks arbitrary: s) (auto simp: insert_all_def ok_insert)

lemma query_insert_all:
  "ok s \<Longrightarrow> query (insert_all s ks v) k = (if k \<in> set ks then Some v else query s k)"
proof (induction ks arbitrary: s)
  case Nil
  then show ?case by (simp add: insert_all_def)
next
  case (Cons a ks)
  have "query (insert_all s (a # ks) v) k = query (insert_all (insert s a v) ks v) k"
    by (simp add: insert_all_def)
  also have "\<dots> = (if k \<in> set ks then Some v else query (insert s a v) k)"
    using Cons ok_insert by blast
  finally show ?case using Cons.prems by (simp add: query_insert)
qed

lemma insert_all_extends:
  assumes "ok s" "\<And>k. k \<in> set ks \<Longrightarrow> query s k = None"
  shows "query s \<subseteq>\<^sub>m query (insert_all s ks v)"
  using assms by (auto simp: map_le_def query_insert_all dom_def)

end

subsection \<open>The in-memory database\<close>

record ('k, 'v) in_memory_db =
  index_obj :: "('k, 'v) umap"

definition InMem_Query :: "('k, 'v) in_memory_db \<Rightarrow> 'k \<Rightarrow> 'v option" where
  \<comment> \<open>the returned flag and the value it guards, as an option\<close>
  "InMem_Query db key = map_of (index_obj db) key"

definition InMem_Insert :: "('k, 'v) in_memory_db \<Rightarrow> 'k \<Rightarrow> 'v \<Rightarrow> ('k, 'v) in_memory_db" where
  "InMem_Insert db key v = db \<lparr> index_obj := AList.update key v (index_obj db) \<rparr>"

definition InMem_InsertBuffer ::
  "(bytes, bytes) in_memory_db \<Rightarrow> bytes \<Rightarrow> bytes \<Rightarrow> nat \<Rightarrow> (bytes, bytes) in_memory_db" where
  "InMem_InsertBuffer db key buf buf_size =
     db \<lparr> index_obj := AList.update key (take buf_size buf) (index_obj db) \<rparr>"

definition InMem_InsertBothBuffer ::
  "(bytes, bytes) in_memory_db \<Rightarrow> bytes \<Rightarrow> nat \<Rightarrow> bytes \<Rightarrow> nat \<Rightarrow> (bytes, bytes) in_memory_db" where
  "InMem_InsertBothBuffer db key key_size buf buf_size =
     db \<lparr> index_obj := AList.update (take key_size key) (take buf_size buf) (index_obj db) \<rparr>"

definition InMem_QueryBuffer :: "(bytes, bytes) in_memory_db \<Rightarrow> bytes \<Rightarrow> nat \<Rightarrow> bytes option" where
  "InMem_QueryBuffer db key key_size = map_of (index_obj db) (take key_size key)"

definition InMem_DeleteBuffer ::
  "(bytes, bytes) in_memory_db \<Rightarrow> bytes \<Rightarrow> nat \<Rightarrow> (bytes, bytes) in_memory_db" where
  "InMem_DeleteBuffer db key key_size =
     db \<lparr> index_obj := AList.delete (take key_size key) (index_obj db) \<rparr>"

definition InMem_Delete :: "('k, 'v) in_memory_db \<Rightarrow> 'k \<Rightarrow> ('k, 'v) in_memory_db" where
  "InMem_Delete db key = db \<lparr> index_obj := AList.delete key (index_obj db) \<rparr>"

definition db_ok :: "('k, 'v) in_memory_db \<Rightarrow> bool" where
  "db_ok db \<longleftrightarrow> umap_ok (index_obj db)"

interpretation inmem: kv_store InMem_Query InMem_Insert InMem_Delete db_ok
  by unfold_locales (auto simp: InMem_Query_def InMem_Insert_def InMem_Delete_def db_ok_def fun_eq_iff)

text \<open>The bare hash map, as \<open>SimilarPolicy\<close> and \<open>InformCache\<close> use it, meets it too.\<close>

interpretation umap: kv_store map_of "\<lambda>m k v. AList.update k v m" "\<lambda>m k. AList.delete k m"
    "\<lambda>m :: ('k, 'v) umap. umap_ok m"
  by unfold_locales (auto simp: fun_eq_iff)

subsection \<open>The database file\<close>

text \<open>
  \<open>istream::read(p, n)\<close> on a stream \<open>(rest, failed)\<close>: the bytes that are stored and the
  stream afterwards. A short read stores what there is and sets the end-of-file and fail bits;
  a read on a failed stream stores nothing.
\<close>

type_synonym istream = "bytes \<times> bool"

definition istream_read :: "nat \<Rightarrow> istream \<Rightarrow> bytes \<times> istream" where
  "istream_read n st =
    (case st of (rest, failed) \<Rightarrow>
       if failed then ([], st)
       else if n \<le> length rest then (take n rest, (drop n rest, False))
       else (rest, ([], True)))"

definition overlay :: "bytes \<Rightarrow> bytes \<Rightarrow> bytes" where
  \<comment> \<open>the buffer \<open>old\<close> after \<open>got\<close> has been stored at its start\<close>
  "overlay got old = got @ drop (length got) old"

definition read_field :: "nat \<Rightarrow> istream \<Rightarrow> bytes \<Rightarrow> bytes \<times> istream" where
  \<comment> \<open>\<open>read\<close> into a variable of \<open>n\<close> bytes that held \<open>old\<close>\<close>
  "read_field n st old = (case istream_read n st of (got, st') \<Rightarrow> (overlay got old, st'))"

definition str_resize :: "nat \<Rightarrow> bytes \<Rightarrow> bytes" where
  "str_resize n old = take n old @ replicate (n - length old) 0"

text \<open>
  The loop of \<open>OpenDB\<close>: \<open>key\<close> and \<open>val\<close> are the strings declared before it, which keep
  their contents between iterations. The end-of-file flag of the stream ends the loop.
\<close>

function db_load :: "istream \<Rightarrow> bytes \<Rightarrow> bytes \<Rightarrow> (bytes, bytes) umap \<Rightarrow> (bytes, bytes) umap" where
  "db_load st key val idx =
    (let (b1, st1) = istream_read 4 st;
         item_size = le_nat (overlay b1 (nat_le 4 0))
     in if item_size = 0 then idx
        else let (b2, st2) = istream_read item_size st1;
                 key = overlay b2 (str_resize item_size key);
                 (b3, st3) = istream_read 4 st2;
                 item_size = le_nat (overlay b3 (nat_le 4 item_size));
                 (b4, st4) = istream_read item_size st3;
                 val = overlay b4 (str_resize item_size val);
                 idx = AList.update key val idx
             in if snd st4 then idx else db_load st4 key val idx)"
  by pat_completeness auto
termination
proof (relation "measure (\<lambda>(st, _, _, _). length (fst st))", goal_cases)
  case 2
  then show ?case
    by (auto simp: istream_read_def split: prod.splits if_splits)
qed simp

declare db_load.simps [simp del]

definition InMem_OpenDB :: "bytes option \<Rightarrow> (bytes, bytes) in_memory_db" where
  \<comment> \<open>a file that cannot be opened has size 0 in the code: \<open>tellg\<close> fails on both calls\<close>
  "InMem_OpenDB f =
    (case f of
       None \<Rightarrow> \<lparr> index_obj = [] \<rparr>
     | Some content \<Rightarrow>
         if length content = 0 then \<lparr> index_obj = [] \<rparr>
         else \<lparr> index_obj = db_load (content, False) [] [] [] \<rparr>)"

definition db_entry :: "bytes \<times> bytes \<Rightarrow> bytes" where
  "db_entry kv = u32_le (of_nat (length (fst kv))) @ fst kv @
                 u32_le (of_nat (length (snd kv))) @ snd kv"

definition InMem_Close :: "(bytes, bytes) in_memory_db \<Rightarrow> bytes" where
  \<comment> \<open>the file the destructor writes\<close>
  "InMem_Close db = concat (map db_entry (index_obj db))"

lemma istream_read_exact [simp]:
  "length a = n \<Longrightarrow> istream_read n (a @ b, False) = (a, (b, False))"
  by (simp add: istream_read_def)

lemma istream_read_all [simp]:
  "length a = n \<Longrightarrow> istream_read n (a, False) = (a, ([], False))"
  using istream_read_exact [of a n "[]"] by simp

lemma overlay_full [simp]: "length old = length got \<Longrightarrow> overlay got old = got"
  by (simp add: overlay_def)

lemma read_field_exact [simp]:
  "length a = n \<Longrightarrow> length old = n \<Longrightarrow> read_field n (a @ b, False) old = (a, (b, False))"
  by (simp add: read_field_def)

lemma read_field_all [simp]:
  "length a = n \<Longrightarrow> length old = n \<Longrightarrow> read_field n (a, False) old = (a, ([], False))"
  by (simp add: read_field_def)

lemma length_str_resize [simp]: "length (str_resize n old) = n"
  by (simp add: str_resize_def)

lemma le_nat_u32_le: "n < 2 ^ 32 \<Longrightarrow> le_nat (u32_le (of_nat n)) = n"
  by (simp add: u32_le_def le_nat_nat_le unat_of_nat)

lemma le_nat_nat_le_0 [simp]: "le_nat (nat_le n 0) = 0"
  by (induction n) simp_all

lemma db_load_Nil: "db_load ([], False) key val idx = idx"
  by (subst db_load.simps) (simp add: istream_read_def overlay_def)

lemma length_db_entry: "length (db_entry kv) = 8 + length (fst kv) + length (snd kv)"
  by (simp add: db_entry_def)

lemma db_load_entry:
  assumes "fst kv \<noteq> []" "length (fst kv) < 2 ^ 32" "length (snd kv) < 2 ^ 32"
  shows "db_load (db_entry kv @ rest, False) key val idx =
         db_load (rest, False) (fst kv) (snd kv) (AList.update (fst kv) (snd kv) idx)"
  using assms by (subst db_load.simps) (simp add: db_entry_def le_nat_u32_le Let_def)

definition db_keys_ok :: "(bytes, bytes) umap \<Rightarrow> bool" where
  "db_keys_ok m \<longleftrightarrow> umap_ok m \<and> (\<forall>(k, v) \<in> set m. k \<noteq> [] \<and> length k < 2 ^ 32 \<and> length v < 2 ^ 32)"

lemma db_load_entries:
  "(\<forall>(k, v) \<in> set m. k \<noteq> [] \<and> length k < 2 ^ 32 \<and> length v < 2 ^ 32) \<Longrightarrow>
   db_load (concat (map db_entry m), False) key val idx = umap_inserts idx m"
proof (induction m arbitrary: key val idx)
  case Nil
  then show ?case by (simp add: db_load_Nil)
next
  case (Cons kv m)
  then show ?case by (cases kv) (simp add: db_load_entry)
qed

lemma InMem_reopen:
  assumes "db_keys_ok (index_obj db)"
  shows "InMem_OpenDB (Some (InMem_Close db)) = db"
proof (cases "index_obj db = []")
  case True
  then show ?thesis by (cases db) (simp add: InMem_OpenDB_def InMem_Close_def)
next
  case False
  then obtain kv m where m: "index_obj db = kv # m" by (cases "index_obj db") auto
  have "length (InMem_Close db) \<noteq> 0" using length_db_entry [of kv] by (simp add: InMem_Close_def m)
  moreover have "db_load (InMem_Close db, False) [] [] [] = umap_inserts [] (index_obj db)"
    using assms unfolding InMem_Close_def db_keys_ok_def by (intro db_load_entries) blast
  moreover have "umap_inserts [] (index_obj db) = index_obj db"
    using assms by (subst umap_inserts_fresh) (auto simp: db_keys_ok_def)
  ultimately show ?thesis by (simp add: InMem_OpenDB_def)
qed

text \<open>
  C35. Persistence of the in-memory index: what the destructor writes, the constructor loads
  back, entry by entry, for every index whose keys are non-empty and whose keys and values are
  shorter than 4 GiB.
\<close>

theorem InMem_persist_roundtrip:
  assumes "db_keys_ok (index_obj db)"
  shows "InMem_OpenDB (Some (InMem_Close db)) = db"
  using assms by (rule InMem_reopen)

theorem InMem_persist_roundtrip_witness:
  "InMem_OpenDB (Some (InMem_Close \<lparr> index_obj = [([1, 2], [3]), ([4], [])] \<rparr>)) =
     \<lparr> index_obj = [([1, 2], [3]), ([4], [])] \<rparr>"
  using InMem_persist_roundtrip [of "\<lparr> index_obj = [([1, 2], [3]), ([4], [])] \<rparr>"]
  by (simp add: db_keys_ok_def)

text \<open>
  The loader takes a zero key length for the end of the file: an index that holds the empty
  key loses that entry and every entry written after it.
\<close>

theorem InMem_empty_key_truncates:
  assumes "db_keys_ok m1"
  shows "InMem_OpenDB (Some (InMem_Close \<lparr> index_obj = m1 @ ([], v) # m2 \<rparr>)) = \<lparr> index_obj = m1 \<rparr>"
proof -
  have step: "db_load (db_entry ([], v) @ rest, False) key val idx = idx" for rest key val idx
    by (subst db_load.simps) (simp add: db_entry_def le_nat_u32_le u32_le_def)
  have load: "db_load (concat (map db_entry m) @ db_entry ([], v) @ rest, False) key val idx = umap_inserts idx m"
    if "\<forall>(k, v) \<in> set m. k \<noteq> [] \<and> length k < 2 ^ 32 \<and> length v < 2 ^ 32" for m rest key val idx
    using that
  proof (induction m arbitrary: key val idx)
    case Nil
    then show ?case by (simp add: step)
  next
    case (Cons kv m)
    then show ?case by (cases kv) (simp add: db_load_entry)
  qed
  have "umap_inserts [] m1 = m1"
    using assms by (subst umap_inserts_fresh) (auto simp: db_keys_ok_def)
  moreover have "length (InMem_Close \<lparr> index_obj = m1 @ ([], v) # m2 \<rparr>) \<noteq> 0"
    by (simp add: InMem_Close_def length_db_entry flip: length_greater_0_conv)
  moreover have "db_load (InMem_Close \<lparr> index_obj = m1 @ ([], v) # m2 \<rparr>, False) [] [] [] = umap_inserts [] m1"
    using assms load [of m1 "concat (map db_entry m2)" "[]" "[]" "[]"]
    by (simp add: InMem_Close_def db_keys_ok_def)
  ultimately show ?thesis by (simp add: InMem_OpenDB_def)
qed

theorem InMem_empty_key_truncates_witness:
  "InMem_OpenDB (Some (InMem_Close \<lparr> index_obj = [([9], [8])] @ ([], [7]) # [([6], [5])] \<rparr>)) =
     \<lparr> index_obj = [([9], [8])] \<rparr>"
  by (rule InMem_empty_key_truncates) (simp add: db_keys_ok_def)

end
