(* ===== verification/Similar_Policy.thy ===== *)
theory Similar_Policy
  imports Kv_Store
begin

text \<open>
  Resemblance detection and deduplication: \<open>src/reduction/similar_policy.cc\<close> and
  \<open>src/reduction/dedup_detect.cc\<close>. The two overloads of \<open>FindBaseChunk\<close> and
  \<open>UpdateFeatureIndex\<close> run the same code on an \<open>AbsDatabase\<close> and on an \<open>unordered_map\<close>;
  the definitions take the lookup or the insertion as an argument.

  The order in which \<open>feature_freq_map\<close> is iterated, and the order \<open>std::sort\<close> leaves equal
  frequencies in, are not specified. \<open>iter\<close> stands for the iteration order, an arbitrary
  permutation; stable sorting of an arbitrary permutation reaches every admissible result.
\<close>

subsection \<open>Finding the base chunk\<close>

definition freq_step ::
  "('f \<Rightarrow> bytes option) \<Rightarrow> 'f \<Rightarrow> (bytes, nat) umap \<times> bytes option \<Rightarrow> (bytes, nat) umap \<times> bytes option" where
  "freq_step query f st =
    (case st of (freq, first) \<Rightarrow>
      (case query f of
         None \<Rightarrow> st
       | Some base \<Rightarrow>
           (case map_of freq base of
              Some n \<Rightarrow> AList.update base (n + 1) freq
            | None \<Rightarrow> AList.update base 1 freq,
            case first of None \<Rightarrow> Some base | Some b \<Rightarrow> Some b)))"

definition count_freq :: "('f \<Rightarrow> bytes option) \<Rightarrow> 'f list \<Rightarrow> (bytes, nat) umap \<times> bytes option" where
  "count_freq query fs = fold (freq_step query) fs ([], None)"

definition freq_order :: "(bytes \<times> nat) list \<Rightarrow> (bytes \<times> nat) list" where
  \<comment> \<open>\<open>sort\<close> with \<open>CmpPair\<close>: the most frequent base first\<close>
  "freq_order = sort_key (\<lambda>p. - int (snd p))"

definition FindBaseChunk ::
  "((bytes, nat) umap \<Rightarrow> (bytes, nat) umap) \<Rightarrow> (u64 \<Rightarrow> bytes option) \<Rightarrow> chunk_info \<Rightarrow> chunk_info" where
  "FindBaseChunk iter query ci =
    (case count_freq query (take SUPER_FEATURE_PER_CHUNK (ci_features ci)) of
       (freq, None) \<Rightarrow> ci \<lparr> ci_stat := NON_SIMILAR_CHUNK \<rparr>
     | (freq, Some first) \<Rightarrow>
         (let top = hd (freq_order (iter freq));
              base = (if snd top = 1 then first else fst top)
          in ci \<lparr> ci_addr := (ci_addr ci) \<lparr> a_base_fp := take CHUNK_HASH_SIZE base \<rparr>,
                  ci_stat := SIMILAR_CHUNK \<rparr>))"

definition UpdateFeatureIndex :: "('s \<Rightarrow> u64 \<Rightarrow> bytes \<Rightarrow> 's) \<Rightarrow> 's \<Rightarrow> u64 list \<Rightarrow> bytes \<Rightarrow> 's" where
  "UpdateFeatureIndex ins db fs base =
     fold (\<lambda>f db. ins db f base) (take SUPER_FEATURE_PER_CHUNK fs) db"

text \<open>The overloads on an \<open>AbsDatabase\<close>: the key is the eight bytes of the feature.\<close>

definition FindBaseChunk_db ::
  "((bytes, nat) umap \<Rightarrow> (bytes, nat) umap) \<Rightarrow> (bytes, bytes) in_memory_db \<Rightarrow> chunk_info \<Rightarrow> chunk_info" where
  "FindBaseChunk_db iter db = FindBaseChunk iter (\<lambda>f. InMem_QueryBuffer db (u64_le f) 8)"

definition UpdateFeatureIndex_db ::
  "(bytes, bytes) in_memory_db \<Rightarrow> u64 list \<Rightarrow> bytes \<Rightarrow> (bytes, bytes) in_memory_db" where
  "UpdateFeatureIndex_db =
     UpdateFeatureIndex (\<lambda>db f b. InMem_InsertBothBuffer db (u64_le f) 8 b CHUNK_HASH_SIZE)"

lemma u64_le_inject [simp]: "u64_le f = u64_le g \<longleftrightarrow> f = g"
  by (metis le_u64_u64_le)

interpretation feature_db: kv_store
    "\<lambda>db f. InMem_QueryBuffer db (u64_le f) 8"
    "\<lambda>db f b. InMem_InsertBothBuffer db (u64_le f) 8 b (length b)"
    "\<lambda>db f. InMem_DeleteBuffer db (u64_le f) 8" db_ok
  by unfold_locales
    (auto simp: InMem_QueryBuffer_def InMem_InsertBothBuffer_def InMem_DeleteBuffer_def db_ok_def fun_eq_iff)

lemma UpdateFeatureIndex_umap:
  "UpdateFeatureIndex (\<lambda>m f b. AList.update f b m) m fs b =
     umap.insert_all m (take SUPER_FEATURE_PER_CHUNK fs) b"
  by (simp add: UpdateFeatureIndex_def umap.insert_all_def)

lemma UpdateFeatureIndex_db_insert_all:
  "length b = CHUNK_HASH_SIZE \<Longrightarrow>
   UpdateFeatureIndex_db db fs b = feature_db.insert_all db (take SUPER_FEATURE_PER_CHUNK fs) b"
  by (simp add: UpdateFeatureIndex_db_def UpdateFeatureIndex_def feature_db.insert_all_def)

subsection \<open>Deduplication\<close>

definition DetectDuplicate ::
  "chunk_info \<Rightarrow> (bytes, key_for_chunk) umap \<Rightarrow> chunk_info \<times> (bytes, key_for_chunk) umap" where
  "DetectDuplicate ci fp_2_addr =
    (case map_of fp_2_addr (ci_fp ci) of
       None \<Rightarrow> (ci \<lparr> ci_stat := UNIQUE_CHUNK \<rparr>, AList.update (ci_fp ci) (ci_addr ci) fp_2_addr)
     | Some _ \<Rightarrow> (ci \<lparr> ci_stat := DUPLICATE_CHUNK \<rparr>, fp_2_addr))"

lemma DetectDuplicate_unique_iff:
  "ci_stat (fst (DetectDuplicate ci m)) = UNIQUE_CHUNK \<longleftrightarrow> ci_fp ci \<notin> dom (map_of m)"
  by (auto simp: DetectDuplicate_def domIff split: option.splits)

lemma DetectDuplicate_dom:
  "dom (map_of (snd (DetectDuplicate ci m))) = insert (ci_fp ci) (dom (map_of m))"
  by (auto simp: DetectDuplicate_def split: option.splits)

subsection \<open>What the search returns\<close>

definition hits :: "('f \<Rightarrow> bytes option) \<Rightarrow> 'f list \<Rightarrow> bytes list" where
  "hits query fs = List.map_filter query fs"

lemma hits_simps [simp]:
  "hits q [] = []"
  "hits q (f # fs) = (case q f of None \<Rightarrow> hits q fs | Some b \<Rightarrow> b # hits q fs)"
  by (simp_all add: hits_def map_filter_simps split: option.splits)

lemma hits_snoc [simp]:
  "hits q (fs @ [f]) = hits q fs @ (case q f of None \<Rightarrow> [] | Some b \<Rightarrow> [b])"
  by (induction fs) (auto split: option.splits)

lemma length_hits: "length (hits q fs) \<le> length fs"
  by (induction fs) (auto split: option.splits)

lemma count_freq_snoc: "count_freq q (fs @ [f]) = freq_step q f (count_freq q fs)"
  by (simp add: count_freq_def)

lemma count_freq_spec:
  "umap_ok (fst (count_freq q fs)) \<and>
   (\<forall>b. map_of (fst (count_freq q fs)) b =
      (if b \<in> set (hits q fs) then Some (count_list (hits q fs) b) else None)) \<and>
   snd (count_freq q fs) = (case hits q fs of [] \<Rightarrow> None | b # _ \<Rightarrow> Some b)"
proof (induction fs rule: rev_induct)
  case Nil
  then show ?case by (simp add: count_freq_def)
next
  case (snoc f fs)
  obtain freq first where c: "count_freq q fs = (freq, first)" by (cases "count_freq q fs")
  show ?case
  proof (cases "q f")
    case None
    then show ?thesis using snoc by (simp add: count_freq_snoc c freq_step_def)
  next
    case (Some b)
    have ok: "umap_ok freq" and m: "\<And>x. map_of freq x =
        (if x \<in> set (hits q fs) then Some (count_list (hits q fs) x) else None)"
      and first: "first = (case hits q fs of [] \<Rightarrow> None | b # _ \<Rightarrow> Some b)"
      using snoc c by auto
    have "fst (count_freq q (fs @ [f])) = AList.update b (count_list (hits q fs) b + 1) freq"
      using m [of b] by (auto simp: count_freq_snoc c freq_step_def Some count_notin)
    moreover have "snd (count_freq q (fs @ [f])) = Some (case first of None \<Rightarrow> b | Some x \<Rightarrow> x)"
      by (auto simp: count_freq_snoc c freq_step_def Some split: option.splits)
    ultimately show ?thesis
      using ok m first by (auto simp: Some umap_ok_update split: list.splits)
  qed
qed

text \<open>
  The specification: the base that at least two features agree on, otherwise the base of the
  first feature that has one.
\<close>

definition choose_base :: "bytes list \<Rightarrow> bytes option" where
  "choose_base bs =
    (case find (\<lambda>b. 2 \<le> count_list bs b) bs of
       Some b \<Rightarrow> Some b
     | None \<Rightarrow> (case bs of [] \<Rightarrow> None | b # _ \<Rightarrow> Some b))"

lemma count_list_two: "b \<noteq> c \<Longrightarrow> count_list bs b + count_list bs c \<le> length bs"
  by (induction bs) auto

lemma majority_unique:
  assumes "length bs \<le> 3" "2 \<le> count_list bs b" "2 \<le> count_list bs c"
  shows "b = c"
  using count_list_two [of b c bs] assms by (cases "b = c") auto

lemma hd_freq_order:
  assumes "xs \<noteq> []"
  shows "hd (freq_order xs) \<in> set xs" and "p \<in> set xs \<Longrightarrow> snd p \<le> snd (hd (freq_order xs))"
proof -
  let ?s = "freq_order xs"
  have s: "set ?s = set xs" "sorted (map (\<lambda>p. - int (snd p)) ?s)"
    by (simp_all add: freq_order_def)
  with assms have ne: "?s \<noteq> []" by (metis set_empty)
  then show "hd ?s \<in> set xs" using s by (metis hd_in_set)
  assume "p \<in> set xs"
  with s have "p \<in> set ?s" by simp
  with s(2) ne have "- int (snd (hd ?s)) \<le> - int (snd p)"
    by (cases ?s) auto
  then show "snd p \<le> snd (hd ?s)" by simp
qed

lemma FindBaseChunk_choose:
  assumes iter: "\<And>m. mset (iter m) = mset m"
    and hs: "hs = hits q (take SUPER_FEATURE_PER_CHUNK (ci_features ci))"
  shows "FindBaseChunk iter q ci =
    (case choose_base hs of
       None \<Rightarrow> ci \<lparr> ci_stat := NON_SIMILAR_CHUNK \<rparr>
     | Some b \<Rightarrow> ci \<lparr> ci_addr := (ci_addr ci) \<lparr> a_base_fp := take CHUNK_HASH_SIZE b \<rparr>,
                     ci_stat := SIMILAR_CHUNK \<rparr>)"
proof -
  let ?fs = "take SUPER_FEATURE_PER_CHUNK (ci_features ci)"
  obtain freq first where c: "count_freq q ?fs = (freq, first)" by (cases "count_freq q ?fs")
  have ok: "umap_ok freq" and m: "\<And>x. map_of freq x =
        (if x \<in> set hs then Some (count_list hs x) else None)"
    and first: "first = (case hs of [] \<Rightarrow> None | b # _ \<Rightarrow> Some b)"
    using count_freq_spec [of q ?fs] c hs by auto
  have len: "length hs \<le> 3"
    using length_hits [of q ?fs] by (simp add: hs SUPER_FEATURE_PER_CHUNK_def)
  show ?thesis
  proof (cases hs)
    case Nil
    then show ?thesis using c first by (simp add: FindBaseChunk_def choose_base_def)
  next
    case (Cons b0 hs')
    define top where "top = hd (freq_order (iter freq))"
    have si: "set (iter freq) = set freq" using iter [of freq] by (metis set_mset_mset)
    have "map_of freq b0 \<noteq> None" using m [of b0] Cons by simp
    then have ne: "iter freq \<noteq> []" using si by (cases freq) auto
    have inF: "(x, n) \<in> set freq \<longleftrightarrow> x \<in> set hs \<and> n = count_list hs x" for x n
      using m [of x] ok by (metis (mono_tags, lifting) map_of_SomeD map_of_is_SomeI option.discI option.inject)
    have top: "fst top \<in> set hs" "snd top = count_list hs (fst top)"
      using hd_freq_order(1) [OF ne] si inF [of "fst top" "snd top"] by (simp_all add: top_def)
    have max: "count_list hs x \<le> snd top" if "x \<in> set hs" for x
      using hd_freq_order(2) [OF ne, of "(x, count_list hs x)"] si inF that by (simp add: top_def)
    have F: "FindBaseChunk iter q ci = ci \<lparr> ci_addr := (ci_addr ci) \<lparr> a_base_fp :=
        take CHUNK_HASH_SIZE (if snd top = 1 then b0 else fst top) \<rparr>, ci_stat := SIMILAR_CHUNK \<rparr>"
      using c first Cons by (simp add: FindBaseChunk_def top_def Let_def)
    have "choose_base hs = Some (if snd top = 1 then b0 else fst top)"
    proof (cases "find (\<lambda>b. 2 \<le> count_list hs b) hs")
      case None
      then have "\<not> 2 \<le> count_list hs (fst top)" using top(1) by (simp add: find_None_iff)
      moreover have "0 < count_list hs (fst top)" using top(1) by (simp add: count_list_0_iff flip: neq0_conv)
      ultimately have "snd top = 1" using top(2) by simp
      with None Cons show ?thesis by (simp add: choose_base_def)
    next
      case (Some b)
      then have b: "b \<in> set hs" "2 \<le> count_list hs b" by (auto simp: find_Some_iff)
      with max have "2 \<le> snd top" by (meson le_trans)
      with top have "fst top = b" using majority_unique [OF len _ b(2)] by simp
      with Some \<open>2 \<le> snd top\<close> show ?thesis by (simp add: choose_base_def)
    qed
    with F show ?thesis by simp
  qed
qed

text \<open>
  C30. The base chunk that the similarity search selects does not depend on the iteration order
  of the hash map nor on how the unstable sort leaves ties: with three super-features it is the
  base that two of them agree on, otherwise the base of the first super-feature that has one; the
  chunk is non-similar exactly when no super-feature is indexed.
\<close>

theorem FindBaseChunk_deterministic:
  assumes "\<And>m. mset (iter m) = mset m"
  shows "FindBaseChunk iter q ci =
    (case choose_base (hits q (take SUPER_FEATURE_PER_CHUNK (ci_features ci))) of
       None \<Rightarrow> ci \<lparr> ci_stat := NON_SIMILAR_CHUNK \<rparr>
     | Some b \<Rightarrow> ci \<lparr> ci_addr := (ci_addr ci) \<lparr> a_base_fp := take CHUNK_HASH_SIZE b \<rparr>,
                     ci_stat := SIMILAR_CHUNK \<rparr>)"
  by (rule FindBaseChunk_choose [OF assms refl])

theorem FindBaseChunk_deterministic_witness:
  "FindBaseChunk rev (map_of [(1, [10]), (2, [20]), (3, [20])])
     \<lparr> ci_fp = [], ci_features = [1, 2, 3],
       ci_addr = \<lparr> a_stat = UNIQUE_CHUNK, a_container = [], a_offset = 0, a_len = 0,
                   a_base_fp = [], a_compressed_fp = [] \<rparr>, ci_stat = UNIQUE_CHUNK \<rparr> =
   \<lparr> ci_fp = [], ci_features = [1, 2, 3],
       ci_addr = \<lparr> a_stat = UNIQUE_CHUNK, a_container = [], a_offset = 0, a_len = 0,
                   a_base_fp = [20], a_compressed_fp = [] \<rparr>, ci_stat = SIMILAR_CHUNK \<rparr>"
  by (subst FindBaseChunk_deterministic)
    (simp_all add: choose_base_def SUPER_FEATURE_PER_CHUNK_def CHUNK_HASH_SIZE_def)

lemma choose_base_None: "choose_base bs = None \<longleftrightarrow> bs = []"
  by (cases bs) (auto simp: choose_base_def split: option.splits)

lemma hits_Nil_iff: "hits q fs = [] \<longleftrightarrow> (\<forall>f \<in> set fs. q f = None)"
  by (induction fs) (auto split: option.splits)

lemma hits_const: "(\<And>f. f \<in> set fs \<Longrightarrow> q f = Some b) \<Longrightarrow> hits q fs = replicate (length fs) b"
  by (induction fs) auto

lemma choose_base_in: "choose_base bs = Some b \<Longrightarrow> b \<in> set bs"
  by (auto simp: choose_base_def find_Some_iff split: option.splits list.splits)

lemma choose_base_replicate: "0 < n \<Longrightarrow> choose_base (replicate n b) = Some b"
  using choose_base_in [of "replicate n b"] choose_base_None [of "replicate n b"]
  by (cases "choose_base (replicate n b)") auto

end
