(* ===== verification/Key_Manager.thy ===== *)
theory Key_Manager
  imports Similar_Policy
begin

text \<open>
  The key manager, \<open>src/key_manager/basic_km.cc\<close>. It receives batches of super-feature
  triples and returns a 32-byte key seed for each: the seed that similar features already map
  to, or a fresh one derived from a global secret and the features. \<open>hash\<close> is the digest of
  \<open>CryptoUtil\<close> (OpenSSL), \<open>iter\<close> the iteration order of the frequency map.
\<close>

subsection \<open>State and operations\<close>

record km_state =
  km_index :: "(bytes, bytes) in_memory_db"   \<comment> \<open>\<open>feature_2_key_index_\<close>\<close>
  km_tmp_info :: chunk_info                   \<comment> \<open>the local that the batch loop reuses\<close>
  km_total_key_gen :: u64
  km_total_similar :: u64

definition global_secret :: bytes where
  "global_secret = replicate CHUNK_HASH_SIZE 1"

definition tmp_feature_buf :: "u64 list \<Rightarrow> bytes" where
  "tmp_feature_buf fs = global_secret @ u64_le (fs ! 0) @ u64_le (fs ! 1) @ u64_le (fs ! 2)"

definition km_key_gen ::
  "(bytes \<Rightarrow> bytes) \<Rightarrow> ((bytes, nat) umap \<Rightarrow> (bytes, nat) umap) \<Rightarrow> km_state \<Rightarrow> u64 list \<Rightarrow>
   (km_state \<times> bytes list) result" where
  "km_key_gen hash iter st req =
     (let info = FindBaseChunk_db iter (km_index st) ((km_tmp_info st) \<lparr> ci_features := req \<rparr>);
          st = st \<lparr> km_tmp_info := info \<rparr>
      in case ci_stat info of
           SIMILAR_CHUNK \<Rightarrow>
             Inr (st \<lparr> km_total_similar := km_total_similar st + 1 \<rparr>, [a_base_fp (ci_addr info)])
         | NON_SIMILAR_CHUNK \<Rightarrow>
             (let key_seed = hash (tmp_feature_buf (ci_features info))
              in Inr (st \<lparr> km_index := UpdateFeatureIndex_db (km_index st) (ci_features info) key_seed \<rparr>,
                      [key_seed]))
         | _ \<Rightarrow> Inl WrongChunkType)"

definition km_handle ::
  "(bytes \<Rightarrow> bytes) \<Rightarrow> ((bytes, nat) umap \<Rightarrow> (bytes, nat) umap) \<Rightarrow> km_state \<Rightarrow>
   network_protocol \<times> u64 list list \<Rightarrow> (km_state \<times> (network_protocol \<times> bytes list) list) result" where
  \<comment> \<open>one iteration of the loop of \<open>Run\<close>: a request message in, a reply message out\<close>
  "km_handle hash iter st msg =
     (case msg of (msg_type, reqs) \<Rightarrow>
        if msg_type \<noteq> CLIENT_KEY_GEN then Inl WrongMsgType
        else bindR (run_thd (km_key_gen hash iter) st reqs) (\<lambda>(st, keys).
               Inr (st \<lparr> km_total_key_gen := km_total_key_gen st + of_nat (length reqs) \<rparr>,
                    [(KEY_MANAGER_KEY_GEN_REPLY, keys)])))"

definition km_index_size :: "km_state \<Rightarrow> u64" where
  \<comment> \<open>the size of the index that the destructor prints\<close>
  "km_index_size st = (km_total_key_gen st - km_total_similar st) *
     of_nat (SUPER_FEATURE_PER_CHUNK * (8 + CHUNK_HASH_SIZE))"

definition ConvertFp2Val :: "bytes \<Rightarrow> u64" where
  \<comment> \<open>shared with \<open>key_gen_thd.cc\<close>; the \<open>size\<close> argument is ignored by the code\<close>
  "ConvertFp2Val fp = fold (\<lambda>b v. v + ucast b) (take CHUNK_HASH_SIZE fp) 0"

abbreviation km_lookup :: "km_state \<Rightarrow> u64 \<Rightarrow> bytes option" where
  "km_lookup st f \<equiv> InMem_QueryBuffer (km_index st) (u64_le f) 8"

definition km_ok :: "km_state \<Rightarrow> bool" where
  "km_ok st \<longleftrightarrow> db_ok (km_index st)"

subsection \<open>One request\<close>

definition km_seed :: "(bytes \<Rightarrow> bytes) \<Rightarrow> km_state \<Rightarrow> u64 list \<Rightarrow> bytes" where
  \<comment> \<open>the specification of the reply\<close>
  "km_seed hash st req =
     (case choose_base (hits (km_lookup st) (take SUPER_FEATURE_PER_CHUNK req)) of
        Some b \<Rightarrow> take CHUNK_HASH_SIZE b
      | None \<Rightarrow> hash (tmp_feature_buf req))"

definition km_miss :: "km_state \<Rightarrow> u64 list \<Rightarrow> bool" where
  "km_miss st req \<longleftrightarrow> (\<forall>f \<in> set (take SUPER_FEATURE_PER_CHUNK req). km_lookup st f = None)"

lemma km_miss_iff:
  "km_miss st req \<longleftrightarrow> choose_base (hits (km_lookup st) (take SUPER_FEATURE_PER_CHUNK req)) = None"
  by (simp add: km_miss_def choose_base_None hits_Nil_iff)

lemma km_key_gen_cases:
  assumes iter: "\<And>m. mset (iter m) = mset m" and len: "\<And>x. length (hash x) = CHUNK_HASH_SIZE"
    and run: "km_key_gen hash iter st req = Inr (st', os)"
  shows "os = [km_seed hash st req]"
    and "km_miss st req \<Longrightarrow> km_index st' =
           feature_db.insert_all (km_index st) (take SUPER_FEATURE_PER_CHUNK req) (km_seed hash st req)"
    and "\<not> km_miss st req \<Longrightarrow> km_index st' = km_index st"
  using run
  by (auto simp: km_key_gen_def FindBaseChunk_db_def FindBaseChunk_choose [OF iter refl] Let_def
      km_seed_def km_miss_iff UpdateFeatureIndex_db_insert_all len split: option.splits)

lemma km_key_gen_total:
  assumes iter: "\<And>m. mset (iter m) = mset m"
  shows "\<exists>st' os. km_key_gen hash iter st req = Inr (st', os)"
  by (auto simp: km_key_gen_def FindBaseChunk_db_def FindBaseChunk_choose [OF iter refl] Let_def
      split: option.splits)

lemma km_key_gen_ok:
  assumes "\<And>m. mset (iter m) = mset m" "\<And>x. length (hash x) = CHUNK_HASH_SIZE"
    and "km_key_gen hash iter st req = Inr (st', os)" "km_ok st"
  shows "km_ok st'"
  using km_key_gen_cases [OF assms(1-3)] assms(4) feature_db.insert_all_ok
  by (cases "km_miss st req") (simp_all add: km_ok_def)

lemma km_key_gen_extends:
  assumes "\<And>m. mset (iter m) = mset m" "\<And>x. length (hash x) = CHUNK_HASH_SIZE"
    and "km_key_gen hash iter st req = Inr (st', os)" "km_ok st"
  shows "km_lookup st \<subseteq>\<^sub>m km_lookup st'"
proof (cases "km_miss st req")
  case True
  then show ?thesis
    using km_key_gen_cases(2) [OF assms(1-3)] assms(4)
      feature_db.insert_all_extends [where s = "km_index st" and ks = "take SUPER_FEATURE_PER_CHUNK req"]
    by (simp add: km_ok_def km_miss_def)
next
  case False
  then show ?thesis using km_key_gen_cases(3) [OF assms(1-3)] by simp
qed

subsection \<open>Batches and sequences of batches\<close>

definition km_run ::
  "(bytes \<Rightarrow> bytes) \<Rightarrow> ((bytes, nat) umap \<Rightarrow> (bytes, nat) umap) \<Rightarrow> km_state \<Rightarrow> u64 list list \<Rightarrow>
   (km_state \<times> bytes list) result" where
  "km_run hash iter = run_thd (km_key_gen hash iter)"

lemma km_run_facts:
  assumes "\<And>m. mset (iter m) = mset m" "\<And>x. length (hash x) = CHUNK_HASH_SIZE"
    and "km_run hash iter st reqs = Inr (st', os)" "km_ok st"
  shows "km_ok st' \<and> km_lookup st \<subseteq>\<^sub>m km_lookup st' \<and> length os = length reqs"
  using assms(3,4) unfolding km_run_def
proof (induction reqs arbitrary: st os)
  case Nil
  then show ?case by simp
next
  case (Cons r reqs)
  then obtain s1 o1 o2 where s: "km_key_gen hash iter st r = Inr (s1, o1)"
      "run_thd (km_key_gen hash iter) s1 reqs = Inr (st', o2)" "os = o1 @ o2"
    by (auto simp: bindR_eq_Inr)
  note one = km_key_gen_cases(1) [OF assms(1,2) s(1)] km_key_gen_ok [OF assms(1,2) s(1) Cons.prems(2)]
    km_key_gen_extends [OF assms(1,2) s(1) Cons.prems(2)]
  with Cons.IH [OF s(2)] s(3) show ?case by (auto intro: map_le_trans)
qed

lemma km_run_total:
  assumes iter: "\<And>m. mset (iter m) = mset m"
  shows "\<exists>st' os. km_run hash iter st reqs = Inr (st', os)"
  using run_thd_safe [of "\<lambda>_. True" reqs "km_key_gen hash iter" st] km_key_gen_total [OF iter]
  by (auto simp: km_run_def)

text \<open>
  The feature index of the key manager only grows: whatever requests are served, an entry
  that a feature has is never changed or removed, no request makes the manager exit, and every
  request gets one key.
\<close>

theorem km_index_monotone:
  assumes "\<And>m. mset (iter m) = mset m" "\<And>x. length (hash x) = CHUNK_HASH_SIZE" "km_ok st"
  shows "\<exists>st' keys. km_handle hash iter st (CLIENT_KEY_GEN, reqs) =
             Inr (st', [(KEY_MANAGER_KEY_GEN_REPLY, keys)]) \<and>
           length keys = length reqs \<and> km_ok st' \<and> km_lookup st \<subseteq>\<^sub>m km_lookup st'"
proof -
  obtain st' os where r: "km_run hash iter st reqs = Inr (st', os)"
    using km_run_total [OF assms(1)] by blast
  with km_run_facts [OF assms(1,2) r assms(3)] show ?thesis
    by (auto simp: km_handle_def km_run_def km_ok_def)
qed

definition km0 :: km_state where
  "km0 = \<lparr> km_index = \<lparr> index_obj = [] \<rparr>,
           km_tmp_info = \<lparr> ci_fp = [], ci_features = [],
             ci_addr = \<lparr> a_stat = UNIQUE_CHUNK, a_container = [], a_offset = 0, a_len = 0,
                         a_base_fp = [], a_compressed_fp = [] \<rparr>, ci_stat = UNIQUE_CHUNK \<rparr>,
           km_total_key_gen = 0, km_total_similar = 0 \<rparr>"

lemma km0_ok [simp]: "km_ok km0"
  by (simp add: km_ok_def db_ok_def km0_def)

theorem km_index_monotone_witness:
  "\<exists>st' keys. km_handle (\<lambda>x. replicate CHUNK_HASH_SIZE (last x)) rev km0 (CLIENT_KEY_GEN, [[1, 2, 3]]) =
             Inr (st', [(KEY_MANAGER_KEY_GEN_REPLY, keys)]) \<and>
           length keys = length [[1, 2, 3 :: u64]] \<and> km_ok st' \<and> km_lookup km0 \<subseteq>\<^sub>m km_lookup st'"
  by (rule km_index_monotone) simp_all

lemma km_seed_const:
  assumes "\<And>f. f \<in> set (take SUPER_FEATURE_PER_CHUNK req) \<Longrightarrow> km_lookup st f = Some k"
    and "req \<noteq> []" "length k = CHUNK_HASH_SIZE"
  shows "km_seed hash st req = k"
proof -
  have "hits (km_lookup st) (take SUPER_FEATURE_PER_CHUNK req) =
        replicate (length (take SUPER_FEATURE_PER_CHUNK req)) k"
    by (rule hits_const) (use assms(1) in auto)
  moreover have "0 < length (take SUPER_FEATURE_PER_CHUNK req)"
    using assms(2) by (simp add: SUPER_FEATURE_PER_CHUNK_def)
  ultimately show ?thesis using assms(3) by (simp add: km_seed_def choose_base_replicate del: length_take)
qed

text \<open>
  A key that was generated for a chunk whose features were all new is the key of that chunk
  for ever: after any further requests, a request with the same features gets the same key, so
  that the ciphertexts of equal chunks stay equal and deduplicate.
\<close>

theorem km_fresh_key_stable:
  assumes "\<And>m. mset (iter m) = mset m" "\<And>x. length (hash x) = CHUNK_HASH_SIZE" "km_ok st"
    and "length req = SUPER_FEATURE_PER_CHUNK" "km_miss st req"
    and "km_run hash iter st (req # reqs @ [req]) = Inr (st', keys)"
  shows "hd keys = hash (tmp_feature_buf req) \<and> last keys = hd keys"
proof -
  let ?k = "hash (tmp_feature_buf req)"
  obtain s1 s2 o1 o2 o3 where r: "km_key_gen hash iter st req = Inr (s1, o1)"
      "run_thd (km_key_gen hash iter) s1 reqs = Inr (s2, o2)"
      "km_key_gen hash iter s2 req = Inr (st', o3)" and k: "keys = o1 @ o2 @ o3"
    using assms(6) by (auto simp: km_run_def run_thd_append bindR_eq_Inr)
  have seed: "km_seed hash st req = ?k"
    using assms(5) by (simp add: km_seed_def km_miss_iff)
  note c1 = km_key_gen_cases [OF assms(1,2) r(1)]
  have look: "km_lookup s1 f = Some ?k" if "f \<in> set (take SUPER_FEATURE_PER_CHUNK req)" for f
    using c1(2) [OF assms(5)] that assms(3) seed
      feature_db.query_insert_all [where s = "km_index st" and ks = "take SUPER_FEATURE_PER_CHUNK req"]
    by (simp add: km_ok_def)
  have "km_lookup s1 \<subseteq>\<^sub>m km_lookup s2"
    using km_run_facts [OF assms(1,2) r(2) [folded km_run_def]] km_key_gen_ok [OF assms(1,2) r(1) assms(3)]
    by simp
  with look have look2: "km_lookup s2 f = Some ?k" if "f \<in> set (take SUPER_FEATURE_PER_CHUNK req)" for f
    using that by (auto simp: map_le_def dom_def)
  have "req \<noteq> []" using assms(4) by (auto simp: SUPER_FEATURE_PER_CHUNK_def)
  then have "km_seed hash s2 req = ?k" using km_seed_const look2 assms(2) by blast
  with km_key_gen_cases(1) [OF assms(1,2) r(3)] c1(1) seed k
  show "hd keys = ?k \<and> last keys = hd keys" by simp
qed

theorem km_fresh_key_stable_witness:
  "\<exists>st' keys. km_run (\<lambda>x. replicate CHUNK_HASH_SIZE (last x)) rev km0 ([1, 2, 3] # [[3, 4, 5]] @ [[1, 2, 3]])
       = Inr (st', keys) \<and> last keys = hd keys"
proof -
  let ?h = "\<lambda>x :: bytes. replicate CHUNK_HASH_SIZE (last x)"
  obtain st' keys where r: "km_run ?h rev km0 ([1, 2, 3] # [[3, 4, 5]] @ [[1, 2, 3]]) = Inr (st', keys)"
    using km_run_total [where iter = rev and hash = ?h and st = km0
        and reqs = "[1, 2, 3] # [[3, 4, 5]] @ [[1, 2, 3]]"] by auto
  have "km_miss km0 [1, 2, 3]" by (simp add: km_miss_def km0_def InMem_QueryBuffer_def)
  with km_fresh_key_stable [OF _ _ km0_ok _ _ r] have "last keys = hd keys"
    by (simp add: SUPER_FEATURE_PER_CHUNK_def)
  with r show ?thesis by blast
qed

text \<open>
  The abstract key manager: a partial map from features to seeds, extended on a miss. The index
  of the code refines it.
\<close>

definition km_spec :: "(bytes \<Rightarrow> bytes) \<Rightarrow> (u64 \<Rightarrow> bytes option) \<Rightarrow> u64 list \<Rightarrow> bytes \<times> (u64 \<Rightarrow> bytes option)" where
  "km_spec hash L req =
     (let fs = take SUPER_FEATURE_PER_CHUNK req
      in case choose_base (hits L fs) of
           Some b \<Rightarrow> (take CHUNK_HASH_SIZE b, L)
         | None \<Rightarrow> (let k = hash (tmp_feature_buf req) in (k, \<lambda>f. if f \<in> set fs then Some k else L f)))"

lemma km_spec_triple:
  "km_spec hash L [f, g, h] =
     (case choose_base (hits L [f, g, h]) of
        Some b \<Rightarrow> (take CHUNK_HASH_SIZE b, L)
      | None \<Rightarrow> (hash (tmp_feature_buf [f, g, h]),
                  \<lambda>x. if x \<in> {f, g, h} then Some (hash (tmp_feature_buf [f, g, h])) else L x))"
proof -
  have "take SUPER_FEATURE_PER_CHUNK [f, g, h] = [f, g, h]" by (simp add: SUPER_FEATURE_PER_CHUNK_def)
  then show ?thesis
    unfolding km_spec_def Let_def by (simp del: hits_simps split: option.split)
qed

lemma km_key_gen_refines:
  assumes "\<And>m. mset (iter m) = mset m" "\<And>x. length (hash x) = CHUNK_HASH_SIZE" "km_ok st"
    and spec: "km_spec hash (km_lookup st) req = (k, L)"
  obtains st' where "km_key_gen hash iter st req = Inr (st', [k])" "km_ok st'" "km_lookup st' = L"
proof -
  obtain st' os where r: "km_key_gen hash iter st req = Inr (st', os)"
    using km_key_gen_total [OF assms(1)] by blast
  note c = km_key_gen_cases [OF assms(1,2) r] and ok = km_key_gen_ok [OF assms(1,2) r assms(3)]
  have "k = km_seed hash st req"
    using spec by (auto simp: km_spec_def km_seed_def Let_def split: option.splits)
  moreover have "km_lookup st' = L"
    using c(2,3) assms(3) spec
      feature_db.query_insert_all [where s = "km_index st" and ks = "take SUPER_FEATURE_PER_CHUNK req"]
    by (cases "km_miss st req")
      (auto simp: km_ok_def km_spec_def km_miss_iff km_seed_def Let_def split: option.splits)
  ultimately show thesis using r c(1) ok that by blast
qed

text \<open>
  A key that was taken from a partial match is not stable. A chunk with features \<open>a b c\<close>
  that resembles an earlier chunk in \<open>a\<close> alone gets that chunk's key and leaves \<open>b\<close> and \<open>c\<close>
  unindexed; once another chunk brings \<open>b\<close> and \<open>c\<close>, the same chunk gets the other key, and
  its second copy no longer encrypts to the same ciphertext.
\<close>

theorem km_partial_match_drifts:
  assumes iter: "\<And>m. mset (iter m) = mset m" and len: "\<And>x. length (hash x) = CHUNK_HASH_SIZE"
    and d: "distinct [a, b, c, d, x, y]"
    and k: "K1 = hash (tmp_feature_buf [a, x, y])" "K2 = hash (tmp_feature_buf [b, c, d])"
  shows "\<exists>st'. km_run hash iter km0 [[a, x, y], [a, b, c], [b, c, d], [a, b, c]] =
           Inr (st', [K1, K1, K2, K2])"
proof -
  note defs = km_spec_triple choose_base_def
  have [simp]: "length K1 = CHUNK_HASH_SIZE" "length K2 = CHUNK_HASH_SIZE" using k len by simp_all
  let ?L1 = "(\<lambda>f. if f \<in> {a, x, y} then Some K1 else None)"
  let ?L3 = "(\<lambda>f. if f \<in> {b, c, d} then Some K2 else ?L1 f)"
  have l0: "km_lookup km0 = (\<lambda>_. None)" by (simp add: km0_def InMem_QueryBuffer_def fun_eq_iff)
  have e1: "km_spec hash (km_lookup km0) [a, x, y] = (K1, ?L1)"
    unfolding l0 by (simp add: defs fun_eq_iff flip: k)
  obtain s1 where 1: "km_key_gen hash iter km0 [a, x, y] = Inr (s1, [K1])" "km_ok s1" "km_lookup s1 = ?L1"
    by (rule km_key_gen_refines [OF iter len km0_ok e1])
  have e2: "km_spec hash (km_lookup s1) [a, b, c] = (K1, ?L1)"
    unfolding 1(3) using d by (auto simp: defs)
  obtain s2 where 2: "km_key_gen hash iter s1 [a, b, c] = Inr (s2, [K1])" "km_ok s2" "km_lookup s2 = ?L1"
    by (rule km_key_gen_refines [OF iter len 1(2) e2])
  have e3: "km_spec hash (km_lookup s2) [b, c, d] = (K2, ?L3)"
    unfolding 2(3) using d by (auto simp: defs fun_eq_iff simp flip: k)
  obtain s3 where 3: "km_key_gen hash iter s2 [b, c, d] = Inr (s3, [K2])" "km_ok s3" "km_lookup s3 = ?L3"
    by (rule km_key_gen_refines [OF iter len 2(2) e3])
  have e4: "km_spec hash (km_lookup s3) [a, b, c] = (K2, ?L3)"
    unfolding 3(3) using d by (auto simp: defs)
  obtain s4 where 4: "km_key_gen hash iter s3 [a, b, c] = Inr (s4, [K2])"
    by (rule km_key_gen_refines [OF iter len 3(2) e4])
  show ?thesis by (simp add: km_run_def 1 2 3 4)
qed

lemma nat_le_nth0: "0 < n \<Longrightarrow> nat_le n v ! 0 = of_nat (v mod 256)"
  by (cases n) simp_all

theorem km_partial_match_drifts_witness:
  "\<exists>st'. km_run (\<lambda>x. replicate CHUNK_HASH_SIZE (x ! 32)) rev km0 [[1, 5, 6], [1, 2, 3], [2, 3, 4], [1, 2, 3]] =
     Inr (st', [replicate CHUNK_HASH_SIZE 1, replicate CHUNK_HASH_SIZE 1,
                replicate CHUNK_HASH_SIZE 2, replicate CHUNK_HASH_SIZE 2])"
  by (rule km_partial_match_drifts)
    (simp_all add: tmp_feature_buf_def global_secret_def CHUNK_HASH_SIZE_def nth_append u64_le_def nat_le_nth0)

end
