(* ===== verification/Inform_Cache.thy ===== *)
theory Inform_Cache
  imports Similar_Policy
begin

text \<open>
  The server side of the client-informed cache, \<open>src/server/inform_cache.cc\<close>: the features
  that the client announced and the base chunk of each, a reference count per base, and the
  base chunks themselves in an \<open>AbsDatabase\<close> (opened on RocksDB by the code; the model uses the
  in-memory implementation of the same interface). \<open>denc\<close> stands for the delta encoder of
  xdelta, \<open>None\<close> for its failure; \<open>iter\<close> is the iteration order of the frequency map.
\<close>

subsection \<open>State and operations\<close>

record inform_cache =
  ic_feature_2_fp :: "(u64, bytes) umap"           \<comment> \<open>\<open>local_feature_2_fp_db_\<close>\<close>
  ic_base_2_cnt :: "(bytes, u32 \<times> u32) umap"      \<comment> \<open>\<open>base_2_cnt_idx_\<close>: references, chunk size\<close>
  ic_base_2_data :: "(bytes, bytes) in_memory_db"  \<comment> \<open>\<open>base_2_data_db_\<close>\<close>

definition InsertCachedChunk :: "inform_cache \<Rightarrow> wrapped_chunk \<Rightarrow> inform_cache" where
  "InsertCachedChunk ic cache_chunk =
    (let base_fp = ci_fp (w_info cache_chunk);
         ic = ic \<lparr> ic_feature_2_fp := UpdateFeatureIndex (\<lambda>m f b. AList.update f b m) (ic_feature_2_fp ic)
                                       (ci_features (w_info cache_chunk)) base_fp \<rparr>
     in case map_of (ic_base_2_cnt ic) base_fp of
          Some (cnt, chunk_size) \<Rightarrow>
            ic \<lparr> ic_base_2_cnt := AList.update base_fp (cnt + of_nat SUPER_FEATURE_PER_CHUNK, chunk_size) (ic_base_2_cnt ic) \<rparr>
        | None \<Rightarrow>
            ic \<lparr> ic_base_2_cnt := AList.update base_fp
                   (of_nat SUPER_FEATURE_PER_CHUNK, of_nat (length (w_data cache_chunk))) (ic_base_2_cnt ic),
                 ic_base_2_data := InMem_Insert (ic_base_2_data ic) base_fp (w_data cache_chunk) \<rparr>)"

definition ProcessNormalChunk ::
  "(bytes \<Rightarrow> bytes \<Rightarrow> bytes option) \<Rightarrow> ((bytes, nat) umap \<Rightarrow> (bytes, nat) umap) \<Rightarrow> inform_cache \<Rightarrow>
   wrapped_chunk \<Rightarrow> wrapped_chunk \<Rightarrow> (bool \<times> wrapped_chunk \<times> wrapped_chunk) result" where
  \<comment> \<open>the returned flag, the input chunk (its \<open>info\<close> is updated) and the output chunk\<close>
  "ProcessNormalChunk denc iter ic input_chunk output_chunk =
    (let info = FindBaseChunk iter (map_of (ic_feature_2_fp ic)) (w_info input_chunk);
         input_chunk = input_chunk \<lparr> w_info := info \<rparr>
     in case ci_stat info of
          SIMILAR_CHUNK \<Rightarrow>
            (case InMem_QueryBuffer (ic_base_2_data ic) (a_base_fp (ci_addr info)) CHUNK_HASH_SIZE of
               None \<Rightarrow> Inl BaseNotFound
             | Some base \<Rightarrow>
                 (case denc base (w_data input_chunk) of
                    None \<Rightarrow> Inl DeltaFailure
                  | Some delta \<Rightarrow>
                      (let o_info = w_info output_chunk
                       in Inr (True, input_chunk,
                            \<lparr> w_info = o_info \<lparr> ci_addr := (ci_addr o_info) \<lparr> a_base_fp := a_base_fp (ci_addr info) \<rparr>,
                                               ci_fp := ci_fp info, ci_stat := CACHE_DELTA_CHUNK \<rparr>,
                              w_data = delta \<rparr>))))
        | NON_SIMILAR_CHUNK \<Rightarrow> Inr (False, input_chunk, output_chunk)
        | _ \<Rightarrow> Inl WrongChunkType)"

definition evict_feature :: "inform_cache \<Rightarrow> u64 \<Rightarrow> inform_cache result" where
  \<comment> \<open>the body of the loop of \<open>EvictCacheChunk\<close>\<close>
  "evict_feature ic f =
    (case map_of (ic_feature_2_fp ic) f of
       None \<Rightarrow> Inl EvictFeatureNotFound
     | Some base \<Rightarrow>
         (case map_of (ic_base_2_cnt ic) base of
            None \<Rightarrow> Inl EvictCountNotFound
          | Some (cnt, chunk_size) \<Rightarrow>
              Inr (ic \<lparr> ic_base_2_cnt :=
                          AList.update base (if 0 < cnt then cnt - 1 else 0, chunk_size) (ic_base_2_cnt ic),
                        ic_feature_2_fp := AList.delete f (ic_feature_2_fp ic) \<rparr>)))"

definition feature_at :: "bytes \<Rightarrow> nat \<Rightarrow> u64" where
  "feature_at data i = le_u64 (take 8 (drop (8 * i) data))"

definition EvictCacheChunk :: "inform_cache \<Rightarrow> wrapped_chunk \<Rightarrow> inform_cache result" where
  \<comment> \<open>\<open>info.size\<close> of an evict chunk is the number of features in \<open>data\<close>\<close>
  "EvictCacheChunk ic evict_chunk =
    (let feature_num = length (w_data evict_chunk) div 8
     in foldR evict_feature ic (map (feature_at (w_data evict_chunk)) [0..<feature_num]))"

definition DeleteEvictChunk :: "inform_cache \<Rightarrow> inform_cache \<times> u64" where
  "DeleteEvictChunk ic =
    fold (\<lambda>(base, cnt, chunk_size) (ic, total).
            if cnt = 0
            then (ic \<lparr> ic_base_2_data := InMem_Delete (ic_base_2_data ic) base,
                       ic_base_2_cnt := AList.delete base (ic_base_2_cnt ic) \<rparr>, total)
            else (ic, total + ucast chunk_size))
         (ic_base_2_cnt ic) (ic, 0)"

definition IsBaseChunkExist :: "inform_cache \<Rightarrow> bytes \<Rightarrow> bool" where
  "IsBaseChunkExist ic base_fp \<longleftrightarrow> map_of (ic_base_2_cnt ic) (take CHUNK_HASH_SIZE base_fp) \<noteq> None"

definition FetchBaseChunk :: "inform_cache \<Rightarrow> bytes \<Rightarrow> bytes result" where
  "FetchBaseChunk ic base_fp =
    (case InMem_Query (ic_base_2_data ic) (take CHUNK_HASH_SIZE base_fp) of
       None \<Rightarrow> Inl BaseNotFound
     | Some base \<Rightarrow> if length base \<le> ENC_MAX_CHUNK_SIZE then Inr base else Inl OutOfBounds)"

definition GetCacheSize :: "inform_cache \<Rightarrow> nat" where
  "GetCacheSize ic = length (ic_feature_2_fp ic)"

subsection \<open>The two index files\<close>

definition cnt_entry :: "bytes \<times> u32 \<times> u32 \<Rightarrow> bytes" where
  "cnt_entry e = take CHUNK_HASH_SIZE (fst e) @ u32_le (fst (snd e)) @ u32_le (snd (snd e))"

definition idx_entry :: "u64 \<times> bytes \<Rightarrow> bytes" where
  "idx_entry e = u64_le (fst e) @ take CHUNK_HASH_SIZE (snd e)"

definition StoreCntIdx :: "inform_cache \<Rightarrow> bytes \<times> bytes" where
  \<comment> \<open>the contents of the files \<open>_cnt\<close> and \<open>_idx\<close>\<close>
  "StoreCntIdx ic =
    (u64_le (of_nat (length (ic_base_2_cnt ic))) @ concat (map cnt_entry (ic_base_2_cnt ic)),
     u64_le (of_nat (length (ic_feature_2_fp ic))) @ concat (map idx_entry (ic_feature_2_fp ic)))"

fun load_cnt :: "nat \<Rightarrow> istream \<Rightarrow> bytes \<times> bytes \<times> bytes \<Rightarrow> (bytes, u32 \<times> u32) umap \<Rightarrow> (bytes, u32 \<times> u32) umap" where
  "load_cnt 0 st _ idx = idx"
| "load_cnt (Suc n) st (fp, cnt, chunk_size) idx =
    (let (fp, st) = read_field CHUNK_HASH_SIZE st fp;
         (cnt, st) = read_field 4 st cnt;
         (chunk_size, st) = read_field 4 st chunk_size
     in load_cnt n st (fp, cnt, chunk_size) (AList.update fp (le_u32 cnt, le_u32 chunk_size) idx))"

fun load_idx :: "nat \<Rightarrow> istream \<Rightarrow> bytes \<times> bytes \<Rightarrow> (u64, bytes) umap \<Rightarrow> (u64, bytes) umap" where
  "load_idx 0 st _ idx = idx"
| "load_idx (Suc n) st (feature, fp) idx =
    (let (feature, st) = read_field 8 st feature;
         (fp, st) = read_field CHUNK_HASH_SIZE st fp
     in load_idx n st (feature, fp) (AList.update (le_u64 feature) fp idx))"

definition LoadCntIdx ::
  "bytes option \<Rightarrow> bytes option \<Rightarrow> (bytes, u32 \<times> u32) umap \<times> (u64, bytes) umap" where
  \<comment> \<open>an empty count file, or a count of zero, returns before the feature index is read\<close>
  "LoadCntIdx cnt_file idx_file =
    (let load_feature_index = (\<lambda>cnt_idx.
           case idx_file of
             None \<Rightarrow> (cnt_idx, [])
           | Some f \<Rightarrow>
               if length f = 0 then (cnt_idx, [])
               else let (num, st) = read_field 8 (f, False) (nat_le 8 0)
                    in (cnt_idx, load_idx (le_nat num) st (nat_le 8 0, replicate CHUNK_HASH_SIZE 0) []))
     in case cnt_file of
          None \<Rightarrow> load_feature_index []
        | Some f \<Rightarrow>
            if length f = 0 then ([], [])
            else let (num, st) = read_field 8 (f, False) (nat_le 8 0)
                 in if le_nat num = 0 then ([], [])
                    else load_feature_index
                           (load_cnt (le_nat num) st (replicate CHUNK_HASH_SIZE 0, nat_le 4 0, nat_le 4 0) []))"

subsection \<open>The reference-count invariant\<close>

declare map_of_eq_Some_iff [simp del] Some_eq_map_of_iff [simp del]

definition refs :: "(u64, bytes) umap \<Rightarrow> bytes \<Rightarrow> nat" where
  "refs m b = length (filter (\<lambda>p. snd p = b) m)"

lemma refs_simps [simp]:
  "refs [] b = 0"
  "refs (p # m) b = (if snd p = b then 1 else 0) + refs m b"
  by (simp_all add: refs_def)

lemma refs_delete:
  "umap_ok m \<Longrightarrow> refs m b = refs (AList.delete f m) b + (if map_of m f = Some b then 1 else 0)"
proof (induction m)
  case Nil
  then show ?case by simp
next
  case (Cons p m)
  show ?case
  proof (cases "fst p = f")
    case True
    then have "AList.delete f m = m" "map_of (p # m) f = Some (snd p)"
      using Cons.prems by (simp_all add: delete_id image_iff)
    with True show ?thesis by simp
  next
    case False
    moreover have "map_of (p # m) f = map_of m f" using False by (cases p) auto
    ultimately show ?thesis using Cons by simp
  qed
qed

lemma refs_update:
  "refs (AList.update f b m) x \<le> refs m x + (if x = b then 1 else 0)"
  by (induction m) (auto simp: refs_def)

lemma refs_pos: "map_of m f = Some b \<Longrightarrow> 0 < refs m b"
  by (induction m) (auto simp: refs_def split: if_splits)

lemma refs_insert_all:
  "refs (umap.insert_all m fs b) x \<le> refs m x + (if x = b then length fs else 0)"
proof (induction fs arbitrary: m)
  case Nil
  then show ?case by (simp add: umap.insert_all_def)
next
  case (Cons f fs)
  have "refs (umap.insert_all m (f # fs) b) x = refs (umap.insert_all (AList.update f b m) fs b) x"
    by (simp add: umap.insert_all_def)
  also have "\<dots> \<le> refs (AList.update f b m) x + (if x = b then length fs else 0)"
    by (rule Cons.IH)
  also have "\<dots> \<le> refs m x + (if x = b then length (f # fs) else 0)"
    using refs_update [of f b m x] by auto
  finally show ?case .
qed

definition cnt_of :: "inform_cache \<Rightarrow> bytes \<Rightarrow> nat" where
  "cnt_of ic b = (case map_of (ic_base_2_cnt ic) b of None \<Rightarrow> 0 | Some (c, _) \<Rightarrow> unat c)"

definition ic_ok :: "inform_cache \<Rightarrow> bool" where
  "ic_ok ic \<longleftrightarrow>
     umap_ok (ic_feature_2_fp ic) \<and> umap_ok (ic_base_2_cnt ic) \<and> db_ok (ic_base_2_data ic) \<and>
     (\<forall>b. map_option (\<lambda>(c, s). s) (map_of (ic_base_2_cnt ic) b) =
          map_option (\<lambda>d. of_nat (length d)) (InMem_Query (ic_base_2_data ic) b)) \<and>
     (\<forall>b. refs (ic_feature_2_fp ic) b \<le> cnt_of ic b)"

definition ic_new :: inform_cache where
  "ic_new = \<lparr> ic_feature_2_fp = [], ic_base_2_cnt = [], ic_base_2_data = \<lparr> index_obj = [] \<rparr> \<rparr>"

lemma ic_new_ok: "ic_ok ic_new"
  by (simp add: ic_ok_def ic_new_def refs_def db_ok_def InMem_Query_def)

lemma ic_okD:
  assumes "ic_ok ic"
  shows "map_of (ic_feature_2_fp ic) f = Some b \<Longrightarrow>
           \<exists>c s d. map_of (ic_base_2_cnt ic) b = Some (c, s) \<and> 0 < c \<and>
                   InMem_Query (ic_base_2_data ic) b = Some d \<and> s = of_nat (length d)"
    and "map_of (ic_base_2_cnt ic) b = Some (c, s) \<Longrightarrow>
           \<exists>d. InMem_Query (ic_base_2_data ic) b = Some d \<and> s = of_nat (length d)"
    and "InMem_Query (ic_base_2_data ic) b = Some d \<Longrightarrow>
           \<exists>c. map_of (ic_base_2_cnt ic) b = Some (c, of_nat (length d))"
proof -
  have data: "map_option (\<lambda>(c, s). s) (map_of (ic_base_2_cnt ic) b) =
          map_option (\<lambda>d. of_nat (length d)) (InMem_Query (ic_base_2_data ic) b)"
    using assms by (simp add: ic_ok_def)
  show two: "\<exists>d. InMem_Query (ic_base_2_data ic) b = Some d \<and> s = of_nat (length d)"
    if "map_of (ic_base_2_cnt ic) b = Some (c, s)" for c s
    using data that by (cases "InMem_Query (ic_base_2_data ic) b") auto
  show "\<exists>c. map_of (ic_base_2_cnt ic) b = Some (c, of_nat (length d))"
    if "InMem_Query (ic_base_2_data ic) b = Some d"
    using data that by (cases "map_of (ic_base_2_cnt ic) b") auto
  show "\<exists>c s d. map_of (ic_base_2_cnt ic) b = Some (c, s) \<and> 0 < c \<and>
                   InMem_Query (ic_base_2_data ic) b = Some d \<and> s = of_nat (length d)"
    if "map_of (ic_feature_2_fp ic) f = Some b"
  proof -
    have "refs (ic_feature_2_fp ic) b \<le> cnt_of ic b" using assms by (simp add: ic_ok_def)
    with refs_pos [OF that] have "0 < cnt_of ic b" by linarith
    then obtain c s where "map_of (ic_base_2_cnt ic) b = Some (c, s)" "0 < c"
      by (auto simp: cnt_of_def unat_gt_0 word_gt_0 split: option.splits)
    with two show ?thesis by blast
  qed
qed

lemma InsertCachedChunk_ok:
  assumes ok: "ic_ok ic" and room: "cnt_of ic (ci_fp (w_info w)) + SUPER_FEATURE_PER_CHUNK < 2 ^ 32"
  shows "ic_ok (InsertCachedChunk ic w)"
proof -
  let ?b = "ci_fp (w_info w)" and ?fs = "take SUPER_FEATURE_PER_CHUNK (ci_features (w_info w))"
  let ?ic = "InsertCachedChunk ic w"
  have f2: "ic_feature_2_fp ?ic = umap.insert_all (ic_feature_2_fp ic) ?fs ?b"
    by (simp add: InsertCachedChunk_def Let_def UpdateFeatureIndex_umap split: option.splits)
  have data: "map_option (\<lambda>(c, s). s) (map_of (ic_base_2_cnt ic) b) =
      map_option (\<lambda>d. of_nat (length d)) (InMem_Query (ic_base_2_data ic) b)" for b
    using ok by (simp add: ic_ok_def)
  have len: "length ?fs \<le> SUPER_FEATURE_PER_CHUNK" by simp
  have three: "unat (of_nat SUPER_FEATURE_PER_CHUNK :: u32) = SUPER_FEATURE_PER_CHUNK"
    by (simp add: SUPER_FEATURE_PER_CHUNK_def)
  have cnt: "cnt_of ?ic b = cnt_of ic b + (if b = ?b then SUPER_FEATURE_PER_CHUNK else 0)" for b
    using room three by (auto simp: InsertCachedChunk_def Let_def cnt_of_def unat_word_ariths split: option.splits)
  have "refs (ic_feature_2_fp ?ic) b \<le> cnt_of ?ic b" for b
  proof -
    have "refs (ic_feature_2_fp ic) b \<le> cnt_of ic b" using ok by (simp add: ic_ok_def)
    with refs_insert_all [of "ic_feature_2_fp ic" ?fs ?b b] len cnt [of b] show ?thesis
      unfolding f2 by (auto split: if_splits)
  qed
  moreover have "umap_ok (ic_feature_2_fp ?ic)"
    unfolding f2 using ok by (intro umap.insert_all_ok) (simp add: ic_ok_def)
  moreover have "map_option (\<lambda>(c, s). s) (map_of (ic_base_2_cnt ?ic) b) =
      map_option (\<lambda>d. of_nat (length d)) (InMem_Query (ic_base_2_data ?ic) b)" for b
  proof (cases "map_of (ic_base_2_cnt ic) ?b")
    case None
    then show ?thesis using data [of b] ok
      by (simp add: InsertCachedChunk_def Let_def inmem.query_insert ic_ok_def)
  next
    case (Some cs)
    then show ?thesis using data [of b]
      by (cases cs) (auto simp: InsertCachedChunk_def Let_def)
  qed
  moreover have "umap_ok (ic_base_2_cnt ?ic)" "db_ok (ic_base_2_data ?ic)"
    using ok by (auto simp: ic_ok_def InsertCachedChunk_def Let_def inmem.ok_insert umap_ok_update split: option.splits)
  ultimately show ?thesis by (simp add: ic_ok_def)
qed

lemma evict_feature_ok:
  assumes ok: "ic_ok ic" and f: "map_of (ic_feature_2_fp ic) f = Some b"
  obtains ic' where "evict_feature ic f = Inr ic'" "ic_ok ic'"
    "map_of (ic_feature_2_fp ic') = (map_of (ic_feature_2_fp ic))(f := None)"
    "ic_base_2_data ic' = ic_base_2_data ic"
proof -
  obtain c s where c: "map_of (ic_base_2_cnt ic) b = Some (c, s)" "0 < c"
    using ic_okD(1) [OF ok f] by blast
  let ?ic = "ic \<lparr> ic_base_2_cnt := AList.update b (c - 1, s) (ic_base_2_cnt ic),
                  ic_feature_2_fp := AList.delete f (ic_feature_2_fp ic) \<rparr>"
  have run: "evict_feature ic f = Inr ?ic" using f c by (simp add: evict_feature_def)
  have dec: "unat (c - 1) = unat c - 1" using c(2) by (simp add: unat_minus_one word_gt_0)
  have "refs (ic_feature_2_fp ?ic) x \<le> cnt_of ?ic x" for x
  proof -
    have "refs (ic_feature_2_fp ic) x \<le> cnt_of ic x" "umap_ok (ic_feature_2_fp ic)" using ok by (simp_all add: ic_ok_def)
    with refs_delete [of "ic_feature_2_fp ic" x f] f c dec show ?thesis
      by (auto simp: cnt_of_def split: if_splits)
  qed
  moreover have "map_option (\<lambda>(c, s). s) (map_of (ic_base_2_cnt ?ic) x) =
      map_option (\<lambda>d. of_nat (length d)) (InMem_Query (ic_base_2_data ?ic) x)" for x
    using ok c by (cases "x = b") (auto simp: ic_ok_def dest: spec [of _ b])
  ultimately have "ic_ok ?ic"
    using ok by (simp add: ic_ok_def umap_ok_update umap_ok_delete)
  with run show thesis by (intro that [of ?ic]) simp_all
qed

lemma foldR_evict_ok:
  assumes "ic_ok ic" "distinct fs" "set fs \<subseteq> dom (map_of (ic_feature_2_fp ic))"
  shows "\<exists>ic'. foldR evict_feature ic fs = Inr ic' \<and> ic_ok ic' \<and>
    map_of (ic_feature_2_fp ic') = (map_of (ic_feature_2_fp ic)) |` (- set fs) \<and>
    ic_base_2_data ic' = ic_base_2_data ic"
  using assms
proof (induction fs arbitrary: ic)
  case Nil
  then show ?case by simp
next
  case (Cons f fs)
  then obtain b where b: "map_of (ic_feature_2_fp ic) f = Some b" by auto
  obtain ic1 where 1: "evict_feature ic f = Inr ic1" "ic_ok ic1"
      "map_of (ic_feature_2_fp ic1) = (map_of (ic_feature_2_fp ic))(f := None)"
      "ic_base_2_data ic1 = ic_base_2_data ic"
    by (rule evict_feature_ok [OF Cons.prems(1) b])
  moreover have "set fs \<subseteq> dom (map_of (ic_feature_2_fp ic1))" using Cons.prems 1(3) by auto
  moreover have "distinct fs" using Cons.prems(2) by simp
  ultimately obtain ic2 where 2: "foldR evict_feature ic1 fs = Inr ic2" "ic_ok ic2"
      "map_of (ic_feature_2_fp ic2) = (map_of (ic_feature_2_fp ic1)) |` (- set fs)"
      "ic_base_2_data ic2 = ic_base_2_data ic1"
    using Cons.IH by blast
  have "map_of (ic_feature_2_fp ic2) = (map_of (ic_feature_2_fp ic)) |` (- set (f # fs))"
    using 1(3) 2(3) by (auto simp: restrict_map_def fun_eq_iff)
  with 1 2 show ?case by simp
qed

definition feature_bytes :: "u64 list \<Rightarrow> bytes" where
  "feature_bytes fs = concat (map u64_le fs)"

lemma length_feature_bytes [simp]: "length (feature_bytes fs) = 8 * length fs"
  by (induction fs) (simp_all add: feature_bytes_def)

lemma feature_at_bytes: "i < length fs \<Longrightarrow> feature_at (feature_bytes fs) i = fs ! i"
proof (induction fs arbitrary: i)
  case Nil
  then show ?case by simp
next
  case (Cons f fs)
  show ?case
  proof (cases i)
    case 0
    then show ?thesis by (simp add: feature_at_def feature_bytes_def)
  next
    case (Suc j)
    have "feature_at (feature_bytes (f # fs)) i = feature_at (feature_bytes fs) j"
      by (simp add: feature_at_def feature_bytes_def Suc)
    with Cons Suc show ?thesis by simp
  qed
qed

lemma features_of_bytes:
  "map (feature_at (feature_bytes fs)) [0..<length (feature_bytes fs) div 8] = fs"
  by (rule nth_equalityI) (simp_all add: feature_at_bytes)

text \<open>
  Evicting features that are indexed never makes the server exit: the reference count of the
  base of every indexed feature is present, and the invariant of the cache is kept. The evicted
  features are gone, the other features keep their base, and no base chunk is deleted yet.
\<close>

theorem EvictCacheChunk_ok:
  assumes "ic_ok ic" "distinct fs" "set fs \<subseteq> dom (map_of (ic_feature_2_fp ic))"
    and "w_data evict_chunk = feature_bytes fs"
  shows "\<exists>ic'. EvictCacheChunk ic evict_chunk = Inr ic' \<and> ic_ok ic' \<and>
    map_of (ic_feature_2_fp ic') = (map_of (ic_feature_2_fp ic)) |` (- set fs) \<and>
    ic_base_2_data ic' = ic_base_2_data ic"
  using foldR_evict_ok [OF assms(1-3)] features_of_bytes [of fs]
  by (simp add: EvictCacheChunk_def assms(4) del: length_feature_bytes)

definition ic_demo :: inform_cache where
  "ic_demo = \<lparr> ic_feature_2_fp = [(1, [9]), (2, [9]), (3, [9])], ic_base_2_cnt = [([9], (3, 2))],
              ic_base_2_data = \<lparr> index_obj = [([9], [5, 6])] \<rparr> \<rparr>"

lemma ic_demo_ok: "ic_ok ic_demo"
  by (auto simp: ic_ok_def ic_demo_def db_ok_def InMem_Query_def cnt_of_def)

theorem EvictCacheChunk_ok_witness:
  "\<exists>ic'. EvictCacheChunk ic_demo \<lparr> w_info = undefined, w_data = feature_bytes [2, 1] \<rparr> = Inr ic' \<and> ic_ok ic' \<and>
    map_of (ic_feature_2_fp ic') = (map_of (ic_feature_2_fp ic_demo)) |` (- set [2, 1]) \<and>
    ic_base_2_data ic' = ic_base_2_data ic_demo"
  by (rule EvictCacheChunk_ok [OF ic_demo_ok]) (simp_all add: ic_demo_def)

lemma ProcessNormalChunk_base:
  assumes iter: "\<And>m. mset (iter m) = mset m" and ok: "ic_ok ic"
    and enc: "\<And>b. denc b (w_data w) \<noteq> None"
    and fp: "\<And>f b. map_of (ic_feature_2_fp ic) f = Some b \<Longrightarrow> length b = CHUNK_HASH_SIZE"
  shows "\<exists>ret inp out. ProcessNormalChunk denc iter ic w o_chunk = Inr (ret, inp, out) \<and>
    (ret \<longleftrightarrow> (\<exists>f \<in> set (take SUPER_FEATURE_PER_CHUNK (ci_features (w_info w))). map_of (ic_feature_2_fp ic) f \<noteq> None)) \<and>
    (ret \<longrightarrow> (\<exists>f b base delta. f \<in> set (take SUPER_FEATURE_PER_CHUNK (ci_features (w_info w))) \<and>
        map_of (ic_feature_2_fp ic) f = Some b \<and> InMem_Query (ic_base_2_data ic) b = Some base \<and>
        denc base (w_data w) = Some delta \<and> w_data out = delta \<and> a_base_fp (ci_addr (w_info out)) = b \<and>
        ci_fp (w_info out) = ci_fp (w_info w) \<and> ci_stat (w_info out) = CACHE_DELTA_CHUNK))"
proof -
  let ?fs = "take SUPER_FEATURE_PER_CHUNK (ci_features (w_info w))"
  let ?q = "map_of (ic_feature_2_fp ic)"
  note F = FindBaseChunk_choose [OF iter refl, of ?q "w_info w"]
  show ?thesis
  proof (cases "choose_base (hits ?q ?fs)")
    case None
    then have "\<forall>f \<in> set ?fs. ?q f = None" by (simp add: choose_base_None hits_Nil_iff)
    with None F show ?thesis by (auto simp: ProcessNormalChunk_def Let_def)
  next
    case (Some b)
    then have "b \<in> set (hits ?q ?fs)" by (rule choose_base_in)
    then obtain f where f: "f \<in> set ?fs" "?q f = Some b"
      by (auto simp: hits_def List.map_filter_def)
    obtain base where base: "InMem_Query (ic_base_2_data ic) b = Some base"
      using ic_okD(1) [OF ok f(2)] by blast
    obtain delta where delta: "denc base (w_data w) = Some delta" using enc by blast
    have b32: "take CHUNK_HASH_SIZE b = b" using fp [OF f(2)] by simp
    with base have q: "InMem_QueryBuffer (ic_base_2_data ic) b CHUNK_HASH_SIZE = Some base"
      by (simp add: InMem_QueryBuffer_def InMem_Query_def)
    show ?thesis
      using F Some q delta f base b32
      by (simp add: ProcessNormalChunk_def Let_def) blast
  qed
qed

text \<open>
  C31. Looking a chunk up in the cache never hits the missing-base exit: the search ends as not
  similar exactly when none of the three features is announced, and otherwise the chunk is
  delta-encoded against the base chunk that one of its features points to.
\<close>

theorem ProcessNormalChunk_finds_base:
  assumes iter: "\<And>m. mset (iter m) = mset m" and ok: "ic_ok ic"
    and enc: "\<And>b. denc b (w_data w) \<noteq> None"
    and fp: "\<And>f b. map_of (ic_feature_2_fp ic) f = Some b \<Longrightarrow> length b = CHUNK_HASH_SIZE"
  shows "\<exists>ret inp out. ProcessNormalChunk denc iter ic w o_chunk = Inr (ret, inp, out) \<and>
    (ret \<longleftrightarrow> (\<exists>f \<in> set (take SUPER_FEATURE_PER_CHUNK (ci_features (w_info w))). map_of (ic_feature_2_fp ic) f \<noteq> None)) \<and>
    (ret \<longrightarrow> (\<exists>f b base delta. f \<in> set (take SUPER_FEATURE_PER_CHUNK (ci_features (w_info w))) \<and>
        map_of (ic_feature_2_fp ic) f = Some b \<and> InMem_Query (ic_base_2_data ic) b = Some base \<and>
        denc base (w_data w) = Some delta \<and> w_data out = delta \<and> a_base_fp (ci_addr (w_info out)) = b \<and>
        ci_fp (w_info out) = ci_fp (w_info w) \<and> ci_stat (w_info out) = CACHE_DELTA_CHUNK))"
  using assms by (rule ProcessNormalChunk_base)

theorem ProcessNormalChunk_finds_base_witness:
  "\<exists>ret inp out. ProcessNormalChunk (\<lambda>b d. Some (b @ d)) rev
      \<lparr> ic_feature_2_fp = [(1, replicate 32 7)], ic_base_2_cnt = [(replicate 32 7, (1, 1))],
        ic_base_2_data = \<lparr> index_obj = [(replicate 32 7, [5])] \<rparr> \<rparr>
      \<lparr> w_info = \<lparr> ci_fp = [], ci_features = [4, 1, 6], ci_addr = undefined, ci_stat = UNIQUE_CHUNK \<rparr>, w_data = [8] \<rparr>
      undefined = Inr (ret, inp, out) \<and> ret"
proof -
  let ?ic = "\<lparr> ic_feature_2_fp = [(1, replicate 32 7)], ic_base_2_cnt = [(replicate 32 7, (1, 1))],
        ic_base_2_data = \<lparr> index_obj = [(replicate 32 7, [5])] \<rparr> \<rparr> :: inform_cache"
  let ?w = "\<lparr> w_info = \<lparr> ci_fp = [], ci_features = [4, 1, 6], ci_addr = undefined, ci_stat = UNIQUE_CHUNK \<rparr>,
      w_data = [8] \<rparr> :: wrapped_chunk"
  have ok: "ic_ok ?ic" by (auto simp: ic_ok_def db_ok_def InMem_Query_def cnt_of_def)
  have fp: "length b = CHUNK_HASH_SIZE" if "map_of (ic_feature_2_fp ?ic) f = Some b" for f b
    using that by (auto simp: CHUNK_HASH_SIZE_def split: if_splits)
  have hit: "\<exists>f \<in> set (take SUPER_FEATURE_PER_CHUNK (ci_features (w_info ?w))). map_of (ic_feature_2_fp ?ic) f \<noteq> None"
    by (simp add: SUPER_FEATURE_PER_CHUNK_def)
  have enc: "(\<lambda>b d. Some (b @ d)) b d \<noteq> None" for b d :: bytes by simp
  show ?thesis
    by (rule exE [OF ProcessNormalChunk_finds_base [where denc = "\<lambda>b d. Some (b @ d)" and iter = rev and ic = ?ic
          and w = ?w and o_chunk = undefined, OF mset_rev ok enc fp]]) (use hit in blast)+
qed

subsection \<open>Deleting unreferenced bases, and the index files\<close>

definition delete_step :: "bytes \<times> u32 \<times> u32 \<Rightarrow> inform_cache \<times> u64 \<Rightarrow> inform_cache \<times> u64" where
  "delete_step = (\<lambda>(base, cnt, chunk_size) (ic, total).
            if cnt = 0
            then (ic \<lparr> ic_base_2_data := InMem_Delete (ic_base_2_data ic) base,
                       ic_base_2_cnt := AList.delete base (ic_base_2_cnt ic) \<rparr>, total)
            else (ic, total + ucast chunk_size))"

definition unreferenced :: "(bytes \<times> u32 \<times> u32) list \<Rightarrow> bytes \<Rightarrow> bool" where
  "unreferenced L b \<longleftrightarrow> (\<exists>s. (b, 0, s) \<in> set L)"

lemma delete_fold:
  assumes "umap_ok (ic_base_2_cnt ic)" "db_ok (ic_base_2_data ic)"
    and "fold delete_step L (ic, t) = (ic', t')"
  shows "ic_feature_2_fp ic' = ic_feature_2_fp ic \<and> umap_ok (ic_base_2_cnt ic') \<and> db_ok (ic_base_2_data ic') \<and>
    (\<forall>b. map_of (ic_base_2_cnt ic') b = (if unreferenced L b then None else map_of (ic_base_2_cnt ic) b)) \<and>
    (\<forall>b. InMem_Query (ic_base_2_data ic') b =
       (if unreferenced L b then None else InMem_Query (ic_base_2_data ic) b)) \<and>
    t' = t + sum_list (map (\<lambda>(b, c, s). if c = 0 then 0 else ucast s) L)"
  using assms
proof (induction L arbitrary: ic t)
  case Nil
  then show ?case by (simp add: unreferenced_def)
next
  case (Cons e L)
  obtain b c s where e: "e = (b, c, s)" by (cases e)
  obtain ic1 t1 where s1: "delete_step e (ic, t) = (ic1, t1)" by (cases "delete_step e (ic, t)")
  have f: "fold delete_step L (ic1, t1) = (ic', t')" using Cons.prems(3) s1 by simp
  have one: "ic_feature_2_fp ic1 = ic_feature_2_fp ic" "umap_ok (ic_base_2_cnt ic1)" "db_ok (ic_base_2_data ic1)"
      "map_of (ic_base_2_cnt ic1) x = (if x = b \<and> c = 0 then None else map_of (ic_base_2_cnt ic) x)"
      "InMem_Query (ic_base_2_data ic1) x = (if x = b \<and> c = 0 then None else InMem_Query (ic_base_2_data ic) x)"
      "t1 = t + (if c = 0 then 0 else ucast s)" for x
    using s1 Cons.prems(1,2)
    by (auto simp: delete_step_def e inmem.query_delete inmem.ok_delete umap_ok_delete split: if_splits)
  have u: "unreferenced ((b, c, s) # L) x \<longleftrightarrow> (x = b \<and> c = 0) \<or> unreferenced L x" for x
    by (auto simp: unreferenced_def)
  show ?case
    using Cons.IH [OF one(2,3) f] one(1,4,5,6) by (auto simp: u e add.assoc)
qed

lemma unreferenced_iff:
  "ic_ok ic \<Longrightarrow> unreferenced (ic_base_2_cnt ic) b \<longleftrightarrow> (\<exists>s. map_of (ic_base_2_cnt ic) b = Some (0, s))"
  by (auto simp: unreferenced_def ic_ok_def map_of_eq_Some_iff)

text \<open>
  Deleting evicted chunks removes exactly the bases that no feature refers to any more (count
  zero): the features, the other bases and the invariant are kept, and the reported cache size
  is the sum of the sizes of the bases that stay.
\<close>

theorem DeleteEvictChunk_correct:
  assumes "ic_ok ic" and "DeleteEvictChunk ic = (ic', cache_size)"
  shows "ic_ok ic' \<and> ic_feature_2_fp ic' = ic_feature_2_fp ic \<and>
    InMem_Query (ic_base_2_data ic') =
      (\<lambda>b. if cnt_of ic b = 0 then None else InMem_Query (ic_base_2_data ic) b) \<and>
    (\<forall>b. 0 < cnt_of ic b \<longrightarrow> cnt_of ic' b = cnt_of ic b) \<and>
    cache_size = sum_list (map (\<lambda>(b, c, s). if c = 0 then 0 else ucast s) (ic_base_2_cnt ic))"
proof -
  have f: "fold delete_step (ic_base_2_cnt ic) (ic, 0) = (ic', cache_size)"
    using assms(2) by (simp add: DeleteEvictChunk_def delete_step_def)
  have wf: "umap_ok (ic_base_2_cnt ic)" "db_ok (ic_base_2_data ic)" using assms(1) by (simp_all add: ic_ok_def)
  note d = delete_fold [OF wf f]
  have u: "unreferenced (ic_base_2_cnt ic) b \<longleftrightarrow> map_of (ic_base_2_cnt ic) b \<noteq> None \<and> cnt_of ic b = 0" for b
    unfolding unreferenced_iff [OF assms(1)]
    by (auto simp: cnt_of_def unat_eq_0 split: option.splits prod.splits)
  have c: "cnt_of ic' b = cnt_of ic b" for b
    using d u [of b] by (auto simp: cnt_of_def split: option.splits)
  have q: "InMem_Query (ic_base_2_data ic') b = (if cnt_of ic b = 0 then None else InMem_Query (ic_base_2_data ic) b)" for b
    using d u [of b] ic_okD(3) [OF assms(1), of b]
    by (cases "InMem_Query (ic_base_2_data ic) b") auto
  have "map_option (\<lambda>(c, s). s) (map_of (ic_base_2_cnt ic') b) =
      map_option (\<lambda>d. of_nat (length d)) (InMem_Query (ic_base_2_data ic') b)" for b
    using assms(1) d by (simp add: ic_ok_def)
  with d c have "ic_ok ic'" using assms(1) by (simp add: ic_ok_def)
  with d c q show ?thesis by (auto simp: fun_eq_iff)
qed

theorem DeleteEvictChunk_correct_witness:
  "ic_ok (fst (DeleteEvictChunk ic_demo)) \<and>
   ic_feature_2_fp (fst (DeleteEvictChunk ic_demo)) = ic_feature_2_fp ic_demo"
  using DeleteEvictChunk_correct [OF ic_demo_ok, of "fst (DeleteEvictChunk ic_demo)" "snd (DeleteEvictChunk ic_demo)"]
  by simp

lemma le_nat_u64_le: "n < 2 ^ 64 \<Longrightarrow> le_nat (u64_le (of_nat n)) = n"
  by (simp add: u64_le_def le_nat_nat_le unat_of_nat)

lemma read_fields:
  "length a = n \<Longrightarrow> length old = n \<Longrightarrow> read_field n (a @ b, False) old = (a, (b, False))"
  by simp

lemma load_cnt_entries:
  "\<forall>e \<in> set L. length (fst e) = CHUNK_HASH_SIZE \<Longrightarrow>
   length fp = CHUNK_HASH_SIZE \<Longrightarrow> length c = 4 \<Longrightarrow> length s = 4 \<Longrightarrow>
   load_cnt (length L) (concat (map cnt_entry L), False) (fp, c, s) idx = umap_inserts idx L"
proof (induction L arbitrary: fp c s idx)
  case Nil
  then show ?case by simp
next
  case (Cons e L)
  obtain b k sz where e: "e = (b, k, sz)" by (cases e)
  then have "concat (map cnt_entry (e # L)) = b @ u32_le k @ u32_le sz @ concat (map cnt_entry L)"
    using Cons.prems by (simp add: cnt_entry_def)
  with Cons e show ?case by simp
qed

lemma load_idx_entries:
  "\<forall>e \<in> set L. length (snd e) = CHUNK_HASH_SIZE \<Longrightarrow>
   length f = 8 \<Longrightarrow> length fp = CHUNK_HASH_SIZE \<Longrightarrow>
   load_idx (length L) (concat (map idx_entry L), False) (f, fp) idx = umap_inserts idx L"
proof (induction L arbitrary: f fp idx)
  case Nil
  then show ?case by simp
next
  case (Cons e L)
  obtain k b where e: "e = (k, b)" by (cases e)
  then have "concat (map idx_entry (e # L)) = u64_le k @ b @ concat (map idx_entry L)"
    using Cons.prems by (simp add: idx_entry_def)
  with Cons e show ?case by simp
qed

lemma refs_ge_Nil:
  assumes "ic_ok ic" "ic_base_2_cnt ic = []" shows "ic_feature_2_fp ic = []"
proof (rule ccontr)
  assume "ic_feature_2_fp ic \<noteq> []"
  then obtain f b m where "ic_feature_2_fp ic = (f, b) # m" by (cases "ic_feature_2_fp ic") auto
  then have "map_of (ic_feature_2_fp ic) f = Some b" by simp
  from ic_okD(1) [OF assms(1) this] assms(2) show False by simp
qed

text \<open>
  The cache index survives a server restart: what \<open>StoreCntIdx\<close> writes into the two files,
  \<open>LoadCntIdx\<close> reads back. The loader skips the feature file when the count file holds no
  entry; that loses nothing because of the reference-count invariant.
\<close>

theorem StoreCntIdx_LoadCntIdx:
  assumes ok: "ic_ok ic"
    and fp: "\<forall>e \<in> set (ic_base_2_cnt ic). length (fst e) = CHUNK_HASH_SIZE"
      "\<forall>e \<in> set (ic_feature_2_fp ic). length (snd e) = CHUNK_HASH_SIZE"
    and small: "length (ic_base_2_cnt ic) < 2 ^ 64" "length (ic_feature_2_fp ic) < 2 ^ 64"
    and files: "StoreCntIdx ic = (cnt_file, idx_file)"
  shows "LoadCntIdx (Some cnt_file) (Some idx_file) = (ic_base_2_cnt ic, ic_feature_2_fp ic)"
proof -
  let ?c = "ic_base_2_cnt ic" and ?f = "ic_feature_2_fp ic"
  have cf: "cnt_file = u64_le (of_nat (length ?c)) @ concat (map cnt_entry ?c)"
    "idx_file = u64_le (of_nat (length ?f)) @ concat (map idx_entry ?f)"
    using files by (simp_all add: StoreCntIdx_def)
  have um: "umap_inserts [] ?c = ?c" "umap_inserts [] ?f = ?f"
    using ok by (simp_all add: umap_inserts_fresh ic_ok_def)
  have lc: "load_cnt (length ?c) (concat (map cnt_entry ?c), False)
      (replicate CHUNK_HASH_SIZE 0, nat_le 4 0, nat_le 4 0) [] = ?c"
    using load_cnt_entries [OF fp(1)] um(1) by simp
  have lf: "load_idx (length ?f) (concat (map idx_entry ?f), False)
      (nat_le 8 0, replicate CHUNK_HASH_SIZE 0) [] = ?f"
    using load_idx_entries [OF fp(2)] um(2) by simp
  show ?thesis
  proof (cases "?c = []")
    case True
    have "le_nat (u64_le 0) = 0" using le_nat_u64_le [of 0] by simp
    with True refs_ge_Nil [OF ok] show ?thesis
      by (simp add: LoadCntIdx_def cf)
  next
    case False
    then show ?thesis using lc lf small
      by (simp add: LoadCntIdx_def cf le_nat_u64_le Let_def)
  qed
qed

theorem StoreCntIdx_LoadCntIdx_witness:
  "LoadCntIdx (Some (fst (StoreCntIdx ic_new))) (Some (snd (StoreCntIdx ic_new))) =
     (ic_base_2_cnt ic_new, ic_feature_2_fp ic_new) \<and>
   LoadCntIdx (Some (fst (StoreCntIdx
        \<lparr> ic_feature_2_fp = [(1, replicate 32 7)], ic_base_2_cnt = [(replicate 32 7, (1, 1))],
          ic_base_2_data = \<lparr> index_obj = [(replicate 32 7, [5])] \<rparr> \<rparr>)))
     (Some (snd (StoreCntIdx
        \<lparr> ic_feature_2_fp = [(1, replicate 32 7)], ic_base_2_cnt = [(replicate 32 7, (1, 1))],
          ic_base_2_data = \<lparr> index_obj = [(replicate 32 7, [5])] \<rparr> \<rparr>))) =
     ([(replicate 32 7, (1, 1))], [(1, replicate 32 7)])"
proof -
  let ?ic = "\<lparr> ic_feature_2_fp = [(1, replicate 32 7)], ic_base_2_cnt = [(replicate 32 7, (1, 1))],
        ic_base_2_data = \<lparr> index_obj = [(replicate 32 7, [5])] \<rparr> \<rparr> :: inform_cache"
  have ok: "ic_ok ?ic" by (auto simp: ic_ok_def db_ok_def InMem_Query_def cnt_of_def)
  have "LoadCntIdx (Some (fst (StoreCntIdx ?ic))) (Some (snd (StoreCntIdx ?ic))) =
      (ic_base_2_cnt ?ic, ic_feature_2_fp ?ic)"
    by (rule StoreCntIdx_LoadCntIdx [OF ok _ _ _ _ prod.collapse [symmetric]]) (simp_all add: CHUNK_HASH_SIZE_def)
  moreover have "LoadCntIdx (Some (fst (StoreCntIdx ic_new))) (Some (snd (StoreCntIdx ic_new))) =
      (ic_base_2_cnt ic_new, ic_feature_2_fp ic_new)"
    by (rule StoreCntIdx_LoadCntIdx [OF ic_new_ok _ _ _ _ prod.collapse [symmetric]]) (simp_all add: ic_new_def)
  ultimately show ?thesis by simp
qed

end
