(* ===== verification/Cache_Meta.thy ===== *)
theory Cache_Meta
  imports Inform_Cache
begin

text \<open>
  The client side of the informed cache, \<open>src/client/cache_meta.cc\<close>: the version in which each
  announced feature was last used, the eviction of features that the current upload did not
  use, and the file that keeps the table between runs. Messages are pairs of the item count and
  the payload; their transport is a parameter of the threads that send them.
\<close>

subsection \<open>State and operations\<close>

record cache_meta =
  cm_total_similar :: u64                    \<comment> \<open>\<open>_total_similar_chunk\<close>\<close>
  cm_cur_version :: u32                      \<comment> \<open>\<open>cur_version_num_\<close>\<close>
  cm_feature_2_version :: "(u64, u32) umap"  \<comment> \<open>\<open>feature_2_version_idx_\<close>\<close>
  cm_buf_cnt :: nat                          \<comment> \<open>\<open>evict_feature_buf_.header->cur_item_num\<close>\<close>
  cm_buf :: bytes                            \<comment> \<open>its data, \<open>header->size\<close> bytes\<close>
  cm_batch :: nat                            \<comment> \<open>\<open>send_recipe_batch_size_\<close>\<close>

definition last_n_para :: u32 where "last_n_para = 1"

definition UpdateCacheMeta :: "cache_meta \<Rightarrow> u64 list \<Rightarrow> cache_meta" where
  "UpdateCacheMeta cm features =
     cm \<lparr> cm_feature_2_version :=
            fold (\<lambda>f m. AList.update f (cm_cur_version cm) m) (take SUPER_FEATURE_PER_CHUNK features)
              (cm_feature_2_version cm) \<rparr>"

definition query_step :: "u32 \<Rightarrow> u64 \<Rightarrow> (u64, u32) umap \<times> bool \<Rightarrow> (u64, u32) umap \<times> bool" where
  "query_step version f st =
    (case st of (m, is_similar) \<Rightarrow>
       if map_of m f \<noteq> None then (AList.update f version m, True) else (m, is_similar))"

definition QueryCacheMeta :: "cache_meta \<Rightarrow> u64 list \<Rightarrow> cache_meta \<times> bool" where
  "QueryCacheMeta cm features =
    (case fold (query_step (cm_cur_version cm)) (take SUPER_FEATURE_PER_CHUNK features)
            (cm_feature_2_version cm, False) of
       (m, is_similar) \<Rightarrow>
         (cm \<lparr> cm_feature_2_version := m,
               cm_total_similar := (if is_similar then cm_total_similar cm + 1 else cm_total_similar cm) \<rparr>,
          is_similar))"

type_synonym feature_msg = "nat \<times> bytes"

definition SendFeatures :: "cache_meta \<Rightarrow> cache_meta \<times> feature_msg" where
  \<comment> \<open>the message of type \<open>CLIENT_UPLOAD_FEATURE\<close>; then the buffer is reset\<close>
  "SendFeatures cm = (cm \<lparr> cm_buf_cnt := 0, cm_buf := [] \<rparr>, (cm_buf_cnt cm, cm_buf cm))"

definition evict_meta_step :: "u64 \<times> u32 \<Rightarrow> cache_meta \<times> feature_msg list \<Rightarrow> cache_meta \<times> feature_msg list" where
  "evict_meta_step e st =
    (case e of (f, version) \<Rightarrow> case st of (cm, msgs) \<Rightarrow>
       if last_n_para \<le> cm_cur_version cm - version then
         (let cm = cm \<lparr> cm_buf := cm_buf cm @ u64_le f, cm_buf_cnt := cm_buf_cnt cm + 1 \<rparr>;
              (cm, msgs) = (if cm_buf_cnt cm mod cm_batch cm = 0
                            then (case SendFeatures cm of (cm, msg) \<Rightarrow> (cm, msgs @ [msg]))
                            else (cm, msgs))
          in (cm \<lparr> cm_feature_2_version := AList.delete f (cm_feature_2_version cm) \<rparr>, msgs))
       else (cm, msgs))"

definition EvictFeature :: "cache_meta \<Rightarrow> cache_meta \<times> feature_msg list" where
  "EvictFeature cm =
    (case fold evict_meta_step (cm_feature_2_version cm) (cm, []) of
       (cm, msgs) \<Rightarrow>
         if cm_buf_cnt cm \<noteq> 0 then (case SendFeatures cm of (cm, msg) \<Rightarrow> (cm, msgs @ [msg]))
         else (cm, msgs))"

definition meta_entry :: "u64 \<times> u32 \<Rightarrow> bytes" where
  "meta_entry e = u64_le (fst e) @ u32_le (snd e)"

definition StoreCacheMeta :: "cache_meta \<Rightarrow> bytes" where
  "StoreCacheMeta cm =
     u64_le (cm_total_similar cm) @ u32_le (cm_cur_version cm) @
     u64_le (of_nat (length (cm_feature_2_version cm))) @ concat (map meta_entry (cm_feature_2_version cm))"

fun load_meta :: "nat \<Rightarrow> istream \<Rightarrow> bytes \<times> bytes \<Rightarrow> (u64, u32) umap \<Rightarrow> (u64, u32) umap" where
  "load_meta 0 st _ idx = idx"
| "load_meta (Suc n) st (feature, version) idx =
    (let (feature, st) = read_field 8 st feature;
         (version, st) = read_field 4 st version
     in load_meta n st (feature, version) (AList.update (le_u64 feature) (le_u32 version) idx))"

definition LoadCacheMeta :: "cache_meta \<Rightarrow> bytes option \<Rightarrow> cache_meta" where
  "LoadCacheMeta cm db_file =
    (case db_file of
       None \<Rightarrow> cm
     | Some content \<Rightarrow>
         if length content = 0 then cm
         else let (a, st) = read_field 8 (content, False) (u64_le (cm_total_similar cm));
                  (b, st) = read_field 4 st (u32_le (cm_cur_version cm));
                  cm = cm \<lparr> cm_total_similar := le_u64 a, cm_cur_version := le_u32 b \<rparr>;
                  (num, st) = read_field 8 st (nat_le 8 0)
              in if le_nat num = 0 then cm
                 else cm \<lparr> cm_feature_2_version :=
                        load_meta (le_nat num) st (nat_le 8 0, nat_le 4 0) (cm_feature_2_version cm) \<rparr>)"

definition CacheMeta_new :: "nat \<Rightarrow> bytes option \<Rightarrow> cache_meta" where
  \<comment> \<open>the constructor: load, then start the next version\<close>
  "CacheMeta_new batch db_file =
    (let cm = LoadCacheMeta \<lparr> cm_total_similar = 0, cm_cur_version = 0, cm_feature_2_version = [],
                              cm_buf_cnt = 0, cm_buf = [], cm_batch = batch \<rparr> db_file
     in cm \<lparr> cm_cur_version := cm_cur_version cm + 1 \<rparr>)"

definition GetFeatureNum :: "cache_meta \<Rightarrow> nat" where
  "GetFeatureNum cm = length (cm_feature_2_version cm)"

subsection \<open>Queries and updates\<close>

abbreviation cm_dom :: "cache_meta \<Rightarrow> u64 set" where
  "cm_dom cm \<equiv> dom (map_of (cm_feature_2_version cm))"

definition cm_ok :: "cache_meta \<Rightarrow> bool" where
  "cm_ok cm \<longleftrightarrow> umap_ok (cm_feature_2_version cm) \<and> 0 < cm_batch cm \<and> cm_buf cm = [] \<and> cm_buf_cnt cm = 0"

lemma fold_update_map_of:
  "map_of (fold (\<lambda>f m. AList.update f v m) fs m) k = (if k \<in> set fs then Some v else map_of m k)"
  by (induction fs arbitrary: m) auto

lemma fold_update_ok: "umap_ok m \<Longrightarrow> umap_ok (fold (\<lambda>f m. AList.update f v m) fs m)"
  by (induction fs arbitrary: m) (auto intro: umap_ok_update)

lemma UpdateCacheMeta_dom:
  "cm_dom (UpdateCacheMeta cm fs) = cm_dom cm \<union> set (take SUPER_FEATURE_PER_CHUNK fs)"
  by (auto simp: UpdateCacheMeta_def fold_update_map_of dom_def)

lemma UpdateCacheMeta_ok: "cm_ok cm \<Longrightarrow> cm_ok (UpdateCacheMeta cm fs)"
  by (simp add: cm_ok_def UpdateCacheMeta_def fold_update_ok)

lemma query_fold:
  "fold (query_step v) fs (m, sim) = (m', sim') \<Longrightarrow>
   (umap_ok m \<longrightarrow> umap_ok m') \<and> dom (map_of m') = dom (map_of m) \<and>
   (sim' \<longleftrightarrow> sim \<or> (\<exists>f \<in> set fs. f \<in> dom (map_of m))) \<and>
   (\<forall>k. map_of m' k = (if k \<in> set fs \<and> k \<in> dom (map_of m) then Some v else map_of m k))"
proof (induction fs arbitrary: m sim)
  case Nil
  then show ?case by simp
next
  case (Cons f fs)
  obtain m1 s1 where q: "query_step v f (m, sim) = (m1, s1)" by (cases "query_step v f (m, sim)")
  have one: "umap_ok m \<longrightarrow> umap_ok m1" "dom (map_of m1) = dom (map_of m)"
      "s1 \<longleftrightarrow> sim \<or> f \<in> dom (map_of m)"
      "map_of m1 k = (if k = f \<and> k \<in> dom (map_of m) then Some v else map_of m k)" for k
    using q by (auto simp: query_step_def umap_ok_update split: if_splits)
  have "fold (query_step v) fs (m1, s1) = (m', sim')" using Cons.prems q by simp
  note ih = Cons.IH [OF this, unfolded one(2)]
  show ?case
  proof (intro conjI allI)
    show "umap_ok m \<longrightarrow> umap_ok m'" using ih one(1) by blast
    show "dom (map_of m') = dom (map_of m)" using ih by blast
    show "sim' \<longleftrightarrow> sim \<or> (\<exists>g \<in> set (f # fs). g \<in> dom (map_of m))"
      using ih one(3) by auto
    show "map_of m' k = (if k \<in> set (f # fs) \<and> k \<in> dom (map_of m) then Some v else map_of m k)" for k
      using ih one(4) [of k] by (cases "k \<in> set fs"; cases "k = f") simp_all
  qed
qed

lemma QueryCacheMeta_spec:
  assumes "QueryCacheMeta cm fs = (cm', sim)"
  shows "cm_ok cm \<longrightarrow> cm_ok cm'" and "cm_dom cm' = cm_dom cm"
    and "sim \<longleftrightarrow> (\<exists>f \<in> set (take SUPER_FEATURE_PER_CHUNK fs). f \<in> cm_dom cm)"
    and "map_of (cm_feature_2_version cm') f =
      (if f \<in> set (take SUPER_FEATURE_PER_CHUNK fs) \<and> f \<in> cm_dom cm then Some (cm_cur_version cm)
       else map_of (cm_feature_2_version cm) f)"
    and "cm_cur_version cm' = cm_cur_version cm" and "cm_batch cm' = cm_batch cm"
proof -
  obtain m where m: "fold (query_step (cm_cur_version cm)) (take SUPER_FEATURE_PER_CHUNK fs)
      (cm_feature_2_version cm, False) = (m, sim)" "cm_feature_2_version cm' = m"
      "cm_buf cm' = cm_buf cm" "cm_buf_cnt cm' = cm_buf_cnt cm" "cm_batch cm' = cm_batch cm"
      "cm_cur_version cm' = cm_cur_version cm"
    using assms by (auto simp: QueryCacheMeta_def split: prod.splits)
  from query_fold [OF m(1)] m(2-)
  show "cm_ok cm \<longrightarrow> cm_ok cm'" "cm_dom cm' = cm_dom cm"
    "sim \<longleftrightarrow> (\<exists>f \<in> set (take SUPER_FEATURE_PER_CHUNK fs). f \<in> cm_dom cm)"
    "map_of (cm_feature_2_version cm') f =
      (if f \<in> set (take SUPER_FEATURE_PER_CHUNK fs) \<and> f \<in> cm_dom cm then Some (cm_cur_version cm)
       else map_of (cm_feature_2_version cm) f)"
    "cm_cur_version cm' = cm_cur_version cm" "cm_batch cm' = cm_batch cm"
    by (auto simp: cm_ok_def)
qed

subsection \<open>Eviction\<close>

definition stale :: "cache_meta \<Rightarrow> u64 \<times> u32 \<Rightarrow> bool" where
  "stale cm e \<longleftrightarrow> last_n_para \<le> cm_cur_version cm - snd e"

definition feature_msg_of :: "u64 list \<Rightarrow> feature_msg" where
  "feature_msg_of fs = (length fs, feature_bytes fs)"

text \<open>
  The state of the eviction loop: \<open>mss\<close> are the batches that were sent, \<open>pend\<close> is the batch in
  the buffer.
\<close>

definition evict_inv :: "cache_meta \<Rightarrow> (u64 \<times> u32) list \<Rightarrow> cache_meta \<times> feature_msg list \<Rightarrow> u64 list list \<Rightarrow> u64 list \<Rightarrow> bool" where
  "evict_inv cm0 done st mss pend \<longleftrightarrow>
     snd st = map feature_msg_of mss \<and> (\<forall>fs \<in> set mss. length fs = cm_batch cm0) \<and>
     cm_buf (fst st) = feature_bytes pend \<and> cm_buf_cnt (fst st) = length pend \<and> length pend < cm_batch cm0 \<and>
     concat mss @ pend = map fst (filter (stale cm0) done) \<and>
     cm_feature_2_version (fst st) = filter (\<lambda>e. \<not> (stale cm0 e \<and> e \<in> set done)) (cm_feature_2_version cm0) \<and>
     cm_cur_version (fst st) = cm_cur_version cm0 \<and> cm_batch (fst st) = cm_batch cm0 \<and>
     cm_total_similar (fst st) = cm_total_similar cm0"

lemma delete_filter:
  assumes "umap_ok m" "e \<in> set m"
  shows "AList.delete (fst e) (filter P m) = filter (\<lambda>x. P x \<and> x \<noteq> e) m"
proof -
  have "x \<in> set m \<Longrightarrow> fst x = fst e \<longleftrightarrow> x = e" for x
    using assms by (metis eq_key_imp_eq_value prod.collapse)
  then have "filter (\<lambda>x. fst x \<noteq> fst e) (filter P m) = filter (\<lambda>x. P x \<and> x \<noteq> e) m"
    by (induction m) auto
  then show ?thesis by (simp add: AList.delete_eq case_prod_beta eq_commute)
qed

lemma feature_bytes_snoc: "feature_bytes fs @ u64_le f = feature_bytes (fs @ [f])"
  by (simp add: feature_bytes_def)

lemma evict_step_inv:
  assumes inv: "evict_inv cm0 ds st mss pend" and e: "e \<in> set (cm_feature_2_version cm0)"
    and ok: "umap_ok (cm_feature_2_version cm0)"
  shows "\<exists>mss' pend'. evict_inv cm0 (ds @ [e]) (evict_meta_step e st) mss' pend'"
proof (cases "stale cm0 e")
  case False
  obtain f v where fv: "e = (f, v)" by (cases e)
  have "cm_cur_version (fst st) = cm_cur_version cm0" using inv by (simp add: evict_inv_def)
  then have "evict_meta_step e st = st"
    using False by (cases st) (simp add: evict_meta_step_def fv stale_def)
  moreover have "filter (\<lambda>x. \<not> (stale cm0 x \<and> x \<in> set (ds @ [e]))) (cm_feature_2_version cm0) =
      filter (\<lambda>x. \<not> (stale cm0 x \<and> x \<in> set ds)) (cm_feature_2_version cm0)"
    using False by (intro filter_cong) auto
  ultimately have "evict_inv cm0 (ds @ [e]) (evict_meta_step e st) mss pend"
    using inv False by (simp add: evict_inv_def)
  then show ?thesis by blast
next
  case True
  obtain f v where fv: "e = (f, v)" by (cases e)
  obtain cm msgs where st: "st = (cm, msgs)" by (cases st)
  let ?P = "\<lambda>x. \<not> (stale cm0 x \<and> x \<in> set ds)"
  have del: "AList.delete f (cm_feature_2_version cm) =
      filter (\<lambda>x. \<not> (stale cm0 x \<and> x \<in> set (ds @ [e]))) (cm_feature_2_version cm0)"
  proof -
    have "AList.delete f (cm_feature_2_version cm) = filter (\<lambda>x. ?P x \<and> x \<noteq> e) (cm_feature_2_version cm0)"
      using delete_filter [OF ok e, of ?P] inv by (simp add: evict_inv_def st fv)
    then show ?thesis using True by (auto intro: filter_cong)
  qed
  have i: "msgs = map feature_msg_of mss" "\<forall>fs \<in> set mss. length fs = cm_batch cm0"
      "cm_buf cm = feature_bytes pend" "cm_buf_cnt cm = length pend" "length pend < cm_batch cm0"
      "concat mss @ pend = map fst (filter (stale cm0) ds)" "cm_cur_version cm = cm_cur_version cm0"
      "cm_batch cm = cm_batch cm0" "cm_total_similar cm = cm_total_similar cm0"
    using inv by (simp_all add: evict_inv_def st)
  show ?thesis
  proof (cases "length pend + 1 = cm_batch cm0")
    case full: True
    have "evict_inv cm0 (ds @ [e]) (evict_meta_step e st) (mss @ [pend @ [f]]) []"
      using True full del i
      by (auto simp: evict_inv_def evict_meta_step_def st fv stale_def SendFeatures_def feature_msg_of_def
          feature_bytes_snoc feature_bytes_def)
    then show ?thesis by blast
  next
    case False
    then have "(length pend + 1) mod cm_batch cm0 \<noteq> 0" using i(5) by simp
    then have "evict_inv cm0 (ds @ [e]) (evict_meta_step e st) mss (pend @ [f])"
      using True False del i
      by (auto simp: evict_inv_def evict_meta_step_def st fv stale_def feature_bytes_snoc)
    then show ?thesis by blast
  qed
qed

lemma evict_fold_inv:
  assumes ok: "umap_ok (cm_feature_2_version cm0)"
    and "cm_feature_2_version cm0 = ds @ es" and "evict_inv cm0 ds st mss pend"
  shows "\<exists>mss' pend'. evict_inv cm0 (ds @ es) (fold evict_meta_step es st) mss' pend'"
  using assms(2,3)
proof (induction es arbitrary: ds st mss pend)
  case Nil
  then show ?case by auto
next
  case (Cons e es)
  have "e \<in> set (cm_feature_2_version cm0)" using Cons.prems(1) by simp
  then obtain mss1 pend1 where "evict_inv cm0 (ds @ [e]) (evict_meta_step e st) mss1 pend1"
    using evict_step_inv [OF Cons.prems(2) _ ok] by blast
  with Cons.IH [of "ds @ [e]"] Cons.prems(1) show ?case by simp
qed

lemma word_one_le: "1 \<le> (w :: u32) \<longleftrightarrow> w \<noteq> 0"
  by (simp add: word_le_nat_alt Suc_le_eq unat_gt_0)

lemma map_of_filter_key:
  "umap_ok m \<Longrightarrow> map_of (filter P m) f =
     (case map_of m f of None \<Rightarrow> None | Some v \<Rightarrow> if P (f, v) then Some v else None)"
proof (induction m)
  case (Cons p m)
  have "f \<notin> fst ` set m \<Longrightarrow> map_of (filter P m) f = None"
    by (auto simp: map_of_eq_None_iff)
  with Cons show ?case by (cases p) (auto split: option.splits)
qed simp

lemma filter_not_done: "filter (\<lambda>e. P e \<longrightarrow> e \<notin> set xs) xs = filter (\<lambda>e. \<not> P e) xs"
  by (rule filter_cong) auto

lemma EvictFeature_spec:
  assumes ok: "cm_ok cm" and run: "EvictFeature cm = (cm', msgs)"
  shows "\<exists>mss. msgs = map feature_msg_of mss \<and> (\<forall>fs \<in> set mss. 0 < length fs \<and> length fs \<le> cm_batch cm) \<and>
    concat mss = map fst (filter (stale cm) (cm_feature_2_version cm)) \<and>
    cm_feature_2_version cm' = filter (\<lambda>e. \<not> stale cm e) (cm_feature_2_version cm) \<and>
    cm_ok cm' \<and> cm_cur_version cm' = cm_cur_version cm \<and> cm_total_similar cm' = cm_total_similar cm \<and>
    cm_batch cm' = cm_batch cm"
proof -
  let ?idx = "cm_feature_2_version cm"
  have wf: "umap_ok ?idx" "0 < cm_batch cm" using ok by (simp_all add: cm_ok_def)
  have "evict_inv cm [] (cm, []) [] []"
    using ok by (simp add: evict_inv_def cm_ok_def feature_bytes_def)
  then obtain mss pend where inv: "evict_inv cm ?idx (fold evict_meta_step ?idx (cm, [])) mss pend"
    using evict_fold_inv [OF wf(1), of "[]" ?idx "(cm, [])" "[]" "[]"] by auto
  obtain c1 m1 where st: "fold evict_meta_step ?idx (cm, []) = (c1, m1)"
    by (cases "fold evict_meta_step ?idx (cm, [])")
  have i: "m1 = map feature_msg_of mss" "\<forall>fs \<in> set mss. length fs = cm_batch cm"
      "cm_buf c1 = feature_bytes pend" "cm_buf_cnt c1 = length pend" "length pend < cm_batch cm"
      "concat mss @ pend = map fst (filter (stale cm) ?idx)"
      "cm_feature_2_version c1 = filter (\<lambda>e. \<not> stale cm e) ?idx"
      "cm_cur_version c1 = cm_cur_version cm" "cm_batch c1 = cm_batch cm" "cm_total_similar c1 = cm_total_similar cm"
    using inv by (simp_all add: evict_inv_def st filter_not_done)
  have d: "umap_ok (filter (\<lambda>e. \<not> stale cm e) ?idx)" using wf(1) by (simp add: distinct_map_filter)
  show ?thesis
  proof (cases "pend = []")
    case True
    then have "cm' = c1" "msgs = m1" using run i(4) by (simp_all add: EvictFeature_def st)
    with True i wf d show ?thesis by (intro exI [of _ mss]) (auto simp: cm_ok_def feature_bytes_def)
  next
    case False
    then have "cm' = fst (SendFeatures c1)" "msgs = m1 @ [feature_msg_of pend]"
      using run i(3,4) by (auto simp: EvictFeature_def st SendFeatures_def feature_msg_of_def)
    with False i wf d show ?thesis
      by (intro exI [of _ "mss @ [pend]"]) (auto simp: cm_ok_def SendFeatures_def)
  qed
qed

text \<open>
  Eviction drops exactly the features that the current upload has not used, tells the server
  each of them exactly once, in batches that are never empty and never larger than the send
  buffer, and leaves the buffer empty.
\<close>

theorem EvictFeature_correct:
  assumes "cm_ok cm" and "EvictFeature cm = (cm', msgs)"
  shows "\<exists>mss. msgs = map feature_msg_of mss \<and> (\<forall>fs \<in> set mss. 0 < length fs \<and> length fs \<le> cm_batch cm) \<and>
    distinct (concat mss) \<and>
    set (concat mss) = {f. \<exists>v. map_of (cm_feature_2_version cm) f = Some v \<and> v \<noteq> cm_cur_version cm} \<and>
    map_of (cm_feature_2_version cm') = map_of (cm_feature_2_version cm) |` (- set (concat mss)) \<and> cm_ok cm'"
proof -
  let ?idx = "cm_feature_2_version cm"
  have wf: "umap_ok ?idx" using assms(1) by (simp add: cm_ok_def)
  obtain mss where m: "msgs = map feature_msg_of mss" "\<forall>fs \<in> set mss. 0 < length fs \<and> length fs \<le> cm_batch cm"
      "concat mss = map fst (filter (stale cm) ?idx)" "cm_feature_2_version cm' = filter (\<lambda>e. \<not> stale cm e) ?idx" "cm_ok cm'"
    using EvictFeature_spec [OF assms] by blast
  have stale: "stale cm e \<longleftrightarrow> snd e \<noteq> cm_cur_version cm" for e
    using word_one_le [of "cm_cur_version cm - snd e"] by (auto simp: stale_def last_n_para_def)
  have look: "map_of (filter P ?idx) f = (case map_of ?idx f of None \<Rightarrow> None | Some v \<Rightarrow> if P (f, v) then Some v else None)" for P f
    using wf by (rule map_of_filter_key)
  have s: "set (concat mss) = {f. \<exists>v. map_of ?idx f = Some v \<and> v \<noteq> cm_cur_version cm}"
    unfolding m(3) using wf by (auto simp: stale map_of_eq_Some_iff image_iff)
  moreover have "map_of (cm_feature_2_version cm') = map_of ?idx |` (- set (concat mss))"
    unfolding s m(4) by (auto simp: fun_eq_iff look stale restrict_map_def split: option.splits)
  moreover have "distinct (concat mss)" unfolding m(3) using wf by (simp add: distinct_map_filter)
  ultimately show ?thesis using m(1,2,5) by blast
qed

definition cm_demo :: cache_meta where
  "cm_demo = \<lparr> cm_total_similar = 0, cm_cur_version = 5, cm_feature_2_version = [(1, 4), (2, 5), (3, 3)],
              cm_buf_cnt = 0, cm_buf = [], cm_batch = 2 \<rparr>"

theorem EvictFeature_correct_witness:
  "\<exists>mss. snd (EvictFeature cm_demo) = map feature_msg_of mss \<and> distinct (concat mss) \<and> set (concat mss) = {1, 3}"
proof -
  have ok: "cm_ok cm_demo" by (simp add: cm_ok_def cm_demo_def)
  have s: "{f. \<exists>v. map_of (cm_feature_2_version cm_demo) f = Some v \<and> v \<noteq> cm_cur_version cm_demo} = {1, 3}"
    by (auto simp: cm_demo_def split: if_splits)
  show ?thesis
    using EvictFeature_correct [OF ok surjective_pairing] unfolding s by blast
qed

subsection \<open>The metadata file\<close>

lemma load_meta_entries:
  "length f = 8 \<Longrightarrow> length v = 4 \<Longrightarrow>
   load_meta (length L) (concat (map meta_entry L), False) (f, v) idx = umap_inserts idx L"
proof (induction L arbitrary: f v idx)
  case Nil
  then show ?case by simp
next
  case (Cons e L)
  have "concat (map meta_entry (e # L)) = u64_le (fst e) @ u32_le (snd e) @ concat (map meta_entry L)"
    by (simp add: meta_entry_def)
  with Cons show ?case by simp
qed

text \<open>
  The client's cache table survives a restart: the constructor of the next run finds the
  features, versions and counters that the destructor of this run stored, and starts the next
  version.
\<close>

theorem CacheMeta_persist:
  assumes "cm_ok cm" and "length (cm_feature_2_version cm) < 2 ^ 64"
  shows "CacheMeta_new (cm_batch cm) (Some (StoreCacheMeta cm)) = cm \<lparr> cm_cur_version := cm_cur_version cm + 1 \<rparr>"
proof -
  let ?idx = "cm_feature_2_version cm"
  have um: "umap_inserts [] ?idx = ?idx" using assms(1) by (simp add: umap_inserts_fresh cm_ok_def)
  have load: "load_meta (length ?idx) (concat (map meta_entry ?idx), False) (nat_le 8 0, nat_le 4 0) [] = ?idx"
    using load_meta_entries [of "nat_le 8 0" "nat_le 4 0" ?idx "[]"] um by simp
  have ne: "length (StoreCacheMeta cm) \<noteq> 0" by (simp add: StoreCacheMeta_def)
  show ?thesis
    using assms load ne
    by (cases cm) (simp add: CacheMeta_new_def LoadCacheMeta_def StoreCacheMeta_def le_nat_u64_le cm_ok_def Let_def)
qed

theorem CacheMeta_persist_witness:
  "CacheMeta_new 2 (Some (StoreCacheMeta cm_demo)) = cm_demo \<lparr> cm_cur_version := 6 \<rparr>"
  using CacheMeta_persist [of cm_demo] by (simp add: cm_ok_def cm_demo_def)

subsection \<open>Client and server agree on the announced features\<close>

definition cache_sync :: "cache_meta \<Rightarrow> inform_cache \<Rightarrow> bool" where
  "cache_sync cm ic \<longleftrightarrow> cm_ok cm \<and> ic_ok ic \<and> cm_dom cm = dom (map_of (ic_feature_2_fp ic))"

lemma sync_query: "cache_sync cm ic \<Longrightarrow> QueryCacheMeta cm fs = (cm', sim) \<Longrightarrow> cache_sync cm' ic"
  using QueryCacheMeta_spec(1,2) by (auto simp: cache_sync_def)

lemma InsertCachedChunk_dom:
  assumes "ic_ok ic"
  shows "dom (map_of (ic_feature_2_fp (InsertCachedChunk ic w))) =
    dom (map_of (ic_feature_2_fp ic)) \<union> set (take SUPER_FEATURE_PER_CHUNK (ci_features (w_info w)))"
proof -
  have "ic_feature_2_fp (InsertCachedChunk ic w) =
      umap.insert_all (ic_feature_2_fp ic) (take SUPER_FEATURE_PER_CHUNK (ci_features (w_info w))) (ci_fp (w_info w))"
    by (simp add: InsertCachedChunk_def Let_def UpdateFeatureIndex_umap split: option.splits)
  moreover have "umap_ok (ic_feature_2_fp ic)" using assms by (simp add: ic_ok_def)
  ultimately show ?thesis by (auto simp: umap.query_insert_all dom_def)
qed

lemma sync_insert:
  assumes "cache_sync cm ic" "ci_features (w_info w) = fs"
    and "cnt_of ic (ci_fp (w_info w)) + SUPER_FEATURE_PER_CHUNK < 2 ^ 32"
  shows "cache_sync (UpdateCacheMeta cm fs) (InsertCachedChunk ic w)"
  using assms by (simp add: cache_sync_def UpdateCacheMeta_ok UpdateCacheMeta_dom InsertCachedChunk_ok InsertCachedChunk_dom)

text \<open>A run of the client over the chunks of one upload, and what the server does with it.\<close>

definition client_chunk :: "cache_meta \<times> inform_cache \<Rightarrow> wrapped_chunk \<Rightarrow> cache_meta \<times> inform_cache" where
  \<comment> \<open>a chunk without announced features is announced on both sides\<close>
  "client_chunk st w =
    (case st of (cm, ic) \<Rightarrow> case QueryCacheMeta cm (ci_features (w_info w)) of (cm, sim) \<Rightarrow>
       if sim then (cm, ic) else (UpdateCacheMeta cm (ci_features (w_info w)), InsertCachedChunk ic w))"

definition counts_small :: "nat \<Rightarrow> inform_cache \<Rightarrow> bool" where
  "counts_small n ic \<longleftrightarrow> (\<forall>b. cnt_of ic b + n < 2 ^ 32)"

lemma counts_small_insert:
  assumes "counts_small (SUPER_FEATURE_PER_CHUNK + n) ic"
  shows "counts_small n (InsertCachedChunk ic w)"
proof -
  have three: "unat (of_nat SUPER_FEATURE_PER_CHUNK :: u32) = SUPER_FEATURE_PER_CHUNK"
    by (simp add: SUPER_FEATURE_PER_CHUNK_def)
  have "cnt_of (InsertCachedChunk ic w) b \<le> cnt_of ic b + SUPER_FEATURE_PER_CHUNK" for b
  proof -
    have "cnt_of ic b + SUPER_FEATURE_PER_CHUNK < 2 ^ 32"
      using assms unfolding counts_small_def by (metis add.assoc add_lessD1)
    with three show ?thesis
      by (auto simp: InsertCachedChunk_def Let_def cnt_of_def unat_word_ariths split: option.splits)
  qed
  then show ?thesis using assms unfolding counts_small_def
    by (metis (no_types, lifting) add.assoc add_le_cancel_right le_less_trans)
qed

lemma client_run_sync:
  assumes "cache_sync cm ic" "counts_small (SUPER_FEATURE_PER_CHUNK * length ws) ic"
  shows "cache_sync (fst (foldl client_chunk (cm, ic) ws)) (snd (foldl client_chunk (cm, ic) ws))"
  using assms
proof (induction ws arbitrary: cm ic)
  case Nil
  then show ?case by simp
next
  case (Cons w ws)
  obtain cm1 sim where q: "QueryCacheMeta cm (ci_features (w_info w)) = (cm1, sim)"
    by (cases "QueryCacheMeta cm (ci_features (w_info w))")
  have s1: "cache_sync cm1 ic" by (rule sync_query [OF Cons.prems(1) q])
  have room: "counts_small (SUPER_FEATURE_PER_CHUNK + SUPER_FEATURE_PER_CHUNK * length ws) ic"
    using Cons.prems(2) by (simp add: add.commute)
  show ?case
  proof (cases sim)
    case True
    have "counts_small (SUPER_FEATURE_PER_CHUNK * length ws) ic"
      using room unfolding counts_small_def by (metis add.left_commute add_lessD1 add.commute)
    with Cons.IH [OF s1] True q show ?thesis by (simp add: client_chunk_def)
  next
    case False
    have "cnt_of ic (ci_fp (w_info w)) + SUPER_FEATURE_PER_CHUNK < 2 ^ 32"
      using room unfolding counts_small_def by (metis add.assoc add_lessD1)
    then have "cache_sync (UpdateCacheMeta cm1 (ci_features (w_info w))) (InsertCachedChunk ic w)"
      using sync_insert [OF s1 refl] by blast
    from Cons.IH [OF this counts_small_insert [OF room]] False q show ?thesis
      by (simp add: client_chunk_def)
  qed
qed

lemma evict_batches:
  "foldR (\<lambda>ic msg. EvictCacheChunk ic \<lparr> w_info = info, w_data = snd msg \<rparr>) ic0 (map feature_msg_of ms) =
   foldR evict_feature ic0 (concat ms)"
  by (induction ms arbitrary: ic0)
    (simp_all add: EvictCacheChunk_def feature_msg_of_def features_of_bytes foldR_append Let_def del: length_feature_bytes)

lemma sync_evict:
  assumes s1: "cache_sync cm1 ic1" and ev: "EvictFeature cm1 = (cm2, msgs)"
  obtains mss ic2 where "msgs = map feature_msg_of mss" "foldR evict_feature ic1 (concat mss) = Inr ic2" "cache_sync cm2 ic2"
    "map_of (ic_feature_2_fp ic2) = (map_of (ic_feature_2_fp ic1)) |` (- set (concat mss))"
    "ic_base_2_data ic2 = ic_base_2_data ic1" "distinct (concat mss)"
    "\<And>f v. f \<in> set (concat mss) \<Longrightarrow> map_of (cm_feature_2_version cm1) f = Some v \<Longrightarrow> v \<noteq> cm_cur_version cm1"
proof -
  have ok: "cm_ok cm1" "ic_ok ic1" and dom: "cm_dom cm1 = dom (map_of (ic_feature_2_fp ic1))"
    using s1 by (simp_all add: cache_sync_def)
  obtain mss where m: "msgs = map feature_msg_of mss"
      "concat mss = map fst (filter (stale cm1) (cm_feature_2_version cm1))"
      "cm_feature_2_version cm2 = filter (\<lambda>e. \<not> stale cm1 e) (cm_feature_2_version cm1)" "cm_ok cm2"
    using EvictFeature_spec [OF ok(1) ev] by blast
  have wf: "umap_ok (cm_feature_2_version cm1)" using ok(1) by (simp add: cm_ok_def)
  have d: "distinct (concat mss)" unfolding m(2) using wf by (simp add: distinct_map_filter)
  have sub: "set (concat mss) \<subseteq> dom (map_of (ic_feature_2_fp ic1))"
    unfolding m(2) dom [symmetric] by (auto simp: dom_map_of_conv_image_fst)
  obtain ic2 where ic2: "foldR evict_feature ic1 (concat mss) = Inr ic2" "ic_ok ic2"
      "map_of (ic_feature_2_fp ic2) = (map_of (ic_feature_2_fp ic1)) |` (- set (concat mss))"
      "ic_base_2_data ic2 = ic_base_2_data ic1"
    using foldR_evict_ok [OF ok(2) d sub] by blast
  have "cm_dom cm2 = cm_dom cm1 - set (concat mss)"
    unfolding m(2,3) using wf
    by (auto simp: dom_map_of_conv_image_fst image_iff) (metis eq_key_imp_eq_value)
  with ic2 m(4) dom have sync: "cache_sync cm2 ic2" by (auto simp: cache_sync_def)
  have "v \<noteq> cm_cur_version cm1" if "f \<in> set (concat mss)" "map_of (cm_feature_2_version cm1) f = Some v" for f v
  proof -
    have "f \<in> fst ` set (filter (stale cm1) (cm_feature_2_version cm1))" using that(1) unfolding m(2) set_map .
    then obtain u where u: "(f, u) \<in> set (cm_feature_2_version cm1)" "stale cm1 (f, u)" by force
    have "map_of (cm_feature_2_version cm1) f = Some u" using u(1) wf by simp
    with that(2) u(2) show ?thesis by (auto simp: stale_def last_n_para_def)
  qed
  then show thesis by (rule that [OF m(1) ic2(1) sync ic2(3,4) d])
qed

text \<open>
  C13. The two halves of the informed cache stay in agreement: if client and server know the same
  features, then after any sequence of chunks (each announced by the client when none of its
  features is known) followed by the client's eviction, processing the eviction batches in order
  never makes the server exit, and both sides know the same features again.
\<close>

theorem cache_sync_upload:
  assumes "cache_sync cm ic" "counts_small (SUPER_FEATURE_PER_CHUNK * length ws) ic"
    and "foldl client_chunk (cm, ic) ws = (cm1, ic1)" and "EvictFeature cm1 = (cm2, msgs)"
  shows "\<exists>ic2. foldR (\<lambda>ic msg. EvictCacheChunk ic \<lparr> w_info = info, w_data = snd msg \<rparr>) ic1 msgs = Inr ic2 \<and>
           cache_sync cm2 ic2"
proof -
  have "cache_sync cm1 ic1" using client_run_sync [OF assms(1,2)] assms(3) by simp
  from sync_evict [OF this assms(4)] show ?thesis by (metis evict_batches)
qed

lemma counts_small_new: "n < 2 ^ 32 \<Longrightarrow> counts_small n ic_new"
  by (simp add: counts_small_def cnt_of_def ic_new_def)

theorem cache_sync_upload_witness:
  "\<exists>ic2. foldR (\<lambda>ic msg. EvictCacheChunk ic \<lparr> w_info = undefined, w_data = snd msg \<rparr>)
       (snd (foldl client_chunk (CacheMeta_new 4 None, ic_new) [\<lparr> w_info = undefined, w_data = [1] \<rparr>]))
       (snd (EvictFeature (fst (foldl client_chunk (CacheMeta_new 4 None, ic_new) [\<lparr> w_info = undefined, w_data = [1] \<rparr>]))))
     = Inr ic2"
proof -
  have sync: "cache_sync (CacheMeta_new 4 None) ic_new"
    by (simp add: cache_sync_def CacheMeta_new_def LoadCacheMeta_def cm_ok_def ic_new_ok) (simp add: ic_new_def)
  have small: "counts_small (SUPER_FEATURE_PER_CHUNK * length [\<lparr> w_info = undefined, w_data = [1] \<rparr> :: wrapped_chunk]) ic_new"
    by (rule counts_small_new) (simp add: SUPER_FEATURE_PER_CHUNK_def)
  show ?thesis
    using cache_sync_upload [OF sync small surjective_pairing surjective_pairing] by blast
qed

end
