(* ===== verification/Crypto_Comp.thy ===== *)
theory Crypto_Comp
  imports Data_Types
begin

text \<open>
  Encryption, compression and padding of chunks: \<open>src/util/crypto_util.cc\<close>,
  \<open>src/util/compress_util.cc\<close>, \<open>src/client/comp_pad.cc\<close>, \<open>src/client/two_phase_enc.cc\<close> and
  \<open>src/reduction/delta_comp.cc\<close>. OpenSSL, the compression libraries, xdelta and the standard
  library's random engine are arguments of the definitions:
  \<^item> \<open>evp_enc\<close>, \<open>evp_dec\<close>: the EVP cipher under a given set-up; \<open>digest\<close>: the EVP digest;
  \<^item> \<open>cmp\<close>, \<open>dcmp\<close>: a codec called with an output capacity, \<open>None\<close> for its error return;
  \<^item> \<open>denc\<close>, \<open>ddec\<close>: delta encoding and decoding, \<open>None\<close> for a non-zero return;
  \<^item> \<open>rng\<close>: the numbers that the engine yields for a seed.
\<close>

subsection \<open>Digests and ciphers\<close>

datatype hash_set = SHA_256 | MD5 | SHA_1

datatype encrypt_set =
    AES_256_GCM | AES_128_GCM | AES_256_CFB | AES_128_CFB | AES_256_CBC | AES_128_CBC
  | AES_256_CTR | AES_128_CTR | AES_256_ECB | AES_128_ECB

definition expected_hash_size :: "hash_set \<Rightarrow> nat" where
  "expected_hash_size h = (case h of SHA_1 \<Rightarrow> 20 | SHA_256 \<Rightarrow> 32 | MD5 \<Rightarrow> 16)"

definition GenerateHash :: "(hash_set \<Rightarrow> bytes \<Rightarrow> bytes) \<Rightarrow> hash_set \<Rightarrow> bytes \<Rightarrow> bytes result" where
  "GenerateHash digest hash_type data =
    (let hash = digest hash_type data
     in if length hash \<noteq> expected_hash_size hash_type then Inl OutOfBounds else Inr hash)"

record evp_setup =
  es_alg :: encrypt_set
  es_key :: bytes
  es_iv :: "bytes option"      \<comment> \<open>\<open>None\<close>: the null pointer\<close>
  es_padding :: bool           \<comment> \<open>\<open>EVP_CIPHER_CTX_set_padding(ctx, 1)\<close>\<close>
  es_aad :: bool               \<comment> \<open>whether \<open>gcm_aad\<close> is authenticated\<close>

definition encrypt_setup :: "encrypt_set \<Rightarrow> bytes \<Rightarrow> bytes \<Rightarrow> evp_setup" where
  "encrypt_setup cipher_type key iv =
    (case cipher_type of
       AES_128_CFB \<Rightarrow> \<lparr> es_alg = AES_128_CFB, es_key = key, es_iv = Some iv, es_padding = False, es_aad = False \<rparr>
     | AES_256_CFB \<Rightarrow> \<lparr> es_alg = AES_256_CFB, es_key = key, es_iv = Some iv, es_padding = False, es_aad = False \<rparr>
     | AES_256_CBC \<Rightarrow> \<lparr> es_alg = AES_256_CBC, es_key = key, es_iv = Some iv, es_padding = True, es_aad = False \<rparr>
     | AES_128_CBC \<Rightarrow> \<lparr> es_alg = AES_128_CBC, es_key = key, es_iv = Some iv, es_padding = True, es_aad = False \<rparr>
     | AES_256_GCM \<Rightarrow> \<lparr> es_alg = AES_256_GCM, es_key = key, es_iv = Some iv, es_padding = False, es_aad = True \<rparr>
     | AES_128_GCM \<Rightarrow> \<lparr> es_alg = AES_128_GCM, es_key = key, es_iv = Some iv, es_padding = False, es_aad = True \<rparr>
     | AES_256_CTR \<Rightarrow> \<lparr> es_alg = AES_256_CTR, es_key = key, es_iv = Some iv, es_padding = False, es_aad = False \<rparr>
     | AES_128_CTR \<Rightarrow> \<lparr> es_alg = AES_128_CTR, es_key = key, es_iv = Some iv, es_padding = False, es_aad = False \<rparr>
     | AES_256_ECB \<Rightarrow> \<lparr> es_alg = AES_256_ECB, es_key = key, es_iv = None, es_padding = True, es_aad = False \<rparr>
     | AES_128_ECB \<Rightarrow> \<lparr> es_alg = AES_128_ECB, es_key = key, es_iv = None, es_padding = True, es_aad = False \<rparr>)"

definition decrypt_setup :: "encrypt_set \<Rightarrow> bytes \<Rightarrow> bytes \<Rightarrow> evp_setup" where
  "decrypt_setup cipher_type key iv =
    (case cipher_type of
       AES_128_CFB \<Rightarrow> \<lparr> es_alg = AES_128_CFB, es_key = key, es_iv = Some iv, es_padding = False, es_aad = False \<rparr>
     | AES_256_CFB \<Rightarrow> \<lparr> es_alg = AES_256_CFB, es_key = key, es_iv = Some iv, es_padding = False, es_aad = False \<rparr>
     | AES_256_CBC \<Rightarrow> \<lparr> es_alg = AES_256_CBC, es_key = key, es_iv = Some iv, es_padding = True, es_aad = False \<rparr>
     | AES_128_CBC \<Rightarrow> \<lparr> es_alg = AES_128_CBC, es_key = key, es_iv = Some iv, es_padding = True, es_aad = False \<rparr>
     | AES_128_GCM \<Rightarrow> \<lparr> es_alg = AES_128_GCM, es_key = key, es_iv = Some iv, es_padding = False, es_aad = True \<rparr>
     | AES_256_GCM \<Rightarrow> \<lparr> es_alg = AES_256_GCM, es_key = key, es_iv = Some iv, es_padding = False, es_aad = True \<rparr>
     | AES_256_CTR \<Rightarrow> \<lparr> es_alg = AES_256_CTR, es_key = key, es_iv = Some iv, es_padding = False, es_aad = False \<rparr>
     | AES_128_CTR \<Rightarrow> \<lparr> es_alg = AES_128_CTR, es_key = key, es_iv = Some iv, es_padding = False, es_aad = False \<rparr>
     | AES_256_ECB \<Rightarrow> \<lparr> es_alg = AES_256_ECB, es_key = key, es_iv = None, es_padding = True, es_aad = False \<rparr>
     | AES_128_ECB \<Rightarrow> \<lparr> es_alg = AES_128_ECB, es_key = key, es_iv = None, es_padding = True, es_aad = False \<rparr>)"

definition EncryptWithKeyIV :: "(evp_setup \<Rightarrow> bytes \<Rightarrow> bytes) \<Rightarrow> encrypt_set \<Rightarrow> bytes \<Rightarrow> bytes \<Rightarrow> bytes \<Rightarrow> bytes" where
  "EncryptWithKeyIV evp_enc cipher_type data key iv = evp_enc (encrypt_setup cipher_type key iv) data"

definition DecryptWithKeyIV :: "(evp_setup \<Rightarrow> bytes \<Rightarrow> bytes) \<Rightarrow> encrypt_set \<Rightarrow> bytes \<Rightarrow> bytes \<Rightarrow> bytes \<Rightarrow> bytes" where
  "DecryptWithKeyIV evp_dec cipher_type cipher key iv = evp_dec (decrypt_setup cipher_type key iv) cipher"

lemma decrypt_setup_eq: "decrypt_setup ct key iv = encrypt_setup ct key iv"
  by (cases ct) (simp_all add: decrypt_setup_def encrypt_setup_def)

subsection \<open>Two-phase encryption\<close>

definition zero_iv :: bytes where "zero_iv = replicate CRYPTO_BLOCK_SIZE 0"

definition TwoPhaseEncChunk :: "(evp_setup \<Rightarrow> bytes \<Rightarrow> bytes) \<Rightarrow> bytes \<Rightarrow> bytes \<Rightarrow> bytes result" where
  \<comment> \<open>the intermediate cipher goes through a buffer of \<open>ENC_MAX_CHUNK_SIZE\<close> bytes\<close>
  "TwoPhaseEncChunk evp_enc plain_chunk key =
    (let tmp_cipher = EncryptWithKeyIV evp_enc AES_256_CTR plain_chunk key zero_iv
     in if ENC_MAX_CHUNK_SIZE < length tmp_cipher then Inl OutOfBounds
        else Inr (EncryptWithKeyIV evp_enc AES_256_ECB tmp_cipher key zero_iv))"

definition TwoPhaseDecChunk :: "(evp_setup \<Rightarrow> bytes \<Rightarrow> bytes) \<Rightarrow> bytes \<Rightarrow> bytes \<Rightarrow> bytes result" where
  "TwoPhaseDecChunk evp_dec enc_chunk key =
    (let tmp_cipher = DecryptWithKeyIV evp_dec AES_256_ECB enc_chunk key zero_iv
     in if ENC_MAX_CHUNK_SIZE < length tmp_cipher then Inl OutOfBounds
        else Inr (DecryptWithKeyIV evp_dec AES_256_CTR tmp_cipher key zero_iv))"

text \<open>
  What the code relies on of OpenSSL: decryption under the same set-up inverts encryption,
  counter mode keeps the length, and padded ECB rounds up to the next multiple of the block
  size.
\<close>

definition evp_ok :: "(evp_setup \<Rightarrow> bytes \<Rightarrow> bytes) \<Rightarrow> (evp_setup \<Rightarrow> bytes \<Rightarrow> bytes) \<Rightarrow> bool" where
  "evp_ok evp_enc evp_dec \<longleftrightarrow>
     (\<forall>s d. es_alg s = AES_256_CTR \<or> es_alg s = AES_256_ECB \<longrightarrow> evp_dec s (evp_enc s d) = d) \<and>
     (\<forall>s d. es_alg s = AES_256_CTR \<longrightarrow> length (evp_enc s d) = length d) \<and>
     (\<forall>s d. es_alg s = AES_256_ECB \<longrightarrow>
        length (evp_enc s d) = CRYPTO_BLOCK_SIZE * (length d div CRYPTO_BLOCK_SIZE + 1))"

text \<open>A cipher that satisfies it: counter mode copies, the other modes pad as PKCS#7 does.\<close>

definition demo_enc :: "evp_setup \<Rightarrow> bytes \<Rightarrow> bytes" where
  "demo_enc s d = (if es_alg s = AES_256_CTR then d
     else d @ replicate (16 - length d mod 16) (of_nat (16 - length d mod 16)))"

definition demo_dec :: "evp_setup \<Rightarrow> bytes \<Rightarrow> bytes" where
  "demo_dec s d = (if es_alg s = AES_256_CTR then d else take (length d - unat (last d)) d)"

lemma demo_evp_ok: "evp_ok demo_enc demo_dec"
proof -
  have pad: "0 < 16 - n mod (16 :: nat) \<and> 16 - n mod 16 \<le> 16" for n by simp
  have "unat (of_nat k :: byte) = k" if "k \<le> 16" for k using that by (simp add: unat_of_nat)
  then have u: "unat (of_nat (16 - n mod 16) :: byte) = 16 - n mod 16" for n :: nat
    using pad [of n] by (metis (no_types))
  have "demo_dec s (demo_enc s d) = d" for s d
    using pad [of "length d"] u [of "length d"] by (simp add: demo_enc_def demo_dec_def)
  moreover have "n + (16 - n mod 16) = 16 * (n div 16 + 1)" for n :: nat
    by presburger
  ultimately show ?thesis by (simp add: evp_ok_def demo_enc_def CRYPTO_BLOCK_SIZE_def)
qed

lemma TwoPhaseEncChunk_size:
  assumes "evp_ok enc dec" "length d \<le> MAX_CHUNK_SIZE + 4"
  obtains c where "TwoPhaseEncChunk enc d key = Inr c" "length c \<le> ENC_MAX_CHUNK_SIZE" "length d < length c"
    "TwoPhaseDecChunk dec c key = Inr d"
proof -
  let ?t = "enc (encrypt_setup AES_256_CTR key zero_iv) d"
  let ?c = "enc (encrypt_setup AES_256_ECB key zero_iv) ?t"
  have t: "length ?t = length d" using assms(1) by (simp add: evp_ok_def encrypt_setup_def)
  have c: "length ?c = 16 * (length d div 16 + 1)"
    using assms(1) t by (simp add: evp_ok_def encrypt_setup_def CRYPTO_BLOCK_SIZE_def)
  have "TwoPhaseEncChunk enc d key = Inr ?c"
    using assms(2) t by (simp add: TwoPhaseEncChunk_def EncryptWithKeyIV_def size_consts)
  moreover have "length ?c \<le> ENC_MAX_CHUNK_SIZE"
    using assms(2) unfolding c by (simp add: size_consts)
  moreover have "length d < length ?c" unfolding c by presburger
  moreover have "TwoPhaseDecChunk dec ?c key = Inr d"
    using assms t by (simp add: TwoPhaseDecChunk_def DecryptWithKeyIV_def decrypt_setup_eq evp_ok_def encrypt_setup_def size_consts)
  ultimately show thesis by (rule that)
qed

text \<open>
  C29. Two-phase encryption of a chunk, or of a compressed and padded chunk, fits the send buffer
  and decrypts to the chunk: the two phases are configured alike in both directions.
\<close>

theorem TwoPhaseEnc_roundtrip:
  assumes "evp_ok enc dec" "length chunk \<le> MAX_CHUNK_SIZE + 4"
  shows "\<exists>c. TwoPhaseEncChunk enc chunk key = Inr c \<and> length c \<le> ENC_MAX_CHUNK_SIZE \<and>
             TwoPhaseDecChunk dec c key = Inr chunk"
  using TwoPhaseEncChunk_size [OF assms] by blast

theorem TwoPhaseEnc_roundtrip_witness:
  "\<exists>c. TwoPhaseEncChunk demo_enc [1, 2, 3] [0] = Inr c \<and> length c \<le> ENC_MAX_CHUNK_SIZE \<and>
       TwoPhaseDecChunk demo_dec c [0] = Inr [1, 2, 3]"
  by (rule TwoPhaseEnc_roundtrip [OF demo_evp_ok]) (simp add: MAX_CHUNK_SIZE_def)

subsection \<open>Compression\<close>

datatype compress_type = LZ4_COMPRESS_TYPE | ZSTD_COMPRESS_TYPE | ZLIB_COMPRESS_TYPE

definition COMPRESSION_TYPE :: compress_type where "COMPRESSION_TYPE = ZSTD_COMPRESS_TYPE"

type_synonym codec = "compress_type \<Rightarrow> bytes \<Rightarrow> nat \<Rightarrow> bytes option"

definition CompressOneChunk :: "codec \<Rightarrow> compress_type \<Rightarrow> bytes \<Rightarrow> bool \<times> bytes" where
  \<comment> \<open>the flag and the output; each branch is one library with its failure test\<close>
  "CompressOneChunk cmp compress_type chunk =
    (case compress_type of
       LZ4_COMPRESS_TYPE \<Rightarrow>
         (case cmp LZ4_COMPRESS_TYPE chunk (length chunk) of
            Some out \<Rightarrow> if out = [] then (False, chunk) else (True, out)
          | None \<Rightarrow> (False, chunk))
     | ZSTD_COMPRESS_TYPE \<Rightarrow>
         (case cmp ZSTD_COMPRESS_TYPE chunk (length chunk) of
            Some out \<Rightarrow> (True, out) | None \<Rightarrow> (False, chunk))
     | ZLIB_COMPRESS_TYPE \<Rightarrow>
         (case cmp ZLIB_COMPRESS_TYPE chunk (length chunk) of
            Some out \<Rightarrow> (True, out) | None \<Rightarrow> (False, chunk)))"

definition DecompressOneChunk :: "codec \<Rightarrow> compress_type \<Rightarrow> bytes \<Rightarrow> bytes" where
  "DecompressOneChunk dcmp compress_type data =
    (case compress_type of
       LZ4_COMPRESS_TYPE \<Rightarrow>
         (case dcmp LZ4_COMPRESS_TYPE data MAX_CHUNK_SIZE of
            Some out \<Rightarrow> if out = [] then data else out
          | None \<Rightarrow> data)
     | ZSTD_COMPRESS_TYPE \<Rightarrow>
         (case dcmp ZSTD_COMPRESS_TYPE data MAX_CHUNK_SIZE of Some out \<Rightarrow> out | None \<Rightarrow> data)
     | ZLIB_COMPRESS_TYPE \<Rightarrow>
         (case dcmp ZLIB_COMPRESS_TYPE data MAX_CHUNK_SIZE of Some out \<Rightarrow> out | None \<Rightarrow> data))"

text \<open>
  What the code relies on of a compression library: it respects the capacity it is given, and a
  frame that it produced decompresses to its source whenever the capacity suffices.
\<close>

definition codec_ok :: "codec \<Rightarrow> codec \<Rightarrow> bool" where
  "codec_ok cmp dcmp \<longleftrightarrow>
     (\<forall>t d n out. cmp t d n = Some out \<longrightarrow> out \<noteq> [] \<and> length out \<le> n) \<and>
     (\<forall>t d n out m. cmp t d n = Some out \<longrightarrow> length d \<le> m \<longrightarrow> dcmp t out m = Some d)"

lemma CompressOneChunk_size:
  "codec_ok cmp dcmp \<Longrightarrow> length (snd (CompressOneChunk cmp t d)) \<le> length d"
  by (cases t) (auto simp: CompressOneChunk_def codec_ok_def split: option.splits)

text \<open>A chunk that the codec refuses to compress is stored raw, and its flag is not kept.\<close>

definition raw_safe :: "codec \<Rightarrow> codec \<Rightarrow> bytes \<Rightarrow> bool" where
  "raw_safe cmp dcmp d \<longleftrightarrow>
     cmp COMPRESSION_TYPE d (length d) \<noteq> None \<or> dcmp COMPRESSION_TYPE d MAX_CHUNK_SIZE = None"

lemma Decompress_Compress:
  assumes "codec_ok cmp dcmp" "length d \<le> MAX_CHUNK_SIZE"
  shows "DecompressOneChunk dcmp COMPRESSION_TYPE (snd (CompressOneChunk cmp COMPRESSION_TYPE d)) = d
         \<longleftrightarrow> raw_safe cmp dcmp d \<or> dcmp COMPRESSION_TYPE d MAX_CHUNK_SIZE = Some d"
  using assms
  by (auto simp: DecompressOneChunk_def CompressOneChunk_def COMPRESSION_TYPE_def codec_ok_def raw_safe_def
      split: option.splits)

subsection \<open>Padding\<close>

definition max_padding_size :: nat where "max_padding_size = 255"

definition padding_blk_num :: "u64 \<Rightarrow> nat \<Rightarrow> nat \<Rightarrow> nat" where
  "padding_blk_num padding_seed original_size compressed_size =
    (let padding_limit = min (to_u32 (original_size + 2 ^ 32 - compressed_size)) max_padding_size
     in if padding_limit < 4 then 0
        else (let n = (unat padding_seed mod padding_limit) div 4 in if n = 0 then 1 else n))"

definition PaddingWithSeed :: "(u64 \<Rightarrow> nat \<Rightarrow> u32) \<Rightarrow> u64 \<Rightarrow> nat \<Rightarrow> bytes \<Rightarrow> bytes" where
  \<comment> \<open>the buffer after the call, up to the size that is returned\<close>
  "PaddingWithSeed rng padding_seed original_size compressed =
    (let n = padding_blk_num padding_seed original_size (length compressed)
     in compressed @ concat (map (\<lambda>i. u32_le (rng padding_seed i)) [0..<n]) @ u32_le (of_nat (length compressed)))"

definition CompressWithPad :: "codec \<Rightarrow> (u64 \<Rightarrow> nat \<Rightarrow> u32) \<Rightarrow> bytes \<Rightarrow> u64 \<Rightarrow> bytes" where
  "CompressWithPad cmp rng input_data padding_seed =
     PaddingWithSeed rng padding_seed (length input_data) (snd (CompressOneChunk cmp COMPRESSION_TYPE input_data))"

definition DecompressWithPad :: "codec \<Rightarrow> bytes \<Rightarrow> bytes result" where
  "DecompressWithPad dcmp input_data =
    (if length input_data < 4 then Inl OutOfBounds
     else bindR (mem_read input_data (length input_data - 4) 4) (\<lambda>sz.
          bindR (mem_read input_data 0 (le_nat sz)) (\<lambda>compressed.
            Inr (DecompressOneChunk dcmp COMPRESSION_TYPE compressed))))"

lemma length_pad_blocks: "length (concat (map (\<lambda>i. u32_le (f i)) xs)) = 4 * length xs"
  by (induction xs) simp_all

lemma padding_blk_num_bound:
  assumes "c \<le> n" "n < 2 ^ 32"
  shows "4 * padding_blk_num seed n c \<le> n - c"
proof -
  have t: "to_u32 (n + 2 ^ 32 - c) = n - c"
  proof -
    have "n + 2 ^ 32 - c = (n - c) + 2 ^ 32" using assms(1) by simp
    moreover have "((n - c) + 2 ^ 32) mod 2 ^ 32 = n - c"
    proof -
      have "n - c < 2 ^ 32" using assms(2) by (rule le_less_trans [OF diff_le_self])
      then show ?thesis by (simp only: mod_add_self2 mod_less)
    qed
    ultimately show ?thesis by (simp only: to_u32_def)
  qed
  let ?l = "min (n - c) max_padding_size"
  have "4 * ((unat seed mod ?l) div 4) \<le> unat seed mod ?l" by (rule times_div_less_eq_dividend)
  moreover have "unat seed mod ?l < ?l" if "4 \<le> ?l" by (rule mod_less_divisor) (use that in linarith)
  moreover have "?l \<le> n - c" by simp
  ultimately have "4 * ((unat seed mod ?l) div 4) \<le> n - c" if "4 \<le> ?l" using that by linarith
  then show ?thesis unfolding padding_blk_num_def t Let_def by (simp add: not_less)
qed

lemma length_PaddingWithSeed:
  "length (PaddingWithSeed rng seed n c) = length c + 4 * padding_blk_num seed n (length c) + 4"
  by (simp add: PaddingWithSeed_def Let_def length_pad_blocks)

lemma CompressWithPad_bound:
  assumes "codec_ok cmp dcmp" "length d < 2 ^ 32"
  shows "length (CompressWithPad cmp rng d seed) \<le> length d + 4"
  using padding_blk_num_bound [OF CompressOneChunk_size [OF assms(1), of COMPRESSION_TYPE d] assms(2), of seed]
    CompressOneChunk_size [OF assms(1), of COMPRESSION_TYPE d]
  by (simp add: CompressWithPad_def length_PaddingWithSeed)

lemma DecompressWithPad_padded:
  assumes "length c < 2 ^ 32"
  shows "DecompressWithPad dcmp (PaddingWithSeed rng seed n c) = Inr (DecompressOneChunk dcmp COMPRESSION_TYPE c)"
proof -
  define pad where "pad = concat (map (\<lambda>i. u32_le (rng seed i)) [0..<padding_blk_num seed n (length c)])"
  have e: "PaddingWithSeed rng seed n c = c @ pad @ u32_le (of_nat (length c))"
    by (simp add: PaddingWithSeed_def Let_def pad_def)
  have "le_nat (u32_le (of_nat (length c))) = length c"
    using assms by (simp add: u32_le_def le_nat_nat_le unat_of_nat)
  then show ?thesis unfolding e
    by (simp add: DecompressWithPad_def mem_read_def)
qed

lemma Decompress_CompressWithPad:
  assumes "codec_ok cmp dcmp" "length chunk \<le> MAX_CHUNK_SIZE" "raw_safe cmp dcmp chunk"
  shows "DecompressWithPad dcmp (CompressWithPad cmp rng chunk seed) = Inr chunk"
proof -
  have small: "length chunk < 2 ^ 32" using assms(2) by (simp add: MAX_CHUNK_SIZE_def)
  have "length (snd (CompressOneChunk cmp COMPRESSION_TYPE chunk)) < 2 ^ 32"
    using CompressOneChunk_size [OF assms(1), of COMPRESSION_TYPE chunk] small by linarith
  then show ?thesis
    using Decompress_Compress [OF assms(1,2)] assms(3)
    by (simp add: CompressWithPad_def DecompressWithPad_padded)
qed

text \<open>
  C28. Padding adds at most four bytes to what compression saved, so that a compressed, padded
  and encrypted chunk fits the buffer of \<open>ENC_MAX_CHUNK_SIZE\<close> bytes, and decompression finds
  the compressed data again and restores the chunk, provided that a chunk which the codec could
  not shrink is not itself a valid compressed frame.
\<close>

theorem CompressWithPad_roundtrip:
  assumes "codec_ok cmp dcmp" "length chunk \<le> MAX_CHUNK_SIZE" "raw_safe cmp dcmp chunk"
  shows "length (CompressWithPad cmp rng chunk seed) \<le> length chunk + 4 \<and>
         DecompressWithPad dcmp (CompressWithPad cmp rng chunk seed) = Inr chunk"
  using CompressWithPad_bound [OF assms(1)] Decompress_CompressWithPad [OF assms] assms(2)
  by (simp add: MAX_CHUNK_SIZE_def)

definition demo_cmp :: codec where
  \<comment> \<open>a run of one byte is stored as a header, its length and the byte\<close>
  "demo_cmp t d n = (if 6 \<le> n \<and> d \<noteq> [] \<and> d = replicate (length d) (hd d) \<and> length d < 2 ^ 32
                     then Some (1 # hd d # u32_le (of_nat (length d))) else None)"

definition demo_dcmp :: codec where
  "demo_dcmp t d n = (if length d = 6 \<and> hd d = 1 \<and> le_nat (drop 2 d) \<le> n
                      then Some (replicate (le_nat (drop 2 d)) (d ! 1)) else None)"

lemma demo_codec_ok: "codec_ok demo_cmp demo_dcmp"
  by (auto simp: codec_ok_def demo_cmp_def demo_dcmp_def u32_le_def le_nat_nat_le unat_of_nat split: if_splits)

theorem CompressWithPad_roundtrip_witness:
  "length (CompressWithPad demo_cmp (\<lambda>s i. 7) (replicate 100 5) 9) \<le> length (replicate 100 (5 :: byte)) + 4 \<and>
   DecompressWithPad demo_dcmp (CompressWithPad demo_cmp (\<lambda>s i. 7) (replicate 100 5) 9) = Inr (replicate 100 5)"
  by (rule CompressWithPad_roundtrip [OF demo_codec_ok])
    (simp_all add: MAX_CHUNK_SIZE_def raw_safe_def demo_cmp_def)

text \<open>
  The raw fallback is ambiguous: a chunk that the codec cannot shrink, but that is itself a
  valid compressed frame, is restored as the contents of that frame.
\<close>

theorem CompressWithPad_raw_frame:
  assumes "codec_ok cmp dcmp" "length chunk \<le> MAX_CHUNK_SIZE"
    and "cmp COMPRESSION_TYPE chunk (length chunk) = None"
    and "dcmp COMPRESSION_TYPE chunk MAX_CHUNK_SIZE = Some other"
  shows "DecompressWithPad dcmp (CompressWithPad cmp rng chunk seed) = Inr other"
proof -
  have "snd (CompressOneChunk cmp COMPRESSION_TYPE chunk) = chunk"
    using assms(3) by (simp add: CompressOneChunk_def COMPRESSION_TYPE_def)
  moreover have "DecompressOneChunk dcmp COMPRESSION_TYPE chunk = other"
    using assms(4) by (simp add: DecompressOneChunk_def COMPRESSION_TYPE_def)
  moreover have "length chunk < 2 ^ 32" using assms(2) by (simp add: MAX_CHUNK_SIZE_def)
  ultimately show ?thesis by (simp add: CompressWithPad_def DecompressWithPad_padded)
qed

theorem CompressWithPad_raw_frame_witness:
  "DecompressWithPad demo_dcmp (CompressWithPad demo_cmp (\<lambda>s i. 7) [1, 9, 2, 0, 0, 0] 3) = Inr (replicate 2 9)"
  by (rule CompressWithPad_raw_frame [OF demo_codec_ok])
    (simp_all add: MAX_CHUNK_SIZE_def demo_cmp_def demo_dcmp_def)

subsection \<open>Delta encoding\<close>

definition DeltaEncode :: "(bytes \<Rightarrow> bytes \<Rightarrow> nat \<Rightarrow> bytes option) \<Rightarrow> bytes \<Rightarrow> bytes \<Rightarrow> bytes result" where
  "DeltaEncode denc base_chunk input_chunk =
    (case denc base_chunk input_chunk ENC_MAX_CHUNK_SIZE of None \<Rightarrow> Inl DeltaFailure | Some delta \<Rightarrow> Inr delta)"

definition DeltaDecode :: "(bytes \<Rightarrow> bytes \<Rightarrow> nat \<Rightarrow> bytes option) \<Rightarrow> bytes \<Rightarrow> bytes \<Rightarrow> bytes result" where
  "DeltaDecode ddec base_chunk delta_chunk =
    (case ddec base_chunk delta_chunk ENC_MAX_CHUNK_SIZE of None \<Rightarrow> Inl DeltaFailure | Some out \<Rightarrow> Inr out)"

text \<open>
  What the code relies on of xdelta: an encoding respects the size of its buffer, is never empty,
  and decodes to its source.
\<close>

definition delta_ok ::
  "(bytes \<Rightarrow> bytes \<Rightarrow> nat \<Rightarrow> bytes option) \<Rightarrow> (bytes \<Rightarrow> bytes \<Rightarrow> nat \<Rightarrow> bytes option) \<Rightarrow> bool" where
  "delta_ok denc ddec \<longleftrightarrow>
     (\<forall>b d n delta. denc b d n = Some delta \<longrightarrow> length delta \<le> n \<and> (d \<noteq> [] \<longrightarrow> delta \<noteq> [])) \<and>
     (\<forall>b d n delta m. denc b d n = Some delta \<longrightarrow> length d \<le> m \<longrightarrow> ddec b delta m = Some d)"

lemma DeltaDecode_DeltaEncode:
  "delta_ok denc ddec \<Longrightarrow> DeltaEncode denc b d = Inr delta \<Longrightarrow> length d \<le> ENC_MAX_CHUNK_SIZE \<Longrightarrow>
   DeltaDecode ddec b delta = Inr d"
  by (auto simp: DeltaEncode_def DeltaDecode_def delta_ok_def split: option.splits)

end
