(* ===== verification/Client_Upload.thy ===== *)
theory Client_Upload
  imports Key_Manager Cache_Meta Crypto_Comp
begin

text \<open>
  The upload threads of the client up to the sender: \<open>plain_similar_thd.cc\<close>,
  \<open>key_gen_thd.cc\<close>, \<open>cipher_similar_thd.cc\<close> and \<open>select_comp_thd.cc\<close> under \<open>src/client\<close>.
  Each thread is a step on its local state that takes the message popped from its queue and
  gives the messages it pushes, in order. \<open>feat\<close> is feature extraction (\<open>finesse_util.cc\<close>);
  \<open>junk\<close> is what lies in the chunk buffer behind the chunk.
\<close>

subsection \<open>Features of the plaintext\<close>

definition PlainSimilarThd_step ::
  "(bytes \<Rightarrow> u64 list) \<Rightarrow> u64 list \<Rightarrow> chunk_t \<Rightarrow> (u64 list \<times> feature_chunk list) result" where
  \<comment> \<open>the state is the feature array of \<open>tmp_data\<close>, which is reused\<close>
  "PlainSimilarThd_step feat fs ch =
    (case c_type ch of
       NORMAL_CHUNK \<Rightarrow>
         (let fs = feat (raw_data (c_raw ch)) in Inr (fs, [chunk_t.extend ch (feature_chunk.fields fs)]))
     | RECIPE_CHUNK \<Rightarrow> Inr (fs, [chunk_t.extend ch (feature_chunk.fields fs)])
     | _ \<Rightarrow> Inl WrongChunkType)"

definition CipherSimilarThd_step ::
  "(bytes \<Rightarrow> u64 list) \<Rightarrow> unit \<Rightarrow> enc_feature_chunk \<Rightarrow> (unit \<times> enc_feature_chunk list) result" where
  "CipherSimilarThd_step feat _ ch =
    (case c_type ch of
       NORMAL_CHUNK \<Rightarrow> Inr ((), [ch \<lparr> c_features := feat (c_enc_data ch) \<rparr>])
     | RECIPE_CHUNK \<Rightarrow> Inr ((), [ch])
     | _ \<Rightarrow> Inl WrongChunkType)"

subsection \<open>Key generation and encryption\<close>

record ('k) key_gen =
  kg_chunk_buf :: "enc_feature_chunk list"     \<comment> \<open>\<open>chunk_buf_\<close>\<close>
  kg_send_buf :: "u64 list list"               \<comment> \<open>the requests in \<open>send_buf_\<close>\<close>
  kg_batch :: nat                              \<comment> \<open>\<open>send_chunk_batch_size_\<close>\<close>
  kg_km :: 'k                                  \<comment> \<open>the key manager behind the connection\<close>
  kg_finished :: bool                          \<comment> \<open>the connection was closed\<close>

type_synonym 'k km_conn =
  "'k \<Rightarrow> network_protocol \<times> u64 list list \<Rightarrow> ('k \<times> (network_protocol \<times> bytes list) list) result"

definition sample :: "bytes \<Rightarrow> bytes \<Rightarrow> bytes" where
  \<comment> \<open>the first \<open>CHUNK_HASH_SIZE\<close> bytes of the chunk buffer\<close>
  "sample junk data = take CHUNK_HASH_SIZE (data @ drop (length data) junk)"

definition enc_chunk_with ::
  "(bytes \<Rightarrow> bytes) \<Rightarrow> (evp_setup \<Rightarrow> bytes \<Rightarrow> bytes) \<Rightarrow> bytes \<Rightarrow> enc_feature_chunk \<Rightarrow> bytes \<Rightarrow> enc_feature_chunk result" where
  \<comment> \<open>the body of the loop over the batch in \<open>ProcessBatch\<close>\<close>
  "enc_chunk_with hash evp_enc junk ch key_seed =
    (let data = raw_data (c_raw ch);
         seed = ConvertFp2Val (raw_fp (c_raw ch));
         key = hash (sample junk data @ key_seed)
     in bindR (TwoPhaseEncChunk evp_enc data key) (\<lambda>enc.
          Inr (ch \<lparr> c_seed := seed, c_key := key, c_enc_data := enc \<rparr>)))"

fun enc_batch ::
  "(enc_feature_chunk \<Rightarrow> bytes \<Rightarrow> enc_feature_chunk result) \<Rightarrow> enc_feature_chunk list \<Rightarrow> bytes list \<Rightarrow>
   enc_feature_chunk list result" where
  "enc_batch enc [] keys = Inr []"
| "enc_batch enc (ch # chs) [] = Inl OutOfBounds"
| "enc_batch enc (ch # chs) (k # ks) =
     bindR (enc ch k) (\<lambda>c. bindR (enc_batch enc chs ks) (\<lambda>cs. Inr (c # cs)))"

definition ProcessBatch ::
  "'k km_conn \<Rightarrow> (enc_feature_chunk \<Rightarrow> bytes \<Rightarrow> enc_feature_chunk result) \<Rightarrow> 'k key_gen \<Rightarrow>
   ('k key_gen \<times> enc_feature_chunk list) result" where
  "ProcessBatch ask enc kg =
    (if kg_chunk_buf kg = [] then Inr (kg, [])
     else if kg_finished kg then Inl NetworkError
     else bindR (ask (kg_km kg) (CLIENT_KEY_GEN, kg_send_buf kg)) (\<lambda>(km, reply).
          case reply of
            [] \<Rightarrow> Inl NetworkError
          | (msg_type, keys) # _ \<Rightarrow>
              bindR (enc_batch enc (kg_chunk_buf kg) keys) (\<lambda>out.
                Inr (kg \<lparr> kg_km := km, kg_send_buf := [], kg_chunk_buf := [] \<rparr>, out))))"

definition AddChunkToBuf ::
  "'k km_conn \<Rightarrow> (enc_feature_chunk \<Rightarrow> bytes \<Rightarrow> enc_feature_chunk result) \<Rightarrow> 'k key_gen \<Rightarrow> enc_feature_chunk \<Rightarrow>
   ('k key_gen \<times> enc_feature_chunk list) result" where
  "AddChunkToBuf ask enc kg ch =
    (let kg = kg \<lparr> kg_chunk_buf := kg_chunk_buf kg @ [ch],
                   kg_send_buf := kg_send_buf kg @ [take SUPER_FEATURE_PER_CHUNK (c_features ch)] \<rparr>
     in if length (kg_chunk_buf kg) mod kg_batch kg = 0 then ProcessBatch ask enc kg else Inr (kg, []))"

definition enc_of :: "feature_chunk \<Rightarrow> enc_feature_chunk" where
  \<comment> \<open>\<open>tmp_data\<close>, whose other fields the thread never sets\<close>
  "enc_of ch = feature_chunk.extend ch (enc_feature_chunk.fields [] [] 0)"

definition KeyGenThd_step ::
  "'k km_conn \<Rightarrow> (enc_feature_chunk \<Rightarrow> bytes \<Rightarrow> enc_feature_chunk result) \<Rightarrow> 'k key_gen \<Rightarrow> feature_chunk \<Rightarrow>
   ('k key_gen \<times> enc_feature_chunk list) result" where
  "KeyGenThd_step ask enc kg ch =
    (case c_type ch of
       NORMAL_CHUNK \<Rightarrow> AddChunkToBuf ask enc kg (enc_of ch)
     | RECIPE_CHUNK \<Rightarrow>
         bindR (ProcessBatch ask enc kg) (\<lambda>(kg, out). Inr (kg \<lparr> kg_finished := True \<rparr>, out @ [enc_of ch]))
     | _ \<Rightarrow> Inl WrongChunkType)"

subsection \<open>Selective compression\<close>

record select_comp =
  sl_cache_meta :: cache_meta
  sl_send :: select_comp_2_sender     \<comment> \<open>\<open>tmp_send_chunk\<close>, reused for every chunk\<close>
  sl_cache :: select_comp_2_sender    \<comment> \<open>\<open>tmp_cache_chunk\<close>\<close>

definition recipe_head_bytes :: "file_recipe_head \<Rightarrow> bytes" where
  "recipe_head_bytes h = u64_le (of_nat (rh_size h)) @ u64_le (of_nat (rh_chunk_num h))"

definition put_chunk :: "select_comp_2_sender \<Rightarrow> data_type \<Rightarrow> bytes \<Rightarrow> select_comp_2_sender" where
  "put_chunk o_chunk t d = o_chunk \<lparr> s2_chunk := (s2_chunk o_chunk) \<lparr> sc_type := t, sc_data := d \<rparr> \<rparr>"

definition OnlyEncMode :: "enc_feature_chunk \<Rightarrow> select_comp_2_sender \<Rightarrow> select_comp_2_sender result" where
  "OnlyEncMode ch o_chunk =
    (case c_type ch of
       NORMAL_CHUNK \<Rightarrow> Inr ((put_chunk o_chunk NORMAL_CHUNK (c_enc_data ch)) \<lparr> s2_key := c_key ch \<rparr>)
     | RECIPE_CHUNK \<Rightarrow> Inr (put_chunk o_chunk RECIPE_CHUNK (recipe_head_bytes (c_head ch)))
     | _ \<Rightarrow> Inl WrongChunkType)"

definition EncCompMode ::
  "codec \<Rightarrow> (u64 \<Rightarrow> nat \<Rightarrow> u32) \<Rightarrow> enc_feature_chunk \<Rightarrow> select_comp_2_sender \<Rightarrow> select_comp_2_sender result" where
  "EncCompMode cmp rng ch o_chunk =
    (case c_type ch of
       NORMAL_CHUNK \<Rightarrow>
         Inr ((put_chunk o_chunk COMPRESSED_NORMAL_CHUNK (CompressWithPad cmp rng (raw_data (c_raw ch)) (c_seed ch)))
              \<lparr> s2_key := c_key ch \<rparr>)
     | RECIPE_CHUNK \<Rightarrow> Inr (put_chunk o_chunk RECIPE_CHUNK (recipe_head_bytes (c_head ch)))
     | _ \<Rightarrow> Inl WrongChunkType)"

definition FullEDR ::
  "(bytes \<Rightarrow> bytes) \<Rightarrow> (evp_setup \<Rightarrow> bytes \<Rightarrow> bytes) \<Rightarrow> codec \<Rightarrow> (u64 \<Rightarrow> nat \<Rightarrow> u32) \<Rightarrow>
   select_comp \<Rightarrow> enc_feature_chunk \<Rightarrow> (select_comp \<times> bool) result" where
  \<comment> \<open>the flag says that the cache chunk has to be pushed first\<close>
  "FullEDR hash evp_enc cmp rng sl ch =
    (case c_type ch of
       NORMAL_CHUNK \<Rightarrow>
         (let (cm, is_similar) = QueryCacheMeta (sl_cache_meta sl) (c_features ch);
              packed = CompressWithPad cmp rng (raw_data (c_raw ch)) (c_seed ch);
              fs = take SUPER_FEATURE_PER_CHUNK (c_features ch)
          in if is_similar then
               bindR (TwoPhaseEncChunk evp_enc packed (c_key ch)) (\<lambda>enc_data.
                 let o_chunk = put_chunk (sl_send sl) FULL_EDR_UNCOMPRESS_CHUNK (c_enc_data ch);
                     o_chunk = o_chunk \<lparr> s2_chunk := (s2_chunk o_chunk)
                                 \<lparr> sc_features := fs, sc_compressed_fp := hash enc_data \<rparr>, s2_key := c_key ch \<rparr>
                 in Inr (sl \<lparr> sl_cache_meta := cm, sl_send := o_chunk \<rparr>, False))
             else
               (let k_chunk = put_chunk (sl_cache sl) FULL_EDR_CACHE_CHUNK (c_enc_data ch);
                    k_chunk = k_chunk \<lparr> s2_chunk := (s2_chunk k_chunk) \<lparr> sc_features := fs \<rparr> \<rparr>;
                    o_chunk = (put_chunk (sl_send sl) COMPRESSED_NORMAL_CHUNK packed) \<lparr> s2_key := c_key ch \<rparr>
                in Inr (sl \<lparr> sl_cache_meta := UpdateCacheMeta cm (c_features ch), sl_cache := k_chunk,
                             sl_send := o_chunk \<rparr>, True)))
     | RECIPE_CHUNK \<Rightarrow>
         Inr (sl \<lparr> sl_send := put_chunk (sl_send sl) RECIPE_CHUNK (recipe_head_bytes (c_head ch)) \<rparr>, False)
     | _ \<Rightarrow> Inl WrongChunkType)"

definition SelectCompThd_step ::
  "(bytes \<Rightarrow> bytes) \<Rightarrow> (evp_setup \<Rightarrow> bytes \<Rightarrow> bytes) \<Rightarrow> codec \<Rightarrow> (u64 \<Rightarrow> nat \<Rightarrow> u32) \<Rightarrow> edr_design \<Rightarrow>
   select_comp \<Rightarrow> enc_feature_chunk \<Rightarrow> (select_comp \<times> select_comp_2_sender list) result" where
  "SelectCompThd_step hash evp_enc cmp rng method_type sl ch =
    (case method_type of
       ONLY_SIMILAR_ENC \<Rightarrow> bindR (OnlyEncMode ch (sl_send sl)) (\<lambda>o_chunk. Inr (sl \<lparr> sl_send := o_chunk \<rparr>, [o_chunk]))
     | SIMILAR_ENC_COMP \<Rightarrow>
         bindR (EncCompMode cmp rng ch (sl_send sl)) (\<lambda>o_chunk. Inr (sl \<lparr> sl_send := o_chunk \<rparr>, [o_chunk]))
     | FULL_EDR \<Rightarrow>
         bindR (FullEDR hash evp_enc cmp rng sl ch) (\<lambda>(sl, need_cache).
           Inr (sl, if need_cache then [sl_cache sl, sl_send sl] else [sl_send sl])))"

subsection \<open>Batching of key generation\<close>

lemma km_key_gen_total_irrelevant:
  "km_key_gen hash iter (st \<lparr> km_total_key_gen := n \<rparr>) req =
     bindR (km_key_gen hash iter st req) (\<lambda>(st', os). Inr (st' \<lparr> km_total_key_gen := n \<rparr>, os))"
  by (simp add: km_key_gen_def Let_def split: chunk_status.splits)

lemma km_run_total_irrelevant:
  "km_run hash iter st reqs = Inr (st', os) \<Longrightarrow>
   km_run hash iter (st \<lparr> km_total_key_gen := n \<rparr>) reqs = Inr (st' \<lparr> km_total_key_gen := n \<rparr>, os)"
proof (induction reqs arbitrary: st os)
  case Nil
  then show ?case by (simp add: km_run_def)
next
  case (Cons r reqs)
  then show ?case
    by (auto simp: km_run_def bindR_eq_Inr km_key_gen_total_irrelevant)
qed

lemma km_run_append:
  "km_run hash iter st (xs @ ys) = Inr (st', os) \<longleftrightarrow>
   (\<exists>s1 o1 o2. km_run hash iter st xs = Inr (s1, o1) \<and> km_run hash iter s1 ys = Inr (st', o2) \<and> os = o1 @ o2)"
  by (auto simp: km_run_def run_thd_append bindR_eq_Inr)

lemma km_key_gen_one: "km_key_gen hash iter st r = Inr (st', os) \<Longrightarrow> length os = 1"
  by (auto simp: km_key_gen_def Let_def split: chunk_status.splits)

lemma km_run_length: "km_run hash iter st xs = Inr (st', os) \<Longrightarrow> length os = length xs"
proof (induction xs arbitrary: st os)
  case Nil
  then show ?case by (simp add: km_run_def)
next
  case (Cons r xs)
  then show ?case by (auto simp: km_run_def bindR_eq_Inr dest!: km_key_gen_one)
qed

lemma enc_batch_append:
  "length ks = length xs \<Longrightarrow> enc_batch enc (xs @ ys) (ks @ ls) = Inr outs \<Longrightarrow>
   \<exists>o1 o2. enc_batch enc xs ks = Inr o1 \<and> enc_batch enc ys ls = Inr o2 \<and> outs = o1 @ o2"
proof (induction xs arbitrary: ks outs)
  case Nil
  then show ?case by simp
next
  case (Cons x xs)
  then obtain k ks' where k: "ks = k # ks'" "length ks' = length xs" by (cases ks) auto
  then obtain c cs where c: "enc x k = Inr c" "enc_batch enc (xs @ ys) (ks' @ ls) = Inr cs" "outs = c # cs"
    using Cons.prems(2) by (auto simp: bindR_eq_Inr)
  with Cons.IH [OF k(2) c(2)] k show ?case by auto
qed

abbreviation kg_req :: "'x feature_chunk_scheme \<Rightarrow> u64 list" where
  "kg_req ch \<equiv> take SUPER_FEATURE_PER_CHUNK (c_features ch)"

lemma enc_of_simps [simp]:
  "c_features (enc_of ch) = c_features ch" "c_type (enc_of ch) = c_type ch" "c_raw (enc_of ch) = c_raw ch"
  by (simp_all add: enc_of_def feature_chunk.defs enc_feature_chunk.defs)

text \<open>The batches, seen from a state in which the requests match the buffered chunks.\<close>

definition kg_wf :: "'k key_gen \<Rightarrow> bool" where
  "kg_wf kg \<longleftrightarrow> kg_send_buf kg = map kg_req (kg_chunk_buf kg) \<and> length (kg_chunk_buf kg) < kg_batch kg \<and>
     \<not> kg_finished kg"

lemma ProcessBatch_runs:
  assumes "kg_send_buf kg = map kg_req (kg_chunk_buf kg)" "\<not> kg_finished kg"
    and "km_run hash iter (kg_km kg) (map kg_req (kg_chunk_buf kg)) = Inr (km1, keys)"
    and "enc_batch enc (kg_chunk_buf kg) keys = Inr outs"
  shows "\<exists>n. ProcessBatch (km_handle hash iter) enc kg =
    Inr (kg \<lparr> kg_km := km1 \<lparr> km_total_key_gen := n \<rparr>, kg_send_buf := [], kg_chunk_buf := [] \<rparr>, outs)"
proof (cases "kg_chunk_buf kg = []")
  case True
  then have "km1 = kg_km kg" "outs = []" using assms by (simp_all add: km_run_def)
  with True assms show ?thesis
    by (intro exI [of _ "km_total_key_gen km1"]) (simp add: ProcessBatch_def)
next
  case False
  then show ?thesis using assms by (simp add: ProcessBatch_def km_handle_def km_run_def) blast
qed

lemma KeyGenThd_chunks:
  assumes "kg_wf kg" "\<forall>ch \<in> set chs. c_type ch = NORMAL_CHUNK" "c_type rc = RECIPE_CHUNK"
    and "km_run hash iter (kg_km kg) (map kg_req (kg_chunk_buf kg @ map enc_of chs)) = Inr (km', keys)"
    and "enc_batch enc (kg_chunk_buf kg @ map enc_of chs) keys = Inr outs"
  shows "\<exists>kg' n. run_thd (KeyGenThd_step (km_handle hash iter) enc) kg (chs @ [rc]) = Inr (kg', outs @ [enc_of rc]) \<and>
    kg_km kg' = km' \<lparr> km_total_key_gen := n \<rparr>"
  using assms(1,2,4,5)
proof (induction chs arbitrary: kg km' keys outs)
  case Nil
  then obtain n where "ProcessBatch (km_handle hash iter) enc kg =
      Inr (kg \<lparr> kg_km := km' \<lparr> km_total_key_gen := n \<rparr>, kg_send_buf := [], kg_chunk_buf := [] \<rparr>, outs)"
    using ProcessBatch_runs [of kg hash iter km' keys enc outs] by (auto simp: kg_wf_def)
  with assms(3) show ?case by (auto simp: KeyGenThd_step_def)
next
  case (Cons ch chs)
  let ?kg = "kg \<lparr> kg_chunk_buf := kg_chunk_buf kg @ [enc_of ch], kg_send_buf := kg_send_buf kg @ [kg_req ch] \<rparr>"
  have add: "KeyGenThd_step (km_handle hash iter) enc kg ch =
      (if length (kg_chunk_buf ?kg) mod kg_batch kg = 0 then ProcessBatch (km_handle hash iter) enc ?kg else Inr (?kg, []))"
    using Cons.prems(2) by (simp add: KeyGenThd_step_def AddChunkToBuf_def)
  have send: "kg_send_buf ?kg = map kg_req (kg_chunk_buf ?kg)" using Cons.prems(1) by (simp add: kg_wf_def)
  show ?case
  proof (cases "length (kg_chunk_buf ?kg) < kg_batch kg")
    case True
    then have st: "KeyGenThd_step (km_handle hash iter) enc kg ch = Inr (?kg, [])" using add by simp
    have wf: "kg_wf ?kg" using True send Cons.prems(1) by (simp add: kg_wf_def)
    have normal: "\<forall>ch \<in> set chs. c_type ch = NORMAL_CHUNK" using Cons.prems(2) by simp
    have run: "km_run hash iter (kg_km ?kg) (map kg_req (kg_chunk_buf ?kg @ map enc_of chs)) = Inr (km', keys)"
      using Cons.prems(3) by simp
    have encs: "enc_batch enc (kg_chunk_buf ?kg @ map enc_of chs) keys = Inr outs" using Cons.prems(4) by simp
    from Cons.IH [OF wf normal run encs]
    obtain kg' n where r: "run_thd (KeyGenThd_step (km_handle hash iter) enc) ?kg (chs @ [rc]) =
        Inr (kg', outs @ [enc_of rc])" "kg_km kg' = km' \<lparr> km_total_key_gen := n \<rparr>" by blast
    show ?thesis
      by (intro exI [of _ kg'] exI [of _ n] conjI r(2)) (simp only: append_Cons run_thd.simps st bindR_Inr case_prod_conv r(1), simp)
  next
    case False
    then have full: "length (kg_chunk_buf ?kg) = kg_batch kg" using Cons.prems(1) by (simp add: kg_wf_def)
    have "km_run hash iter (kg_km kg) (map kg_req (kg_chunk_buf ?kg) @ map kg_req (map enc_of chs)) = Inr (km', keys)"
      using Cons.prems(3) by simp
    then obtain km1 k1 k2 where km: "km_run hash iter (kg_km kg) (map kg_req (kg_chunk_buf ?kg)) = Inr (km1, k1)"
        "km_run hash iter km1 (map kg_req (map enc_of chs)) = Inr (km', k2)" "keys = k1 @ k2"
      unfolding km_run_append by blast
    have len: "length k1 = length (kg_chunk_buf ?kg)" using km_run_length [OF km(1)] by simp
    obtain o1 o2 where o: "enc_batch enc (kg_chunk_buf ?kg) k1 = Inr o1"
        "enc_batch enc (map enc_of chs) k2 = Inr o2" "outs = o1 @ o2"
      using enc_batch_append [OF len, of enc "map enc_of chs" k2 outs] Cons.prems(4) km(3) by auto
    obtain n where "ProcessBatch (km_handle hash iter) enc ?kg =
        Inr (?kg \<lparr> kg_km := km1 \<lparr> km_total_key_gen := n \<rparr>, kg_send_buf := [], kg_chunk_buf := [] \<rparr>, o1)"
      using ProcessBatch_runs [OF send, of hash iter km1 k1 enc o1] km(1) o(1) Cons.prems(1) by (auto simp: kg_wf_def)
    then have s: "KeyGenThd_step (km_handle hash iter) enc kg ch =
        Inr (?kg \<lparr> kg_km := km1 \<lparr> km_total_key_gen := n \<rparr>, kg_send_buf := [], kg_chunk_buf := [] \<rparr>, o1)"
      using add full by simp
    let ?kg1 = "?kg \<lparr> kg_km := km1 \<lparr> km_total_key_gen := n \<rparr>, kg_send_buf := [], kg_chunk_buf := [] \<rparr>"
    have "kg_wf ?kg1" using Cons.prems(1) full by (auto simp: kg_wf_def)
    moreover have "km_run hash iter (kg_km ?kg1) (map kg_req (kg_chunk_buf ?kg1 @ map enc_of chs)) =
        Inr (km' \<lparr> km_total_key_gen := n \<rparr>, k2)"
      using km_run_total_irrelevant [OF km(2), of n] by simp
    ultimately obtain kg' m where "run_thd (KeyGenThd_step (km_handle hash iter) enc) ?kg1 (chs @ [rc]) =
        Inr (kg', o2 @ [enc_of rc])" "kg_km kg' = km' \<lparr> km_total_key_gen := m \<rparr>"
      using Cons.IH [of ?kg1 "km' \<lparr> km_total_key_gen := n \<rparr>" k2 o2] Cons.prems(2) o(2) by auto
    with s o(3) show ?thesis by auto
  qed
qed

text \<open>
  C26. Batching of key generation is transparent: whatever the batch size, a file's chunks come
  out in order, one for one, each with the key the key manager gives to its features when asked
  for all of them at once, and the recipe chunk comes last.
\<close>

theorem KeyGenThd_batching:
  assumes "0 < batch" "\<forall>ch \<in> set chs. c_type ch = NORMAL_CHUNK" "c_type rc = RECIPE_CHUNK"
    and "km_run hash iter km (map kg_req chs) = Inr (km', keys)"
    and "enc_batch enc (map enc_of chs) keys = Inr outs"
  shows "\<exists>kg'. run_thd (KeyGenThd_step (km_handle hash iter) enc)
      \<lparr> kg_chunk_buf = [], kg_send_buf = [], kg_batch = batch, kg_km = km, kg_finished = False \<rparr> (chs @ [rc]) =
    Inr (kg', outs @ [enc_of rc]) \<and> km_index (kg_km kg') = km_index km'"
proof -
  let ?kg = "\<lparr> kg_chunk_buf = [], kg_send_buf = [], kg_batch = batch, kg_km = km, kg_finished = False \<rparr> :: km_state key_gen"
  have "kg_wf ?kg" using assms(1) by (simp add: kg_wf_def)
  moreover have "km_run hash iter (kg_km ?kg) (map kg_req (kg_chunk_buf ?kg @ map enc_of chs)) = Inr (km', keys)"
    using assms(4) by (simp add: comp_def)
  moreover have "enc_batch enc (kg_chunk_buf ?kg @ map enc_of chs) keys = Inr outs" using assms(5) by simp
  ultimately obtain kg' n where "run_thd (KeyGenThd_step (km_handle hash iter) enc) ?kg (chs @ [rc]) =
      Inr (kg', outs @ [enc_of rc])" "kg_km kg' = km' \<lparr> km_total_key_gen := n \<rparr>"
    using KeyGenThd_chunks [of ?kg chs rc hash iter km' keys enc outs] assms(2,3) by blast
  then show ?thesis by auto
qed

definition chunk_demo :: "data_type \<Rightarrow> u64 list \<Rightarrow> feature_chunk" where
  "chunk_demo t fs = \<lparr> c_raw = \<lparr> raw_data = [1, 2], raw_fp = [3] \<rparr>, c_head = \<lparr> rh_size = 0, rh_chunk_num = 0 \<rparr>,
                      c_type = t, c_features = fs \<rparr>"

theorem KeyGenThd_batching_witness:
  "\<exists>kg' outs. run_thd (KeyGenThd_step (km_handle (\<lambda>x. replicate CHUNK_HASH_SIZE (last x)) rev) (\<lambda>ch k. Inr ch))
      \<lparr> kg_chunk_buf = [], kg_send_buf = [], kg_batch = 2, kg_km = km0, kg_finished = False \<rparr>
      ([chunk_demo NORMAL_CHUNK [1, 2, 3], chunk_demo NORMAL_CHUNK [4, 5, 6], chunk_demo NORMAL_CHUNK [1, 2, 3]]
       @ [chunk_demo RECIPE_CHUNK []]) =
    Inr (kg', outs @ [enc_of (chunk_demo RECIPE_CHUNK [])])"
proof -
  let ?h = "\<lambda>x :: bytes. replicate CHUNK_HASH_SIZE (last x)" and ?enc = "\<lambda>ch (k :: bytes). Inr ch :: enc_feature_chunk result"
  let ?chs = "[chunk_demo NORMAL_CHUNK [1, 2, 3], chunk_demo NORMAL_CHUNK [4, 5, 6], chunk_demo NORMAL_CHUNK [1, 2, 3]]"
  obtain km' keys where r: "km_run ?h rev km0 (map kg_req ?chs) = Inr (km', keys)"
    using km_run_total [where iter = rev and hash = ?h and st = km0 and reqs = "map kg_req ?chs"] by auto
  have "length keys = length ?chs" using km_run_length [OF r] by simp
  then obtain k1 k2 k3 where "keys = [k1, k2, k3]" by (auto simp: length_Suc_conv)
  then have e: "enc_batch ?enc (map enc_of ?chs) keys = Inr (map enc_of ?chs)" by simp
  show ?thesis
    using KeyGenThd_batching [OF _ _ _ r e, of 2 "chunk_demo RECIPE_CHUNK []"] by (auto simp: chunk_demo_def)
qed

subsection \<open>The stream that selective compression emits\<close>

text \<open>
  In a well-formed stream a cache chunk is followed by the compressed chunk it belongs to, with
  the same key, and nothing else is compressed.
\<close>

fun paired :: "select_comp_2_sender list \<Rightarrow> bool" where
  "paired [] = True"
| "paired (c # cs) =
    (if sc_type (s2_chunk c) = FULL_EDR_CACHE_CHUNK then
       (case cs of d # ds \<Rightarrow> sc_type (s2_chunk d) = COMPRESSED_NORMAL_CHUNK \<and> paired ds | [] \<Rightarrow> False)
     else sc_type (s2_chunk c) \<in> {FULL_EDR_UNCOMPRESS_CHUNK, RECIPE_CHUNK} \<and> paired cs)"

lemma paired_append: "paired cs \<Longrightarrow> paired ds \<Longrightarrow> paired (cs @ ds)"
  by (induction cs rule: paired.induct) (auto split: list.splits if_splits)

lemma FullEDR_step_paired:
  "SelectCompThd_step hash evp_enc cmp rng FULL_EDR sl ch = Inr (sl', os) \<Longrightarrow> paired os"
  by (auto simp: SelectCompThd_step_def FullEDR_def put_chunk_def bindR_eq_Inr Let_def
      split: data_type.splits prod.splits if_splits)

lemma FullEDR_run_paired:
  "run_thd (SelectCompThd_step hash evp_enc cmp rng FULL_EDR) sl chs = Inr (sl', os) \<Longrightarrow> paired os"
proof (induction chs arbitrary: sl os)
  case Nil
  then show ?case by simp
next
  case (Cons ch chs)
  then show ?case by (auto simp: bindR_eq_Inr intro: paired_append FullEDR_step_paired)
qed

definition fits_send :: "select_comp_2_sender \<Rightarrow> bool" where
  "fits_send c \<longleftrightarrow> length (sc_data (s2_chunk c)) \<le> ENC_MAX_CHUNK_SIZE \<and>
     (sc_type (s2_chunk c) = COMPRESSED_NORMAL_CHUNK \<longrightarrow> length (sc_data (s2_chunk c)) \<le> MAX_CHUNK_SIZE + 4)"

definition upload_chunk_ok :: "enc_feature_chunk \<Rightarrow> bool" where
  "upload_chunk_ok ch \<longleftrightarrow> c_type ch = RECIPE_CHUNK \<or>
     c_type ch = NORMAL_CHUNK \<and> length (raw_data (c_raw ch)) \<le> MAX_CHUNK_SIZE \<and>
     length (c_enc_data ch) \<le> ENC_MAX_CHUNK_SIZE"

lemma CompressWithPad_fits:
  assumes "codec_ok cmp dcmp" "length d \<le> MAX_CHUNK_SIZE"
  shows "length (CompressWithPad cmp rng d seed) \<le> MAX_CHUNK_SIZE + 4"
proof -
  have "length d < 2 ^ 32" using assms(2) by (simp add: MAX_CHUNK_SIZE_def)
  from CompressWithPad_bound [OF assms(1) this, of rng seed] assms(2) show ?thesis by linarith
qed

lemma FullEDR_step_ok:
  assumes "evp_ok evp_enc evp_dec" "codec_ok cmp dcmp" "upload_chunk_ok ch"
  shows "\<exists>sl' os. SelectCompThd_step hash evp_enc cmp rng FULL_EDR sl ch = Inr (sl', os) \<and> (\<forall>c \<in> set os. fits_send c)"
proof (cases "c_type ch = RECIPE_CHUNK")
  case True
  then show ?thesis
    by (simp add: SelectCompThd_step_def FullEDR_def put_chunk_def fits_send_def recipe_head_bytes_def size_consts)
next
  case False
  then have ch: "c_type ch = NORMAL_CHUNK" "length (raw_data (c_raw ch)) \<le> MAX_CHUNK_SIZE"
      "length (c_enc_data ch) \<le> ENC_MAX_CHUNK_SIZE"
    using assms(3) by (simp_all add: upload_chunk_ok_def)
  let ?p = "CompressWithPad cmp rng (raw_data (c_raw ch)) (c_seed ch)"
  have p: "length ?p \<le> MAX_CHUNK_SIZE + 4" by (rule CompressWithPad_fits [OF assms(2) ch(2)])
  then have p2: "length ?p \<le> ENC_MAX_CHUNK_SIZE" by (simp add: size_consts)
  obtain c where "TwoPhaseEncChunk evp_enc ?p (c_key ch) = Inr c"
    using TwoPhaseEncChunk_size [OF assms(1) p] by blast
  with ch p p2 show ?thesis
    by (cases "QueryCacheMeta (sl_cache_meta sl) (c_features ch)")
      (simp add: SelectCompThd_step_def FullEDR_def put_chunk_def fits_send_def Let_def)
qed



text \<open>
  Which form a chunk is sent in is decided by the cache table alone: a chunk that shares no
  feature with it is announced (its ciphertext and features as a cache chunk) and sent
  compressed and padded, a chunk that does is sent as its ciphertext together with the
  fingerprint of the form that was not sent; both carry the chunk's key.
\<close>

theorem FullEDR_choice:
  assumes "c_type ch = NORMAL_CHUNK" "SelectCompThd_step hash evp_enc cmp rng FULL_EDR sl ch = Inr (sl', os)"
  shows "if \<exists>f \<in> set (kg_req ch). f \<in> cm_dom (sl_cache_meta sl)
    then (\<exists>c enc. os = [c] \<and> sc_type (s2_chunk c) = FULL_EDR_UNCOMPRESS_CHUNK \<and> sc_data (s2_chunk c) = c_enc_data ch \<and>
            sc_features (s2_chunk c) = kg_req ch \<and> s2_key c = c_key ch \<and>
            TwoPhaseEncChunk evp_enc (CompressWithPad cmp rng (raw_data (c_raw ch)) (c_seed ch)) (c_key ch) = Inr enc \<and>
            sc_compressed_fp (s2_chunk c) = hash enc \<and>
            cm_dom (sl_cache_meta sl') = cm_dom (sl_cache_meta sl))
    else (\<exists>k c. os = [k, c] \<and> sc_type (s2_chunk k) = FULL_EDR_CACHE_CHUNK \<and> sc_data (s2_chunk k) = c_enc_data ch \<and>
            sc_features (s2_chunk k) = kg_req ch \<and> sc_type (s2_chunk c) = COMPRESSED_NORMAL_CHUNK \<and>
            sc_data (s2_chunk c) = CompressWithPad cmp rng (raw_data (c_raw ch)) (c_seed ch) \<and> s2_key c = c_key ch \<and>
            cm_dom (sl_cache_meta sl') = cm_dom (sl_cache_meta sl) \<union> set (kg_req ch))"
proof -
  obtain cm sim where q: "QueryCacheMeta (sl_cache_meta sl) (c_features ch) = (cm, sim)"
    by (cases "QueryCacheMeta (sl_cache_meta sl) (c_features ch)")
  note spec = QueryCacheMeta_spec(2,3) [OF q]
  show ?thesis
    using assms q spec
    by (cases sim) (auto simp: SelectCompThd_step_def FullEDR_def put_chunk_def bindR_eq_Inr Let_def UpdateCacheMeta_dom)
qed

theorem FullEDR_choice_witness:
  "let r = SelectCompThd_step (\<lambda>x. take 32 x) demo_enc demo_cmp (\<lambda>s i. 7) FULL_EDR
       \<lparr> sl_cache_meta = cm_demo, sl_send = undefined, sl_cache = undefined \<rparr> (enc_of (chunk_demo NORMAL_CHUNK [11, 7, 8]))
   in \<exists>sl' k c. r = Inr (sl', [k, c]) \<and> sc_type (s2_chunk k) = FULL_EDR_CACHE_CHUNK"
proof -
  let ?sl = "\<lparr> sl_cache_meta = cm_demo, sl_send = undefined, sl_cache = undefined \<rparr>"
  let ?ch = "enc_of (chunk_demo NORMAL_CHUNK [11, 7, 8])"
  have t: "c_type ?ch = NORMAL_CHUNK" by (simp add: chunk_demo_def)
  have "upload_chunk_ok ?ch"
    by (simp add: upload_chunk_ok_def chunk_demo_def enc_of_def feature_chunk.defs enc_feature_chunk.defs size_consts)
  then obtain sl' os where r: "SelectCompThd_step (\<lambda>x. take 32 x) demo_enc demo_cmp (\<lambda>s i. 7) FULL_EDR ?sl ?ch = Inr (sl', os)"
    using FullEDR_step_ok [OF demo_evp_ok demo_codec_ok] by blast
  have "\<not> (\<exists>f \<in> set (kg_req ?ch). f \<in> cm_dom (sl_cache_meta ?sl))"
    by (simp add: chunk_demo_def cm_demo_def SUPER_FEATURE_PER_CHUNK_def)
  with FullEDR_choice [OF t r] r show ?thesis by auto
qed

end
