(* ===== verification/Sender.thy ===== *)
theory Sender
  imports Client_Upload
begin

text \<open>
  The sender of the client, \<open>src/client/sender_thd.cc\<close>: it frames chunks into batches,
  re-encrypts the compressed ones, stores the key recipe, and ends the upload with the file
  recipe head and the eviction of unused features. The frame of a chunk is the struct
  \<open>SendChunkHeader_t\<close> of \<open>include/data_structure.h\<close> (64 bytes, three of them padding that is
  modelled as zero) followed by the chunk data.
\<close>

subsection \<open>Frames\<close>

definition type_code :: "data_type \<Rightarrow> byte" where
  "type_code t = (case t of
     NORMAL_CHUNK \<Rightarrow> 0 | COMPRESSED_NORMAL_CHUNK \<Rightarrow> 1 | RECIPE_CHUNK \<Rightarrow> 2 | FULL_EDR_CACHE_CHUNK \<Rightarrow> 3
   | FULL_EDR_UNCOMPRESS_CHUNK \<Rightarrow> 4 | CACHE_RESTORE_DELTA \<Rightarrow> 5 | CACHE_RESTORE_BASE \<Rightarrow> 6
   | COMP_NORMAL_CHUNK \<Rightarrow> 7 | UNCOMP_NORMAL_CHUNK \<Rightarrow> 8 | MULTI_LEVEL_TYPE \<Rightarrow> 12)"

definition code_type :: "byte \<Rightarrow> data_type option" where
  "code_type b = (if b = 0 then Some NORMAL_CHUNK else if b = 1 then Some COMPRESSED_NORMAL_CHUNK
     else if b = 2 then Some RECIPE_CHUNK else if b = 3 then Some FULL_EDR_CACHE_CHUNK
     else if b = 4 then Some FULL_EDR_UNCOMPRESS_CHUNK else if b = 5 then Some CACHE_RESTORE_DELTA
     else if b = 6 then Some CACHE_RESTORE_BASE else if b = 7 then Some COMP_NORMAL_CHUNK
     else if b = 8 then Some UNCOMP_NORMAL_CHUNK else if b = 12 then Some MULTI_LEVEL_TYPE else None)"

lemma code_type_code [simp]: "code_type (type_code t) = Some t"
  by (cases t) (simp_all add: code_type_def type_code_def)

definition HEADER_SIZE :: nat where "HEADER_SIZE = 64"

definition SEND_CHUNK_SIZE :: nat where
  \<comment> \<open>\<open>sizeof(SendChunk_t)\<close>\<close>
  "SEND_CHUNK_SIZE = 16472"

definition send_header :: "send_chunk \<Rightarrow> bytes" where
  "send_header c = u32_le (of_nat (length (sc_data c))) @ [type_code (sc_type c), 0, 0, 0] @
     feature_bytes (sc_features c) @ sc_compressed_fp c"

definition send_frame :: "send_chunk \<Rightarrow> bytes" where
  "send_frame c = send_header c @ sc_data c"

definition header_wf :: "send_chunk \<Rightarrow> bool" where
  "header_wf c \<longleftrightarrow> length (sc_features c) = SUPER_FEATURE_PER_CHUNK \<and> length (sc_compressed_fp c) = CHUNK_HASH_SIZE"

lemma length_send_header: "header_wf c \<Longrightarrow> length (send_header c) = HEADER_SIZE"
  by (simp add: send_header_def header_wf_def HEADER_SIZE_def size_consts)

text \<open>Reading a header at an offset of the receive buffer.\<close>

definition read_header :: "bytes \<Rightarrow> nat \<Rightarrow> (nat \<times> data_type option \<times> u64 list \<times> bytes) result" where
  "read_header buf off =
    bindR (mem_read buf off HEADER_SIZE) (\<lambda>h.
      Inr (le_nat (take 4 h), code_type (h ! 4),
           map (feature_at (take 24 (drop 8 h))) [0..<SUPER_FEATURE_PER_CHUNK], take CHUNK_HASH_SIZE (drop 32 h)))"

lemma feature_bytes_read: "length fs = n \<Longrightarrow> map (feature_at (feature_bytes fs)) [0..<n] = fs"
  using features_of_bytes [of fs] by simp

lemma read_header_frame:
  assumes wf: "header_wf c" and small: "length (sc_data c) < 2 ^ 32"
  shows "read_header (pre @ send_frame c @ post) (length pre) =
    Inr (length (sc_data c), Some (sc_type c), sc_features c, sc_compressed_fp c)"
proof -
  have len: "length (send_header c) = HEADER_SIZE" by (rule length_send_header [OF wf])
  have "mem_read (pre @ send_header c @ (sc_data c @ post)) (length pre) HEADER_SIZE = Inr (send_header c)"
    unfolding len [symmetric] by (rule mem_read_append)
  moreover have "take 4 (send_header c) = u32_le (of_nat (length (sc_data c)))" by (simp add: send_header_def)
  moreover have "send_header c ! 4 = type_code (sc_type c)" by (simp add: send_header_def nth_append)
  moreover have "drop 8 (send_header c) = feature_bytes (sc_features c) @ sc_compressed_fp c"
    by (simp add: send_header_def)
  moreover have "length (feature_bytes (sc_features c)) = 24"
    using wf by (simp add: header_wf_def SUPER_FEATURE_PER_CHUNK_def)
  moreover from this have "drop 32 (send_header c) = sc_compressed_fp c"
    by (simp add: send_header_def)
  ultimately show ?thesis
    using wf small feature_bytes_read [of "sc_features c" SUPER_FEATURE_PER_CHUNK]
    by (simp add: read_header_def send_frame_def le_nat_u32_le header_wf_def)
qed

subsection \<open>The thread\<close>

type_synonym net_msg = "network_protocol \<times> nat \<times> bytes"

record sender =
  sd_item_num :: nat        \<comment> \<open>\<open>send_chunk_buf_.header->cur_item_num\<close>\<close>
  sd_data :: bytes          \<comment> \<open>the data of \<open>send_chunk_buf_\<close>, \<open>header->size\<close> bytes\<close>
  sd_batch :: nat           \<comment> \<open>\<open>send_chunk_batch_size_\<close>\<close>
  sd_key_cnt :: nat
  sd_key_buf :: bytes
  sd_key_batch :: nat       \<comment> \<open>\<open>send_recipe_batch_size_\<close>\<close>
  sd_key_file :: bytes      \<comment> \<open>what has been written to the key recipe file\<close>
  sd_total_send :: nat
  sd_cache_meta :: cache_meta
  sd_finished :: bool

definition sender_new :: "nat \<Rightarrow> nat \<Rightarrow> cache_meta \<Rightarrow> sender" where
  "sender_new batch key_batch cm =
     \<lparr> sd_item_num = 0, sd_data = [], sd_batch = batch, sd_key_cnt = 0, sd_key_buf = [], sd_key_batch = key_batch,
       sd_key_file = [], sd_total_send = 0, sd_cache_meta = cm, sd_finished = False \<rparr>"

definition SendChunks :: "sender \<Rightarrow> sender \<times> net_msg" where
  "SendChunks sd = (sd \<lparr> sd_item_num := 0, sd_data := [] \<rparr>, (CLIENT_UPLOAD_CHUNK, sd_item_num sd, sd_data sd))"

definition buf_append :: "sender \<Rightarrow> bytes \<Rightarrow> sender result" where
  \<comment> \<open>\<open>memcpy\<close> behind the data; the buffer holds \<open>2 * batch * sizeof(SendChunk_t)\<close> bytes\<close>
  "buf_append sd d =
    (if length (sd_data sd) + length d \<le> 2 * sd_batch sd * SEND_CHUNK_SIZE
     then Inr (sd \<lparr> sd_data := sd_data sd @ d \<rparr>) else Inl OutOfBounds)"

definition put_frame :: "sender \<Rightarrow> send_chunk \<Rightarrow> sender result" where
  "put_frame sd c =
    bindR (buf_append sd (send_header c)) (\<lambda>sd. bindR (buf_append sd (sc_data c)) (\<lambda>sd.
      Inr (sd \<lparr> sd_total_send := sd_total_send sd + length (sc_data c) \<rparr>)))"

definition count_item :: "sender \<Rightarrow> sender \<times> net_msg list" where
  \<comment> \<open>\<open>cur_item_num++\<close>, and the batch is sent when it is full\<close>
  "count_item sd =
    (let sd = sd \<lparr> sd_item_num := sd_item_num sd + 1 \<rparr>
     in if sd_item_num sd mod sd_batch sd = 0 then (case SendChunks sd of (sd, msg) \<Rightarrow> (sd, [msg])) else (sd, []))"

definition StoreKeyRecipe :: "sender \<Rightarrow> bytes \<Rightarrow> sender" where
  "StoreKeyRecipe sd key =
    (let sd = sd \<lparr> sd_key_buf := sd_key_buf sd @ take CHUNK_HASH_SIZE key, sd_key_cnt := sd_key_cnt sd + 1 \<rparr>
     in if sd_key_cnt sd mod sd_key_batch sd = 0
        then sd \<lparr> sd_key_file := sd_key_file sd @ sd_key_buf sd, sd_key_buf := [], sd_key_cnt := 0 \<rparr>
        else sd)"

definition SenderRecipeEnd :: "sender \<Rightarrow> send_chunk \<Rightarrow> (sender \<times> net_msg) result" where
  \<comment> \<open>\<open>SenderThd::ProcessRecipeEnd\<close>\<close>
  "SenderRecipeEnd sd c =
    bindR (buf_append sd (sc_data c)) (\<lambda>sd. Inr (sd, (CLIENT_UPLOAD_RECIPE_END, sd_item_num sd, sd_data sd)))"

definition SenderThd_step ::
  "(evp_setup \<Rightarrow> bytes \<Rightarrow> bytes) \<Rightarrow> sender \<Rightarrow> select_comp_2_sender \<Rightarrow> (sender \<times> net_msg list) result" where
  "SenderThd_step evp_enc sd x =
    (if sd_finished sd then Inl NetworkError
     else case sc_type (s2_chunk x) of
       COMPRESSED_NORMAL_CHUNK \<Rightarrow>
         bindR (TwoPhaseEncChunk evp_enc (sc_data (s2_chunk x)) (s2_key x)) (\<lambda>enc.
         bindR (put_frame sd ((s2_chunk x) \<lparr> sc_type := NORMAL_CHUNK, sc_data := enc \<rparr>)) (\<lambda>sd.
           case count_item sd of (sd, msgs) \<Rightarrow> Inr (StoreKeyRecipe sd (s2_key x), msgs)))
     | NORMAL_CHUNK \<Rightarrow>
         bindR (put_frame sd (s2_chunk x)) (\<lambda>sd.
           case count_item sd of (sd, msgs) \<Rightarrow> Inr (StoreKeyRecipe sd (s2_key x), msgs))
     | FULL_EDR_CACHE_CHUNK \<Rightarrow> bindR (put_frame sd (s2_chunk x)) (\<lambda>sd. Inr (sd, []))
     | FULL_EDR_UNCOMPRESS_CHUNK \<Rightarrow>
         bindR (put_frame sd (s2_chunk x)) (\<lambda>sd.
           case count_item sd of (sd, msgs) \<Rightarrow> Inr (StoreKeyRecipe sd (s2_key x), msgs))
     | RECIPE_CHUNK \<Rightarrow>
         (let (sd, m1) = (if sd_item_num sd \<noteq> 0 then (case SendChunks sd of (sd, msg) \<Rightarrow> (sd, [msg])) else (sd, []));
              sd = (if sd_key_cnt sd \<noteq> 0
                    then sd \<lparr> sd_key_file := sd_key_file sd @ sd_key_buf sd, sd_key_buf := [], sd_key_cnt := 0 \<rparr> else sd)
          in bindR (SenderRecipeEnd sd (s2_chunk x)) (\<lambda>(sd, m2).
               case EvictFeature (sd_cache_meta sd) of (cm, ms) \<Rightarrow>
                 Inr (sd \<lparr> sd_cache_meta := cm, sd_finished := True \<rparr>,
                      m1 @ [m2] @ map (\<lambda>(n, d). (CLIENT_UPLOAD_FEATURE, n, d)) ms)))
     | _ \<Rightarrow> Inl WrongChunkType)"

subsection \<open>Units of the stream\<close>

text \<open>A unit is what the receiver handles at once: a single chunk, or a cache chunk with its pair.\<close>

definition unit_ok :: "select_comp_2_sender list \<Rightarrow> bool" where
  "unit_ok u \<longleftrightarrow>
     (case u of
        [c] \<Rightarrow> sc_type (s2_chunk c) \<in> {FULL_EDR_UNCOMPRESS_CHUNK, COMPRESSED_NORMAL_CHUNK, NORMAL_CHUNK}
      | [k, c] \<Rightarrow> sc_type (s2_chunk k) = FULL_EDR_CACHE_CHUNK \<and> sc_type (s2_chunk c) = COMPRESSED_NORMAL_CHUNK
      | _ \<Rightarrow> False) \<and>
     (\<forall>c \<in> set u. fits_send c \<and> header_wf (s2_chunk c) \<and> length (s2_key c) = CHUNK_HASH_SIZE)"

fun units :: "select_comp_2_sender list \<Rightarrow> select_comp_2_sender list list" where
  "units (k # c # cs) =
     (if sc_type (s2_chunk k) = FULL_EDR_CACHE_CHUNK then [k, c] # units cs else [k] # units (c # cs))"
| "units [c] = [[c]]"
| "units [] = []"

lemma concat_units [simp]: "concat (units cs) = cs"
  by (induction cs rule: units.induct) auto

lemma units_paired:
  "paired cs \<Longrightarrow> (\<forall>c \<in> set cs. sc_type (s2_chunk c) \<noteq> RECIPE_CHUNK \<and> fits_send c \<and> header_wf (s2_chunk c) \<and>
     length (s2_key c) = CHUNK_HASH_SIZE) \<Longrightarrow> \<forall>u \<in> set (units cs). unit_ok u"
  by (induction cs rule: units.induct) (auto simp: unit_ok_def split: if_splits)

definition sent :: "(evp_setup \<Rightarrow> bytes \<Rightarrow> bytes) \<Rightarrow> select_comp_2_sender \<Rightarrow> send_chunk" where
  \<comment> \<open>the chunk as it goes over the wire\<close>
  "sent evp_enc c =
    (if sc_type (s2_chunk c) = COMPRESSED_NORMAL_CHUNK
     then (s2_chunk c) \<lparr> sc_type := NORMAL_CHUNK,
       sc_data := (case TwoPhaseEncChunk evp_enc (sc_data (s2_chunk c)) (s2_key c) of Inr d \<Rightarrow> d | Inl _ \<Rightarrow> []) \<rparr>
     else s2_chunk c)"

definition unit_bytes :: "(evp_setup \<Rightarrow> bytes \<Rightarrow> bytes) \<Rightarrow> select_comp_2_sender list \<Rightarrow> bytes" where
  "unit_bytes evp_enc u = concat (map (\<lambda>c. send_frame (sent evp_enc c)) u)"

lemma sent_ok:
  assumes "evp_ok evp_enc evp_dec" "fits_send c" "header_wf (s2_chunk c)"
  shows "header_wf (sent evp_enc c)" and "length (sc_data (sent evp_enc c)) \<le> ENC_MAX_CHUNK_SIZE"
    and "length (send_frame (sent evp_enc c)) \<le> SEND_CHUNK_SIZE"
    and "sc_type (s2_chunk c) = COMPRESSED_NORMAL_CHUNK \<Longrightarrow>
         TwoPhaseEncChunk evp_enc (sc_data (s2_chunk c)) (s2_key c) = Inr (sc_data (sent evp_enc c))"
proof -
  show wf: "header_wf (sent evp_enc c)" using assms(3) by (simp add: sent_def header_wf_def)
  have enc: "\<exists>e. TwoPhaseEncChunk evp_enc (sc_data (s2_chunk c)) (s2_key c) = Inr e \<and> length e \<le> ENC_MAX_CHUNK_SIZE"
    if "sc_type (s2_chunk c) = COMPRESSED_NORMAL_CHUNK"
    using TwoPhaseEncChunk_size [OF assms(1), of "sc_data (s2_chunk c)" "s2_key c"] assms(2) that
    unfolding fits_send_def by metis
  then show len: "length (sc_data (sent evp_enc c)) \<le> ENC_MAX_CHUNK_SIZE"
    using assms(2) by (auto simp: sent_def fits_send_def)
  show "length (send_frame (sent evp_enc c)) \<le> SEND_CHUNK_SIZE"
    using len length_send_header [OF wf] by (simp add: send_frame_def HEADER_SIZE_def SEND_CHUNK_SIZE_def size_consts)
  show "TwoPhaseEncChunk evp_enc (sc_data (s2_chunk c)) (s2_key c) = Inr (sc_data (sent evp_enc c))"
    if "sc_type (s2_chunk c) = COMPRESSED_NORMAL_CHUNK"
    using enc that by (auto simp: sent_def)
qed

definition unit_key :: "select_comp_2_sender list \<Rightarrow> bytes" where
  "unit_key u = s2_key (last u)"

lemma put_frame_ok:
  assumes "length (sd_data sd) + length (send_frame c) \<le> 2 * sd_batch sd * SEND_CHUNK_SIZE"
  shows "put_frame sd c = Inr (sd \<lparr> sd_data := sd_data sd @ send_frame c,
                                  sd_total_send := sd_total_send sd + length (sc_data c) \<rparr>)"
  using assms by (simp add: put_frame_def buf_append_def send_frame_def)

definition add_unit :: "(evp_setup \<Rightarrow> bytes \<Rightarrow> bytes) \<Rightarrow> sender \<Rightarrow> select_comp_2_sender list \<Rightarrow> sender" where
  \<comment> \<open>the sender after the frames of a unit have been put into the buffer\<close>
  "add_unit evp_enc sd u =
     sd \<lparr> sd_data := sd_data sd @ unit_bytes evp_enc u,
          sd_total_send := sd_total_send sd + sum_list (map (\<lambda>c. length (sc_data (sent evp_enc c))) u) \<rparr>"

lemma SenderThd_unit:
  assumes evp: "evp_ok evp_enc evp_dec" and u: "unit_ok u" and "\<not> sd_finished sd"
    and room: "length (sd_data sd) + 2 * SEND_CHUNK_SIZE \<le> 2 * sd_batch sd * SEND_CHUNK_SIZE"
  shows "run_thd (SenderThd_step evp_enc) sd u =
    (case count_item (add_unit evp_enc sd u) of (sd, msgs) \<Rightarrow> Inr (StoreKeyRecipe sd (unit_key u), msgs))"
proof -
  have one: "SenderThd_step evp_enc s c =
      (case count_item (add_unit evp_enc s [c]) of (s, msgs) \<Rightarrow> Inr (StoreKeyRecipe s (s2_key c), msgs))"
    if "fits_send c" "header_wf (s2_chunk c)" "\<not> sd_finished s"
      "sc_type (s2_chunk c) \<in> {FULL_EDR_UNCOMPRESS_CHUNK, COMPRESSED_NORMAL_CHUNK, NORMAL_CHUNK}"
      "length (sd_data s) + SEND_CHUNK_SIZE \<le> 2 * sd_batch s * SEND_CHUNK_SIZE" for s c
  proof -
    note so = sent_ok [OF evp that(1,2)]
    have fit: "length (sd_data s) + length (send_frame (sent evp_enc c)) \<le> 2 * sd_batch s * SEND_CHUNK_SIZE"
      using so(3) that(5) by linarith
    have "SenderThd_step evp_enc s c = bindR (put_frame s (sent evp_enc c)) (\<lambda>sd.
           case count_item sd of (sd, msgs) \<Rightarrow> Inr (StoreKeyRecipe sd (s2_key c), msgs))"
    proof (cases "sc_type (s2_chunk c) = COMPRESSED_NORMAL_CHUNK")
      case True
      then have "sent evp_enc c = (s2_chunk c) \<lparr> sc_type := NORMAL_CHUNK, sc_data := sc_data (sent evp_enc c) \<rparr>"
        by (simp add: sent_def)
      with so(4) [OF True] that(3) True show ?thesis by (simp add: SenderThd_step_def)
    next
      case False
      then have "sent evp_enc c = s2_chunk c" by (simp add: sent_def)
      with False that(3,4) show ?thesis by (auto simp: SenderThd_step_def)
    qed
    then show ?thesis by (simp add: put_frame_ok [OF fit] add_unit_def unit_bytes_def)
  qed
  consider c where "u = [c]" | k c where "u = [k, c]"
    using u by (auto simp: unit_ok_def split: list.splits)
  then show ?thesis
  proof cases
    case (1 c)
    then show ?thesis
      using one [of c sd] u assms(3) room by (auto simp: unit_ok_def unit_key_def split: prod.splits)
  next
    case (2 k c)
    have k: "sc_type (s2_chunk k) = FULL_EDR_CACHE_CHUNK" "fits_send k" "header_wf (s2_chunk k)"
      and c: "sc_type (s2_chunk c) = COMPRESSED_NORMAL_CHUNK" "fits_send c" "header_wf (s2_chunk c)"
      using u 2 by (simp_all add: unit_ok_def)
    note sk = sent_ok(3) [OF evp k(2,3)]
    have "SenderThd_step evp_enc sd k = Inr (add_unit evp_enc sd [k], [])"
      using k(1) sk room assms(3) put_frame_ok [of sd "sent evp_enc k"]
      by (simp add: SenderThd_step_def sent_def add_unit_def unit_bytes_def)
    moreover have "add_unit evp_enc (add_unit evp_enc sd [k]) [c] = add_unit evp_enc sd u"
      by (simp add: add_unit_def unit_bytes_def 2 add.assoc)
    moreover have "length (sd_data (add_unit evp_enc sd [k])) + SEND_CHUNK_SIZE
        \<le> 2 * sd_batch (add_unit evp_enc sd [k]) * SEND_CHUNK_SIZE"
      using room sk by (simp add: add_unit_def unit_bytes_def)
    ultimately show ?thesis
      using one [of c "add_unit evp_enc sd [k]"] c assms(3)
      by (auto simp: 2 unit_key_def add_unit_def split: prod.splits)
  qed
qed

definition group_msg :: "(evp_setup \<Rightarrow> bytes \<Rightarrow> bytes) \<Rightarrow> select_comp_2_sender list list \<Rightarrow> net_msg" where
  "group_msg evp_enc g = (CLIENT_UPLOAD_CHUNK, length g, concat (map (unit_bytes evp_enc) g))"

definition sender_inv ::
  "(evp_setup \<Rightarrow> bytes \<Rightarrow> bytes) \<Rightarrow> sender \<Rightarrow> select_comp_2_sender list list \<Rightarrow> bytes list \<Rightarrow> bool" where
  "sender_inv evp_enc sd pend keys \<longleftrightarrow>
     \<not> sd_finished sd \<and> 0 < sd_key_batch sd \<and>
     sd_item_num sd = length pend \<and> length pend < sd_batch sd \<and> (\<forall>u \<in> set pend. unit_ok u) \<and>
     sd_data sd = concat (map (unit_bytes evp_enc) pend) \<and>
     sd_key_file sd @ sd_key_buf sd = concat keys \<and> length (sd_key_buf sd) = CHUNK_HASH_SIZE * sd_key_cnt sd"

lemma unit_bytes_size:
  assumes evp: "evp_ok evp_enc evp_dec" and u: "unit_ok u"
  shows "length (unit_bytes evp_enc u) \<le> 2 * SEND_CHUNK_SIZE"
proof -
  have "length (send_frame (sent evp_enc c)) \<le> SEND_CHUNK_SIZE" if "c \<in> set u" for c
    using sent_ok(3) [OF evp, of c] u that by (simp add: unit_ok_def)
  then show ?thesis
    using u by (auto simp: unit_ok_def unit_bytes_def add_mono mult_2 split: list.splits)
qed

lemma units_bytes_size:
  "evp_ok evp_enc evp_dec \<Longrightarrow> \<forall>u \<in> set us. unit_ok u \<Longrightarrow>
   length (concat (map (unit_bytes evp_enc) us)) \<le> length us * (2 * SEND_CHUNK_SIZE)"
proof (induction us)
  case Nil
  then show ?case by simp
next
  case (Cons u us)
  with unit_bytes_size [of evp_enc evp_dec u] show ?case by simp
qed

lemma StoreKeyRecipe_keeps [simp]:
  "sd_item_num (StoreKeyRecipe sd k) = sd_item_num sd" "sd_data (StoreKeyRecipe sd k) = sd_data sd"
  "sd_batch (StoreKeyRecipe sd k) = sd_batch sd" "sd_key_batch (StoreKeyRecipe sd k) = sd_key_batch sd"
  "sd_finished (StoreKeyRecipe sd k) = sd_finished sd" "sd_cache_meta (StoreKeyRecipe sd k) = sd_cache_meta sd"
  by (simp_all add: StoreKeyRecipe_def Let_def)

lemma StoreKeyRecipe_file:
  "length k = CHUNK_HASH_SIZE \<Longrightarrow> length (sd_key_buf sd) = CHUNK_HASH_SIZE * sd_key_cnt sd \<Longrightarrow>
   sd_key_file (StoreKeyRecipe sd k) @ sd_key_buf (StoreKeyRecipe sd k) = sd_key_file sd @ sd_key_buf sd @ k \<and>
   length (sd_key_buf (StoreKeyRecipe sd k)) = CHUNK_HASH_SIZE * sd_key_cnt (StoreKeyRecipe sd k)"
  by (simp add: StoreKeyRecipe_def Let_def)

lemma unit_key_length: "unit_ok u \<Longrightarrow> length (unit_key u) = CHUNK_HASH_SIZE"
  by (auto simp: unit_ok_def unit_key_def split: list.splits)

lemma SenderThd_unit_inv:
  assumes evp: "evp_ok evp_enc evp_dec" and inv: "sender_inv evp_enc sd pend keys" and u: "unit_ok u"
  obtains sd' where "sd_batch sd' = sd_batch sd" "sd_cache_meta sd' = sd_cache_meta sd"
    "length pend + 1 = sd_batch sd \<Longrightarrow> sender_inv evp_enc sd' [] (keys @ [unit_key u])"
    "length pend + 1 \<noteq> sd_batch sd \<Longrightarrow> sender_inv evp_enc sd' (pend @ [u]) (keys @ [unit_key u])"
    "run_thd (SenderThd_step evp_enc) sd u =
       Inr (sd', if length pend + 1 = sd_batch sd then [group_msg evp_enc (pend @ [u])] else [])"
proof -
  have i: "\<not> sd_finished sd" "0 < sd_key_batch sd" "sd_item_num sd = length pend" "length pend < sd_batch sd"
      "\<forall>u \<in> set pend. unit_ok u" "sd_data sd = concat (map (unit_bytes evp_enc) pend)"
      "sd_key_file sd @ sd_key_buf sd = concat keys" "length (sd_key_buf sd) = CHUNK_HASH_SIZE * sd_key_cnt sd"
    using inv by (simp_all add: sender_inv_def)
  have "length (sd_data sd) + 2 * SEND_CHUNK_SIZE \<le> (length pend + 1) * (2 * SEND_CHUNK_SIZE)"
    using units_bytes_size [OF evp i(5)] i(6) by simp
  also have "\<dots> \<le> sd_batch sd * (2 * SEND_CHUNK_SIZE)" using i(4) by (intro mult_right_mono) simp_all
  finally have room: "length (sd_data sd) + 2 * SEND_CHUNK_SIZE \<le> 2 * sd_batch sd * SEND_CHUNK_SIZE"
    by (simp add: mult.commute mult.left_commute)
  note run = SenderThd_unit [OF evp u i(1) room]
  note kl = unit_key_length [OF u]
  let ?a = "add_unit evp_enc sd u"
  have a: "sd_item_num ?a = length pend" "sd_batch ?a = sd_batch sd" "sd_key_cnt ?a = sd_key_cnt sd"
      "sd_key_buf ?a = sd_key_buf sd" "sd_key_file ?a = sd_key_file sd" "sd_key_batch ?a = sd_key_batch sd"
      "sd_cache_meta ?a = sd_cache_meta sd" "sd_finished ?a = sd_finished sd"
      "sd_data ?a = concat (map (unit_bytes evp_enc) (pend @ [u]))"
    using i(3,6) by (simp_all add: add_unit_def)
  show thesis
  proof (cases "length pend + 1 = sd_batch sd")
    case True
    let ?s = "StoreKeyRecipe (?a \<lparr> sd_item_num := 0, sd_data := [] \<rparr>) (unit_key u)"
    have "count_item ?a = (?a \<lparr> sd_item_num := 0, sd_data := [] \<rparr>, [group_msg evp_enc (pend @ [u])])"
      using True a(1,2,9) by (simp add: count_item_def SendChunks_def group_msg_def)
    then have "run_thd (SenderThd_step evp_enc) sd u = Inr (?s, [group_msg evp_enc (pend @ [u])])" using run by simp
    moreover have "sender_inv evp_enc ?s [] (keys @ [unit_key u])"
      using i a kl StoreKeyRecipe_file [OF kl, of "?a \<lparr> sd_item_num := 0, sd_data := [] \<rparr>"]
      by (simp add: sender_inv_def)
    ultimately show thesis using True a by (intro that [of ?s]) simp_all
  next
    case False
    let ?s = "StoreKeyRecipe (?a \<lparr> sd_item_num := length pend + 1 \<rparr>) (unit_key u)"
    have "(length pend + 1) mod sd_batch sd \<noteq> 0" using False i(4) by simp
    then have "count_item ?a = (?a \<lparr> sd_item_num := length pend + 1 \<rparr>, [])"
      using a(1,2) by (simp add: count_item_def)
    then have "run_thd (SenderThd_step evp_enc) sd u = Inr (?s, [])" using run by simp
    moreover have "sender_inv evp_enc ?s (pend @ [u]) (keys @ [unit_key u])"
      using False i a kl u StoreKeyRecipe_file [OF kl, of "?a \<lparr> sd_item_num := length pend + 1 \<rparr>"]
      by (simp add: sender_inv_def)
    ultimately show thesis using False a by (intro that [of ?s]) simp_all
  qed
qed

lemma SenderThd_units:
  assumes evp: "evp_ok evp_enc evp_dec" and "\<forall>u \<in> set us. unit_ok u" and "sender_inv evp_enc sd pend keys"
  shows "\<exists>sd' gs pend'. run_thd (SenderThd_step evp_enc) sd (concat us) = Inr (sd', map (group_msg evp_enc) gs) \<and>
    sender_inv evp_enc sd' pend' (keys @ map unit_key us) \<and> concat gs @ pend' = pend @ us \<and>
    (\<forall>g \<in> set gs. length g = sd_batch sd) \<and> sd_batch sd' = sd_batch sd \<and> sd_cache_meta sd' = sd_cache_meta sd"
  using assms(2,3)
proof (induction us arbitrary: sd pend keys)
  case Nil
  then show ?case by (intro exI [of _ sd] exI [of _ "[]"] exI [of _ pend]) simp
next
  case (Cons u us)
  have u: "unit_ok u" and us: "\<forall>u \<in> set us. unit_ok u" using Cons.prems(1) by simp_all
  obtain s1 where 1: "sd_batch s1 = sd_batch sd" "sd_cache_meta s1 = sd_cache_meta sd"
    "length pend + 1 = sd_batch sd \<Longrightarrow> sender_inv evp_enc s1 [] (keys @ [unit_key u])"
    "length pend + 1 \<noteq> sd_batch sd \<Longrightarrow> sender_inv evp_enc s1 (pend @ [u]) (keys @ [unit_key u])"
    "run_thd (SenderThd_step evp_enc) sd u =
       Inr (s1, if length pend + 1 = sd_batch sd then [group_msg evp_enc (pend @ [u])] else [])"
    by (rule SenderThd_unit_inv [OF evp Cons.prems(2) u]) blast
  show ?case
  proof (cases "length pend + 1 = sd_batch sd")
    case True
    from Cons.IH [OF us 1(3) [OF True]] obtain sd' gs pend' where
      "run_thd (SenderThd_step evp_enc) s1 (concat us) = Inr (sd', map (group_msg evp_enc) gs)"
      "sender_inv evp_enc sd' pend' ((keys @ [unit_key u]) @ map unit_key us)" "concat gs @ pend' = [] @ us"
      "\<forall>g \<in> set gs. length g = sd_batch s1" "sd_batch sd' = sd_batch s1" "sd_cache_meta sd' = sd_cache_meta s1"
      by blast
    with True 1 show ?thesis
      by (intro exI [of _ sd'] exI [of _ "(pend @ [u]) # gs"] exI [of _ pend']) (simp add: run_thd_append)
  next
    case False
    from Cons.IH [OF us 1(4) [OF False]] obtain sd' gs pend' where
      "run_thd (SenderThd_step evp_enc) s1 (concat us) = Inr (sd', map (group_msg evp_enc) gs)"
      "sender_inv evp_enc sd' pend' ((keys @ [unit_key u]) @ map unit_key us)" "concat gs @ pend' = (pend @ [u]) @ us"
      "\<forall>g \<in> set gs. length g = sd_batch s1" "sd_batch sd' = sd_batch s1" "sd_cache_meta sd' = sd_cache_meta s1"
      by blast
    with False 1 show ?thesis
      by (intro exI [of _ sd'] exI [of _ gs] exI [of _ pend']) (simp add: run_thd_append)
  qed
qed

lemma SenderThd_recipe:
  assumes inv: "sender_inv evp_enc sd pend keys" and r: "sc_type (s2_chunk r) = RECIPE_CHUNK"
    and len: "length (sc_data (s2_chunk r)) \<le> SEND_CHUNK_SIZE"
    and ev: "EvictFeature (sd_cache_meta sd) = (cm', ms)"
  shows "\<exists>sd'. SenderThd_step evp_enc sd r = Inr (sd',
      map (group_msg evp_enc) (if pend = [] then [] else [pend]) @
      [(CLIENT_UPLOAD_RECIPE_END, 0, sc_data (s2_chunk r))] @ map (\<lambda>(n, d). (CLIENT_UPLOAD_FEATURE, n, d)) ms) \<and>
    sd_key_file sd' = concat keys \<and> sd_cache_meta sd' = cm'"
proof -
  have i: "\<not> sd_finished sd" "sd_item_num sd = length pend" "length pend < sd_batch sd"
      "sd_data sd = concat (map (unit_bytes evp_enc) pend)" "sd_key_file sd @ sd_key_buf sd = concat keys"
      "length (sd_key_buf sd) = CHUNK_HASH_SIZE * sd_key_cnt sd"
    using inv by (simp_all add: sender_inv_def)
  have room: "length (sc_data (s2_chunk r)) \<le> 2 * sd_batch sd * SEND_CHUNK_SIZE"
  proof -
    have "1 * SEND_CHUNK_SIZE \<le> 2 * sd_batch sd * SEND_CHUNK_SIZE"
      using i(3) by (intro mult_right_mono) simp_all
    with len show ?thesis unfolding mult_1 by (rule le_trans)
  qed
  have d: "sd_data sd = []" if "pend = []" using that i(4) by simp
  have k: "sd_key_buf sd = []" if "sd_key_cnt sd = 0" using that i(6) by simp
  show ?thesis
    using i r room ev d k
    by (cases "pend = []"; cases "sd_key_cnt sd = 0")
      (simp_all add: SenderThd_step_def SendChunks_def SenderRecipeEnd_def buf_append_def group_msg_def Let_def)
qed


definition s2_demo :: "data_type \<Rightarrow> select_comp_2_sender" where
  "s2_demo t = \<lparr> s2_chunk = \<lparr> sc_type = t, sc_features = [1, 2, 3], sc_compressed_fp = replicate 32 0, sc_data = [1, 2] \<rparr>,
                s2_key = replicate 32 5 \<rparr>"


end
