(* ===== verification/Data_Recv.thy ===== *)
theory Data_Recv
  imports Sender
begin

text \<open>
  The receiving and deduplicating threads of the server: \<open>src/server/data_recv_thd.cc\<close> and
  \<open>src/server/dual_dedup_thd.cc\<close>. The receiver walks over a batch by offsets; a read behind
  the message is an error of the model. \<open>hash\<close> is the digest, \<open>feat\<close> the feature extraction.
\<close>

subsection \<open>State\<close>

record data_recv =
  dr_recipe_buf :: bytes                         \<comment> \<open>\<open>_recipe_batch.buf\<close>\<close>
  dr_recipe_cnt :: nat
  dr_recipe_batch :: nat                         \<comment> \<open>\<open>send_recipe_batch_size_\<close>\<close>
  dr_recipe_file :: bytes                        \<comment> \<open>what the recipe file holds\<close>
  dr_fp_2_addr :: "(bytes, key_for_chunk) umap"  \<comment> \<open>shared with the next threads\<close>
  dr_chunk_batch_num :: nat
  dr_logical_chunk_num :: nat
  dr_logical_data_size :: nat
  dr_unique_chunk_num :: nat
  dr_unique_data_size :: nat

definition chunk_info_init :: chunk_info where
  "chunk_info_init = \<lparr> ci_fp = [], ci_features = [],
     ci_addr = \<lparr> a_stat = UNIQUE_CHUNK, a_container = [], a_offset = 0, a_len = 0, a_base_fp = [], a_compressed_fp = [] \<rparr>,
     ci_stat = UNIQUE_CHUNK \<rparr>"

definition RECIPE_HEAD_SIZE :: nat where "RECIPE_HEAD_SIZE = 16"

definition data_recv_new :: "nat \<Rightarrow> (bytes, key_for_chunk) umap \<Rightarrow> data_recv" where
  \<comment> \<open>\<open>ClientVar::InitUploadBuffer\<close> reserves the place of the head in the recipe file\<close>
  "data_recv_new batch fp_2_addr =
     \<lparr> dr_recipe_buf = [], dr_recipe_cnt = 0, dr_recipe_batch = batch, dr_recipe_file = replicate RECIPE_HEAD_SIZE 0,
       dr_fp_2_addr = fp_2_addr, dr_chunk_batch_num = 0, dr_logical_chunk_num = 0, dr_logical_data_size = 0,
       dr_unique_chunk_num = 0, dr_unique_data_size = 0 \<rparr>"

subsection \<open>Recipes\<close>

definition ProcessRecipe :: "data_recv \<Rightarrow> bytes \<Rightarrow> data_recv" where
  "ProcessRecipe dr fp =
    (let dr = dr \<lparr> dr_recipe_buf := dr_recipe_buf dr @ take CHUNK_HASH_SIZE fp, dr_recipe_cnt := dr_recipe_cnt dr + 1 \<rparr>
     in if dr_recipe_cnt dr mod dr_recipe_batch dr = 0
        then dr \<lparr> dr_recipe_file := dr_recipe_file dr @ dr_recipe_buf dr, dr_recipe_buf := [], dr_recipe_cnt := 0 \<rparr>
        else dr)"

definition ProcessRecipeEnd :: "data_recv \<Rightarrow> bytes \<Rightarrow> data_recv" where
  \<comment> \<open>the tail batch is appended, then the head is written over the start of the file\<close>
  "ProcessRecipeEnd dr head_bytes =
    (let f = (if dr_recipe_cnt dr \<noteq> 0 then dr_recipe_file dr @ dr_recipe_buf dr else dr_recipe_file dr)
     in dr \<lparr> dr_recipe_file := overlay head_bytes f \<rparr>)"

subsection \<open>Chunks\<close>

definition read_data :: "bytes \<Rightarrow> nat \<Rightarrow> nat \<Rightarrow> bytes result" where
  \<comment> \<open>\<open>memcpy\<close> into a chunk buffer of \<open>ENC_MAX_CHUNK_SIZE\<close> bytes\<close>
  "read_data buf off n = (if ENC_MAX_CHUNK_SIZE < n then Inl OutOfBounds else mem_read buf off n)"

definition count_logical :: "data_recv \<Rightarrow> nat \<Rightarrow> data_recv" where
  "count_logical dr n = dr \<lparr> dr_logical_chunk_num := dr_logical_chunk_num dr + 1,
                             dr_logical_data_size := dr_logical_data_size dr + n \<rparr>"

definition recv_cache_pair ::
  "(bytes \<Rightarrow> bytes) \<Rightarrow> bytes \<Rightarrow> data_recv \<Rightarrow> chunk_info \<Rightarrow> nat \<Rightarrow> nat \<Rightarrow> u64 list \<Rightarrow>
   (data_recv \<times> chunk_info \<times> nat \<times> wrapped_chunk list) result" where
  \<comment> \<open>the case \<open>FULL_EDR_CACHE_CHUNK\<close>; the second chunk is read without a test of its type\<close>
  "recv_cache_pair hash buf dr info off sz features =
    bindR (read_data buf off sz) (\<lambda>cache_data.
      let info = info \<lparr> ci_features := features, ci_stat := CACHE_INSERT_CHUNK \<rparr>;
          off = off + sz
      in bindR (read_header buf off) (\<lambda>(comp_size, _).
           let off = off + HEADER_SIZE
           in bindR (read_data buf off comp_size) (\<lambda>comp_data.
                let info = info \<lparr> ci_fp := hash (hash cache_data @ hash comp_data) \<rparr>;
                    pair = info \<lparr> ci_stat := CHUNK_PAIR \<rparr>
                in Inr (count_logical (ProcessRecipe dr (ci_fp pair)) comp_size, pair, off + comp_size,
                        [\<lparr> w_info = info, w_data = cache_data \<rparr>, \<lparr> w_info = pair, w_data = comp_data \<rparr>]))))"

definition recv_single ::
  "(bytes \<Rightarrow> bytes) \<Rightarrow> bytes \<Rightarrow> data_recv \<Rightarrow> chunk_info \<Rightarrow> nat \<Rightarrow> nat \<Rightarrow> u64 list \<Rightarrow> bytes \<Rightarrow>
   (data_recv \<times> chunk_info \<times> nat \<times> wrapped_chunk list) result" where
  \<comment> \<open>the case \<open>FULL_EDR_UNCOMPRESS_CHUNK\<close>\<close>
  "recv_single hash buf dr info off sz features compressed_fp =
    bindR (read_data buf off sz) (\<lambda>data.
      let info = info \<lparr> ci_fp := hash (hash data @ compressed_fp), ci_stat := SINGLE_CHUNK, ci_features := features \<rparr>
      in Inr (count_logical (ProcessRecipe dr (ci_fp info)) sz, info, off + sz, [\<lparr> w_info = info, w_data = data \<rparr>]))"

definition recv_normal ::
  "(bytes \<Rightarrow> bytes) \<Rightarrow> (bytes \<Rightarrow> u64 list) \<Rightarrow> bytes \<Rightarrow> data_recv \<Rightarrow> chunk_info \<Rightarrow> nat \<Rightarrow> nat \<Rightarrow>
   (data_recv \<times> chunk_info \<times> nat \<times> wrapped_chunk list) result" where
  \<comment> \<open>the case \<open>NORMAL_CHUNK\<close>: deduplicated here\<close>
  "recv_normal hash feat buf dr info off sz =
    bindR (read_data buf off sz) (\<lambda>data.
      let info = info \<lparr> ci_fp := hash data,
                        ci_addr := (ci_addr info) \<lparr> a_compressed_fp := replicate CHUNK_HASH_SIZE 0 \<rparr> \<rparr>;
          (info, idx) = DetectDuplicate info (dr_fp_2_addr dr);
          dr = ProcessRecipe (dr \<lparr> dr_fp_2_addr := idx \<rparr>) (ci_fp info)
      in if ci_stat info = UNIQUE_CHUNK then
           (let info = info \<lparr> ci_features := feat data \<rparr>;
                dr = dr \<lparr> dr_unique_chunk_num := dr_unique_chunk_num dr + 1,
                          dr_unique_data_size := dr_unique_data_size dr + sz \<rparr>
            in Inr (count_logical dr sz, info, off + sz, [\<lparr> w_info = info, w_data = data \<rparr>]))
         else Inr (count_logical dr sz, info, off + sz, []))"

fun recv_loop ::
  "(bytes \<Rightarrow> bytes) \<Rightarrow> (bytes \<Rightarrow> u64 list) \<Rightarrow> bytes \<Rightarrow> nat \<Rightarrow> data_recv \<times> chunk_info \<times> nat \<Rightarrow>
   (data_recv \<times> wrapped_chunk list) result" where
  "recv_loop hash feat buf 0 (dr, info, off) = Inr (dr, [])"
| "recv_loop hash feat buf (Suc n) (dr, info, off) =
     bindR (read_header buf off) (\<lambda>(sz, t, features, compressed_fp).
       let off = off + HEADER_SIZE
       in bindR (case t of
                   Some FULL_EDR_CACHE_CHUNK \<Rightarrow> recv_cache_pair hash buf dr info off sz features
                 | Some FULL_EDR_UNCOMPRESS_CHUNK \<Rightarrow> recv_single hash buf dr info off sz features compressed_fp
                 | Some NORMAL_CHUNK \<Rightarrow> recv_normal hash feat buf dr info off sz
                 | _ \<Rightarrow> Inl WrongChunkType) (\<lambda>(dr, info, off, os).
            bindR (recv_loop hash feat buf n (dr, info, off)) (\<lambda>(dr, os'). Inr (dr, os @ os'))))"

definition ProcessChunks ::
  "(bytes \<Rightarrow> bytes) \<Rightarrow> (bytes \<Rightarrow> u64 list) \<Rightarrow> data_recv \<Rightarrow> nat \<Rightarrow> bytes \<Rightarrow> (data_recv \<times> wrapped_chunk list) result" where
  "ProcessChunks hash feat dr recv_chunk_num data_buf =
     recv_loop hash feat data_buf recv_chunk_num (dr, chunk_info_init, 0)"

subsection \<open>Evicted features\<close>

definition feature_batch_size :: nat where "feature_batch_size = MAX_CHUNK_SIZE div 8"

function evict_split :: "bytes \<Rightarrow> nat \<Rightarrow> nat \<Rightarrow> wrapped_chunk list result" where
  "evict_split buf recv_num proc =
    (if recv_num \<le> proc then Inr []
     else let n = (if feature_batch_size < recv_num - proc then feature_batch_size else recv_num - proc)
          in bindR (mem_read buf (proc * 8) (n * 8)) (\<lambda>d.
             bindR (evict_split buf recv_num (proc + n)) (\<lambda>os.
               Inr (\<lparr> w_info = chunk_info_init \<lparr> ci_stat := CACHE_EVICT_CHUNK \<rparr>, w_data = d \<rparr> # os))))"
  by pat_completeness auto
termination
  by (relation "measure (\<lambda>(_, recv_num, proc). recv_num - proc)")
    (auto simp: feature_batch_size_def MAX_CHUNK_SIZE_def)

declare evict_split.simps [simp del]

definition ProcessEvictFeature :: "nat \<Rightarrow> bytes \<Rightarrow> wrapped_chunk list result" where
  "ProcessEvictFeature recv_feature_num data_buf = evict_split data_buf recv_feature_num 0"

definition DataRecvThd_step ::
  "(bytes \<Rightarrow> bytes) \<Rightarrow> (bytes \<Rightarrow> u64 list) \<Rightarrow> data_recv \<Rightarrow> net_msg \<Rightarrow> (data_recv \<times> wrapped_chunk list) result" where
  "DataRecvThd_step hash feat dr msg =
    (case msg of (msg_type, item_num, data_buf) \<Rightarrow>
       (case msg_type of
          CLIENT_UPLOAD_CHUNK \<Rightarrow>
            ProcessChunks hash feat (dr \<lparr> dr_chunk_batch_num := dr_chunk_batch_num dr + 1 \<rparr>) item_num data_buf
        | CLIENT_UPLOAD_RECIPE_END \<Rightarrow> Inr (ProcessRecipeEnd dr data_buf, [])
        | CLIENT_UPLOAD_FEATURE \<Rightarrow> bindR (ProcessEvictFeature item_num data_buf) (\<lambda>os. Inr (dr, os))
        | _ \<Rightarrow> Inl WrongMsgType))"

subsection \<open>Deduplication of dual fingerprints\<close>

record dual_dedup =
  dd_fp_2_addr :: "(bytes, key_for_chunk) umap"
  dd_unique_chunk_num :: nat
  dd_unique_data_size :: nat

definition DualDedupThd_step ::
  "(bytes \<Rightarrow> u64 list) \<Rightarrow> dual_dedup \<Rightarrow> wrapped_chunk \<Rightarrow> (dual_dedup \<times> wrapped_chunk list) result" where
  "DualDedupThd_step feat dd w =
    (case ci_stat (w_info w) of
       CHUNK_PAIR \<Rightarrow>
         (case DetectDuplicate (w_info w) (dd_fp_2_addr dd) of (info, idx) \<Rightarrow>
            let dd = dd \<lparr> dd_fp_2_addr := idx \<rparr>
            in if ci_stat info = UNIQUE_CHUNK then
                 Inr (dd \<lparr> dd_unique_chunk_num := dd_unique_chunk_num dd + 1,
                           dd_unique_data_size := dd_unique_data_size dd + length (w_data w) \<rparr>,
                      [\<lparr> w_info = info \<lparr> ci_stat := UNIQUE_CHUNK_AFTER_CACHE, ci_features := feat (w_data w) \<rparr>,
                         w_data = w_data w \<rparr>])
               else Inr (dd, []))
     | SINGLE_CHUNK \<Rightarrow>
         (case DetectDuplicate (w_info w) (dd_fp_2_addr dd) of (info, idx) \<Rightarrow>
            let dd = dd \<lparr> dd_fp_2_addr := idx \<rparr>
            in if ci_stat info = UNIQUE_CHUNK then
                 Inr (dd \<lparr> dd_unique_chunk_num := dd_unique_chunk_num dd + 1,
                           dd_unique_data_size := dd_unique_data_size dd + length (w_data w) \<rparr>,
                      [\<lparr> w_info = info, w_data = w_data w \<rparr>])
               else Inr (dd, []))
     | CACHE_INSERT_CHUNK \<Rightarrow> Inr (dd, [w])
     | CACHE_EVICT_CHUNK \<Rightarrow> Inr (dd, [w])
     | _ \<Rightarrow> Inl WrongChunkType)"

subsection \<open>What the receiver makes of a batch\<close>

definition recipe_stream :: "data_recv \<Rightarrow> bytes" where
  "recipe_stream dr = dr_recipe_file dr @ dr_recipe_buf dr"

lemma recipe_stream_ProcessRecipe [simp]:
  "recipe_stream (ProcessRecipe dr fp) = recipe_stream dr @ take CHUNK_HASH_SIZE fp"
  by (simp add: ProcessRecipe_def recipe_stream_def Let_def)

lemma recipe_stream_count [simp]: "recipe_stream (count_logical dr n) = recipe_stream dr"
  by (simp add: count_logical_def recipe_stream_def)

lemma recv_keeps [simp]:
  "dr_fp_2_addr (ProcessRecipe dr fp) = dr_fp_2_addr dr" "dr_fp_2_addr (count_logical dr n) = dr_fp_2_addr dr"
  "dr_recipe_batch (ProcessRecipe dr fp) = dr_recipe_batch dr" "dr_recipe_batch (count_logical dr n) = dr_recipe_batch dr"
  "dr_recipe_cnt (count_logical dr n) = dr_recipe_cnt dr" "dr_recipe_buf (count_logical dr n) = dr_recipe_buf dr"
  "dr_recipe_file (count_logical dr n) = dr_recipe_file dr"
  by (simp_all add: ProcessRecipe_def count_logical_def Let_def)

definition edr_unit :: "select_comp_2_sender list \<Rightarrow> bool" where
  "edr_unit u \<longleftrightarrow> unit_ok u \<and>
     (\<forall>c. u = [c] \<longrightarrow> sc_type (s2_chunk c) = FULL_EDR_UNCOMPRESS_CHUNK)"

type_synonym chunk_view = "chunk_status \<times> bytes \<times> u64 list \<times> bytes"

definition view :: "wrapped_chunk \<Rightarrow> chunk_view" where
  "view w = (ci_stat (w_info w), ci_fp (w_info w), ci_features (w_info w), w_data w)"

definition unit_fp :: "(bytes \<Rightarrow> bytes) \<Rightarrow> (evp_setup \<Rightarrow> bytes \<Rightarrow> bytes) \<Rightarrow> select_comp_2_sender list \<Rightarrow> bytes" where
  \<comment> \<open>the dual fingerprint: over the digests of the ciphertext and of the compressed form\<close>
  "unit_fp hash evp_enc u =
    (case u of
       [k, c] \<Rightarrow> hash (hash (sc_data (s2_chunk k)) @ hash (sc_data (sent evp_enc c)))
     | c # _ \<Rightarrow> hash (hash (sc_data (s2_chunk c)) @ sc_compressed_fp (s2_chunk c))
     | [] \<Rightarrow> [])"

definition unit_view ::
  "(bytes \<Rightarrow> bytes) \<Rightarrow> (evp_setup \<Rightarrow> bytes \<Rightarrow> bytes) \<Rightarrow> select_comp_2_sender list \<Rightarrow> chunk_view list" where
  "unit_view hash evp_enc u =
    (case u of
       [k, c] \<Rightarrow> [(CACHE_INSERT_CHUNK, unit_fp hash evp_enc u, sc_features (s2_chunk k), sc_data (s2_chunk k)),
                  (CHUNK_PAIR, unit_fp hash evp_enc u, sc_features (s2_chunk k), sc_data (sent evp_enc c))]
     | c # _ \<Rightarrow> [(SINGLE_CHUNK, unit_fp hash evp_enc u, sc_features (s2_chunk c), sc_data (s2_chunk c))]
     | [] \<Rightarrow> [])"

lemma enc_max_small: "n \<le> ENC_MAX_CHUNK_SIZE \<Longrightarrow> n < 2 ^ 32"
  by (simp add: size_consts)

text \<open>A frame at the current offset: its header and its data.\<close>

lemma frame_reads:
  assumes "header_wf c" "length (sc_data c) \<le> ENC_MAX_CHUNK_SIZE"
  shows "read_header (pre @ send_frame c @ post) (length pre) =
      Inr (length (sc_data c), Some (sc_type c), sc_features c, sc_compressed_fp c)"
    and "read_data (pre @ send_frame c @ post) (length pre + HEADER_SIZE) (length (sc_data c)) = Inr (sc_data c)"
proof -
  show "read_header (pre @ send_frame c @ post) (length pre) =
      Inr (length (sc_data c), Some (sc_type c), sc_features c, sc_compressed_fp c)"
    by (rule read_header_frame [OF assms(1) enc_max_small [OF assms(2)]])
  have "mem_read ((pre @ send_header c) @ sc_data c @ post) (length (pre @ send_header c)) (length (sc_data c)) = Inr (sc_data c)"
    by (rule mem_read_append)
  then show "read_data (pre @ send_frame c @ post) (length pre + HEADER_SIZE) (length (sc_data c)) = Inr (sc_data c)"
    using assms(2) length_send_header [OF assms(1)] by (simp add: read_data_def send_frame_def)
qed

lemma length_send_frame: "header_wf c \<Longrightarrow> length (send_frame c) = HEADER_SIZE + length (sc_data c)"
  by (simp add: send_frame_def length_send_header)

lemma recv_unit_single:
  assumes "evp_ok evp_enc evp_dec" "edr_unit [c]" and u: "u = [c]"
  shows "\<exists>dr' info' ws. recv_loop hash feat (pre @ unit_bytes evp_enc u @ post) (Suc n) (dr, info, length pre) =
      bindR (recv_loop hash feat (pre @ unit_bytes evp_enc u @ post) n
               (dr', info', length pre + length (unit_bytes evp_enc u))) (\<lambda>(dr'', os). Inr (dr'', ws @ os)) \<and>
    map view ws = unit_view hash evp_enc u \<and>
    recipe_stream dr' = recipe_stream dr @ take CHUNK_HASH_SIZE (unit_fp hash evp_enc u) \<and>
    dr_fp_2_addr dr' = dr_fp_2_addr dr"
proof -
  let ?c = "s2_chunk c"
  have t: "sc_type ?c = FULL_EDR_UNCOMPRESS_CHUNK" and s: "sent evp_enc c = ?c"
    and wf: "header_wf ?c" and len: "length (sc_data ?c) \<le> ENC_MAX_CHUNK_SIZE"
    using assms(2) by (auto simp: edr_unit_def unit_ok_def sent_def fits_send_def)
  have b: "unit_bytes evp_enc [c] = send_frame ?c" by (simp add: unit_bytes_def s)
  note r = frame_reads [OF wf len, of pre post]
  let ?info = "info \<lparr> ci_fp := unit_fp hash evp_enc [c], ci_stat := SINGLE_CHUNK, ci_features := sc_features ?c \<rparr>"
  let ?dr = "count_logical (ProcessRecipe dr (ci_fp ?info)) (length (sc_data ?c))"
  show ?thesis
    by (rule exI [of _ ?dr], rule exI [of _ ?info],
        rule exI [of _ "[\<lparr> w_info = ?info, w_data = sc_data ?c \<rparr>]"])
      (simp add: u b r t recv_single_def unit_fp_def unit_view_def view_def length_send_frame [OF wf] Let_def add.assoc)
qed

lemma recv_unit_pair:
  assumes "evp_ok evp_enc evp_dec" "edr_unit [k, c]" and u: "u = [k, c]"
  shows "\<exists>dr' info' ws. recv_loop hash feat (pre @ unit_bytes evp_enc u @ post) (Suc n) (dr, info, length pre) =
      bindR (recv_loop hash feat (pre @ unit_bytes evp_enc u @ post) n
               (dr', info', length pre + length (unit_bytes evp_enc u))) (\<lambda>(dr'', os). Inr (dr'', ws @ os)) \<and>
    map view ws = unit_view hash evp_enc u \<and>
    recipe_stream dr' = recipe_stream dr @ take CHUNK_HASH_SIZE (unit_fp hash evp_enc u) \<and>
    dr_fp_2_addr dr' = dr_fp_2_addr dr"
proof -
  let ?k = "s2_chunk k" and ?c = "sent evp_enc c"
  have t: "sc_type ?k = FULL_EDR_CACHE_CHUNK" and sk: "sent evp_enc k = ?k"
    and wfk: "header_wf ?k" and lk: "length (sc_data ?k) \<le> ENC_MAX_CHUNK_SIZE"
    and c: "fits_send c" "header_wf (s2_chunk c)"
    using assms(2) by (auto simp: edr_unit_def unit_ok_def sent_def fits_send_def)
  note sc = sent_ok(1,2) [OF assms(1) c]
  have b: "unit_bytes evp_enc [k, c] = send_frame ?k @ send_frame ?c" by (simp add: unit_bytes_def sk)
  note rk = frame_reads [OF wfk lk, of pre "send_frame ?c @ post"]
    and rc = frame_reads [OF sc, of "pre @ send_frame ?k" post]
  let ?fp = "unit_fp hash evp_enc [k, c]"
  let ?i1 = "info \<lparr> ci_features := sc_features ?k, ci_stat := CACHE_INSERT_CHUNK, ci_fp := ?fp \<rparr>"
  let ?i2 = "?i1 \<lparr> ci_stat := CHUNK_PAIR \<rparr>"
  let ?dr = "count_logical (ProcessRecipe dr ?fp) (length (sc_data ?c))"
  have rc': "read_header (pre @ send_frame ?k @ send_frame ?c @ post) (length pre + (HEADER_SIZE + length (sc_data ?k))) =
      Inr (length (sc_data ?c), Some (sc_type ?c), sc_features ?c, sc_compressed_fp ?c)"
    "read_data (pre @ send_frame ?k @ send_frame ?c @ post)
       (length pre + (HEADER_SIZE + (length (sc_data ?k) + HEADER_SIZE))) (length (sc_data ?c)) = Inr (sc_data ?c)"
    using rc by (simp_all add: length_send_frame [OF wfk] add.assoc)
  show ?thesis
    by (rule exI [of _ ?dr], rule exI [of _ ?i2],
        rule exI [of _ "[\<lparr> w_info = ?i1, w_data = sc_data ?k \<rparr>, \<lparr> w_info = ?i2, w_data = sc_data ?c \<rparr>]"])
      (simp add: u b rk rc' t recv_cache_pair_def unit_fp_def unit_view_def view_def length_send_frame [OF wfk]
        length_send_frame [OF sc(1)] Let_def add.assoc)
qed


lemma recv_unit:
  assumes "evp_ok evp_enc evp_dec" "edr_unit u"
  shows "\<exists>dr' info' ws. recv_loop hash feat (pre @ unit_bytes evp_enc u @ post) (Suc n) (dr, info, length pre) =
      bindR (recv_loop hash feat (pre @ unit_bytes evp_enc u @ post) n
               (dr', info', length pre + length (unit_bytes evp_enc u))) (\<lambda>(dr'', os). Inr (dr'', ws @ os)) \<and>
    map view ws = unit_view hash evp_enc u \<and>
    recipe_stream dr' = recipe_stream dr @ take CHUNK_HASH_SIZE (unit_fp hash evp_enc u) \<and>
    dr_fp_2_addr dr' = dr_fp_2_addr dr"
proof -
  consider c where "u = [c]" | k c where "u = [k, c]"
    using assms(2) by (auto simp: edr_unit_def unit_ok_def split: list.splits)
  then show ?thesis
  proof cases
    case (1 c)
    with assms(2) have "edr_unit [c]" by simp
    then show ?thesis by (rule recv_unit_single [OF assms(1) _ 1])
  next
    case (2 k c)
    with assms(2) have "edr_unit [k, c]" by simp
    then show ?thesis by (rule recv_unit_pair [OF assms(1) _ 2])
  qed
qed

lemma recv_group:
  assumes "evp_ok evp_enc evp_dec" "\<forall>u \<in> set g. edr_unit u"
  shows "\<exists>dr' ws. recv_loop hash feat (pre @ concat (map (unit_bytes evp_enc) g)) (length g) (dr, info, length pre) =
      Inr (dr', ws) \<and>
    map view ws = concat (map (unit_view hash evp_enc) g) \<and>
    recipe_stream dr' = recipe_stream dr @ concat (map (\<lambda>u. take CHUNK_HASH_SIZE (unit_fp hash evp_enc u)) g) \<and>
    dr_fp_2_addr dr' = dr_fp_2_addr dr"
  using assms(2)
proof (induction g arbitrary: pre dr info)
  case Nil
  then show ?case by simp
next
  case (Cons u g)
  let ?post = "concat (map (unit_bytes evp_enc) g)"
  have u: "edr_unit u" and g: "\<forall>u \<in> set g. edr_unit u" using Cons.prems by simp_all
  from recv_unit [OF assms(1) u, of hash feat pre ?post "length g" dr info]
  obtain dr1 i1 ws1 where 1: "recv_loop hash feat (pre @ unit_bytes evp_enc u @ ?post) (Suc (length g)) (dr, info, length pre) =
      bindR (recv_loop hash feat (pre @ unit_bytes evp_enc u @ ?post) (length g)
               (dr1, i1, length pre + length (unit_bytes evp_enc u))) (\<lambda>(dr'', os). Inr (dr'', ws1 @ os))"
    "map view ws1 = unit_view hash evp_enc u"
    "recipe_stream dr1 = recipe_stream dr @ take CHUNK_HASH_SIZE (unit_fp hash evp_enc u)"
    "dr_fp_2_addr dr1 = dr_fp_2_addr dr" by blast
  from Cons.IH [OF g, of "pre @ unit_bytes evp_enc u" dr1 i1]
  obtain dr2 ws2 where 2: "recv_loop hash feat (pre @ unit_bytes evp_enc u @ ?post) (length g)
      (dr1, i1, length pre + length (unit_bytes evp_enc u)) = Inr (dr2, ws2)"
    "map view ws2 = concat (map (unit_view hash evp_enc) g)"
    "recipe_stream dr2 = recipe_stream dr1 @ concat (map (\<lambda>u. take CHUNK_HASH_SIZE (unit_fp hash evp_enc u)) g)"
    "dr_fp_2_addr dr2 = dr_fp_2_addr dr1" by auto
  have "recv_loop hash feat (pre @ concat (map (unit_bytes evp_enc) (u # g))) (length (u # g)) (dr, info, length pre) =
      Inr (dr2, ws1 @ ws2)" using 1(1) 2(1) by simp
  with 1 2 show ?case by (intro exI [of _ dr2] exI [of _ "ws1 @ ws2"]) simp
qed

text \<open>
  C10. The receiver parses what the sender frames. For every message of the sender that carries
  chunks of the full design, the receiver walks over the whole batch without reading outside of
  it, hands on exactly the chunks of the units in order (a cache chunk and its pair, or a single
  chunk) with their data, features and dual fingerprint, and appends one fingerprint per logical
  chunk to the recipe; the fingerprint index is left alone.
\<close>

theorem DataRecvThd_parses:
  assumes "evp_ok evp_enc evp_dec" "\<forall>u \<in> set g. edr_unit u"
  shows "\<exists>dr' ws. DataRecvThd_step hash feat dr (group_msg evp_enc g) = Inr (dr', ws) \<and>
    map view ws = concat (map (unit_view hash evp_enc) g) \<and>
    recipe_stream dr' = recipe_stream dr @ concat (map (\<lambda>u. take CHUNK_HASH_SIZE (unit_fp hash evp_enc u)) g) \<and>
    dr_fp_2_addr dr' = dr_fp_2_addr dr"
  using recv_group [OF assms, of hash feat "[]" "dr \<lparr> dr_chunk_batch_num := dr_chunk_batch_num dr + 1 \<rparr>" chunk_info_init]
  by (auto simp: DataRecvThd_step_def group_msg_def ProcessChunks_def recipe_stream_def)

definition demo_hash :: "bytes \<Rightarrow> bytes" where
  "demo_hash x = replicate CHUNK_HASH_SIZE (sum_list x)"

theorem DataRecvThd_parses_witness:
  "\<exists>dr' ws. DataRecvThd_step demo_hash (\<lambda>_. [7]) (data_recv_new 4 [])
      (group_msg demo_enc [[s2_demo FULL_EDR_CACHE_CHUNK, s2_demo COMPRESSED_NORMAL_CHUNK], [s2_demo FULL_EDR_UNCOMPRESS_CHUNK]]) =
      Inr (dr', ws) \<and> length ws = 3"
proof -
  let ?g = "[[s2_demo FULL_EDR_CACHE_CHUNK, s2_demo COMPRESSED_NORMAL_CHUNK], [s2_demo FULL_EDR_UNCOMPRESS_CHUNK]]"
  have "\<forall>u \<in> set ?g. edr_unit u"
    by (simp add: edr_unit_def unit_ok_def s2_demo_def fits_send_def header_wf_def size_consts)
  from DataRecvThd_parses [OF demo_evp_ok this, of demo_hash "\<lambda>_. [7]" "data_recv_new 4 []"]
  obtain dr' ws where 1: "DataRecvThd_step demo_hash (\<lambda>_. [7]) (data_recv_new 4 []) (group_msg demo_enc ?g) = Inr (dr', ws)"
    "map view ws = concat (map (unit_view demo_hash demo_enc) ?g)" by blast
  have "length ws = length (map view ws)" by simp
  also have "\<dots> = 3" unfolding 1(2) by (simp add: unit_view_def)
  finally show ?thesis using 1(1) by blast
qed


subsection \<open>Deduplication by dual fingerprints\<close>



definition is_cache_msg :: "wrapped_chunk \<Rightarrow> bool" where
  "is_cache_msg w \<longleftrightarrow> ci_stat (w_info w) \<in> {CACHE_INSERT_CHUNK, CACHE_EVICT_CHUNK}"

definition dual_input :: "wrapped_chunk \<Rightarrow> bool" where
  "dual_input w \<longleftrightarrow> ci_stat (w_info w) \<in> {CHUNK_PAIR, SINGLE_CHUNK, CACHE_INSERT_CHUNK, CACHE_EVICT_CHUNK}"

definition fp_data :: "wrapped_chunk \<Rightarrow> bytes \<times> bytes" where
  "fp_data w = (ci_fp (w_info w), w_data w)"

lemma fp_data_sel [simp]: "fst (fp_data w) = ci_fp (w_info w)" "snd (fp_data w) = w_data w"
  by (simp_all add: fp_data_def)

text \<open>Reference: the first occurrence of every fingerprint that has not been seen.\<close>

fun first_of :: "'a set \<Rightarrow> ('a \<times> 'b) list \<Rightarrow> ('a \<times> 'b) list" where
  "first_of seen [] = []"
| "first_of seen (p # ps) =
    (if fst p \<in> seen then first_of seen ps else p # first_of (insert (fst p) seen) ps)"

lemma first_of_fst: "set (map fst (first_of seen ps)) = set (map fst ps) - seen"
  by (induction ps arbitrary: seen) auto

lemma first_of_distinct: "distinct (map fst (first_of seen ps))"
proof (induction ps arbitrary: seen)
  case Nil
  then show ?case by simp
next
  case (Cons p ps)
  with first_of_fst [of "insert (fst p) seen" ps] show ?case by auto
qed

lemma DualDedup_step:
  assumes "dual_input w"
  obtains dd' os where "DualDedupThd_step feat dd w = Inr (dd', os)"
    "if is_cache_msg w then os = [w] \<and> dd' = dd
     else (if ci_fp (w_info w) \<in> dom (map_of (dd_fp_2_addr dd)) then os = [] \<and> dd' = dd
           else (\<exists>o1. os = [o1] \<and> \<not> is_cache_msg o1 \<and> fp_data o1 = fp_data w) \<and>
             dom (map_of (dd_fp_2_addr dd')) = insert (ci_fp (w_info w)) (dom (map_of (dd_fp_2_addr dd))) \<and>
             dd_unique_chunk_num dd' = dd_unique_chunk_num dd + 1 \<and>
             dd_unique_data_size dd' = dd_unique_data_size dd + length (w_data w))"
  using assms
  by (cases "map_of (dd_fp_2_addr dd) (ci_fp (w_info w))"; cases "ci_stat (w_info w)")
    (auto simp: DualDedupThd_step_def dual_input_def is_cache_msg_def DetectDuplicate_def fp_data_def domIff Let_def)

abbreviation dual_dom :: "dual_dedup \<Rightarrow> bytes set" where
  "dual_dom dd \<equiv> dom (map_of (dd_fp_2_addr dd))"

abbreviation chunks_in :: "wrapped_chunk list \<Rightarrow> (bytes \<times> bytes) list" where
  "chunks_in ws \<equiv> map fp_data (filter (\<lambda>w. \<not> is_cache_msg w) ws)"

lemma DualDedup_run:
  assumes "\<forall>w \<in> set ws. dual_input w"
  shows "\<exists>dd' os. run_thd (DualDedupThd_step feat) dd ws = Inr (dd', os) \<and>
      filter is_cache_msg os = filter is_cache_msg ws \<and> chunks_in os = first_of (dual_dom dd) (chunks_in ws) \<and>
      dual_dom dd' = dual_dom dd \<union> set (map fst (chunks_in ws)) \<and>
      dd_unique_chunk_num dd' = dd_unique_chunk_num dd + length (chunks_in os) \<and>
      dd_unique_data_size dd' = dd_unique_data_size dd + sum_list (map (\<lambda>p. length (snd p)) (chunks_in os))"
  using assms
proof (induction ws arbitrary: dd)
  case Nil
  then show ?case by simp
next
  case (Cons w ws)
  have w: "dual_input w" and ws: "\<forall>w \<in> set ws. dual_input w" using Cons.prems by simp_all
  obtain d1 o1 where 1: "DualDedupThd_step feat dd w = Inr (d1, o1)"
    "if is_cache_msg w then o1 = [w] \<and> d1 = dd
     else (if ci_fp (w_info w) \<in> dual_dom dd then o1 = [] \<and> d1 = dd
           else (\<exists>o2. o1 = [o2] \<and> \<not> is_cache_msg o2 \<and> fp_data o2 = fp_data w) \<and>
             dual_dom d1 = insert (ci_fp (w_info w)) (dual_dom dd) \<and>
             dd_unique_chunk_num d1 = dd_unique_chunk_num dd + 1 \<and>
             dd_unique_data_size d1 = dd_unique_data_size dd + length (w_data w))"
    by (rule DualDedup_step [OF w]) blast
  from Cons.IH [OF ws, of d1] obtain d2 o2 where 2: "run_thd (DualDedupThd_step feat) d1 ws = Inr (d2, o2)"
    "filter is_cache_msg o2 = filter is_cache_msg ws" "chunks_in o2 = first_of (dual_dom d1) (chunks_in ws)"
    "dual_dom d2 = dual_dom d1 \<union> set (map fst (chunks_in ws))"
    "dd_unique_chunk_num d2 = dd_unique_chunk_num d1 + length (chunks_in o2)"
    "dd_unique_data_size d2 = dd_unique_data_size d1 + sum_list (map (\<lambda>p. length (snd p)) (chunks_in o2))" by blast
  have run: "run_thd (DualDedupThd_step feat) dd (w # ws) = Inr (d2, o1 @ o2)" using 1(1) 2(1) by simp
  show ?case
    by (rule exI [of _ d2], rule exI [of _ "o1 @ o2"], insert 1(2) 2(2-6) run)
      (auto simp del: list.map_comp map_map split: if_splits)
qed

text \<open>
  C11. Exact deduplication on the server. On every stream of announced pairs, single chunks and
  cache messages the thread never exits; cache messages pass through in order; of the chunks
  exactly the first occurrence of each fingerprint that the index did not hold comes out, with
  its data; the index afterwards holds every fingerprint seen, and the statistics count the
  unique chunks and their bytes.
\<close>

theorem DualDedupThd_correct:
  assumes "\<forall>w \<in> set ws. dual_input w"
  shows "\<exists>dd' os. run_thd (DualDedupThd_step feat) dd ws = Inr (dd', os) \<and>
    filter is_cache_msg os = filter is_cache_msg ws \<and>
    (let chunks = map fp_data (filter (\<lambda>w. \<not> is_cache_msg w) ws);
         uniq = map fp_data (filter (\<lambda>w. \<not> is_cache_msg w) os)
     in uniq = first_of (dom (map_of (dd_fp_2_addr dd))) chunks \<and>
        distinct (map fst uniq) \<and> set (map fst uniq) = set (map fst chunks) - dom (map_of (dd_fp_2_addr dd)) \<and>
        dom (map_of (dd_fp_2_addr dd')) = dom (map_of (dd_fp_2_addr dd)) \<union> set (map fst chunks) \<and>
        dd_unique_chunk_num dd' = dd_unique_chunk_num dd + length uniq \<and>
        dd_unique_data_size dd' = dd_unique_data_size dd + sum_list (map (\<lambda>p. length (snd p)) uniq))"
proof -
  obtain dd' os where 1: "run_thd (DualDedupThd_step feat) dd ws = Inr (dd', os)"
    "filter is_cache_msg os = filter is_cache_msg ws" "chunks_in os = first_of (dual_dom dd) (chunks_in ws)"
    "dual_dom dd' = dual_dom dd \<union> set (map fst (chunks_in ws))"
    "dd_unique_chunk_num dd' = dd_unique_chunk_num dd + length (chunks_in os)"
    "dd_unique_data_size dd' = dd_unique_data_size dd + sum_list (map (\<lambda>p. length (snd p)) (chunks_in os))"
    using DualDedup_run [OF assms, of feat dd] by blast
  have "distinct (map fst (chunks_in os))" "set (map fst (chunks_in os)) = set (map fst (chunks_in ws)) - dual_dom dd"
    unfolding 1(3) by (rule first_of_distinct, rule first_of_fst)
  with 1 show ?thesis unfolding Let_def by blast
qed


definition dual_demo :: "chunk_status \<Rightarrow> byte \<Rightarrow> wrapped_chunk" where
  "dual_demo st b = \<lparr> w_info = chunk_info_init \<lparr> ci_fp := [b], ci_stat := st \<rparr>, w_data = [b, b] \<rparr>"

definition dd_new :: dual_dedup where
  "dd_new = \<lparr> dd_fp_2_addr = [], dd_unique_chunk_num = 0, dd_unique_data_size = 0 \<rparr>"

theorem DualDedupThd_correct_witness:
  "\<exists>dd' os. run_thd (DualDedupThd_step (\<lambda>_. [7])) dd_new
      [dual_demo SINGLE_CHUNK 4, dual_demo CACHE_INSERT_CHUNK 5, dual_demo CHUNK_PAIR 5, dual_demo SINGLE_CHUNK 4] = Inr (dd', os) \<and>
    map fp_data (filter (\<lambda>w. \<not> is_cache_msg w) os) = [([4], [4, 4]), ([5], [5, 5])] \<and> dd_unique_chunk_num dd' = 2"
proof -
  let ?ws = "[dual_demo SINGLE_CHUNK 4, dual_demo CACHE_INSERT_CHUNK 5, dual_demo CHUNK_PAIR 5, dual_demo SINGLE_CHUNK 4]"
  have "\<forall>w \<in> set ?ws. dual_input w" by (simp add: dual_input_def dual_demo_def)
  from DualDedupThd_correct [OF this, of "\<lambda>_. [7]" dd_new] show ?thesis
    by (auto simp: Let_def dd_new_def dual_demo_def is_cache_msg_def fp_data_def)
qed

subsection \<open>Chunks of the designs without a cache\<close>

lemma recv_normal_fresh:
  assumes "header_wf c" "length (sc_data c) \<le> ENC_MAX_CHUNK_SIZE" "sc_type c = NORMAL_CHUNK"
    and "hash (sc_data c) \<notin> dom (map_of (dr_fp_2_addr dr))"
  shows "\<exists>dr' w. ProcessChunks hash feat dr 1 (send_frame c) = Inr (dr', [w]) \<and> ci_stat (w_info w) = UNIQUE_CHUNK \<and>
    ci_fp (w_info w) = hash (sc_data c) \<and> w_data w = sc_data c \<and> ci_features (w_info w) = feat (sc_data c)"
  using frame_reads [OF assms(1,2), of "[]" "[]"] assms(3,4)
  by (auto simp: ProcessChunks_def eval_nat_numeral recv_normal_def DetectDuplicate_def Let_def domIff)

text \<open>
  A chunk of the designs without a cache stops the server. The receiver deduplicates such a
  chunk itself and hands it on as a unique chunk, but the deduplication thread behind it knows
  no such chunk and exits, whatever its state.
\<close>

theorem NormalChunk_exits:
  assumes "header_wf c" "length (sc_data c) \<le> ENC_MAX_CHUNK_SIZE" "sc_type c = NORMAL_CHUNK"
    and "hash (sc_data c) \<notin> dom (map_of (dr_fp_2_addr dr))"
  shows "bindR (DataRecvThd_step hash feat dr (CLIENT_UPLOAD_CHUNK, 1, send_frame c))
           (\<lambda>(dr', ws). run_thd (DualDedupThd_step feat2) dd ws) = Inl WrongChunkType"
proof -
  let ?dr = "dr \<lparr> dr_chunk_batch_num := dr_chunk_batch_num dr + 1 \<rparr>"
  obtain dr' w where "ProcessChunks hash feat ?dr 1 (send_frame c) = Inr (dr', [w])" "ci_stat (w_info w) = UNIQUE_CHUNK"
    using recv_normal_fresh [OF assms(1,2,3), of hash ?dr feat] assms(4) by auto
  then show ?thesis by (simp add: DataRecvThd_step_def DualDedupThd_step_def)
qed

theorem NormalChunk_exits_witness:
  "bindR (DataRecvThd_step demo_hash (\<lambda>_. [7]) (data_recv_new 4 [])
      (CLIENT_UPLOAD_CHUNK, 1, send_frame (s2_chunk (s2_demo NORMAL_CHUNK))))
     (\<lambda>(dr', ws). run_thd (DualDedupThd_step (\<lambda>_. [7])) \<lparr> dd_fp_2_addr = [], dd_unique_chunk_num = 0, dd_unique_data_size = 0 \<rparr> ws) =
   Inl WrongChunkType"
  by (rule NormalChunk_exits) (simp_all add: s2_demo_def header_wf_def size_consts data_recv_new_def)

subsection \<open>Eviction messages\<close>

lemma evict_split_spec:
  assumes "length buf = recv_num * 8" "proc \<le> recv_num"
  shows "\<exists>os. evict_split buf recv_num proc = Inr os \<and> concat (map w_data os) = drop (proc * 8) buf \<and>
    (\<forall>w \<in> set os. ci_stat (w_info w) = CACHE_EVICT_CHUNK \<and> w_data w \<noteq> [] \<and> length (w_data w) \<le> MAX_CHUNK_SIZE \<and>
       8 dvd length (w_data w))"
  using assms
proof (induction buf recv_num proc rule: evict_split.induct)
  case (1 buf recv_num proc)
  show ?case
  proof (cases "recv_num \<le> proc")
    case True
    with 1 show ?thesis by (subst evict_split.simps) simp
  next
    case False
    define n where "n = (if feature_batch_size < recv_num - proc then feature_batch_size else recv_num - proc)"
    have n: "0 < n" "n \<le> feature_batch_size" "proc + n \<le> recv_num"
      using False by (auto simp: n_def feature_batch_size_def MAX_CHUNK_SIZE_def)
    let ?d = "take (n * 8) (drop (proc * 8) buf)"
    have rd: "mem_read buf (proc * 8) (n * 8) = Inr ?d" using n 1(2) by (simp add: mem_read_def)
    obtain os where os: "evict_split buf recv_num (proc + n) = Inr os" "concat (map w_data os) = drop ((proc + n) * 8) buf"
      "\<forall>w \<in> set os. ci_stat (w_info w) = CACHE_EVICT_CHUNK \<and> w_data w \<noteq> [] \<and> length (w_data w) \<le> MAX_CHUNK_SIZE \<and>
       8 dvd length (w_data w)"
      using 1(1) [OF False n_def 1(2) n(3)] by blast
    have len: "length ?d = n * 8" using n 1(2) by simp
    have d: "?d \<noteq> [] \<and> length ?d \<le> MAX_CHUNK_SIZE \<and> 8 dvd length ?d"
      unfolding length_0_conv [symmetric] len using n by (auto simp: feature_batch_size_def MAX_CHUNK_SIZE_def)
    have "drop (proc * 8) buf = ?d @ drop ((proc + n) * 8) buf"
      by (metis add.commute add_mult_distrib append_take_drop_id drop_drop)
    with os d False rd show ?thesis
      by (subst evict_split.simps) (simp add: n_def [symmetric] Let_def chunk_info_init_def)
  qed
qed

text \<open>
  The receiver splits an eviction message into chunks without loss: their data put together
  is the message, each fits a chunk buffer and holds whole features, and they pass the
  deduplication thread unchanged.
\<close>

theorem ProcessEvictFeature_splits:
  assumes "length d = n * 8"
  shows "\<exists>os. DataRecvThd_step hash feat dr (CLIENT_UPLOAD_FEATURE, n, d) = Inr (dr, os) \<and>
    concat (map w_data os) = d \<and>
    (\<forall>w \<in> set os. ci_stat (w_info w) = CACHE_EVICT_CHUNK \<and> w_data w \<noteq> [] \<and> length (w_data w) \<le> MAX_CHUNK_SIZE \<and>
       8 dvd length (w_data w)) \<and>
    run_thd (DualDedupThd_step feat2) dd os = Inr (dd, os)"
proof -
  obtain os where os: "evict_split d n 0 = Inr os" "concat (map w_data os) = d"
    "\<forall>w \<in> set os. ci_stat (w_info w) = CACHE_EVICT_CHUNK \<and> w_data w \<noteq> [] \<and> length (w_data w) \<le> MAX_CHUNK_SIZE \<and>
       8 dvd length (w_data w)"
    using evict_split_spec [OF assms, of 0] by auto
  have "run_thd (DualDedupThd_step feat2) dd os = Inr (dd, os)"
    if "\<forall>w \<in> set os. ci_stat (w_info w) = CACHE_EVICT_CHUNK" for os
    using that by (induction os) (simp_all add: DualDedupThd_step_def)
  with os show ?thesis by (intro exI [of _ os]) (simp add: DataRecvThd_step_def ProcessEvictFeature_def)
qed

theorem ProcessEvictFeature_splits_witness:
  "\<exists>os. DataRecvThd_step demo_hash (\<lambda>_. [7]) (data_recv_new 4 []) (CLIENT_UPLOAD_FEATURE, 2, u64_le 5 @ u64_le 6) =
      Inr (data_recv_new 4 [], os) \<and> concat (map w_data os) = u64_le 5 @ u64_le 6"
proof -
  have "length (u64_le 5 @ u64_le 6) = 2 * 8" by simp
  from ProcessEvictFeature_splits [OF this] show ?thesis by blast
qed

end
