(* ===== verification/Lru_Cache.thy ===== *)
theory Lru_Cache
  imports Data_Types
begin

text \<open>
  The recency cache of \<open>include/lruCache.h\<close> and the container read cache of
  \<open>src/util/readCache.cc\<close> that is built on it. \<open>keys_\<close> is the list of nodes, most recent first,
  and \<open>cache_\<close> the keys of the hash map; an iterator is the node of its key. The locale
  \<open>coherent_cache\<close> is what the storage layer needs of a read cache: it forgets, but it never
  invents or changes an entry.
\<close>

subsection \<open>The recency list\<close>

record ('k, 'v) lru =
  lru_keys :: "('k \<times> 'v) list"   \<comment> \<open>\<open>keys_\<close>\<close>
  lru_cache :: "'k list"           \<comment> \<open>the keys of \<open>cache_\<close>\<close>
  lru_maxSize :: nat
  lru_elasticity :: nat

definition lru_new :: "nat \<Rightarrow> nat \<Rightarrow> ('k, 'v) lru" where
  "lru_new max_size elastic = \<lparr> lru_keys = [], lru_cache = [], lru_maxSize = max_size, lru_elasticity = elastic \<rparr>"

definition lru_size :: "('k, 'v) lru \<Rightarrow> nat" where
  "lru_size c = length (lru_cache c)"

definition lru_empty :: "('k, 'v) lru \<Rightarrow> bool" where
  "lru_empty c \<longleftrightarrow> lru_cache c = []"

definition lru_clear :: "('k, 'v) lru \<Rightarrow> ('k, 'v) lru" where
  "lru_clear c = c \<lparr> lru_cache := [], lru_keys := [] \<rparr>"

definition lru_contains :: "('k, 'v) lru \<Rightarrow> 'k \<Rightarrow> bool" where
  "lru_contains c k \<longleftrightarrow> k \<in> set (lru_cache c)"

definition lru_splice :: "'k \<Rightarrow> ('k \<times> 'v) list \<Rightarrow> ('k \<times> 'v) list" where
  \<comment> \<open>\<open>keys_.splice(keys_.begin(), keys_, iter)\<close>\<close>
  "lru_splice k keys = filter (\<lambda>p. fst p = k) keys @ filter (\<lambda>p. fst p \<noteq> k) keys"

function prune_loop :: "nat \<Rightarrow> ('k \<times> 'v) list \<Rightarrow> 'k list \<Rightarrow> nat \<Rightarrow> ('k \<times> 'v) list \<times> 'k list \<times> nat" where
  "prune_loop max_size keys cache cnt =
    (if max_size < length cache \<and> keys \<noteq> []
     then prune_loop max_size (butlast keys) (removeAll (fst (last keys)) cache) (cnt + 1)
     else (keys, cache, cnt))"
  by pat_completeness auto
termination by (relation "measure (\<lambda>(_, keys, _, _). length keys)") auto

declare prune_loop.simps [simp del]

definition lru_prune :: "('k, 'v) lru \<Rightarrow> ('k, 'v) lru \<times> nat" where
  "lru_prune c =
    (let maxAllowed = lru_maxSize c + lru_elasticity c
     in if lru_maxSize c = 0 \<or> length (lru_cache c) < maxAllowed then (c, 0)
        else case prune_loop (lru_maxSize c) (lru_keys c) (lru_cache c) 0 of
               (keys, cache, cnt) \<Rightarrow> (c \<lparr> lru_keys := keys, lru_cache := cache \<rparr>, cnt))"

definition lru_insert :: "('k, 'v) lru \<Rightarrow> 'k \<Rightarrow> 'v \<Rightarrow> ('k, 'v) lru" where
  "lru_insert c k v =
    (if lru_contains c k
     then c \<lparr> lru_keys := lru_splice k (map (\<lambda>p. if fst p = k then (k, v) else p) (lru_keys c)) \<rparr>
     else fst (lru_prune (c \<lparr> lru_keys := (k, v) # lru_keys c, lru_cache := k # lru_cache c \<rparr>)))"

definition lru_tryGet :: "('k, 'v) lru \<Rightarrow> 'k \<Rightarrow> ('k, 'v) lru \<times> 'v option" where
  "lru_tryGet c k =
    (if \<not> lru_contains c k then (c, None)
     else (c \<lparr> lru_keys := lru_splice k (lru_keys c) \<rparr>, map_of (lru_keys c) k))"

definition lru_get :: "('k, 'v) lru \<Rightarrow> 'k \<Rightarrow> (('k, 'v) lru \<times> 'v) result" where
  "lru_get c k =
    (if \<not> lru_contains c k then Inl KeyNotFound
     else Inr (c \<lparr> lru_keys := lru_splice k (lru_keys c) \<rparr>, the (map_of (lru_keys c) k)))"

definition lru_remove :: "('k, 'v) lru \<Rightarrow> 'k \<Rightarrow> ('k, 'v) lru \<times> bool" where
  "lru_remove c k =
    (if \<not> lru_contains c k then (c, False)
     else (c \<lparr> lru_keys := filter (\<lambda>p. fst p \<noteq> k) (lru_keys c), lru_cache := removeAll k (lru_cache c) \<rparr>, True))"

definition lru_pruneValue :: "('k, 'v) lru \<Rightarrow> 'v result" where
  \<comment> \<open>\<open>back()\<close> of an empty list is undefined in the code\<close>
  "lru_pruneValue c =
    (if lru_keys c = [] then Inl OutOfBounds
     else if \<not> lru_contains c (fst (last (lru_keys c))) then Inl KeyNotFound
     else Inr (snd (last (lru_keys c))))"

definition lru_getSeq :: "('k, 'v) lru \<Rightarrow> 'v list" where
  "lru_getSeq c = map snd (lru_keys c)"

definition lru_ok :: "('k, 'v) lru \<Rightarrow> bool" where
  "lru_ok c \<longleftrightarrow> distinct (map fst (lru_keys c)) \<and> distinct (lru_cache c) \<and>
     set (lru_cache c) = fst ` set (lru_keys c)"

lemma lru_ok_length: "lru_ok c \<Longrightarrow> length (lru_cache c) = length (lru_keys c)"
  by (metis distinct_card length_map list.set_map lru_ok_def)

lemma lru_new_ok [simp]: "lru_ok (lru_new m e)"
  by (simp add: lru_ok_def lru_new_def)

lemma set_lru_splice [simp]: "set (lru_splice k keys) = set keys"
  by (auto simp: lru_splice_def)

lemma distinct_lru_splice: "distinct (map fst keys) \<Longrightarrow> distinct (map fst (lru_splice k keys))"
  by (auto simp: lru_splice_def distinct_map_filter filter_empty_conv)

lemma map_of_lru_splice: "distinct (map fst keys) \<Longrightarrow> map_of (lru_splice k keys) = map_of keys"
  by (rule map_of_inject_set [THEN iffD2]) (simp_all add: distinct_lru_splice)

lemma length_lru_splice [simp]: "length (lru_splice k keys) = length keys"
  by (simp add: lru_splice_def sum_length_filter_compl)

lemma prune_loop_take:
  "distinct (map fst keys) \<Longrightarrow> distinct cache \<Longrightarrow> set cache = fst ` set keys \<Longrightarrow>
   prune_loop n keys cache cnt =
     (take n keys, filter (\<lambda>k. k \<in> fst ` set (take n keys)) cache, cnt + (length keys - n))"
proof (induction n keys cache cnt rule: prune_loop.induct)
  case (1 n keys cache cnt)
  have len: "length cache = length keys"
    using "1.prems" by (metis distinct_card length_map list.set_map)
  show ?case
  proof (cases "n < length keys")
    case False
    moreover have "filter (\<lambda>k. k \<in> fst ` set keys) cache = cache"
      using "1.prems"(3) by (auto intro: filter_True)
    ultimately show ?thesis using len by (simp add: prune_loop.simps)
  next
    case True
    then obtain ks p where keys: "keys = ks @ [p]" by (cases keys rule: rev_cases) auto
    let ?c = "removeAll (fst p) cache"
    have pre: "distinct (map fst ks)" "distinct ?c" "set ?c = fst ` set ks"
      using "1.prems" by (auto simp: keys distinct_removeAll)
    have "prune_loop n keys cache cnt = prune_loop n ks ?c (cnt + 1)"
      using True len by (subst prune_loop.simps) (simp add: keys)
    also have "\<dots> = (take n ks, filter (\<lambda>k. k \<in> fst ` set (take n ks)) ?c, cnt + 1 + (length ks - n))"
      using "1.IH" True len pre by (simp add: keys)
    finally have main: "prune_loop n keys cache cnt = \<dots>" .
    have tk: "take n keys = take n ks" using True by (simp add: keys)
    have "fst p \<notin> fst ` set (take n ks)"
      using "1.prems"(1) by (auto simp: keys dest: in_set_takeD)
    then have "filter (\<lambda>k. k \<in> fst ` set (take n ks)) ?c = filter (\<lambda>k. k \<in> fst ` set (take n ks)) cache"
      by (induction cache) auto
    with main tk True show ?thesis by (simp add: keys)
  qed
qed

text \<open>What the operations do to the recency list.\<close>

lemma lru_prune_spec:
  assumes "lru_ok c"
  shows "lru_ok (fst (lru_prune c))"
    and "lru_keys (fst (lru_prune c)) =
      (if lru_maxSize c = 0 \<or> length (lru_keys c) < lru_maxSize c + lru_elasticity c then lru_keys c
       else take (lru_maxSize c) (lru_keys c))"
    and "lru_maxSize (fst (lru_prune c)) = lru_maxSize c"
    and "lru_elasticity (fst (lru_prune c)) = lru_elasticity c"
proof -
  have d: "distinct (map fst (lru_keys c))" "distinct (lru_cache c)" "set (lru_cache c) = fst ` set (lru_keys c)"
    using assms by (simp_all add: lru_ok_def)
  note take = prune_loop_take [OF d, of "lru_maxSize c" 0]
  note len = lru_ok_length [OF assms]
  show "lru_keys (fst (lru_prune c)) =
      (if lru_maxSize c = 0 \<or> length (lru_keys c) < lru_maxSize c + lru_elasticity c then lru_keys c
       else take (lru_maxSize c) (lru_keys c))"
    using take len by (simp add: lru_prune_def)
  have "distinct (map fst (take (lru_maxSize c) (lru_keys c)))"
    using d(1) by (simp flip: take_map)
  moreover have "set (filter (\<lambda>k. k \<in> fst ` set (take (lru_maxSize c) (lru_keys c))) (lru_cache c)) =
      fst ` set (take (lru_maxSize c) (lru_keys c))"
    using d(3) by (auto dest: in_set_takeD)
  ultimately show "lru_ok (fst (lru_prune c))"
    using assms d take by (simp add: lru_prune_def lru_ok_def)
  show "lru_maxSize (fst (lru_prune c)) = lru_maxSize c" "lru_elasticity (fst (lru_prune c)) = lru_elasticity c"
    by (auto simp: lru_prune_def Let_def split: prod.splits)
qed

lemma lru_contains_iff: "lru_ok c \<Longrightarrow> lru_contains c k \<longleftrightarrow> map_of (lru_keys c) k \<noteq> None"
  by (auto simp: lru_contains_def lru_ok_def map_of_eq_None_iff)

lemma lru_insert_new:
  assumes "lru_ok c" "\<not> lru_contains c k"
  shows "lru_ok (lru_insert c k v)"
    and "lru_keys (lru_insert c k v) =
      (if lru_maxSize c = 0 \<or> length (lru_keys c) + 1 < lru_maxSize c + lru_elasticity c
       then (k, v) # lru_keys c else take (lru_maxSize c) ((k, v) # lru_keys c))"
    and "lru_maxSize (lru_insert c k v) = lru_maxSize c"
    and "lru_elasticity (lru_insert c k v) = lru_elasticity c"
proof -
  let ?c = "c \<lparr> lru_keys := (k, v) # lru_keys c, lru_cache := k # lru_cache c \<rparr>"
  have "lru_ok ?c" using assms by (auto simp: lru_ok_def lru_contains_def)
  note s = lru_prune_spec [OF this]
  have i: "lru_insert c k v = fst (lru_prune ?c)" using assms by (simp add: lru_insert_def)
  show "lru_ok (lru_insert c k v)"
    "lru_keys (lru_insert c k v) =
      (if lru_maxSize c = 0 \<or> length (lru_keys c) + 1 < lru_maxSize c + lru_elasticity c
       then (k, v) # lru_keys c else take (lru_maxSize c) ((k, v) # lru_keys c))"
    "lru_maxSize (lru_insert c k v) = lru_maxSize c" "lru_elasticity (lru_insert c k v) = lru_elasticity c"
    using s i by simp_all
qed

lemma map_if_lookup:
  "map_of (map (\<lambda>p. if fst p = k then (k, v) else p) ps) =
     (if k \<in> fst ` set ps then (map_of ps)(k \<mapsto> v) else map_of ps)"
  by (induction ps) (auto simp: fun_eq_iff)

lemma lru_insert_present:
  assumes "lru_ok c" "lru_contains c k"
  shows "lru_ok (lru_insert c k v)"
    and "map_of (lru_keys (lru_insert c k v)) = (map_of (lru_keys c))(k \<mapsto> v)"
    and "length (lru_keys (lru_insert c k v)) = length (lru_keys c)"
proof -
  let ?m = "map (\<lambda>p. if fst p = k then (k, v) else p) (lru_keys c)"
  have fm: "map fst ?m = map fst (lru_keys c)" by (auto simp: comp_def)
  have d: "distinct (map fst (lru_keys c))" using assms by (simp add: lru_ok_def)
  have dm: "distinct (map fst ?m)" unfolding fm by (rule d)
  have i: "lru_insert c k v = c \<lparr> lru_keys := lru_splice k ?m \<rparr>"
    using assms by (simp add: lru_insert_def)
  have "fst ` set ?m = fst ` set (lru_keys c)" by (metis fm list.set_map)
  with assms show "lru_ok (lru_insert c k v)"
    using distinct_lru_splice [OF dm, of k] unfolding i lru_ok_def by (simp del: set_map)
  have "k \<in> fst ` set (lru_keys c)" using assms by (simp add: lru_ok_def lru_contains_def)
  then show "map_of (lru_keys (lru_insert c k v)) = (map_of (lru_keys c))(k \<mapsto> v)"
    using map_of_lru_splice [OF dm, of k] map_if_lookup [of k v "lru_keys c"] unfolding i by simp
  show "length (lru_keys (lru_insert c k v)) = length (lru_keys c)" by (simp add: i)
qed

lemma lru_get_spec:
  assumes "lru_ok c" "map_of (lru_keys c) k = Some v"
  obtains c' where "lru_get c k = Inr (c', v)" "lru_ok c'" "map_of (lru_keys c') = map_of (lru_keys c)"
    "lru_maxSize c' = lru_maxSize c" "lru_elasticity c' = lru_elasticity c" "lru_cache c' = lru_cache c"
    "set (lru_keys c') = set (lru_keys c)" "length (lru_keys c') = length (lru_keys c)"
proof -
  let ?c = "c \<lparr> lru_keys := lru_splice k (lru_keys c) \<rparr>"
  have "lru_get c k = Inr (?c, v)" using assms by (simp add: lru_get_def lru_contains_iff)
  then show thesis
    using assms(1) distinct_lru_splice [of "lru_keys c" k] map_of_lru_splice [of "lru_keys c" k]
    by (intro that [of ?c]) (auto simp: lru_ok_def)
qed

subsection \<open>The read cache of containers\<close>

record read_cache =
  rc_lru :: "(bytes, nat) lru"
  rc_pool :: "bytes list"          \<comment> \<open>\<open>containerPool_\<close>, every item of \<open>itemSize_\<close> bytes\<close>
  rc_currentIndex :: nat
  rc_cacheSize :: nat
  rc_itemSize :: nat

definition ReadCache_new :: "nat \<Rightarrow> nat \<Rightarrow> read_cache" where
  \<comment> \<open>the items are uninitialised in the code; nothing reads them before \<open>Insert\<close>\<close>
  "ReadCache_new itemNum itemSize =
     \<lparr> rc_lru = lru_new itemNum 0, rc_pool = replicate itemNum (replicate itemSize 0),
       rc_currentIndex = 0, rc_cacheSize = itemNum, rc_itemSize = itemSize \<rparr>"

definition pool_write :: "read_cache \<Rightarrow> nat \<Rightarrow> bytes \<Rightarrow> bytes list result" where
  \<comment> \<open>\<open>memset(pool[i], 0, itemSize)\<close>, then \<open>memcpy(pool[i], data, length)\<close>\<close>
  "pool_write rc i data =
    (if i < length (rc_pool rc) \<and> length data \<le> rc_itemSize rc
     then Inr ((rc_pool rc)[i := data @ replicate (rc_itemSize rc - length data) 0])
     else Inl OutOfBounds)"

definition ReadCache_Insert :: "read_cache \<Rightarrow> bytes \<Rightarrow> bytes \<Rightarrow> read_cache result" where
  "ReadCache_Insert rc name data =
    (if rc_cacheSize rc < lru_size (rc_lru rc) + 1
     then bindR (lru_pruneValue (rc_lru rc)) (\<lambda>replaceIndex.
          bindR (pool_write rc replaceIndex data) (\<lambda>pool.
            Inr (rc \<lparr> rc_pool := pool, rc_lru := lru_insert (rc_lru rc) name replaceIndex \<rparr>)))
     else bindR (pool_write rc (rc_currentIndex rc) data) (\<lambda>pool.
            Inr (rc \<lparr> rc_pool := pool, rc_lru := lru_insert (rc_lru rc) name (rc_currentIndex rc),
                      rc_currentIndex := rc_currentIndex rc + 1 \<rparr>)))"

definition ReadCache_Exist :: "read_cache \<Rightarrow> bytes \<Rightarrow> bool" where
  "ReadCache_Exist rc name = lru_contains (rc_lru rc) name"

definition ReadCache_Read :: "read_cache \<Rightarrow> bytes \<Rightarrow> (read_cache \<times> bytes) result" where
  "ReadCache_Read rc name =
    bindR (lru_get (rc_lru rc) name) (\<lambda>(l, index).
      if index < length (rc_pool rc) then Inr (rc \<lparr> rc_lru := l \<rparr>, rc_pool rc ! index)
      else Inl OutOfBounds)"

definition rc_lookup :: "read_cache \<Rightarrow> bytes \<Rightarrow> bytes option" where
  "rc_lookup rc name = map_option (\<lambda>i. rc_pool rc ! i) (map_of (lru_keys (rc_lru rc)) name)"

text \<open>
  The slots in use are the first \<open>currentIndex\<close> ones, each held by one node: this is what
  makes it right to overwrite the slot of the node that falls off the list.
\<close>

definition rc_ok :: "read_cache \<Rightarrow> bool" where
  "rc_ok rc \<longleftrightarrow> lru_ok (rc_lru rc) \<and> lru_maxSize (rc_lru rc) = rc_cacheSize rc \<and>
     lru_elasticity (rc_lru rc) = 0 \<and> 0 < rc_cacheSize rc \<and>
     length (rc_pool rc) = rc_cacheSize rc \<and> length (lru_keys (rc_lru rc)) \<le> rc_cacheSize rc \<and>
     rc_currentIndex rc = length (lru_keys (rc_lru rc)) \<and>
     distinct (map snd (lru_keys (rc_lru rc))) \<and>
     (\<forall>i \<in> snd ` set (lru_keys (rc_lru rc)). i < rc_currentIndex rc)"

lemma ReadCache_new_ok: "0 < n \<Longrightarrow> rc_ok (ReadCache_new n m)"
  by (simp add: rc_ok_def ReadCache_new_def lru_ok_def lru_new_def)

lemma rc_ok_size: "rc_ok rc \<Longrightarrow> lru_size (rc_lru rc) = length (lru_keys (rc_lru rc))"
  by (simp add: rc_ok_def lru_size_def lru_ok_length)

lemma rc_lookup_exist: "rc_ok rc \<Longrightarrow> ReadCache_Exist rc n \<longleftrightarrow> rc_lookup rc n \<noteq> None"
  by (simp add: ReadCache_Exist_def rc_lookup_def lru_contains_iff rc_ok_def)

lemma pool_update_other:
  assumes "\<forall>p \<in> set ps. snd p \<noteq> i"
  shows "map_option ((!) (pool[i := d])) (map_of ps m) = map_option ((!) pool) (map_of ps m)"
  using assms by (cases "map_of ps m") (auto dest!: map_of_SomeD)

abbreviation padded :: "read_cache \<Rightarrow> bytes \<Rightarrow> bytes" where
  "padded rc data \<equiv> data @ replicate (rc_itemSize rc - length data) 0"

lemma ReadCache_Insert_full:
  assumes ok: "rc_ok rc" and new: "rc_lookup rc name = None" and len: "length data \<le> rc_itemSize rc"
    and keys: "lru_keys (rc_lru rc) = ks @ [p]" and full: "length (lru_keys (rc_lru rc)) = rc_cacheSize rc"
  obtains rc' where "ReadCache_Insert rc name data = Inr rc'" "rc_ok rc'"
    "rc_pool rc' = (rc_pool rc)[snd p := padded rc data]" "lru_keys (rc_lru rc') = (name, snd p) # ks"
    "rc_itemSize rc' = rc_itemSize rc" "rc_cacheSize rc' = rc_cacheSize rc"
proof -
  have absent: "\<not> lru_contains (rc_lru rc) name"
    using ok new rc_lookup_exist [of rc name] by (simp add: ReadCache_Exist_def)
  have lok: "lru_ok (rc_lru rc)" using ok by (simp add: rc_ok_def)
  note ins = lru_insert_new [OF lok absent, of "snd p"]
  have cs: "rc_cacheSize rc = Suc (length ks)" using full keys by simp
  have k': "lru_keys (lru_insert (rc_lru rc) name (snd p)) = (name, snd p) # ks"
    using ins(2) cs keys ok by (simp add: rc_ok_def)
  have "fst p \<in> set (lru_cache (rc_lru rc))" using lok keys by (simp add: lru_ok_def)
  then have v: "lru_pruneValue (rc_lru rc) = Inr (snd p)"
    by (simp add: lru_pruneValue_def keys lru_contains_def)
  have p: "snd p < length (rc_pool rc)" using ok keys full by (auto simp: rc_ok_def)
  let ?rc' = "rc \<lparr> rc_pool := (rc_pool rc)[snd p := padded rc data],
                    rc_lru := lru_insert (rc_lru rc) name (snd p) \<rparr>"
  have "ReadCache_Insert rc name data = Inr ?rc'"
    using full rc_ok_size [OF ok] v p len by (simp add: ReadCache_Insert_def pool_write_def)
  moreover have "rc_ok ?rc'"
    using ok ins(1,3,4) k' keys by (auto simp: rc_ok_def)
  ultimately show thesis using k' by (intro that [of ?rc']) simp_all
qed

lemma ReadCache_Insert_free:
  assumes ok: "rc_ok rc" and new: "rc_lookup rc name = None" and len: "length data \<le> rc_itemSize rc"
    and free: "length (lru_keys (rc_lru rc)) < rc_cacheSize rc"
  obtains rc' where "ReadCache_Insert rc name data = Inr rc'" "rc_ok rc'"
    "rc_pool rc' = (rc_pool rc)[rc_currentIndex rc := padded rc data]"
    "lru_keys (rc_lru rc') = (name, rc_currentIndex rc) # lru_keys (rc_lru rc)"
    "rc_itemSize rc' = rc_itemSize rc" "rc_cacheSize rc' = rc_cacheSize rc"
proof -
  let ?i = "rc_currentIndex rc"
  have absent: "\<not> lru_contains (rc_lru rc) name"
    using ok new rc_lookup_exist [of rc name] by (simp add: ReadCache_Exist_def)
  have lok: "lru_ok (rc_lru rc)" using ok by (simp add: rc_ok_def)
  note ins = lru_insert_new [OF lok absent, of ?i]
  have k': "lru_keys (lru_insert (rc_lru rc) name ?i) = (name, ?i) # lru_keys (rc_lru rc)"
    using ins(2) free ok by (auto simp: rc_ok_def)
  have p: "?i < length (rc_pool rc)" using ok free by (auto simp: rc_ok_def)
  let ?rc' = "rc \<lparr> rc_pool := (rc_pool rc)[?i := padded rc data],
                    rc_lru := lru_insert (rc_lru rc) name ?i, rc_currentIndex := ?i + 1 \<rparr>"
  have "ReadCache_Insert rc name data = Inr ?rc'"
    using free rc_ok_size [OF ok] p len by (simp add: ReadCache_Insert_def pool_write_def)
  moreover have "rc_ok ?rc'"
    using ok ins k' free by (fastforce simp: rc_ok_def)
  ultimately show thesis using k' by (intro that [of ?rc']) simp_all
qed

subsection \<open>The contract of a coherent cache\<close>

locale coherent_cache =
  fixes lookup :: "'s \<Rightarrow> 'k \<Rightarrow> 'v option"
    and insert :: "'s \<Rightarrow> 'k \<Rightarrow> 'v \<Rightarrow> 's result"
    and read :: "'s \<Rightarrow> 'k \<Rightarrow> ('s \<times> 'v) result"
    and ok :: "'s \<Rightarrow> bool"
    and shape :: "'s \<Rightarrow> 'h"
    and fits :: "'h \<Rightarrow> 'v \<Rightarrow> bool"
    and stored :: "'h \<Rightarrow> 'v \<Rightarrow> 'v"
  assumes insert_new: "ok c \<Longrightarrow> lookup c k = None \<Longrightarrow> fits (shape c) v \<Longrightarrow>
      \<exists>c'. insert c k v = Inr c' \<and> ok c' \<and> shape c' = shape c \<and> lookup c' k = Some (stored (shape c) v) \<and>
           (\<forall>j. j \<noteq> k \<longrightarrow> lookup c' j = None \<or> lookup c' j = lookup c j)"
    and read_hit: "ok c \<Longrightarrow> lookup c k = Some v \<Longrightarrow>
      \<exists>c'. read c k = Inr (c', v) \<and> ok c' \<and> shape c' = shape c \<and> lookup c' = lookup c"
begin

definition coherent :: "'s \<Rightarrow> ('k \<Rightarrow> 'v option) \<Rightarrow> bool" where
  "coherent c disk \<longleftrightarrow> ok c \<and>
     (\<forall>k v. lookup c k = Some v \<longrightarrow> (\<exists>d. disk k = Some d \<and> fits (shape c) d \<and> v = stored (shape c) d))"

lemma coherent_fetch:
  assumes "coherent c disk" "lookup c k = None" "disk k = Some d" "fits (shape c) d"
  shows "\<exists>c'. insert c k d = Inr c' \<and> coherent c' disk \<and> shape c' = shape c"
proof -
  obtain c' where c': "insert c k d = Inr c'" "ok c'" "shape c' = shape c"
      "lookup c' k = Some (stored (shape c) d)" "\<forall>j. j \<noteq> k \<longrightarrow> lookup c' j = None \<or> lookup c' j = lookup c j"
    using insert_new assms unfolding coherent_def by meson
  have "coherent c' disk"
    unfolding coherent_def
  proof (intro conjI allI impI)
    fix j v assume "lookup c' j = Some v"
    with c' assms show "\<exists>d. disk j = Some d \<and> fits (shape c') d \<and> v = stored (shape c') d"
      by (cases "j = k") (auto simp: coherent_def)
  qed (rule c'(2))
  with c' show ?thesis by blast
qed

lemma coherent_hit:
  assumes "coherent c disk" "lookup c k = Some v"
  shows "\<exists>c' d. read c k = Inr (c', v) \<and> coherent c' disk \<and> shape c' = shape c \<and>
           disk k = Some d \<and> fits (shape c) d \<and> v = stored (shape c) d"
proof -
  obtain c' where c': "read c k = Inr (c', v)" "ok c'" "shape c' = shape c" "lookup c' = lookup c"
    using read_hit assms unfolding coherent_def by blast
  with assms have "coherent c' disk" by (simp add: coherent_def)
  moreover obtain d where "disk k = Some d" "fits (shape c) d" "v = stored (shape c) d"
    using assms by (auto simp: coherent_def)
  ultimately show ?thesis using c' by blast
qed

lemma coherent_grow:
  assumes "coherent c disk" "disk \<subseteq>\<^sub>m disk'" shows "coherent c disk'"
  unfolding coherent_def
proof (intro conjI allI impI)
  show "ok c" using assms(1) by (simp add: coherent_def)
  fix k v assume "lookup c k = Some v"
  then obtain d where d: "disk k = Some d" "fits (shape c) d \<and> v = stored (shape c) d"
    using assms(1) by (auto simp: coherent_def)
  have "disk' k = Some d" using assms(2) d(1) by (metis domI map_le_def)
  with d(2) show "\<exists>d. disk' k = Some d \<and> fits (shape c) d \<and> v = stored (shape c) d" by blast
qed

end

lemma rc_lookup_insert:
  assumes "lru_keys (rc_lru rc') = (name, i) # ks" "rc_pool rc' = (rc_pool rc)[i := d]"
    and "i < length (rc_pool rc)" "\<forall>p \<in> set ks. snd p \<noteq> i"
  shows "rc_lookup rc' name = Some d"
    and "m \<noteq> name \<Longrightarrow> rc_lookup rc' m = map_option ((!) (rc_pool rc)) (map_of ks m)"
  using assms pool_update_other [OF assms(4), of "rc_pool rc" d m] by (simp_all add: rc_lookup_def)

lemma ReadCache_Insert_new:
  assumes ok: "rc_ok rc" and new: "rc_lookup rc name = None" and len: "length data \<le> rc_itemSize rc"
  shows "\<exists>rc'. ReadCache_Insert rc name data = Inr rc' \<and> rc_ok rc' \<and> rc_itemSize rc' = rc_itemSize rc \<and>
           rc_lookup rc' name = Some (padded rc data) \<and>
           (\<forall>m. m \<noteq> name \<longrightarrow> rc_lookup rc' m = None \<or> rc_lookup rc' m = rc_lookup rc m)"
proof (cases "length (lru_keys (rc_lru rc)) = rc_cacheSize rc")
  case True
  moreover have "0 < rc_cacheSize rc" using ok by (simp add: rc_ok_def)
  ultimately obtain ks p where k: "lru_keys (rc_lru rc) = ks @ [p]"
    by (metis append_butlast_last_id less_numeral_extra(3) list.size(3))
  obtain rc' where r: "ReadCache_Insert rc name data = Inr rc'" "rc_ok rc'"
      "rc_pool rc' = (rc_pool rc)[snd p := padded rc data]" "lru_keys (rc_lru rc') = (name, snd p) # ks"
      "rc_itemSize rc' = rc_itemSize rc"
    using ReadCache_Insert_full [OF ok new len k True] by metis
  have p: "snd p < length (rc_pool rc)" "\<forall>q \<in> set ks. snd q \<noteq> snd p"
    using ok k by (force simp: rc_ok_def image_iff)+
  have d: "distinct (map fst (lru_keys (rc_lru rc)))" using ok by (simp add: rc_ok_def lru_ok_def)
  have "rc_lookup rc' m = None \<or> rc_lookup rc' m = rc_lookup rc m" if "m \<noteq> name" for m
    using rc_lookup_insert(2) [OF r(4,3) p that] d k
    by (cases "map_of ks m") (auto simp: rc_lookup_def map_add_def)
  with r rc_lookup_insert(1) [OF r(4,3) p] show ?thesis by blast
next
  case False
  then have free: "length (lru_keys (rc_lru rc)) < rc_cacheSize rc" using ok by (simp add: rc_ok_def)
  obtain rc' where r: "ReadCache_Insert rc name data = Inr rc'" "rc_ok rc'"
      "rc_pool rc' = (rc_pool rc)[rc_currentIndex rc := padded rc data]"
      "lru_keys (rc_lru rc') = (name, rc_currentIndex rc) # lru_keys (rc_lru rc)"
      "rc_itemSize rc' = rc_itemSize rc"
    using ReadCache_Insert_free [OF ok new len free] by metis
  have p: "rc_currentIndex rc < length (rc_pool rc)"
      "\<forall>q \<in> set (lru_keys (rc_lru rc)). snd q \<noteq> rc_currentIndex rc"
    using ok free by (auto simp: rc_ok_def)
  have "rc_lookup rc' m = rc_lookup rc m" if "m \<noteq> name" for m
    using rc_lookup_insert(2) [OF r(4,3) p that] by (simp add: rc_lookup_def)
  with r rc_lookup_insert(1) [OF r(4,3) p] show ?thesis by blast
qed

lemma ReadCache_Read_hit:
  assumes ok: "rc_ok rc" and hit: "rc_lookup rc name = Some d"
  shows "\<exists>rc'. ReadCache_Read rc name = Inr (rc', d) \<and> rc_ok rc' \<and> rc_itemSize rc' = rc_itemSize rc \<and>
           rc_lookup rc' = rc_lookup rc"
proof -
  obtain i where i: "map_of (lru_keys (rc_lru rc)) name = Some i" "d = rc_pool rc ! i"
    using hit by (auto simp: rc_lookup_def)
  have lok: "lru_ok (rc_lru rc)" using ok by (simp add: rc_ok_def)
  obtain l where l: "lru_get (rc_lru rc) name = Inr (l, i)" "lru_ok l"
      "map_of (lru_keys l) = map_of (lru_keys (rc_lru rc))" "lru_maxSize l = lru_maxSize (rc_lru rc)"
      "lru_elasticity l = lru_elasticity (rc_lru rc)" "set (lru_keys l) = set (lru_keys (rc_lru rc))"
      "length (lru_keys l) = length (lru_keys (rc_lru rc))"
    using lru_get_spec [OF lok i(1)] by metis
  have "i < length (rc_pool rc)" using ok i(1) by (auto simp: rc_ok_def dest!: map_of_SomeD)
  then have "ReadCache_Read rc name = Inr (rc \<lparr> rc_lru := l \<rparr>, d)"
    using l(1) i(2) by (simp add: ReadCache_Read_def)
  moreover have "distinct (map snd (lru_keys l))"
    using ok l(6,7) by (metis card_distinct distinct_card length_map list.set_map rc_ok_def)
  then have "rc_ok (rc \<lparr> rc_lru := l \<rparr>)" using ok l by (auto simp: rc_ok_def)
  ultimately show ?thesis using l(3) by (auto simp: rc_lookup_def fun_eq_iff)
qed

interpretation rcache: coherent_cache rc_lookup ReadCache_Insert ReadCache_Read rc_ok rc_itemSize
    "\<lambda>n d. length d \<le> n" "\<lambda>n d. d @ replicate (n - length d) 0"
proof
  fix c k and v :: bytes assume "rc_ok c" "rc_lookup c k = None" "length v \<le> rc_itemSize c"
  from ReadCache_Insert_new [OF this]
  show "\<exists>c'. ReadCache_Insert c k v = Inr c' \<and> rc_ok c' \<and> rc_itemSize c' = rc_itemSize c \<and>
      rc_lookup c' k = Some (padded c v) \<and> (\<forall>j. j \<noteq> k \<longrightarrow> rc_lookup c' j = None \<or> rc_lookup c' j = rc_lookup c j)"
    by blast
next
  fix c k v assume "rc_ok c" "rc_lookup c k = Some v"
  from ReadCache_Read_hit [OF this]
  show "\<exists>c'. ReadCache_Read c k = Inr (c', v) \<and> rc_ok c' \<and> rc_itemSize c' = rc_itemSize c \<and> rc_lookup c' = rc_lookup c"
    by blast
qed

end
