(* ===== verification/Storage_Core.thy ===== *)
theory Storage_Core
  imports Lru_Cache
begin

text \<open>
  The container store, \<open>src/server/storage_core.cc\<close>, with the per-client state of
  \<open>src/server/client_var.cc\<close> it works on. Chunks are appended to a 4 MiB container buffer; a
  full container is written to its own file under a random name, and chunks are read from the
  read cache, the file, or the buffer that is not written yet.
\<close>

subsection \<open>State\<close>

record container_t =
  ct_id :: bytes
  ct_body :: bytes      \<comment> \<open>\<open>MAX_CONTAINER_SIZE\<close> bytes\<close>
  ct_cur_size :: nat

record client_store =
  cv_container_cache :: read_cache
  cv_cur_container :: container_t

record storage_core =
  st_prefix :: bytes
  st_suffix :: bytes
  st_files :: "(bytes, bytes) umap"   \<comment> \<open>the container files by their path\<close>
  st_read_container_num :: nat
  st_read_chunk_num :: nat
  st_read_data_size :: nat
  st_write_container_num :: nat
  st_write_chunk_num :: nat
  st_write_data_size :: nat

definition strncmp_eq :: "nat \<Rightarrow> bytes \<Rightarrow> bytes \<Rightarrow> bool" where
  \<comment> \<open>\<open>strncmp(a, b, n) == 0\<close>: the comparison stops at a NUL\<close>
  "strncmp_eq n a b \<longleftrightarrow> takeWhile (\<lambda>c. c \<noteq> 0) (take n a) = takeWhile (\<lambda>c. c \<noteq> 0) (take n b)"

definition container_path :: "storage_core \<Rightarrow> bytes \<Rightarrow> bytes" where
  "container_path sc name = st_prefix sc @ name @ st_suffix sc"

definition client_store_new :: "(nat \<Rightarrow> nat) \<Rightarrow> nat \<Rightarrow> client_store" where
  \<comment> \<open>the container buffer and the cache as the constructor of \<open>ClientVar\<close> sets them up\<close>
  "client_store_new rand cache_size =
     \<lparr> cv_container_cache = ReadCache_new cache_size MAX_CONTAINER_SIZE,
       cv_cur_container = \<lparr> ct_id = CreateUUID rand CONTAINER_ID_LENGTH,
                            ct_body = replicate MAX_CONTAINER_SIZE 0, ct_cur_size = 0 \<rparr> \<rparr>"

subsection \<open>Operations\<close>

definition count_read :: "storage_core \<Rightarrow> key_for_chunk \<Rightarrow> storage_core" where
  "count_read sc addr = sc \<lparr> st_read_chunk_num := st_read_chunk_num sc + 1,
                             st_read_data_size := st_read_data_size sc + a_len addr \<rparr>"

definition ReadChunk ::
  "storage_core \<Rightarrow> client_store \<Rightarrow> key_for_chunk \<Rightarrow> (storage_core \<times> client_store \<times> bytes option) result" where
  \<comment> \<open>\<open>None\<close> is the return value \<open>false\<close>\<close>
  "ReadChunk sc cl addr =
    (let req_name = take CONTAINER_ID_LENGTH (a_container addr);
         full_name = container_path sc req_name
     in if ReadCache_Exist (cv_container_cache cl) req_name then
          bindR (ReadCache_Read (cv_container_cache cl) req_name) (\<lambda>(cache, container_buf).
          bindR (mem_read container_buf (a_offset addr) (a_len addr)) (\<lambda>data.
            Inr (count_read sc addr, cl \<lparr> cv_container_cache := cache \<rparr>, Some data)))
        else case map_of (st_files sc) full_name of
          None \<Rightarrow>
            (if strncmp_eq CONTAINER_ID_LENGTH (ct_id (cv_cur_container cl)) req_name then
               bindR (mem_read (ct_body (cv_cur_container cl)) (a_offset addr) (a_len addr)) (\<lambda>data.
                 Inr (count_read sc addr, cl, Some data))
             else Inr (sc, cl, None))
        | Some content \<Rightarrow>
            (if MAX_CONTAINER_SIZE < length content then Inl OutOfBounds
             else bindR (mem_read content (a_offset addr) (a_len addr)) (\<lambda>data.
                  bindR (ReadCache_Insert (cv_container_cache cl) req_name content) (\<lambda>cache.
                    Inr (count_read (sc \<lparr> st_read_container_num := st_read_container_num sc + 1 \<rparr>) addr,
                         cl \<lparr> cv_container_cache := cache \<rparr>, Some data)))))"

definition SaveContainer :: "storage_core \<Rightarrow> container_t \<Rightarrow> storage_core" where
  "SaveContainer sc ct =
    (let full_name = container_path sc (take CONTAINER_ID_LENGTH (ct_id ct))
     in sc \<lparr> st_files := AList.update full_name (take (ct_cur_size ct) (ct_body ct)) (st_files sc),
             st_write_container_num := st_write_container_num sc + 1 \<rparr>)"

definition WriteChunk ::
  "(nat \<Rightarrow> nat) \<Rightarrow> storage_core \<Rightarrow> client_store \<Rightarrow> key_for_chunk \<Rightarrow> bytes \<Rightarrow>
   (storage_core \<times> client_store \<times> key_for_chunk) result" where
  \<comment> \<open>\<open>rand\<close> is the stream \<open>CreateUUID\<close> draws from if the container is full\<close>
  "WriteChunk rand sc cl addr data =
    (let cur = cv_cur_container cl;
         (sc, cur) =
           (if MAX_CONTAINER_SIZE < to_u32 (ct_cur_size cur + length data)
            then (SaveContainer sc cur, cur \<lparr> ct_cur_size := 0, ct_id := CreateUUID rand CONTAINER_ID_LENGTH \<rparr>)
            else (sc, cur))
     in bindR (mem_write (ct_body cur) (ct_cur_size cur) data) (\<lambda>body.
          let addr = addr \<lparr> a_container := take CONTAINER_ID_LENGTH (ct_id cur), a_len := length data,
                            a_offset := ct_cur_size cur \<rparr>;
              cur = cur \<lparr> ct_body := body, ct_cur_size := ct_cur_size cur + length data \<rparr>;
              sc = sc \<lparr> st_write_chunk_num := st_write_chunk_num sc + 1,
                        st_write_data_size := st_write_data_size sc + length data \<rparr>
          in Inr (sc, cl \<lparr> cv_cur_container := cur \<rparr>, addr)))"

subsection \<open>What is stored\<close>

definition disk :: "storage_core \<Rightarrow> bytes \<Rightarrow> bytes option" where
  "disk sc name = map_of (st_files sc) (container_path sc name)"

definition subbuf :: "bytes \<Rightarrow> nat \<Rightarrow> nat \<Rightarrow> nat \<Rightarrow> bytes option" where
  "subbuf c limit off n = (if off + n \<le> limit then Some (take n (drop off c)) else None)"

definition chunk_at :: "storage_core \<Rightarrow> client_store \<Rightarrow> key_for_chunk \<Rightarrow> bytes option" where
  \<comment> \<open>the abstract store: what an address denotes\<close>
  "chunk_at sc cl addr =
    (let name = take CONTAINER_ID_LENGTH (a_container addr); cur = cv_cur_container cl
     in case disk sc name of
          Some c \<Rightarrow> subbuf c (length c) (a_offset addr) (a_len addr)
        | None \<Rightarrow> if name = ct_id cur then subbuf (ct_body cur) (ct_cur_size cur) (a_offset addr) (a_len addr)
                  else None)"

definition store_ok :: "storage_core \<Rightarrow> client_store \<Rightarrow> bool" where
  "store_ok sc cl \<longleftrightarrow>
     rcache.coherent (cv_container_cache cl) (disk sc) \<and>
     rc_itemSize (cv_container_cache cl) = MAX_CONTAINER_SIZE \<and>
     (\<forall>name c. disk sc name = Some c \<longrightarrow> length c \<le> MAX_CONTAINER_SIZE) \<and>
     (let cur = cv_cur_container cl
      in length (ct_id cur) = CONTAINER_ID_LENGTH \<and> 0 \<notin> set (ct_id cur) \<and> disk sc (ct_id cur) = None \<and>
         length (ct_body cur) = MAX_CONTAINER_SIZE \<and> ct_cur_size cur \<le> MAX_CONTAINER_SIZE)"

definition fresh_id :: "storage_core \<Rightarrow> client_store \<Rightarrow> (nat \<Rightarrow> nat) \<Rightarrow> bool" where
  "fresh_id sc cl rand \<longleftrightarrow>
     (let name = CreateUUID rand CONTAINER_ID_LENGTH in disk sc name = None \<and> name \<noteq> ct_id (cv_cur_container cl))"

lemma client_store_new_ok:
  assumes "0 < n" "st_files sc = []"
  shows "store_ok sc (client_store_new rand n)"
  using ReadCache_new_ok [OF assms(1), of MAX_CONTAINER_SIZE] assms(2)
  by (simp add: store_ok_def client_store_new_def rcache.coherent_def disk_def CreateUUID_nonzero)
    (simp add: ReadCache_new_def rc_lookup_def lru_new_def)

lemma strncmp_eq_id:
  assumes "0 \<notin> set a" "length a = n"
  shows "strncmp_eq n a b \<longleftrightarrow> a = take n b"
proof -
  have a: "takeWhile (\<lambda>c. c \<noteq> 0) (take n a) = a"
    using assms by (auto simp: takeWhile_eq_all_conv)
  have "takeWhile (\<lambda>c. c \<noteq> 0) (take n b) = a \<longleftrightarrow> a = take n b" (is "?l \<longleftrightarrow> ?r")
  proof
    assume l: ?l
    then have "length (takeWhile (\<lambda>c. c \<noteq> 0) (take n b)) = n" using assms by simp
    then have "takeWhile (\<lambda>c. c \<noteq> 0) (take n b) = take n b"
      by (metis length_take min.cobounded2 order_antisym length_takeWhile_le take_all takeWhile_eq_take)
    with l show ?r by simp
  next
    assume ?r with assms show ?l by (auto simp: takeWhile_eq_all_conv)
  qed
  with a show ?thesis by (auto simp: strncmp_eq_def)
qed

lemma container_path_inject [simp]: "container_path sc a = container_path sc b \<longleftrightarrow> a = b"
  by (simp add: container_path_def)

lemma subbuf_mem_read: "subbuf c limit off n = Some d \<Longrightarrow> limit \<le> length c \<Longrightarrow> mem_read c off n = Inr d"
  by (auto simp: subbuf_def mem_read_def split: if_splits)

lemma chunk_at_cong:
  assumes "disk sc' = disk sc" "cv_cur_container cl' = cv_cur_container cl"
  shows "chunk_at sc' cl' = chunk_at sc cl"
  using assms by (simp add: chunk_at_def fun_eq_iff)

lemma store_ok_cache:
  assumes "store_ok sc cl" "disk sc' = disk sc" "rcache.coherent cache (disk sc)"
    "rc_itemSize cache = MAX_CONTAINER_SIZE"
  shows "store_ok sc' (cl \<lparr> cv_container_cache := cache \<rparr>)"
  using assms by (simp add: store_ok_def)

text \<open>Every read that returns keeps the store as it is and the invariant.\<close>

lemma disk_count_read [simp]: "disk (count_read sc addr) = disk sc"
  "disk (sc \<lparr> st_read_container_num := n \<rparr>) = disk sc"
  by (simp_all add: disk_def count_read_def container_path_def fun_eq_iff)

lemma ReadChunk_keeps:
  assumes ok: "store_ok sc cl" and run: "ReadChunk sc cl addr = Inr (sc', cl', r)"
  shows "store_ok sc' cl' \<and> chunk_at sc' cl' = chunk_at sc cl \<and> disk sc' = disk sc \<and>
         cv_cur_container cl' = cv_cur_container cl"
proof -
  let ?n = "take CONTAINER_ID_LENGTH (a_container addr)" and ?c = "cv_container_cache cl"
  have coh: "rcache.coherent ?c (disk sc)" and sz: "rc_itemSize ?c = MAX_CONTAINER_SIZE"
    using ok by (simp_all add: store_ok_def)
  then have rok: "rc_ok ?c" by (simp add: rcache.coherent_def)
  have keep: "disk sc' = disk sc \<and> (cl' = cl \<or> (\<exists>cache. cl' = cl \<lparr> cv_container_cache := cache \<rparr> \<and>
      rcache.coherent cache (disk sc) \<and> rc_itemSize cache = MAX_CONTAINER_SIZE))"
  proof (cases "rc_lookup ?c ?n")
    case (Some v)
    then obtain c' d where "ReadCache_Read ?c ?n = Inr (c', v)" "rcache.coherent c' (disk sc)" "rc_itemSize c' = rc_itemSize ?c"
      using rcache.coherent_hit [OF coh] by blast
    with Some run sz show ?thesis
      by (auto simp: ReadChunk_def Let_def rc_lookup_exist [OF rok] bindR_eq_Inr)
  next
    case None
    show ?thesis
    proof (cases "disk sc ?n")
      case None': None
      with None run show ?thesis
        by (auto simp: ReadChunk_def Let_def rc_lookup_exist [OF rok] bindR_eq_Inr disk_def split: if_splits)
    next
      case (Some content)
      then have "length content \<le> rc_itemSize ?c" using ok sz by (auto simp: store_ok_def)
      then obtain c' where "ReadCache_Insert ?c ?n content = Inr c'" "rcache.coherent c' (disk sc)" "rc_itemSize c' = rc_itemSize ?c"
        using rcache.coherent_fetch [OF coh None Some] by blast
      moreover have "map_of (st_files sc) (container_path sc ?n) = Some content" using Some by (simp add: disk_def)
      ultimately show ?thesis using None run sz
        by (auto simp: ReadChunk_def Let_def rc_lookup_exist [OF rok] bindR_eq_Inr split: if_splits)
    qed
  qed
  have fl: "cv_cur_container cl' = cv_cur_container cl" using keep by auto
  moreover have "store_ok sc' cl'"
    using keep ok store_ok_cache [OF ok] by (auto simp: store_ok_def)
  ultimately show ?thesis using keep chunk_at_cong by blast
qed

lemma ReadChunk_returns:
  assumes ok: "store_ok sc cl" and at: "chunk_at sc cl addr = Some d"
  shows "\<exists>sc' cl'. ReadChunk sc cl addr = Inr (sc', cl', Some d)"
proof -
  let ?n = "take CONTAINER_ID_LENGTH (a_container addr)" and ?c = "cv_container_cache cl"
  let ?cur = "cv_cur_container cl"
  have coh: "rcache.coherent ?c (disk sc)" and sz: "rc_itemSize ?c = MAX_CONTAINER_SIZE"
    using ok by (simp_all add: store_ok_def)
  then have rok: "rc_ok ?c" by (simp add: rcache.coherent_def)
  show ?thesis
  proof (cases "rc_lookup ?c ?n")
    case (Some v)
    then obtain c' content where c': "ReadCache_Read ?c ?n = Inr (c', v)" "disk sc ?n = Some content"
        "v = content @ replicate (rc_itemSize ?c - length content) 0"
      using rcache.coherent_hit [OF coh] by blast
    have "mem_read content (a_offset addr) (a_len addr) = Inr d"
      using at c'(2) by (auto simp: chunk_at_def intro: subbuf_mem_read)
    with c' Some show ?thesis
      by (simp add: ReadChunk_def Let_def rc_lookup_exist [OF rok] mem_read_prefix)
  next
    case None
    show ?thesis
    proof (cases "disk sc ?n")
      case None': None
      with at have cur: "ct_id ?cur = ?n" "subbuf (ct_body ?cur) (ct_cur_size ?cur) (a_offset addr) (a_len addr) = Some d"
        by (auto simp: chunk_at_def Let_def split: if_splits)
      have "mem_read (ct_body ?cur) (a_offset addr) (a_len addr) = Inr d"
        using ok cur(2) by (auto simp: store_ok_def Let_def intro: subbuf_mem_read)
      moreover have "strncmp_eq CONTAINER_ID_LENGTH (ct_id ?cur) ?n"
        using cur(1) by (simp add: strncmp_eq_def)
      ultimately show ?thesis using None None'
        by (simp add: ReadChunk_def Let_def rc_lookup_exist [OF rok] disk_def)
    next
      case (Some content)
      then have fits: "length content \<le> rc_itemSize ?c" using ok sz by (auto simp: store_ok_def)
      then obtain c' where "ReadCache_Insert ?c ?n content = Inr c'"
        using rcache.coherent_fetch [OF coh None Some] by blast
      moreover have "map_of (st_files sc) (container_path sc ?n) = Some content" using Some by (simp add: disk_def)
      moreover have "mem_read content (a_offset addr) (a_len addr) = Inr d"
        using at Some by (auto simp: chunk_at_def intro: subbuf_mem_read)
      ultimately show ?thesis using None fits sz
        by (simp add: ReadChunk_def Let_def rc_lookup_exist [OF rok])
    qed
  qed
qed

lemma disk_SaveContainer:
  "length (ct_id ct) = CONTAINER_ID_LENGTH \<Longrightarrow>
   disk (SaveContainer sc ct) = (disk sc)(ct_id ct \<mapsto> take (ct_cur_size ct) (ct_body ct))"
  by (auto simp: disk_def SaveContainer_def Let_def container_path_def fun_eq_iff)

lemma disk_count_write [simp]:
  "disk (sc \<lparr> st_write_chunk_num := n, st_write_data_size := m \<rparr>) = disk sc"
  by (simp add: disk_def container_path_def fun_eq_iff)

text \<open>Sealing a full container keeps the meaning of every address.\<close>

definition seal :: "(nat \<Rightarrow> nat) \<Rightarrow> client_store \<Rightarrow> client_store" where
  "seal rand cl = cl \<lparr> cv_cur_container := (cv_cur_container cl)
     \<lparr> ct_cur_size := 0, ct_id := CreateUUID rand CONTAINER_ID_LENGTH \<rparr> \<rparr>"

lemma seal_ok:
  assumes ok: "store_ok sc cl" and fresh: "fresh_id sc cl rand"
  defines "sc' \<equiv> SaveContainer sc (cv_cur_container cl)"
  shows "store_ok sc' (seal rand cl)"
    and "chunk_at sc cl a = Some d \<Longrightarrow> chunk_at sc' (seal rand cl) a = Some d"
proof -
  let ?cur = "cv_cur_container cl"
  have d: "disk sc' = (disk sc)(ct_id ?cur \<mapsto> take (ct_cur_size ?cur) (ct_body ?cur))"
    unfolding sc'_def using ok by (intro disk_SaveContainer) (simp add: store_ok_def Let_def)
  have none: "disk sc (ct_id ?cur) = None" using ok by (simp add: store_ok_def Let_def)
  then have "disk sc \<subseteq>\<^sub>m disk sc'" by (auto simp: d map_le_def)
  then have "rcache.coherent (cv_container_cache cl) (disk sc')"
    using ok rcache.coherent_grow by (auto simp: store_ok_def)
  with ok fresh show "store_ok sc' (seal rand cl)"
    by (auto simp: store_ok_def seal_def Let_def d fresh_id_def CreateUUID_nonzero split: if_splits)
  show "chunk_at sc' (seal rand cl) a = Some d" if "chunk_at sc cl a = Some d"
  proof (cases "take CONTAINER_ID_LENGTH (a_container a) = ct_id ?cur")
    case True
    have "subbuf (ct_body ?cur) (ct_cur_size ?cur) (a_offset a) (a_len a) = Some d"
      using that none True by (simp add: chunk_at_def Let_def)
    moreover have "ct_cur_size ?cur \<le> length (ct_body ?cur)" using ok by (simp add: store_ok_def Let_def)
    ultimately show ?thesis using True
      by (auto simp: chunk_at_def d subbuf_def drop_take min_def split: if_splits)
  next
    case False
    with that obtain c where "disk sc (take CONTAINER_ID_LENGTH (a_container a)) = Some c"
      by (auto simp: chunk_at_def Let_def split: option.splits)
    with that False show ?thesis by (simp add: chunk_at_def d)
  qed
qed

text \<open>Appending to a buffer that has room.\<close>

lemma append_ok:
  fixes cl data addr
  defines "cur \<equiv> cv_cur_container cl"
  defines "cl' \<equiv> cl \<lparr> cv_cur_container := cur \<lparr>
      ct_body := take (ct_cur_size cur) (ct_body cur) @ data @ drop (ct_cur_size cur + length data) (ct_body cur),
      ct_cur_size := ct_cur_size cur + length data \<rparr> \<rparr>"
  defines "addr' \<equiv> addr \<lparr> a_container := ct_id cur, a_len := length data, a_offset := ct_cur_size cur \<rparr>"
  assumes ok: "store_ok sc cl" and room: "ct_cur_size cur + length data \<le> MAX_CONTAINER_SIZE"
  shows "store_ok sc cl'" and "chunk_at sc cl' addr' = Some data"
    and "chunk_at sc cl a = Some d \<Longrightarrow> chunk_at sc cl' a = Some d"
proof -
  have cur: "length (ct_id cur) = CONTAINER_ID_LENGTH" "disk sc (ct_id cur) = None"
      "length (ct_body cur) = MAX_CONTAINER_SIZE"
    using ok by (simp_all add: store_ok_def Let_def cur_def)
  show "store_ok sc cl'" using ok room by (simp add: store_ok_def Let_def cl'_def cur_def)
  show "chunk_at sc cl' addr' = Some data"
    using cur room by (simp add: chunk_at_def cl'_def addr'_def subbuf_def Let_def min_def)
  show "chunk_at sc cl' a = Some d" if "chunk_at sc cl a = Some d"
  proof (cases "disk sc (take CONTAINER_ID_LENGTH (a_container a))")
    case None
    then have s: "take CONTAINER_ID_LENGTH (a_container a) = ct_id cur"
        "subbuf (ct_body cur) (ct_cur_size cur) (a_offset a) (a_len a) = Some d"
      using that by (auto simp: chunk_at_def cur_def Let_def split: if_splits)
    then show ?thesis using None cur room
      by (auto simp: chunk_at_def cl'_def Let_def subbuf_def drop_take min_def split: if_splits)
  next
    case (Some c)
    with that show ?thesis by (simp add: chunk_at_def)
  qed
qed

lemma chunk_at_counters [simp]:
  "chunk_at (sc \<lparr> st_write_chunk_num := n, st_write_data_size := m \<rparr>) = chunk_at sc"
  "store_ok (sc \<lparr> st_write_chunk_num := n, st_write_data_size := m \<rparr>) cl = store_ok sc cl"
  by (simp_all add: chunk_at_def store_ok_def fun_eq_iff)

lemma WriteChunk_ok:
  assumes ok: "store_ok sc cl" and fresh: "fresh_id sc cl rand" and len: "length data \<le> MAX_CONTAINER_SIZE"
  obtains sc' cl' addr' where "WriteChunk rand sc cl addr data = Inr (sc', cl', addr')" "store_ok sc' cl'"
    "chunk_at sc' cl' addr' = Some data" "\<And>a d. chunk_at sc cl a = Some d \<Longrightarrow> chunk_at sc' cl' a = Some d"
    "length (a_container addr') = CONTAINER_ID_LENGTH" "a_stat addr' = a_stat addr"
    "a_base_fp addr' = a_base_fp addr" "a_compressed_fp addr' = a_compressed_fp addr"
proof -
  note result = that
  let ?cur = "cv_cur_container cl"
  have small: "to_u32 (ct_cur_size ?cur + length data) = ct_cur_size ?cur + length data"
    using ok len by (simp add: store_ok_def Let_def MAX_CONTAINER_SIZE_def)
  have main: thesis
    if sc2: "store_ok sc2 cl2" "ct_cur_size (cv_cur_container cl2) + length data \<le> MAX_CONTAINER_SIZE"
      and keep: "\<And>a d. chunk_at sc cl a = Some d \<Longrightarrow> chunk_at sc2 cl2 a = Some d"
      and W: "WriteChunk rand sc cl addr data =
        (let cur = cv_cur_container cl2
         in bindR (mem_write (ct_body cur) (ct_cur_size cur) data) (\<lambda>body.
              Inr (sc2 \<lparr> st_write_chunk_num := st_write_chunk_num sc2 + 1,
                         st_write_data_size := st_write_data_size sc2 + length data \<rparr>,
                   cl2 \<lparr> cv_cur_container := cur \<lparr> ct_body := body, ct_cur_size := ct_cur_size cur + length data \<rparr> \<rparr>,
                   addr \<lparr> a_container := take CONTAINER_ID_LENGTH (ct_id cur), a_len := length data,
                          a_offset := ct_cur_size cur \<rparr>)))" for sc2 cl2
  proof -
    have b: "length (ct_body (cv_cur_container cl2)) = MAX_CONTAINER_SIZE"
        "length (ct_id (cv_cur_container cl2)) = CONTAINER_ID_LENGTH"
      using sc2 by (simp_all add: store_ok_def Let_def)
    note ap = append_ok [OF sc2] and W' = W [unfolded Let_def mem_write_ok [OF sc2(2) [folded b(1)]] bindR_Inr]
    show thesis
      by (rule result [OF W']) (use b ap keep in simp_all)
  qed
  show thesis
  proof (cases "MAX_CONTAINER_SIZE < ct_cur_size ?cur + length data")
    case True
    show ?thesis
      by (rule main [of "SaveContainer sc ?cur" "seal rand cl"])
        (use seal_ok [OF ok fresh] True small len in \<open>simp_all add: WriteChunk_def seal_def Let_def\<close>)
  next
    case False
    show ?thesis
      by (rule main [of sc cl]) (use ok False small in \<open>simp_all add: WriteChunk_def Let_def\<close>)
  qed
qed

subsection \<open>Sequences of reads and writes\<close>

inductive store_step :: "storage_core \<times> client_store \<Rightarrow> storage_core \<times> client_store \<Rightarrow> bool" where
  step_read: "ReadChunk sc cl addr = Inr (sc', cl', r) \<Longrightarrow> store_step (sc, cl) (sc', cl')"
| step_write: "fresh_id sc cl rand \<Longrightarrow> length data \<le> MAX_CONTAINER_SIZE \<Longrightarrow>
    WriteChunk rand sc cl addr data = Inr (sc', cl', addr') \<Longrightarrow> store_step (sc, cl) (sc', cl')"

inductive_cases store_stepE: "store_step s s'"

definition store_inv :: "storage_core \<times> client_store \<Rightarrow> bool" where
  "store_inv s \<longleftrightarrow> store_ok (fst s) (snd s)"

lemma store_step_keeps:
  assumes "store_step s s'" "store_inv s"
  shows "store_inv s' \<and> (\<forall>a d. chunk_at (fst s) (snd s) a = Some d \<longrightarrow> chunk_at (fst s') (snd s') a = Some d)"
  using assms
proof (cases rule: store_step.cases)
  case (step_read sc cl addr sc' cl' r)
  with assms(2) ReadChunk_keeps [of sc cl addr sc' cl' r] show ?thesis by (simp add: store_inv_def)
next
  case (step_write sc cl rand data addr sc' cl' addr')
  with assms(2) have "store_ok sc cl" by (simp add: store_inv_def)
  from WriteChunk_ok [OF this step_write(3,4), of addr] step_write show ?thesis
    by (simp add: store_inv_def) (metis Inr_inject prod.inject)
qed

lemma store_steps_keep:
  assumes "store_step\<^sup>*\<^sup>* s s'" "store_inv s"
  shows "store_inv s' \<and> (\<forall>a d. chunk_at (fst s) (snd s) a = Some d \<longrightarrow> chunk_at (fst s') (snd s') a = Some d)"
  using assms(1)
proof (induction rule: rtranclp_induct)
  case base
  then show ?case using assms(2) by simp
next
  case (step y z)
  with store_step_keeps [of y z] show ?case by blast
qed

text \<open>
  C8. A chunk that was written is read back: whatever reads and writes follow, through container
  rollovers and evictions of the read cache, the address that the write returned yields the
  bytes that were written. The hypotheses are that names drawn for new containers are not in use
  (\<open>CreateUUID\<close> draws eight random characters) and that a chunk is no larger than a container.
\<close>

theorem WriteChunk_read_back:
  assumes "store_ok sc cl" "fresh_id sc cl rand" "length data \<le> MAX_CONTAINER_SIZE"
    and "WriteChunk rand sc cl addr data = Inr (sc1, cl1, addr1)"
    and "store_step\<^sup>*\<^sup>* (sc1, cl1) (sc2, cl2)"
  shows "\<exists>sc3 cl3. ReadChunk sc2 cl2 addr1 = Inr (sc3, cl3, Some data)"
proof -
  obtain sc' cl' addr' where w: "WriteChunk rand sc cl addr data = Inr (sc', cl', addr')" "store_ok sc' cl'"
      "chunk_at sc' cl' addr' = Some data"
    by (rule WriteChunk_ok [OF assms(1-3), of addr]) blast
  with assms(4) have "store_inv (sc1, cl1)" "chunk_at sc1 cl1 addr1 = Some data"
    by (simp_all add: store_inv_def)
  with store_steps_keep [OF assms(5)] have "store_ok sc2 cl2" "chunk_at sc2 cl2 addr1 = Some data"
    by (simp_all add: store_inv_def)
  then show ?thesis by (rule ReadChunk_returns)
qed

definition sc0 :: storage_core where
  "sc0 = \<lparr> st_prefix = [], st_suffix = [], st_files = [], st_read_container_num = 0, st_read_chunk_num = 0,
           st_read_data_size = 0, st_write_container_num = 0, st_write_chunk_num = 0, st_write_data_size = 0 \<rparr>"

definition addr0 :: key_for_chunk where
  "addr0 = \<lparr> a_stat = UNIQUE_CHUNK, a_container = [], a_offset = 0, a_len = 0, a_base_fp = [], a_compressed_fp = [] \<rparr>"

lemma store_new_ok: "store_ok sc0 (client_store_new rand 2)"
  by (rule client_store_new_ok) (simp_all add: sc0_def)

lemma fresh_new: "fresh_id sc0 (client_store_new (\<lambda>_. 0) 2) (\<lambda>_. 1)"
  by (simp add: fresh_id_def disk_def sc0_def client_store_new_def CreateUUID_def ALPHABET_def
      CONTAINER_ID_LENGTH_def upt_rec_numeral Let_def)
    (rule exI [of _ 0], simp)

theorem WriteChunk_read_back_witness:
  "\<exists>sc1 cl1 addr1 sc3 cl3.
     WriteChunk (\<lambda>_. 1) sc0 (client_store_new (\<lambda>_. 0) 2) addr0 [7, 8, 9] = Inr (sc1, cl1, addr1) \<and>
     ReadChunk sc1 cl1 addr1 = Inr (sc3, cl3, Some [7, 8, 9])"
proof -
  have len: "length [7, 8, 9 :: byte] \<le> MAX_CONTAINER_SIZE" by (simp add: MAX_CONTAINER_SIZE_def)
  obtain sc1 cl1 addr1 where
      w: "WriteChunk (\<lambda>_. 1) sc0 (client_store_new (\<lambda>_. 0) 2) addr0 [7, 8, 9] = Inr (sc1, cl1, addr1)"
    by (rule WriteChunk_ok [OF store_new_ok fresh_new len])
  from WriteChunk_read_back [OF store_new_ok fresh_new len w rtranclp.rtrancl_refl] w
  show ?thesis by blast
qed

text \<open>
  C34. The container buffer is never overrun: from a well-formed state every write of at most a
  container's worth of bytes succeeds, keeps the fill level within the buffer, returns an
  address inside one container, and gives every container file a size of at most 4 MiB.
\<close>

theorem WriteChunk_bounded:
  assumes "store_ok sc cl" "fresh_id sc cl rand" "length data \<le> MAX_CONTAINER_SIZE"
  shows "\<exists>sc' cl' addr'. WriteChunk rand sc cl addr data = Inr (sc', cl', addr') \<and> store_ok sc' cl' \<and>
           a_len addr' = length data \<and>
           ct_cur_size (cv_cur_container cl') = a_offset addr' + a_len addr' \<and>
           ct_cur_size (cv_cur_container cl') \<le> MAX_CONTAINER_SIZE \<and>
           (\<forall>name c. disk sc' name = Some c \<longrightarrow> length c \<le> MAX_CONTAINER_SIZE)"
proof -
  obtain sc' cl' addr' where w: "WriteChunk rand sc cl addr data = Inr (sc', cl', addr')" "store_ok sc' cl'"
    by (rule WriteChunk_ok [OF assms, of addr]) blast
  moreover have "a_len addr' = length data \<and> ct_cur_size (cv_cur_container cl') = a_offset addr' + a_len addr'"
    using w(1) by (auto simp: WriteChunk_def Let_def bindR_eq_Inr split: if_splits)
  ultimately show ?thesis by (auto simp: store_ok_def Let_def)
qed

theorem WriteChunk_bounded_witness:
  "\<exists>sc' cl' addr'. WriteChunk (\<lambda>_. 1) sc0 (client_store_new (\<lambda>_. 0) 2) addr0 [5] = Inr (sc', cl', addr') \<and>
     store_ok sc' cl' \<and> a_len addr' = length [5 :: byte]"
  using WriteChunk_bounded [OF store_new_ok fresh_new, of "[5]" addr0]
  by (auto simp: MAX_CONTAINER_SIZE_def)

end
