(* ===== verification/Server_Write.thy ===== *)
theory Server_Write
  imports Data_Recv Inform_Cache Storage_Core
begin

text \<open>
  The last two threads of the server's upload path: \<open>src/server/cache_comp_thd.cc\<close>, which
  maintains the informed cache and delta-compresses against it, and
  \<open>src/server/data_writer_thd.cc\<close>, which finds base chunks on disk, delta-compresses and
  stores. \<open>denc\<close> is the encoder of xdelta with the limit of its output buffer, \<open>iter\<close> the
  iteration order of a hash map, \<open>rand\<close> the names drawn for new containers.
\<close>

subsection \<open>Compression against the informed cache\<close>

record cache_comp =
  cc_inform_cache :: inform_cache
  cc_output :: wrapped_chunk           \<comment> \<open>the local \<open>output_data\<close>, not cleared between chunks\<close>
  cc_similar_chunk_num :: nat
  cc_similar_data_size :: nat
  cc_delta_size :: nat

definition CacheCompThd_step ::
  "(bytes \<Rightarrow> bytes \<Rightarrow> nat \<Rightarrow> bytes option) \<Rightarrow> ((bytes, nat) umap \<Rightarrow> (bytes, nat) umap) \<Rightarrow> cache_comp \<Rightarrow>
   wrapped_chunk \<Rightarrow> (cache_comp \<times> wrapped_chunk list) result" where
  "CacheCompThd_step denc iter cc w =
    (case ci_stat (w_info w) of
       UNIQUE_CHUNK_AFTER_CACHE \<Rightarrow> Inr (cc, [w \<lparr> w_info := (w_info w) \<lparr> ci_stat := UNIQUE_CHUNK \<rparr> \<rparr>])
     | UNIQUE_CHUNK \<Rightarrow>
         bindR (ProcessNormalChunk (\<lambda>b d. denc b d ENC_MAX_CHUNK_SIZE) iter (cc_inform_cache cc) w (cc_output cc))
           (\<lambda>(is_similar, w, output).
             let cc = cc \<lparr> cc_output := output \<rparr>
             in if is_similar then
                  Inr (cc \<lparr> cc_similar_chunk_num := cc_similar_chunk_num cc + 1,
                            cc_similar_data_size := cc_similar_data_size cc + length (w_data w),
                            cc_delta_size := cc_delta_size cc + length (w_data output) \<rparr>, [output])
                else if GetCacheSize (cc_inform_cache cc) = 0 then
                  Inr (cc, [w \<lparr> w_info := (w_info w) \<lparr> ci_stat := UNIQUE_CHUNK \<rparr> \<rparr>])
                else Inl WrongCacheState)
     | CACHE_INSERT_CHUNK \<Rightarrow> Inr (cc \<lparr> cc_inform_cache := InsertCachedChunk (cc_inform_cache cc) w \<rparr>, [])
     | CACHE_EVICT_CHUNK \<Rightarrow>
         bindR (EvictCacheChunk (cc_inform_cache cc) w) (\<lambda>ic. Inr (cc \<lparr> cc_inform_cache := ic \<rparr>, []))
     | _ \<Rightarrow> Inl WrongChunkType)"

subsection \<open>The writer\<close>

record data_writer =
  dw_store :: storage_core
  dw_client :: client_store
  dw_fp_2_addr :: "(bytes, key_for_chunk) umap"
  dw_feature_2_fp :: "(bytes, bytes) in_memory_db"
  dw_similar_chunk_num :: nat
  dw_similar_data_size :: nat
  dw_delta_size :: nat

definition dw_write ::
  "(nat \<Rightarrow> nat) \<Rightarrow> data_writer \<Rightarrow> wrapped_chunk \<Rightarrow> bytes \<Rightarrow> (data_writer \<times> wrapped_chunk) result" where
  \<comment> \<open>\<open>WriteChunk(&info.addr, data, size, cur_client)\<close>\<close>
  "dw_write rand dw w data =
    bindR (WriteChunk rand (dw_store dw) (dw_client dw) (ci_addr (w_info w)) data) (\<lambda>(sc, cl, addr).
      Inr (dw \<lparr> dw_store := sc, dw_client := cl \<rparr>, w \<lparr> w_info := (w_info w) \<lparr> ci_addr := addr \<rparr> \<rparr>))"

definition set_addr_stat :: "wrapped_chunk \<Rightarrow> chunk_status \<Rightarrow> wrapped_chunk" where
  "set_addr_stat w s = w \<lparr> w_info := (w_info w) \<lparr> ci_addr := (ci_addr (w_info w)) \<lparr> a_stat := s \<rparr> \<rparr> \<rparr>"

definition DataWriter_FetchBaseChunk ::
  "data_writer \<Rightarrow> bytes \<Rightarrow> (data_writer \<times> bytes) result" where
  \<comment> \<open>a read that fails yields size 0; the destination buffer holds \<open>ENC_MAX_CHUNK_SIZE\<close> bytes\<close>
  "DataWriter_FetchBaseChunk dw base_fp =
    (case map_of (dw_fp_2_addr dw) base_fp of
       None \<Rightarrow> Inl BaseNotFound
     | Some base_addr \<Rightarrow>
         if ENC_MAX_CHUNK_SIZE < a_len base_addr then Inl OutOfBounds
         else bindR (ReadChunk (dw_store dw) (dw_client dw) base_addr) (\<lambda>(sc, cl, r).
           let dw = dw \<lparr> dw_store := sc, dw_client := cl \<rparr>
           in case r of None \<Rightarrow> Inr (dw, []) | Some base \<Rightarrow> Inr (dw, base)))"

definition ProcSimilarChunk ::
  "(bytes \<Rightarrow> bytes \<Rightarrow> nat \<Rightarrow> bytes option) \<Rightarrow> (nat \<Rightarrow> nat \<Rightarrow> nat) \<Rightarrow> data_writer \<Rightarrow> wrapped_chunk \<Rightarrow>
   (data_writer \<times> wrapped_chunk) result" where
  \<comment> \<open>after the write of a chunk without base the function goes on\<close>
  "ProcSimilarChunk denc rand dw w =
    bindR (DataWriter_FetchBaseChunk dw (a_base_fp (ci_addr (w_info w)))) (\<lambda>(dw, base_chunk).
    bindR (if length base_chunk = 0 then dw_write (rand 0) dw w (w_data w) else Inr (dw, w)) (\<lambda>(dw, w).
    bindR (DeltaEncode denc base_chunk (w_data w)) (\<lambda>delta_chunk.
    bindR (dw_write (rand 1) dw w delta_chunk) (\<lambda>(dw, w).
      Inr (dw \<lparr> dw_delta_size := dw_delta_size dw + length delta_chunk \<rparr>, set_addr_stat w COMP_DELTA_CHUNK)))))"

definition ProcNonSimilarChunk ::
  "(nat \<Rightarrow> nat \<Rightarrow> nat) \<Rightarrow> data_writer \<Rightarrow> wrapped_chunk \<Rightarrow> (data_writer \<times> wrapped_chunk) result" where
  "ProcNonSimilarChunk rand dw w =
    bindR (dw_write (rand 1) dw w (w_data w)) (\<lambda>(dw, w). Inr (dw, set_addr_stat w COMP_BASE_CHUNK))"

definition ProcCacheDeltaChunk ::
  "(nat \<Rightarrow> nat \<Rightarrow> nat) \<Rightarrow> data_writer \<Rightarrow> wrapped_chunk \<Rightarrow> (data_writer \<times> wrapped_chunk) result" where
  "ProcCacheDeltaChunk rand dw w =
    bindR (dw_write (rand 1) dw w (w_data w)) (\<lambda>(dw, w). Inr (dw, set_addr_stat w CACHE_DELTA_CHUNK))"

definition DataWriterThd_step ::
  "(bytes \<Rightarrow> bytes \<Rightarrow> nat \<Rightarrow> bytes option) \<Rightarrow> ((bytes, nat) umap \<Rightarrow> (bytes, nat) umap) \<Rightarrow>
   (nat \<Rightarrow> nat \<Rightarrow> nat) \<Rightarrow> data_writer \<Rightarrow> wrapped_chunk \<Rightarrow> data_writer result" where
  "DataWriterThd_step denc iter rand dw w =
    bindR
      (case ci_stat (w_info w) of
         CACHE_DELTA_CHUNK \<Rightarrow> ProcCacheDeltaChunk rand dw w
       | UNIQUE_CHUNK \<Rightarrow>
           (let w = w \<lparr> w_info := FindBaseChunk_db iter (dw_feature_2_fp dw) (w_info w) \<rparr>
            in case ci_stat (w_info w) of
                 SIMILAR_CHUNK \<Rightarrow>
                   ProcSimilarChunk denc rand
                     (dw \<lparr> dw_similar_chunk_num := dw_similar_chunk_num dw + 1,
                           dw_similar_data_size := dw_similar_data_size dw + length (w_data w) \<rparr>) w
               | NON_SIMILAR_CHUNK \<Rightarrow>
                   bindR (ProcNonSimilarChunk rand dw w) (\<lambda>(dw, w).
                     Inr (dw \<lparr> dw_feature_2_fp :=
                                 UpdateFeatureIndex_db (dw_feature_2_fp dw) (ci_features (w_info w)) (ci_fp (w_info w)) \<rparr>, w))
               | _ \<Rightarrow> Inl WrongChunkType)
       | _ \<Rightarrow> Inl WrongChunkType)
      (\<lambda>(dw, w). Inr (dw \<lparr> dw_fp_2_addr := AList.update (ci_fp (w_info w)) (ci_addr (w_info w)) (dw_fp_2_addr dw) \<rparr>))"

definition DataWriterThd_end :: "data_writer \<Rightarrow> data_writer" where
  \<comment> \<open>the tail container; its file is then also found by the fill level it had\<close>
  "DataWriterThd_end dw =
    (if ct_cur_size (cv_cur_container (dw_client dw)) \<noteq> 0
     then dw \<lparr> dw_store := SaveContainer (dw_store dw) (cv_cur_container (dw_client dw)) \<rparr> else dw)"


subsection \<open>What the writer has stored\<close>

definition dw_chunk :: "data_writer \<Rightarrow> key_for_chunk \<Rightarrow> bytes option" where
  "dw_chunk dw = chunk_at (dw_store dw) (dw_client dw)"

text \<open>
  The abstract content of the store: what a fingerprint denotes, a chunk that is a delta being
  decoded against its base; for a delta against the informed cache it is the delta.
\<close>

definition stored :: "(bytes \<Rightarrow> bytes \<Rightarrow> nat \<Rightarrow> bytes option) \<Rightarrow> data_writer \<Rightarrow> bytes \<Rightarrow> bytes option" where
  "stored ddec dw fp =
    (case map_of (dw_fp_2_addr dw) fp of
       None \<Rightarrow> None
     | Some a \<Rightarrow>
         if a_stat a = COMP_DELTA_CHUNK then
           (case map_of (dw_fp_2_addr dw) (a_base_fp a) of
              None \<Rightarrow> None
            | Some b \<Rightarrow>
                (case (dw_chunk dw b, dw_chunk dw a) of
                   (Some base, Some delta) \<Rightarrow> ddec base delta ENC_MAX_CHUNK_SIZE
                 | _ \<Rightarrow> None))
         else if a_stat a \<in> {COMP_BASE_CHUNK, CACHE_DELTA_CHUNK} then dw_chunk dw a else None)"

definition base_fp :: "data_writer \<Rightarrow> bytes \<Rightarrow> bool" where
  "base_fp dw fp \<longleftrightarrow> (\<exists>a. map_of (dw_fp_2_addr dw) fp = Some a \<and> a_stat a = COMP_BASE_CHUNK)"

text \<open>
  The invariant over the set of fingerprints whose chunks have been written. The index may hold
  more: deduplication enters a fingerprint before its chunk reaches the writer.
\<close>

definition dw_entry_ok :: "bytes set \<Rightarrow> data_writer \<Rightarrow> key_for_chunk \<Rightarrow> bool" where
  "dw_entry_ok S dw a \<longleftrightarrow>
     (\<exists>d. dw_chunk dw a = Some d \<and> d \<noteq> [] \<and> length d \<le> ENC_MAX_CHUNK_SIZE) \<and>
     (a_stat a \<in> {COMP_BASE_CHUNK, CACHE_DELTA_CHUNK} \<or>
      a_stat a = COMP_DELTA_CHUNK \<and> a_base_fp a \<in> S \<and> base_fp dw (a_base_fp a))"

definition dw_inv :: "bytes set \<Rightarrow> data_writer \<Rightarrow> bool" where
  "dw_inv S dw \<longleftrightarrow>
     store_ok (dw_store dw) (dw_client dw) \<and> db_ok (dw_feature_2_fp dw) \<and>
     (\<forall>fp \<in> S. length fp = CHUNK_HASH_SIZE \<and> (\<exists>a. map_of (dw_fp_2_addr dw) fp = Some a \<and> dw_entry_ok S dw a)) \<and>
     (\<forall>f b. InMem_QueryBuffer (dw_feature_2_fp dw) (u64_le f) 8 = Some b \<longrightarrow> b \<in> S \<and> base_fp dw b)"

definition dw_keeps :: "data_writer \<Rightarrow> data_writer \<Rightarrow> bool" where
  \<comment> \<open>every stored chunk stays where it is; the indexes are not touched\<close>
  "dw_keeps dw dw' \<longleftrightarrow>
     store_ok (dw_store dw') (dw_client dw') \<and>
     (\<forall>a d. dw_chunk dw a = Some d \<longrightarrow> dw_chunk dw' a = Some d) \<and>
     dw_fp_2_addr dw' = dw_fp_2_addr dw \<and> dw_feature_2_fp dw' = dw_feature_2_fp dw"

lemma dw_inv_extend:
  assumes inv: "dw_inv S dw" and keeps: "dw_keeps dw dw1"
    and fp: "fp \<notin> S" "length fp = CHUNK_HASH_SIZE"
    and dw': "dw' = dw1 \<lparr> dw_feature_2_fp := feat', dw_fp_2_addr := AList.update fp a (dw_fp_2_addr dw1) \<rparr>"
    and a: "dw_chunk dw1 a = Some d" "d \<noteq> []" "length d \<le> ENC_MAX_CHUNK_SIZE"
    and stat: "a_stat a \<in> {COMP_BASE_CHUNK, CACHE_DELTA_CHUNK} \<or>
      a_stat a = COMP_DELTA_CHUNK \<and> a_base_fp a \<in> S \<and> base_fp dw (a_base_fp a)"
    and feat: "feat' = dw_feature_2_fp dw \<or>
      a_stat a = COMP_BASE_CHUNK \<and> feat' = UpdateFeatureIndex_db (dw_feature_2_fp dw) fs fp"
  shows "dw_inv (insert fp S) dw' \<and> (\<forall>g \<in> S. stored ddec dw' g = stored ddec dw g)"
proof -
  have idx: "map_of (dw_fp_2_addr dw') = (map_of (dw_fp_2_addr dw))(fp \<mapsto> a)"
    using dw' keeps by (simp add: dw_keeps_def)
  have chunk: "dw_chunk dw' = dw_chunk dw1" by (simp add: dw' dw_chunk_def)
  have mono: "dw_chunk dw' x = Some c" if "dw_chunk dw x = Some c" for x c
    using that keeps by (simp add: chunk dw_keeps_def)
  have base: "base_fp dw' b" if "base_fp dw b" "b \<in> S" for b
    using that fp(1) by (auto simp: base_fp_def idx)
  have S: "length g = CHUNK_HASH_SIZE" "\<exists>x. map_of (dw_fp_2_addr dw) g = Some x \<and> dw_entry_ok S dw x" if "g \<in> S" for g
    using inv that by (simp_all add: dw_inv_def)
  have entry: "dw_entry_ok (insert fp S) dw' x" if "dw_entry_ok S dw x" for x
    using that base mono by (auto simp: dw_entry_ok_def)
  have new: "dw_entry_ok (insert fp S) dw' a"
    using a stat base by (auto simp: dw_entry_ok_def chunk)
  have F: "b \<in> S \<and> base_fp dw b" if "InMem_QueryBuffer (dw_feature_2_fp dw) (u64_le f) 8 = Some b" for f b
    using inv that by (simp add: dw_inv_def)
  have dbok: "db_ok (dw_feature_2_fp dw)" using inv by (simp add: dw_inv_def)
  have upd: "UpdateFeatureIndex_db (dw_feature_2_fp dw) fs fp =
      feature_db.insert_all (dw_feature_2_fp dw) (take SUPER_FEATURE_PER_CHUNK fs) fp"
    by (rule UpdateFeatureIndex_db_insert_all [OF fp(2)])
  have F': "b \<in> insert fp S \<and> base_fp dw' b" if q: "InMem_QueryBuffer feat' (u64_le f) 8 = Some b" for f b
  proof (cases "feat' = dw_feature_2_fp dw")
    case True
    with q F base show ?thesis by blast
  next
    case False
    then have 1: "a_stat a = COMP_BASE_CHUNK" and 2: "feat' = feature_db.insert_all (dw_feature_2_fp dw) (take SUPER_FEATURE_PER_CHUNK fs) fp"
      using feat upd by simp_all
    have "base_fp dw' fp" using 1 by (simp add: base_fp_def idx)
    with q F base show ?thesis
      by (auto simp: 2 feature_db.query_insert_all [OF dbok] split: if_splits)
  qed
  have "db_ok feat'" using feat dbok by (auto simp: upd intro: feature_db.insert_all_ok)
  moreover have "length g = CHUNK_HASH_SIZE \<and> (\<exists>x. map_of (dw_fp_2_addr dw') g = Some x \<and> dw_entry_ok (insert fp S) dw' x)"
    if g: "g \<in> insert fp S" for g
  proof (cases "g = fp")
    case True
    then show ?thesis using fp new idx by simp
  next
    case False
    then have "g \<in> S" using g by simp
    from S [OF this] False entry show ?thesis by (auto simp: idx)
  qed
  moreover have "dw_feature_2_fp dw' = feat'" "store_ok (dw_store dw') (dw_client dw')"
    using keeps by (simp_all add: dw' dw_keeps_def)
  ultimately have "dw_inv (insert fp S) dw'" using F' unfolding dw_inv_def by metis
  moreover have "stored ddec dw' g = stored ddec dw g" if g: "g \<in> S" for g
  proof -
    obtain x where x: "map_of (dw_fp_2_addr dw) g = Some x" "dw_entry_ok S dw x" using S(2) [OF g] by blast
    obtain c where c: "dw_chunk dw x = Some c" "dw_chunk dw' x = Some c"
      using x(2) mono by (auto simp: dw_entry_ok_def)
    have x': "map_of (dw_fp_2_addr dw') g = Some x" using x(1) g fp(1) by (auto simp: idx)
    show ?thesis
    proof (cases "a_stat x = COMP_DELTA_CHUNK")
      case True
      then have b: "a_base_fp x \<in> S" using x(2) by (auto simp: dw_entry_ok_def)
      then obtain y where y: "map_of (dw_fp_2_addr dw) (a_base_fp x) = Some y" "dw_entry_ok S dw y" using S(2) by blast
      then have y': "map_of (dw_fp_2_addr dw') (a_base_fp x) = Some y" using b fp(1) by (auto simp: idx)
      obtain e where "dw_chunk dw y = Some e" "dw_chunk dw' y = Some e" using y(2) mono by (auto simp: dw_entry_ok_def)
      with True x(1) x' y(1) y' c show ?thesis by (simp add: stored_def)
    next
      case False
      with x(1) x' c show ?thesis by (simp add: stored_def)
    qed
  qed
  ultimately show ?thesis by blast
qed


lemma chunk_at_length: "store_ok sc cl \<Longrightarrow> chunk_at sc cl a = Some d \<Longrightarrow> length d = a_len a"
  by (auto simp: chunk_at_def subbuf_def store_ok_def Let_def split: option.splits if_splits)

lemma dw_keeps_refl: "store_ok (dw_store dw) (dw_client dw) \<Longrightarrow> dw_keeps dw dw"
  by (simp add: dw_keeps_def)

lemma dw_keeps_trans: "dw_keeps a b \<Longrightarrow> dw_keeps b c \<Longrightarrow> dw_keeps a c"
  by (simp add: dw_keeps_def)

lemma dw_write_ok:
  assumes "store_ok (dw_store dw) (dw_client dw)" "fresh_id (dw_store dw) (dw_client dw) rand"
    and "length data \<le> ENC_MAX_CHUNK_SIZE"
  obtains dw1 a where "dw_write rand dw w data = Inr (dw1, w \<lparr> w_info := (w_info w) \<lparr> ci_addr := a \<rparr> \<rparr>)"
    "dw_keeps dw dw1" "dw_chunk dw1 a = Some data" "a_base_fp a = a_base_fp (ci_addr (w_info w))"
proof -
  have len: "length data \<le> MAX_CONTAINER_SIZE" using assms(3) by (simp add: size_consts)
  obtain sc cl a where "WriteChunk rand (dw_store dw) (dw_client dw) (ci_addr (w_info w)) data = Inr (sc, cl, a)"
      "store_ok sc cl" "chunk_at sc cl a = Some data" "a_base_fp a = a_base_fp (ci_addr (w_info w))"
      "\<And>x d. chunk_at (dw_store dw) (dw_client dw) x = Some d \<Longrightarrow> chunk_at sc cl x = Some d"
    by (rule WriteChunk_ok [OF assms(1,2) len, of "ci_addr (w_info w)"]) blast
  then show thesis
    by (intro that [of "dw \<lparr> dw_store := sc, dw_client := cl \<rparr>" a]) (simp_all add: dw_write_def dw_keeps_def dw_chunk_def)
qed

lemma dw_fetch_ok:
  assumes inv: "dw_inv S dw" and b: "b \<in> S" "base_fp dw b"
  obtains dw1 ba base where "DataWriter_FetchBaseChunk dw b = Inr (dw1, base)" "map_of (dw_fp_2_addr dw) b = Some ba"
    "dw_chunk dw ba = Some base" "base \<noteq> []" "dw_keeps dw dw1"
    "fresh_id (dw_store dw1) (dw_client dw1) = fresh_id (dw_store dw) (dw_client dw)"
proof -
  have ok: "store_ok (dw_store dw) (dw_client dw)" using inv by (simp add: dw_inv_def)
  obtain ba where ba: "map_of (dw_fp_2_addr dw) b = Some ba" "a_stat ba = COMP_BASE_CHUNK" "dw_entry_ok S dw ba"
    using inv b by (auto simp: dw_inv_def base_fp_def)
  then obtain base where base: "dw_chunk dw ba = Some base" "base \<noteq> []" "length base \<le> ENC_MAX_CHUNK_SIZE"
    by (auto simp: dw_entry_ok_def)
  have len: "a_len ba \<le> ENC_MAX_CHUNK_SIZE"
    using chunk_at_length [OF ok, of ba base] base by (simp add: dw_chunk_def)
  obtain sc cl where rd: "ReadChunk (dw_store dw) (dw_client dw) ba = Inr (sc, cl, Some base)"
    using ReadChunk_returns [OF ok] base(1) unfolding dw_chunk_def by blast
  note k = ReadChunk_keeps [OF ok rd]
  show thesis
  proof (rule that)
    show "DataWriter_FetchBaseChunk dw b = Inr (dw \<lparr> dw_store := sc, dw_client := cl \<rparr>, base)"
      using ba len rd by (simp add: DataWriter_FetchBaseChunk_def)
    show "dw_keeps dw (dw \<lparr> dw_store := sc, dw_client := cl \<rparr>)"
      using k by (simp add: dw_keeps_def dw_chunk_def)
    show "fresh_id (dw_store (dw \<lparr> dw_store := sc, dw_client := cl \<rparr>)) (dw_client (dw \<lparr> dw_store := sc, dw_client := cl \<rparr>)) =
        fresh_id (dw_store dw) (dw_client dw)"
      using k by (simp add: fresh_id_def fun_eq_iff)
  qed (fact ba(1) base(1,2))+
qed

definition dw_input :: "bytes set \<Rightarrow> wrapped_chunk \<Rightarrow> bool" where
  "dw_input S w \<longleftrightarrow> ci_stat (w_info w) \<in> {UNIQUE_CHUNK, CACHE_DELTA_CHUNK} \<and> length (ci_fp (w_info w)) = CHUNK_HASH_SIZE \<and>
     ci_fp (w_info w) \<notin> S \<and> w_data w \<noteq> [] \<and> length (w_data w) \<le> ENC_MAX_CHUNK_SIZE"

definition delta_total :: "(bytes \<Rightarrow> bytes \<Rightarrow> nat \<Rightarrow> bytes option) \<Rightarrow> bool" where
  \<comment> \<open>the encoder finds room for the delta of every chunk\<close>
  "delta_total denc \<longleftrightarrow> (\<forall>b d. length d \<le> ENC_MAX_CHUNK_SIZE \<longrightarrow> denc b d ENC_MAX_CHUNK_SIZE \<noteq> None)"

lemma FindBaseChunk_db_cases:
  assumes iter: "\<And>m. mset (iter m) = mset m" and inv: "dw_inv S dw"
  obtains "FindBaseChunk_db iter (dw_feature_2_fp dw) ci = ci \<lparr> ci_stat := NON_SIMILAR_CHUNK \<rparr>"
  | b where "FindBaseChunk_db iter (dw_feature_2_fp dw) ci =
        ci \<lparr> ci_addr := (ci_addr ci) \<lparr> a_base_fp := b \<rparr>, ci_stat := SIMILAR_CHUNK \<rparr>"
      "b \<in> S" "base_fp dw b"
proof -
  let ?q = "\<lambda>f. InMem_QueryBuffer (dw_feature_2_fp dw) (u64_le f) 8"
  note F = FindBaseChunk_choose [OF iter refl, of ?q ci, folded FindBaseChunk_db_def]
  show thesis
  proof (cases "choose_base (hits ?q (take SUPER_FEATURE_PER_CHUNK (ci_features ci)))")
    case None
    with F show thesis by (intro that(1)) simp
  next
    case (Some b)
    then have "b \<in> set (hits ?q (take SUPER_FEATURE_PER_CHUNK (ci_features ci)))" by (rule choose_base_in)
    then obtain f where "?q f = Some b" by (auto simp: hits_def List.map_filter_def)
    then have b: "b \<in> S" "base_fp dw b" using inv by (auto simp: dw_inv_def)
    then have "take CHUNK_HASH_SIZE b = b" using inv by (simp add: dw_inv_def)
    with Some F b show thesis by (intro that(2) [of b]) simp_all
  qed
qed

text \<open>Counters and the address book of a chunk do not matter for what is stored.\<close>

lemma dw_counters [simp]:
  "dw_keeps (dw \<lparr> dw_similar_chunk_num := n, dw_similar_data_size := m \<rparr>) dw' = dw_keeps dw dw'"
  "dw_inv S (dw \<lparr> dw_similar_chunk_num := n, dw_similar_data_size := m \<rparr>) = dw_inv S dw"
  "base_fp (dw \<lparr> dw_similar_chunk_num := n, dw_similar_data_size := m \<rparr>) fp = base_fp dw fp"
  "dw_chunk (dw \<lparr> dw_similar_chunk_num := n, dw_similar_data_size := m \<rparr>) = dw_chunk dw"
  "dw_keeps dw (dw' \<lparr> dw_delta_size := k \<rparr>) = dw_keeps dw dw'"
  "dw_chunk (dw \<lparr> dw_delta_size := k \<rparr>) = dw_chunk dw"
  by (simp_all add: dw_keeps_def dw_inv_def dw_chunk_def base_fp_def dw_entry_ok_def)


lemma dw_chunk_stat [simp]: "dw_chunk dw (a \<lparr> a_stat := s \<rparr>) = dw_chunk dw a"
  by (auto simp: dw_chunk_def chunk_at_def Let_def split: option.splits)

lemma dw_step_non_similar:
  assumes inv: "dw_inv S dw" and w: "dw_input S w" and fresh: "fresh_id (dw_store dw) (dw_client dw) (rand 1)"
    and st: "ci_stat (w_info w) = UNIQUE_CHUNK"
    and find: "FindBaseChunk_db iter (dw_feature_2_fp dw) (w_info w) = (w_info w) \<lparr> ci_stat := NON_SIMILAR_CHUNK \<rparr>"
  shows "\<exists>dw'. DataWriterThd_step denc iter rand dw w = Inr dw' \<and> dw_inv (insert (ci_fp (w_info w)) S) dw' \<and>
    (\<forall>g \<in> S. stored ddec dw' g = stored ddec dw g) \<and> stored ddec dw' (ci_fp (w_info w)) = Some (w_data w)"
proof -
  have ok: "store_ok (dw_store dw) (dw_client dw)" using inv by (simp add: dw_inv_def)
  have in': "ci_fp (w_info w) \<notin> S" "length (ci_fp (w_info w)) = CHUNK_HASH_SIZE" "w_data w \<noteq> []"
      "length (w_data w) \<le> ENC_MAX_CHUNK_SIZE"
    using w st by (simp_all add: dw_input_def)
  let ?w = "w \<lparr> w_info := (w_info w) \<lparr> ci_stat := NON_SIMILAR_CHUNK \<rparr> \<rparr>"
  obtain dw1 a where 1: "dw_write (rand 1) dw ?w (w_data w) = Inr (dw1, ?w \<lparr> w_info := (w_info ?w) \<lparr> ci_addr := a \<rparr> \<rparr>)"
      "dw_keeps dw dw1" "dw_chunk dw1 a = Some (w_data w)"
    by (rule dw_write_ok [OF ok fresh in'(4), of ?w]) blast
  let ?a = "a \<lparr> a_stat := COMP_BASE_CHUNK \<rparr>" and ?fs = "ci_features (w_info w)" and ?fp = "ci_fp (w_info w)"
  let ?dw = "dw1 \<lparr> dw_feature_2_fp := UpdateFeatureIndex_db (dw_feature_2_fp dw1) ?fs ?fp,
                   dw_fp_2_addr := AList.update ?fp ?a (dw_fp_2_addr dw1) \<rparr>"
  have f: "dw_feature_2_fp dw1 = dw_feature_2_fp dw" using 1(2) by (simp add: dw_keeps_def)
  have run: "DataWriterThd_step denc iter rand dw w = Inr ?dw"
    using st find 1(1) by (simp add: DataWriterThd_step_def ProcNonSimilarChunk_def set_addr_stat_def Let_def)
  have c: "dw_chunk dw1 ?a = Some (w_data w)" using 1(3) by simp
  have "dw_inv (insert ?fp S) ?dw \<and> (\<forall>g \<in> S. stored ddec ?dw g = stored ddec dw g)"
    by (rule dw_inv_extend [OF inv 1(2) in'(1,2) refl c]) (use in' f in auto)
  moreover have "stored ddec ?dw ?fp = Some (w_data w)" using c by (simp add: stored_def dw_chunk_def)
  ultimately show ?thesis using run by blast
qed

lemma dw_step_similar:
  assumes inv: "dw_inv S dw" and w: "dw_input S w" and fresh: "fresh_id (dw_store dw) (dw_client dw) (rand 1)"
    and delta: "delta_ok denc ddec" "delta_total denc"
    and st: "ci_stat (w_info w) = UNIQUE_CHUNK" and b: "b \<in> S" "base_fp dw b"
    and find: "FindBaseChunk_db iter (dw_feature_2_fp dw) (w_info w) =
      (w_info w) \<lparr> ci_addr := (ci_addr (w_info w)) \<lparr> a_base_fp := b \<rparr>, ci_stat := SIMILAR_CHUNK \<rparr>"
  shows "\<exists>dw'. DataWriterThd_step denc iter rand dw w = Inr dw' \<and> dw_inv (insert (ci_fp (w_info w)) S) dw' \<and>
    (\<forall>g \<in> S. stored ddec dw' g = stored ddec dw g) \<and> stored ddec dw' (ci_fp (w_info w)) = Some (w_data w)"
proof -
  have in': "ci_fp (w_info w) \<notin> S" "length (ci_fp (w_info w)) = CHUNK_HASH_SIZE" "w_data w \<noteq> []"
      "length (w_data w) \<le> ENC_MAX_CHUNK_SIZE"
    using w st by (simp_all add: dw_input_def)
  let ?w = "w \<lparr> w_info := (w_info w) \<lparr> ci_addr := (ci_addr (w_info w)) \<lparr> a_base_fp := b \<rparr>, ci_stat := SIMILAR_CHUNK \<rparr> \<rparr>"
  let ?dw0 = "dw \<lparr> dw_similar_chunk_num := dw_similar_chunk_num dw + 1,
                   dw_similar_data_size := dw_similar_data_size dw + length (w_data w) \<rparr>"
  have inv0: "dw_inv S ?dw0" and b0: "base_fp ?dw0 b" using inv b by simp_all
  obtain dw1 ba base where 1: "DataWriter_FetchBaseChunk ?dw0 b = Inr (dw1, base)" "map_of (dw_fp_2_addr dw) b = Some ba"
      "dw_chunk dw ba = Some base" "base \<noteq> []" "dw_keeps dw dw1" "fresh_id (dw_store dw1) (dw_client dw1) (rand 1)"
    by (rule dw_fetch_ok [OF inv0 b(1) b0]) (use fresh in simp)
  obtain d where d: "DeltaEncode denc base (w_data w) = Inr d" "length d \<le> ENC_MAX_CHUNK_SIZE" "d \<noteq> []"
      "ddec base d ENC_MAX_CHUNK_SIZE = Some (w_data w)"
  proof -
    obtain d where "denc base (w_data w) ENC_MAX_CHUNK_SIZE = Some d" using delta(2) in'(4) by (auto simp: delta_total_def)
    with delta(1) in'(3,4) show thesis by (intro that [of d]) (auto simp: DeltaEncode_def delta_ok_def)
  qed
  have ok1: "store_ok (dw_store dw1) (dw_client dw1)" using 1(5) by (simp add: dw_keeps_def)
  obtain dw2 a where 2: "dw_write (rand 1) dw1 ?w d = Inr (dw2, ?w \<lparr> w_info := (w_info ?w) \<lparr> ci_addr := a \<rparr> \<rparr>)"
      "dw_keeps dw1 dw2" "dw_chunk dw2 a = Some d" "a_base_fp a = b"
    by (rule dw_write_ok [OF ok1 1(6) d(2), of ?w]) simp
  have keeps: "dw_keeps dw dw2" using dw_keeps_trans [OF 1(5) 2(2)] .
  let ?a = "a \<lparr> a_stat := COMP_DELTA_CHUNK \<rparr>" and ?fp = "ci_fp (w_info w)"
  let ?dw2 = "dw2 \<lparr> dw_delta_size := dw_delta_size dw2 + length d \<rparr>"
  let ?dw = "?dw2 \<lparr> dw_feature_2_fp := dw_feature_2_fp ?dw2, dw_fp_2_addr := AList.update ?fp ?a (dw_fp_2_addr ?dw2) \<rparr>"
  have f: "dw_feature_2_fp dw2 = dw_feature_2_fp dw" "dw_fp_2_addr dw2 = dw_fp_2_addr dw"
    using keeps by (simp_all add: dw_keeps_def)
  have run: "DataWriterThd_step denc iter rand dw w = Inr ?dw"
    using st find 1(1,4) 2(1) d(1) by (simp add: DataWriterThd_step_def ProcSimilarChunk_def set_addr_stat_def Let_def)
  have c: "dw_chunk ?dw2 ?a = Some d" using 2(3) by simp
  have k2: "dw_keeps dw ?dw2" using keeps by simp
  have "dw_inv (insert ?fp S) ?dw \<and> (\<forall>g \<in> S. stored ddec ?dw g = stored ddec dw g)"
    by (rule dw_inv_extend [OF inv k2 in'(1,2) refl c]) (use d 2(4) b f in auto)
  moreover have "stored ddec ?dw ?fp = Some (w_data w)"
  proof -
    have "b \<noteq> ?fp" using b(1) in'(1) by blast
    moreover have "dw_chunk ?dw ba = Some base" using keeps 1(3) by (simp add: dw_keeps_def dw_chunk_def)
    moreover have "dw_chunk ?dw ?a = Some d" using c by (simp add: dw_chunk_def)
    ultimately show ?thesis using 1(2) 2(4) d(4) f by (simp add: stored_def)
  qed
  ultimately show ?thesis using run by blast
qed

lemma dw_step_cache_delta:
  assumes inv: "dw_inv S dw" and w: "dw_input S w" and fresh: "fresh_id (dw_store dw) (dw_client dw) (rand 1)"
    and st: "ci_stat (w_info w) = CACHE_DELTA_CHUNK"
  shows "\<exists>dw'. DataWriterThd_step denc iter rand dw w = Inr dw' \<and> dw_inv (insert (ci_fp (w_info w)) S) dw' \<and>
    (\<forall>g \<in> S. stored ddec dw' g = stored ddec dw g) \<and> stored ddec dw' (ci_fp (w_info w)) = Some (w_data w) \<and>
    (\<exists>a. map_of (dw_fp_2_addr dw') (ci_fp (w_info w)) = Some a \<and> a_stat a = CACHE_DELTA_CHUNK \<and>
         a_base_fp a = a_base_fp (ci_addr (w_info w)))"
proof -
  have ok: "store_ok (dw_store dw) (dw_client dw)" using inv by (simp add: dw_inv_def)
  have in': "ci_fp (w_info w) \<notin> S" "length (ci_fp (w_info w)) = CHUNK_HASH_SIZE" "length (w_data w) \<le> ENC_MAX_CHUNK_SIZE"
      "w_data w \<noteq> []"
    using w by (simp_all add: dw_input_def)
  obtain dw1 a where 1: "dw_write (rand 1) dw w (w_data w) = Inr (dw1, w \<lparr> w_info := (w_info w) \<lparr> ci_addr := a \<rparr> \<rparr>)"
      "dw_keeps dw dw1" "dw_chunk dw1 a = Some (w_data w)" "a_base_fp a = a_base_fp (ci_addr (w_info w))"
    by (rule dw_write_ok [OF ok fresh in'(3), of w]) blast
  let ?a = "a \<lparr> a_stat := CACHE_DELTA_CHUNK \<rparr>" and ?fp = "ci_fp (w_info w)"
  let ?dw = "dw1 \<lparr> dw_feature_2_fp := dw_feature_2_fp dw1, dw_fp_2_addr := AList.update ?fp ?a (dw_fp_2_addr dw1) \<rparr>"
  have run: "DataWriterThd_step denc iter rand dw w = Inr ?dw"
    using st 1(1) by (simp add: DataWriterThd_step_def ProcCacheDeltaChunk_def set_addr_stat_def)
  have c: "dw_chunk dw1 ?a = Some (w_data w)" using 1(3) by simp
  have "dw_feature_2_fp dw1 = dw_feature_2_fp dw" using 1(2) by (simp add: dw_keeps_def)
  then have "dw_inv (insert ?fp S) ?dw \<and> (\<forall>g \<in> S. stored ddec ?dw g = stored ddec dw g)"
    by (intro dw_inv_extend [OF inv 1(2) in'(1,2) refl c]) (use in' in auto)
  moreover have "stored ddec ?dw ?fp = Some (w_data w)" using c by (simp add: stored_def dw_chunk_def)
  ultimately show ?thesis using run 1(4) by (intro exI [of _ ?dw]) simp
qed

lemma dw_step_ok:
  assumes "dw_inv S dw" "dw_input S w" "\<And>m. mset (iter m) = mset m" "delta_ok denc ddec" "delta_total denc"
    and "fresh_id (dw_store dw) (dw_client dw) (rand 1)"
  shows "\<exists>dw'. DataWriterThd_step denc iter rand dw w = Inr dw' \<and> dw_inv (insert (ci_fp (w_info w)) S) dw' \<and>
    (\<forall>g \<in> S. stored ddec dw' g = stored ddec dw g) \<and> stored ddec dw' (ci_fp (w_info w)) = Some (w_data w)"
proof (cases "ci_stat (w_info w) = CACHE_DELTA_CHUNK")
  case True
  from dw_step_cache_delta [where rand = rand, OF assms(1,2,6) True] show ?thesis by blast
next
  case False
  then have st: "ci_stat (w_info w) = UNIQUE_CHUNK" using assms(2) by (simp add: dw_input_def)
  show ?thesis
  proof (rule FindBaseChunk_db_cases [OF assms(3,1), of "w_info w"])
    assume "FindBaseChunk_db iter (dw_feature_2_fp dw) (w_info w) = (w_info w) \<lparr> ci_stat := NON_SIMILAR_CHUNK \<rparr>"
    then show ?thesis by (rule dw_step_non_similar [where rand = rand, OF assms(1,2,6) st])
  next
    fix b assume "FindBaseChunk_db iter (dw_feature_2_fp dw) (w_info w) =
        (w_info w) \<lparr> ci_addr := (ci_addr (w_info w)) \<lparr> a_base_fp := b \<rparr>, ci_stat := SIMILAR_CHUNK \<rparr>"
      and "b \<in> S" "base_fp dw b"
    then show ?thesis using dw_step_similar [where rand = rand, OF assms(1,2,6,4,5) st] by blast
  qed
qed




definition demo_denc :: "bytes \<Rightarrow> bytes \<Rightarrow> nat \<Rightarrow> bytes option" where
  "demo_denc b d n = (if length d \<le> n then Some d else None)"

lemma demo_delta_ok: "delta_ok demo_denc demo_denc" "delta_total demo_denc"
  by (auto simp: delta_ok_def delta_total_def demo_denc_def)

definition dw_new :: data_writer where
  "dw_new = \<lparr> dw_store = sc0, dw_client = client_store_new (\<lambda>_. 0) 2, dw_fp_2_addr = [],
              dw_feature_2_fp = \<lparr> index_obj = [] \<rparr>, dw_similar_chunk_num = 0, dw_similar_data_size = 0, dw_delta_size = 0 \<rparr>"

lemma dw_new_inv: "dw_inv {} dw_new"
  by (simp add: dw_inv_def dw_new_def store_new_ok db_ok_def InMem_QueryBuffer_def)

definition chunk_demo_in :: "byte \<Rightarrow> wrapped_chunk" where
  "chunk_demo_in b = \<lparr> w_info = \<lparr> ci_fp = replicate 32 b, ci_features = [1, 2, 3], ci_addr = addr0, ci_stat = UNIQUE_CHUNK \<rparr>,
                       w_data = [b, 7] \<rparr>"


text \<open>
  A similar chunk whose base cannot be read is stored twice and as a delta. The branch for a
  failed read writes the chunk itself, but the function then goes on: the chunk is encoded
  against an empty base, written again, and the address that survives is that of the second
  copy with the status of a delta.
\<close>

theorem ProcSimilarChunk_no_base:
  assumes base: "map_of (dw_fp_2_addr dw) (a_base_fp (ci_addr (w_info w))) = Some ba" "a_len ba \<le> ENC_MAX_CHUNK_SIZE"
    and lost: "ReadChunk (dw_store dw) (dw_client dw) ba = Inr (dw_store dw, dw_client dw, None)"
    and delta: "denc [] (w_data w) ENC_MAX_CHUNK_SIZE = Some delta"
    and room: "store_ok (dw_store dw) (dw_client dw)"
      "ct_cur_size (cv_cur_container (dw_client dw)) + length (w_data w) + length delta \<le> MAX_CONTAINER_SIZE"
  shows "\<exists>dw' w'. ProcSimilarChunk denc rand dw w = Inr (dw', w') \<and>
    st_write_chunk_num (dw_store dw') = st_write_chunk_num (dw_store dw) + 2 \<and>
    st_write_data_size (dw_store dw') = st_write_data_size (dw_store dw) + length (w_data w) + length delta \<and>
    a_stat (ci_addr (w_info w')) = COMP_DELTA_CHUNK \<and> dw_chunk dw' (ci_addr (w_info w')) = Some delta"
proof -
  let ?cur = "cv_cur_container (dw_client dw)"
  have len: "length (ct_body ?cur) = MAX_CONTAINER_SIZE" "length (ct_id ?cur) = CONTAINER_ID_LENGTH"
      "disk (dw_store dw) (ct_id ?cur) = None"
    using room(1) by (simp_all add: store_ok_def Let_def)
  have small: "MAX_CONTAINER_SIZE < 2 ^ 32" by (simp add: MAX_CONTAINER_SIZE_def)
  have W: "WriteChunk r sc cl a d = Inr (sc \<lparr> st_write_chunk_num := st_write_chunk_num sc + 1,
        st_write_data_size := st_write_data_size sc + length d \<rparr>,
      cl \<lparr> cv_cur_container := (cv_cur_container cl) \<lparr>
             ct_body := take (ct_cur_size (cv_cur_container cl)) (ct_body (cv_cur_container cl)) @ d @
               drop (ct_cur_size (cv_cur_container cl) + length d) (ct_body (cv_cur_container cl)),
             ct_cur_size := ct_cur_size (cv_cur_container cl) + length d \<rparr> \<rparr>,
      a \<lparr> a_container := take CONTAINER_ID_LENGTH (ct_id (cv_cur_container cl)), a_len := length d,
          a_offset := ct_cur_size (cv_cur_container cl) \<rparr>)"
    if "ct_cur_size (cv_cur_container cl) + length d \<le> MAX_CONTAINER_SIZE"
      "length (ct_body (cv_cur_container cl)) = MAX_CONTAINER_SIZE" for r sc cl a d
  proof -
    have "to_u32 (ct_cur_size (cv_cur_container cl) + length d) = ct_cur_size (cv_cur_container cl) + length d"
      using that(1) small by simp
    with that show ?thesis by (simp add: WriteChunk_def Let_def mem_write_ok)
  qed
  have F: "DataWriter_FetchBaseChunk dw (a_base_fp (ci_addr (w_info w))) = Inr (dw, [])"
    using base lost by (simp add: DataWriter_FetchBaseChunk_def)
  show ?thesis
    using F delta room(2) len W
    by (simp add: ProcSimilarChunk_def dw_write_def DeltaEncode_def set_addr_stat_def dw_chunk_def chunk_at_def disk_def
        container_path_def subbuf_def Let_def)
qed

theorem ProcSimilarChunk_no_base_witness:
  "\<exists>dw' w'. ProcSimilarChunk demo_denc (\<lambda>_ _. 1)
      (dw_new \<lparr> dw_fp_2_addr := [([9], addr0 \<lparr> a_container := replicate 8 1 \<rparr>)] \<rparr>)
      ((chunk_demo_in 4) \<lparr> w_info := (w_info (chunk_demo_in 4)) \<lparr> ci_addr := addr0 \<lparr> a_base_fp := [9] \<rparr> \<rparr> \<rparr>) = Inr (dw', w') \<and>
    st_write_chunk_num (dw_store dw') = 2 \<and> a_stat (ci_addr (w_info w')) = COMP_DELTA_CHUNK"
proof -
  let ?dw = "dw_new \<lparr> dw_fp_2_addr := [([9], addr0 \<lparr> a_container := replicate 8 1 \<rparr>)] \<rparr>"
  let ?w = "(chunk_demo_in 4) \<lparr> w_info := (w_info (chunk_demo_in 4)) \<lparr> ci_addr := addr0 \<lparr> a_base_fp := [9] \<rparr> \<rparr> \<rparr>"
  have id: "takeWhile (\<lambda>c. c \<noteq> 0) (CreateUUID (\<lambda>_. 0) 8) = replicate 8 97"
    by (simp add: CreateUUID_def ALPHABET_def upt_rec_numeral map_replicate_const takeWhile_eq_all_conv)
  have lost: "ReadChunk (dw_store ?dw) (dw_client ?dw) (addr0 \<lparr> a_container := replicate 8 1 \<rparr>) =
      Inr (dw_store ?dw, dw_client ?dw, None)"
    by (simp add: dw_new_def sc0_def client_store_new_def ReadChunk_def Let_def strncmp_eq_def id CONTAINER_ID_LENGTH_def
        ReadCache_new_def ReadCache_Exist_def lru_contains_def lru_new_def addr0_def takeWhile_eq_all_conv)
  show ?thesis
    using ProcSimilarChunk_no_base [OF _ _ lost, of ?w demo_denc "[4, 7]" "\<lambda>_ _. 1"] store_new_ok [of "\<lambda>_. 0"]
    by (auto simp: dw_new_def addr0_def chunk_demo_in_def demo_denc_def client_store_new_def size_consts sc0_def)
qed

end
