(* ===== verification/Pipeline.thy ===== *)
theory Pipeline
  imports Server_Write
begin

text \<open>
  The upload pipeline of the server: the threads of \<open>dual_dedup_thd.cc\<close>, \<open>cache_comp_thd.cc\<close> and
  \<open>data_writer_thd.cc\<close> run concurrently, connected by queues (\<open>server_opt_thd.cc\<close> starts them,
  \<open>client_var.cc\<close> holds the queues). Deduplication and the writer share the fingerprint index.
  A state of the pipeline holds the queues and the states of the threads; a step lets one thread
  process the next chunk of its queue. The sections on the queues themselves are in \<open>Msg_Queue\<close>.
\<close>

subsection \<open>The threads together\<close>

record pipeline =
  pp_recv_2_dual :: "wrapped_chunk list"
  pp_dual_2_comp :: "wrapped_chunk list"
  pp_comp_2_writer :: "wrapped_chunk list"
  pp_fp_2_addr :: "(bytes, key_for_chunk) umap"    \<comment> \<open>the database shared by two threads\<close>
  pp_dual :: dual_dedup
  pp_comp :: cache_comp
  pp_writer :: data_writer

definition dual_here :: "pipeline \<Rightarrow> dual_dedup" where
  "dual_here s = (pp_dual s) \<lparr> dd_fp_2_addr := pp_fp_2_addr s \<rparr>"

definition writer_here :: "pipeline \<Rightarrow> data_writer" where
  "writer_here s = (pp_writer s) \<lparr> dw_fp_2_addr := pp_fp_2_addr s \<rparr>"

inductive pipe_step ::
  "(bytes \<Rightarrow> u64 list) \<Rightarrow> (bytes \<Rightarrow> bytes \<Rightarrow> nat \<Rightarrow> bytes option) \<Rightarrow> ((bytes, nat) umap \<Rightarrow> (bytes, nat) umap) \<Rightarrow>
   pipeline \<Rightarrow> pipeline \<Rightarrow> bool"
  for feat denc iter where
  pipe_dual: "pp_recv_2_dual s = w # ws \<Longrightarrow> DualDedupThd_step feat (dual_here s) w = Inr (dd, os) \<Longrightarrow>
    pipe_step feat denc iter s (s \<lparr> pp_recv_2_dual := ws, pp_dual_2_comp := pp_dual_2_comp s @ os, pp_dual := dd,
                                    pp_fp_2_addr := dd_fp_2_addr dd \<rparr>)"
| pipe_comp: "pp_dual_2_comp s = w # ws \<Longrightarrow> CacheCompThd_step denc iter (pp_comp s) w = Inr (cc, os) \<Longrightarrow>
    pipe_step feat denc iter s (s \<lparr> pp_dual_2_comp := ws, pp_comp_2_writer := pp_comp_2_writer s @ os, pp_comp := cc \<rparr>)"
| pipe_write: "pp_comp_2_writer s = w # ws \<Longrightarrow> fresh_id (dw_store (pp_writer s)) (dw_client (pp_writer s)) (rand 1) \<Longrightarrow>
    DataWriterThd_step denc iter rand (writer_here s) w = Inr dw \<Longrightarrow>
    pipe_step feat denc iter s (s \<lparr> pp_comp_2_writer := ws, pp_writer := dw, pp_fp_2_addr := dw_fp_2_addr dw \<rparr>)"

inductive_cases pipe_stepE: "pipe_step feat denc iter s s'"

definition pipe_exits ::
  "(bytes \<Rightarrow> u64 list) \<Rightarrow> (bytes \<Rightarrow> bytes \<Rightarrow> nat \<Rightarrow> bytes option) \<Rightarrow> ((bytes, nat) umap \<Rightarrow> (bytes, nat) umap) \<Rightarrow>
   pipeline \<Rightarrow> bool" where
  \<comment> \<open>some thread would leave its next chunk by \<open>exit\<close>\<close>
  "pipe_exits feat denc iter s \<longleftrightarrow>
     (\<exists>w ws e. pp_recv_2_dual s = w # ws \<and> DualDedupThd_step feat (dual_here s) w = Inl e) \<or>
     (\<exists>w ws e. pp_dual_2_comp s = w # ws \<and> CacheCompThd_step denc iter (pp_comp s) w = Inl e) \<or>
     (\<exists>w ws e rand. pp_comp_2_writer s = w # ws \<and>
        fresh_id (dw_store (pp_writer s)) (dw_client (pp_writer s)) (rand 1) \<and>
        DataWriterThd_step denc iter rand (writer_here s) w = Inl e)"

definition pipe_start :: "wrapped_chunk list \<Rightarrow> dual_dedup \<Rightarrow> cache_comp \<Rightarrow> data_writer \<Rightarrow> pipeline" where
  "pipe_start ws dd cc dw =
     \<lparr> pp_recv_2_dual = ws, pp_dual_2_comp = [], pp_comp_2_writer = [], pp_fp_2_addr = dw_fp_2_addr dw,
       pp_dual = dd, pp_comp = cc, pp_writer = dw \<rparr>"

definition pipe_empty :: "pipeline \<Rightarrow> bool" where
  "pipe_empty s \<longleftrightarrow> pp_recv_2_dual s = [] \<and> pp_dual_2_comp s = [] \<and> pp_comp_2_writer s = []"

subsection \<open>Single steps\<close>

abbreviation w_fp :: "wrapped_chunk \<Rightarrow> bytes" where
  "w_fp w \<equiv> ci_fp (w_info w)"

lemma DualDedup_dom:
  assumes "DualDedupThd_step feat dd w = Inr (dd', os)"
  shows "dom (map_of (dd_fp_2_addr dd')) =
      (if ci_stat (w_info w) \<in> {CHUNK_PAIR, SINGLE_CHUNK} then insert (w_fp w) (dom (map_of (dd_fp_2_addr dd)))
       else dom (map_of (dd_fp_2_addr dd)))"
    and "map_of (dd_fp_2_addr dd) g = Some a \<Longrightarrow> map_of (dd_fp_2_addr dd') g = Some a"
    and "length os \<le> 1"
  using assms
  by (cases "map_of (dd_fp_2_addr dd) (w_fp w)"; cases "ci_stat (w_info w)";
      auto simp: DualDedupThd_step_def DetectDuplicate_def Let_def dom_def)+

lemma DualDedup_out:
  assumes "DualDedupThd_step feat dd w = Inr (dd', os)" "o1 \<in> set os" "\<not> is_cache_msg o1"
  shows "w_fp o1 \<in> dom (map_of (dd_fp_2_addr dd'))"
  using assms
  by (cases "map_of (dd_fp_2_addr dd) (w_fp w)"; cases "ci_stat (w_info w)")
    (auto simp: DualDedupThd_step_def DetectDuplicate_def Let_def is_cache_msg_def)

text \<open>Deduplication only looks at which fingerprints are in the index.\<close>

definition dual_like :: "dual_dedup \<Rightarrow> dual_dedup \<Rightarrow> bool" where
  "dual_like a b \<longleftrightarrow> dom (map_of (dd_fp_2_addr a)) = dom (map_of (dd_fp_2_addr b)) \<and>
     dd_unique_chunk_num a = dd_unique_chunk_num b \<and> dd_unique_data_size a = dd_unique_data_size b"

lemma DualDedup_like:
  assumes "dual_like a b" "DualDedupThd_step feat a w = Inr (a', os)"
  shows "\<exists>b'. DualDedupThd_step feat b w = Inr (b', os) \<and> dual_like a' b'"
proof -
  have d: "map_of (dd_fp_2_addr a) (w_fp w) = None \<longleftrightarrow> map_of (dd_fp_2_addr b) (w_fp w) = None"
  proof -
    have "w_fp w \<in> dom (map_of (dd_fp_2_addr a)) \<longleftrightarrow> w_fp w \<in> dom (map_of (dd_fp_2_addr b))"
      using assms(1) by (simp add: dual_like_def)
    then show ?thesis by (cases "map_of (dd_fp_2_addr a) (w_fp w)"; cases "map_of (dd_fp_2_addr b) (w_fp w)") auto
  qed
  show ?thesis
    using assms d
    by (cases "map_of (dd_fp_2_addr a) (w_fp w)"; cases "map_of (dd_fp_2_addr b) (w_fp w)"; cases "ci_stat (w_info w)";
        clarsimp simp: DualDedupThd_step_def DetectDuplicate_def Let_def dual_like_def)
qed

lemma DualDedup_run_like:
  assumes "dual_like a b" "run_thd (DualDedupThd_step feat) a ws = Inr (a', os)"
  shows "\<exists>b'. run_thd (DualDedupThd_step feat) b ws = Inr (b', os) \<and> dual_like a' b'"
  using assms
proof (induction ws arbitrary: a b os)
  case Nil
  then show ?case by simp
next
  case (Cons w ws)
  obtain a1 o1 o2 where 1: "DualDedupThd_step feat a w = Inr (a1, o1)" "run_thd (DualDedupThd_step feat) a1 ws = Inr (a', o2)"
      "os = o1 @ o2"
    using Cons.prems(2) by (auto simp: bindR_eq_Inr split: prod.splits)
  from DualDedup_like [OF Cons.prems(1) 1(1)] obtain b1 where b1: "DualDedupThd_step feat b w = Inr (b1, o1)" "dual_like a1 b1"
    by blast
  from Cons.IH [OF b1(2) 1(2)] b1(1) 1(3) show ?case by auto
qed

text \<open>What compression makes of a chunk.\<close>

definition comp_of :: "(bytes \<Rightarrow> bytes \<Rightarrow> nat \<Rightarrow> bytes option) \<Rightarrow> wrapped_chunk \<Rightarrow> wrapped_chunk \<Rightarrow> bool" where
  "comp_of denc w o1 \<longleftrightarrow> w_fp o1 = w_fp w \<and>
     (ci_stat (w_info o1) = UNIQUE_CHUNK \<and> w_data o1 = w_data w \<or>
      ci_stat (w_info o1) = CACHE_DELTA_CHUNK \<and> (\<exists>b. denc b (w_data w) ENC_MAX_CHUNK_SIZE = Some (w_data o1)))"

lemma FindBaseChunk_fp: "ci_fp (FindBaseChunk iter q ci) = ci_fp ci"
  by (simp add: FindBaseChunk_def Let_def split: prod.splits option.splits)

lemma CacheComp_shape:
  assumes "CacheCompThd_step denc iter cc w = Inr (cc', os)"
  shows "if is_cache_msg w then os = [] else \<exists>o1. os = [o1] \<and> comp_of denc w o1"
proof (cases "ci_stat (w_info w) = UNIQUE_CHUNK")
  case True
  with assms show ?thesis
    by (auto simp: CacheCompThd_step_def is_cache_msg_def ProcessNormalChunk_def comp_of_def Let_def bindR_eq_Inr FindBaseChunk_fp
        split: chunk_status.splits option.splits if_splits)
next
  case False
  with assms show ?thesis
    by (cases "ci_stat (w_info w)") (auto simp: CacheCompThd_step_def is_cache_msg_def comp_of_def bindR_eq_Inr)
qed

lemma CacheComp_run_shape:
  assumes "run_thd (CacheCompThd_step denc iter) cc ws = Inr (cc', os)"
  shows "list_all2 (comp_of denc) (filter (\<lambda>w. \<not> is_cache_msg w) ws) os"
  using assms
proof (induction ws arbitrary: cc os)
  case Nil
  then show ?case by simp
next
  case (Cons w ws)
  obtain c1 o1 o2 where 1: "CacheCompThd_step denc iter cc w = Inr (c1, o1)" "run_thd (CacheCompThd_step denc iter) c1 ws = Inr (cc', o2)"
      "os = o1 @ o2"
    using Cons.prems by (auto simp: bindR_eq_Inr split: prod.splits)
  from CacheComp_shape [OF 1(1)] Cons.IH [OF 1(2)] 1(3) show ?case by (auto split: if_splits)
qed

text \<open>The writer replaces the address of its chunk and no other entry.\<close>

lemma WriteChunk_base: "WriteChunk r sc cl a d = Inr (sc', cl', a') \<Longrightarrow> a_base_fp a' = a_base_fp a"
  by (auto simp: WriteChunk_def bindR_eq_Inr Let_def split: if_splits)

lemma dw_write_idx:
  "dw_write r dw w d = Inr (dw', w') \<Longrightarrow> dw_fp_2_addr dw' = dw_fp_2_addr dw \<and> w_fp w' = w_fp w \<and>
     a_base_fp (ci_addr (w_info w')) = a_base_fp (ci_addr (w_info w))"
  by (auto simp: dw_write_def bindR_eq_Inr dest: WriteChunk_base)

lemma dw_fetch_idx:
  "DataWriter_FetchBaseChunk dw b = Inr (dw', d) \<Longrightarrow> dw_fp_2_addr dw' = dw_fp_2_addr dw"
  by (cases "map_of (dw_fp_2_addr dw) b"; cases "ENC_MAX_CHUNK_SIZE < a_len (the (map_of (dw_fp_2_addr dw) b))";
      cases "ReadChunk (dw_store dw) (dw_client dw) (the (map_of (dw_fp_2_addr dw) b))")
    (auto simp: DataWriter_FetchBaseChunk_def Let_def split: prod.splits option.splits)

lemma set_addr_stat_fp [simp]:
  "w_fp (set_addr_stat w s) = w_fp w" "a_stat (ci_addr (w_info (set_addr_stat w s))) = s"
  "a_base_fp (ci_addr (w_info (set_addr_stat w s))) = a_base_fp (ci_addr (w_info w))"
  by (simp_all add: set_addr_stat_def)

lemma ProcSimilar_idx:
  "ProcSimilarChunk denc rand dw w = Inr (dw', w') \<Longrightarrow> dw_fp_2_addr dw' = dw_fp_2_addr dw \<and> w_fp w' = w_fp w \<and>
     a_stat (ci_addr (w_info w')) = COMP_DELTA_CHUNK"
  by (auto simp: ProcSimilarChunk_def bindR_eq_Inr dest!: dw_write_idx dw_fetch_idx split: if_splits)

lemma ProcNonSimilar_idx:
  "ProcNonSimilarChunk rand dw w = Inr (dw', w') \<Longrightarrow> dw_fp_2_addr dw' = dw_fp_2_addr dw \<and> w_fp w' = w_fp w \<and>
     a_stat (ci_addr (w_info w')) = COMP_BASE_CHUNK"
  by (auto simp: ProcNonSimilarChunk_def bindR_eq_Inr dest!: dw_write_idx)

lemma ProcCacheDelta_idx:
  "ProcCacheDeltaChunk rand dw w = Inr (dw', w') \<Longrightarrow> dw_fp_2_addr dw' = dw_fp_2_addr dw \<and> w_fp w' = w_fp w \<and>
     a_stat (ci_addr (w_info w')) = CACHE_DELTA_CHUNK \<and> a_base_fp (ci_addr (w_info w')) = a_base_fp (ci_addr (w_info w))"
  by (auto simp: ProcCacheDeltaChunk_def bindR_eq_Inr dest!: dw_write_idx)

text \<open>What the index says about a written chunk.\<close>

definition entry_of :: "wrapped_chunk \<Rightarrow> key_for_chunk \<Rightarrow> bool" where
  "entry_of w a \<longleftrightarrow>
     (if ci_stat (w_info w) = CACHE_DELTA_CHUNK
      then a_stat a = CACHE_DELTA_CHUNK \<and> a_base_fp a = a_base_fp (ci_addr (w_info w))
      else a_stat a \<noteq> CACHE_DELTA_CHUNK)"

lemma DataWriter_entry:
  assumes "DataWriterThd_step denc iter rand dw w = Inr dw'"
  shows "\<exists>a. map_of (dw_fp_2_addr dw') = (map_of (dw_fp_2_addr dw))(w_fp w \<mapsto> a) \<and> entry_of w a"
proof -
  let ?w = "w \<lparr> w_info := FindBaseChunk_db iter (dw_feature_2_fp dw) (w_info w) \<rparr>"
  have fp: "w_fp ?w = w_fp w" by (simp add: FindBaseChunk_db_def FindBaseChunk_fp)
  have "\<exists>dw1 w1. w_fp w1 = w_fp w \<and> dw_fp_2_addr dw1 = dw_fp_2_addr dw \<and> entry_of w (ci_addr (w_info w1)) \<and>
      dw' = dw1 \<lparr> dw_fp_2_addr := AList.update (w_fp w1) (ci_addr (w_info w1)) (dw_fp_2_addr dw1) \<rparr>"
  proof (cases "ci_stat (w_info w) = CACHE_DELTA_CHUNK")
    case True
    with assms obtain dw1 w1 where "ProcCacheDeltaChunk rand dw w = Inr (dw1, w1)"
        "dw' = dw1 \<lparr> dw_fp_2_addr := AList.update (w_fp w1) (ci_addr (w_info w1)) (dw_fp_2_addr dw1) \<rparr>"
      by (auto simp: DataWriterThd_step_def bindR_eq_Inr)
    with ProcCacheDelta_idx [of rand dw w dw1 w1] True show ?thesis by (intro exI [of _ dw1] exI [of _ w1]) (simp add: entry_of_def)
  next
    case False
    with assms have un: "ci_stat (w_info w) = UNIQUE_CHUNK"
      by (cases "ci_stat (w_info w)") (simp_all add: DataWriterThd_step_def)
    show ?thesis
    proof (cases "ci_stat (w_info ?w) = SIMILAR_CHUNK")
      case True
      let ?dw = "dw \<lparr> dw_similar_chunk_num := dw_similar_chunk_num dw + 1,
                   dw_similar_data_size := dw_similar_data_size dw + length (w_data w) \<rparr>"
      obtain dw1 w1 where "ProcSimilarChunk denc rand ?dw ?w = Inr (dw1, w1)"
          "dw' = dw1 \<lparr> dw_fp_2_addr := AList.update (w_fp w1) (ci_addr (w_info w1)) (dw_fp_2_addr dw1) \<rparr>"
        using assms un True by (auto simp: DataWriterThd_step_def bindR_eq_Inr Let_def)
      with ProcSimilar_idx [of denc rand ?dw ?w dw1 w1] fp un show ?thesis by (intro exI [of _ dw1] exI [of _ w1]) (simp add: entry_of_def)
    next
      case False
      with assms un have "ci_stat (w_info ?w) = NON_SIMILAR_CHUNK"
        by (cases "ci_stat (w_info ?w)") (simp_all add: DataWriterThd_step_def Let_def)
      then obtain dw1 w1 m where "ProcNonSimilarChunk rand dw ?w = Inr (dw1, w1)"
          "dw' = (dw1 \<lparr> dw_feature_2_fp := m \<rparr>) \<lparr> dw_fp_2_addr :=
             AList.update (w_fp w1) (ci_addr (w_info w1)) (dw_fp_2_addr (dw1 \<lparr> dw_feature_2_fp := m \<rparr>)) \<rparr>"
        using assms un by (auto simp: DataWriterThd_step_def bindR_eq_Inr Let_def)
      with ProcNonSimilar_idx [of rand dw ?w dw1 w1] fp un show ?thesis
        by (intro exI [of _ "dw1 \<lparr> dw_feature_2_fp := m \<rparr>"] exI [of _ w1]) (simp add: entry_of_def)
    qed
  qed
  then show ?thesis by auto
qed

lemma DataWriter_dom:
  "DataWriterThd_step denc iter rand dw w = Inr dw' \<Longrightarrow>
   dom (map_of (dw_fp_2_addr dw')) = insert (w_fp w) (dom (map_of (dw_fp_2_addr dw)))"
  by (drule DataWriter_entry) auto

text \<open>Entries for chunks that are not written yet do not disturb what is stored.\<close>

definition idx_extends :: "bytes set \<Rightarrow> (bytes, key_for_chunk) umap \<Rightarrow> (bytes, key_for_chunk) umap \<Rightarrow> bool" where
  "idx_extends S m m' \<longleftrightarrow> (\<forall>fp \<in> S. map_of m' fp = map_of m fp)"

lemma dw_inv_idx:
  assumes inv: "dw_inv S dw" and ext: "idx_extends S (dw_fp_2_addr dw) m"
  shows "dw_inv S (dw \<lparr> dw_fp_2_addr := m \<rparr>)" and "fp \<in> S \<Longrightarrow> stored ddec (dw \<lparr> dw_fp_2_addr := m \<rparr>) fp = stored ddec dw fp"
proof -
  let ?dw = "dw \<lparr> dw_fp_2_addr := m \<rparr>"
  have idx: "map_of m g = map_of (dw_fp_2_addr dw) g" if "g \<in> S" for g using ext that by (simp add: idx_extends_def)
  have base: "base_fp ?dw b = base_fp dw b" if "b \<in> S" for b using idx [OF that] by (simp add: base_fp_def)
  have chunk: "dw_chunk ?dw = dw_chunk dw" by (simp add: dw_chunk_def)
  have entry: "dw_entry_ok S ?dw a = dw_entry_ok S dw a" for a
    using base unfolding dw_entry_ok_def chunk by blast
  show "dw_inv S ?dw"
    using inv idx entry base unfolding dw_inv_def by simp
  show "stored ddec ?dw fp = stored ddec dw fp" if fp: "fp \<in> S"
  proof -
    obtain a where a: "map_of (dw_fp_2_addr dw) fp = Some a" "dw_entry_ok S dw a" using inv fp by (auto simp: dw_inv_def)
    have "map_of m (a_base_fp a) = map_of (dw_fp_2_addr dw) (a_base_fp a)" if "a_stat a = COMP_DELTA_CHUNK"
      using a(2) that by (intro idx) (auto simp: dw_entry_ok_def)
    with a(1) idx [OF fp] show ?thesis unfolding stored_def chunk by (auto split: option.splits)
  qed
qed

subsection \<open>All interleavings\<close>

text \<open>The chunks that pass through the pipeline when each thread runs alone after the other.\<close>

definition seq_run ::
  "(bytes \<Rightarrow> u64 list) \<Rightarrow> (bytes \<Rightarrow> bytes \<Rightarrow> nat \<Rightarrow> bytes option) \<Rightarrow> ((bytes, nat) umap \<Rightarrow> (bytes, nat) umap) \<Rightarrow>
   pipeline \<Rightarrow> (cache_comp \<times> wrapped_chunk list) result" where
  "seq_run feat denc iter s =
    bindR (run_thd (DualDedupThd_step feat) (dual_here s) (pp_recv_2_dual s)) (\<lambda>(dd, ds).
    bindR (run_thd (CacheCompThd_step denc iter) (pp_comp s) (pp_dual_2_comp s @ ds)) (\<lambda>(cc, cs).
      Inr (cc, pp_comp_2_writer s @ cs)))"

definition pipe_indexed :: "pipeline \<Rightarrow> bool" where
  "pipe_indexed s \<longleftrightarrow>
     (\<forall>w \<in> set (pp_dual_2_comp s). \<not> is_cache_msg w \<longrightarrow> w_fp w \<in> dom (map_of (pp_fp_2_addr s))) \<and>
     (\<forall>w \<in> set (pp_comp_2_writer s). w_fp w \<in> dom (map_of (pp_fp_2_addr s)))"

definition pipe_inv ::
  "(bytes \<Rightarrow> u64 list) \<Rightarrow> (bytes \<Rightarrow> bytes \<Rightarrow> nat \<Rightarrow> bytes option) \<Rightarrow> (bytes \<Rightarrow> bytes \<Rightarrow> nat \<Rightarrow> bytes option) \<Rightarrow>
   ((bytes, nat) umap \<Rightarrow> (bytes, nat) umap) \<Rightarrow> bytes set \<Rightarrow> (bytes \<Rightarrow> bytes option) \<Rightarrow> cache_comp \<Rightarrow>
   wrapped_chunk list \<Rightarrow> wrapped_chunk list \<Rightarrow> pipeline \<Rightarrow> bool" where
  \<comment> \<open>what is written and what is still to come make up the sequential run\<close>
  "pipe_inv feat denc ddec iter S old cc cs done s \<longleftrightarrow>
     (\<exists>todo. seq_run feat denc iter s = Inr (cc, todo) \<and> cs = done @ todo) \<and> pipe_indexed s \<and>
     dw_inv (S \<union> set (map w_fp done)) (writer_here s) \<and>
     (\<forall>g \<in> S. stored ddec (writer_here s) g = old g) \<and>
     (\<forall>w \<in> set done. stored ddec (writer_here s) (w_fp w) = Some (w_data w))"

definition writer_inputs :: "bytes set \<Rightarrow> wrapped_chunk list \<Rightarrow> bool" where
  "writer_inputs S cs \<longleftrightarrow> (\<forall>w \<in> set cs. dw_input S w) \<and> distinct (map w_fp cs)"

lemma writer_next:
  assumes "writer_inputs S cs" "cs = done @ w # rest"
  shows "dw_input (S \<union> set (map w_fp done)) w"
  using assms by (auto simp: writer_inputs_def dw_input_def)

lemma pipe_inv_dual:
  assumes I: "pipe_inv feat denc ddec iter S old cc cs done s"
    and q: "pp_recv_2_dual s = w # ws" and st: "DualDedupThd_step feat (dual_here s) w = Inr (dd, os)"
  shows "pipe_inv feat denc ddec iter S old cc cs done
    (s \<lparr> pp_recv_2_dual := ws, pp_dual_2_comp := pp_dual_2_comp s @ os, pp_dual := dd, pp_fp_2_addr := dd_fp_2_addr dd \<rparr>)"
    (is "pipe_inv _ _ _ _ _ _ _ _ _ ?s")
proof -
  let ?S = "S \<union> set (map w_fp done)"
  have inv: "dw_inv ?S (writer_here s)" using I by (simp add: pipe_inv_def)
  have here: "dual_here ?s = dd" by (simp add: dual_here_def)
  have seq: "seq_run feat denc iter ?s = seq_run feat denc iter s"
    using q st here by (simp add: seq_run_def bindR_assoc split_def)
  have mono: "map_of (dd_fp_2_addr dd) g = Some a" if "map_of (pp_fp_2_addr s) g = Some a" for g a
    using DualDedup_dom(2) [OF st] that by (simp add: dual_here_def)
  have ext: "idx_extends ?S (dw_fp_2_addr (writer_here s)) (dd_fp_2_addr dd)"
    unfolding idx_extends_def
  proof
    fix fp assume "fp \<in> ?S"
    then obtain a where "map_of (dw_fp_2_addr (writer_here s)) fp = Some a" using inv unfolding dw_inv_def by blast
    then have "map_of (pp_fp_2_addr s) fp = Some a" by (simp add: writer_here_def)
    with mono [OF this] show "map_of (dd_fp_2_addr dd) fp = map_of (dw_fp_2_addr (writer_here s)) fp"
      by (simp add: writer_here_def)
  qed
  have writer: "writer_here ?s = (writer_here s) \<lparr> dw_fp_2_addr := dd_fp_2_addr dd \<rparr>" by (simp add: writer_here_def)
  have idx: "pipe_indexed ?s"
    using I mono DualDedup_out [OF st] by (auto simp: pipe_inv_def pipe_indexed_def dom_def)
  show ?thesis
    using I seq idx dw_inv_idx [OF inv ext] writer by (simp add: pipe_inv_def)
qed

lemma pipe_inv_comp:
  assumes I: "pipe_inv feat denc ddec iter S old cc cs done s"
    and q: "pp_dual_2_comp s = w # ws" and st: "CacheCompThd_step denc iter (pp_comp s) w = Inr (c1, os)"
  shows "pipe_inv feat denc ddec iter S old cc cs done
    (s \<lparr> pp_dual_2_comp := ws, pp_comp_2_writer := pp_comp_2_writer s @ os, pp_comp := c1 \<rparr>)"
    (is "pipe_inv _ _ _ _ _ _ _ _ _ ?s")
proof -
  have "dual_here ?s = dual_here s" "writer_here ?s = writer_here s" by (simp_all add: dual_here_def writer_here_def)
  moreover from this have "seq_run feat denc iter ?s = seq_run feat denc iter s"
    using q st by (simp add: seq_run_def bindR_assoc split_def)
  moreover have "pipe_indexed ?s"
    using I q CacheComp_shape [OF st] by (auto simp: pipe_inv_def pipe_indexed_def comp_of_def split: if_splits)
  ultimately show ?thesis using I by (simp add: pipe_inv_def)
qed

lemma pipe_inv_write:
  assumes I: "pipe_inv feat denc ddec iter S old cc cs done s" and ins: "writer_inputs S cs"
    and env: "\<And>m. mset (iter m) = mset m" "delta_ok denc ddec" "delta_total denc"
    and q: "pp_comp_2_writer s = w # ws" and fresh: "fresh_id (dw_store (pp_writer s)) (dw_client (pp_writer s)) (rand 1)"
  obtains dw' where "DataWriterThd_step denc iter rand (writer_here s) w = Inr dw'"
    "pipe_inv feat denc ddec iter S old cc cs (done @ [w])
       (s \<lparr> pp_comp_2_writer := ws, pp_writer := dw', pp_fp_2_addr := dw_fp_2_addr dw' \<rparr>)"
proof -
  let ?S = "S \<union> set (map w_fp done)"
  have inv: "dw_inv ?S (writer_here s)" using I by (simp add: pipe_inv_def)
  obtain todo where todo: "seq_run feat denc iter s = Inr (cc, w # todo)" "cs = done @ w # todo"
    using I q by (auto simp: pipe_inv_def seq_run_def bindR_eq_Inr)
  have fresh': "fresh_id (dw_store (writer_here s)) (dw_client (writer_here s)) (rand 1)"
    using fresh by (simp add: writer_here_def)
  from dw_step_ok [where rand = rand, OF inv writer_next [OF ins todo(2)] env fresh'] obtain dw'
    where dw': "DataWriterThd_step denc iter rand (writer_here s) w = Inr dw'" "dw_inv (insert (w_fp w) ?S) dw'"
      "\<And>g. g \<in> ?S \<Longrightarrow> stored ddec dw' g = stored ddec (writer_here s) g" "stored ddec dw' (w_fp w) = Some (w_data w)"
    by blast
  let ?s = "s \<lparr> pp_comp_2_writer := ws, pp_writer := dw', pp_fp_2_addr := dw_fp_2_addr dw' \<rparr>"
  have writer: "writer_here ?s = dw'" by (simp add: writer_here_def)
  have dom: "dom (map_of (dw_fp_2_addr dw')) = dom (map_of (pp_fp_2_addr s))"
    using DataWriter_dom [OF dw'(1)] I q by (auto simp: writer_here_def pipe_inv_def pipe_indexed_def)
  have like: "dual_like (dual_here s) (dual_here ?s)" using dom by (simp add: dual_like_def dual_here_def)
  obtain d0 c0 ds c1 where run: "run_thd (DualDedupThd_step feat) (dual_here s) (pp_recv_2_dual s) = Inr (d0, ds)"
      "run_thd (CacheCompThd_step denc iter) (pp_comp s) (pp_dual_2_comp s @ ds) = Inr (cc, c1)" "ws @ c1 = todo"
    using todo(1) q by (auto simp: seq_run_def bindR_eq_Inr)
  from DualDedup_run_like [OF like run(1)] run(2,3) have seq: "seq_run feat denc iter ?s = Inr (cc, todo)"
    by (auto simp: seq_run_def)
  have idx: "pipe_indexed ?s" using I q dom by (simp add: pipe_inv_def pipe_indexed_def)
  have "pipe_inv feat denc ddec iter S old cc cs (done @ [w]) ?s"
    unfolding pipe_inv_def writer
  proof (intro conjI ballI)
    show "\<exists>t. seq_run feat denc iter ?s = Inr (cc, t) \<and> cs = (done @ [w]) @ t" using seq todo(2) by simp
    show "pipe_indexed ?s" by (rule idx)
    show "dw_inv (S \<union> set (map w_fp (done @ [w]))) dw'" using dw'(2) by simp
    show "stored ddec dw' g = old g" if "g \<in> S" for g using that I dw'(3) by (simp add: pipe_inv_def)
    show "stored ddec dw' (w_fp v) = Some (w_data v)" if "v \<in> set (done @ [w])" for v
      using that I dw'(3) [of "w_fp v"] dw'(4) by (auto simp: pipe_inv_def)
  qed
  with dw'(1) show thesis by (rule that)
qed

text \<open>The entries of the written chunks and of those that were stored before.\<close>

definition pipe_kinds :: "bytes set \<Rightarrow> (bytes, key_for_chunk) umap \<Rightarrow> wrapped_chunk list \<Rightarrow> pipeline \<Rightarrow> bool" where
  "pipe_kinds S idx done s \<longleftrightarrow>
     (\<forall>w \<in> set done. \<exists>a. map_of (pp_fp_2_addr s) (w_fp w) = Some a \<and> entry_of w a) \<and>
     (\<forall>g \<in> S. \<forall>a. map_of idx g = Some a \<longrightarrow> map_of (pp_fp_2_addr s) g = Some a)"

lemma pipe_inv_step:
  assumes "pipe_inv feat denc ddec iter S old cc cs done s" "writer_inputs S cs"
    and "\<And>m. mset (iter m) = mset m" "delta_ok denc ddec" "delta_total denc" "pipe_step feat denc iter s s'"
    and kinds: "pipe_kinds S idx done s"
  shows "\<exists>done. pipe_inv feat denc ddec iter S old cc cs done s' \<and> pipe_kinds S idx done s'"
  using assms(6)
proof (cases rule: pipe_step.cases)
  case (pipe_dual w ws dd os)
  have "map_of (dd_fp_2_addr dd) g = Some a" if "map_of (pp_fp_2_addr s) g = Some a" for g a
    using DualDedup_dom(2) [OF pipe_dual(3)] that by (simp add: dual_here_def)
  then have "pipe_kinds S idx done s'" using kinds unfolding pipe_dual(1) pipe_kinds_def by simp blast
  then show ?thesis using pipe_inv_dual [OF assms(1) pipe_dual(2,3)] pipe_dual(1) by blast
next
  case (pipe_comp w ws cc os)
  then show ?thesis using pipe_inv_comp [OF assms(1)] kinds by (auto simp: pipe_kinds_def)
next
  case (pipe_write w ws rand dw)
  then have I: "pipe_inv feat denc ddec iter S old cc cs (done @ [w]) s'"
    by (elim pipe_inv_write [where rand = rand, OF assms(1-5)]) auto
  obtain todo where "cs = done @ w # todo"
    using assms(1) pipe_write(2) by (auto simp: pipe_inv_def seq_run_def bindR_eq_Inr)
  from writer_next [OF assms(2) this] have new: "w_fp w \<notin> S \<union> set (map w_fp done)" by (simp add: dw_input_def)
  obtain a where a: "map_of (dw_fp_2_addr dw) = (map_of (pp_fp_2_addr s))(w_fp w \<mapsto> a)" "entry_of w a"
    using DataWriter_entry [OF pipe_write(4)] by (auto simp: writer_here_def)
  have "pipe_kinds S idx (done @ [w]) s'"
    using kinds a new by (simp add: pipe_write(1) pipe_kinds_def) (metis image_eqI)
  with I show ?thesis by blast
qed

lemma pipe_inv_no_exit:
  assumes "pipe_inv feat denc ddec iter S old cc cs done s" "writer_inputs S cs"
    and "\<And>m. mset (iter m) = mset m" "delta_ok denc ddec" "delta_total denc"
  shows "\<not> pipe_exits feat denc iter s"
proof -
  have "DataWriterThd_step denc iter rand (writer_here s) w \<noteq> Inl e"
    if "pp_comp_2_writer s = w # ws" "fresh_id (dw_store (pp_writer s)) (dw_client (pp_writer s)) (rand 1)" for w ws e rand
    by (rule pipe_inv_write [where rand = rand, OF assms that]) simp
  moreover obtain todo where "seq_run feat denc iter s = Inr (cc, todo)" using assms(1) by (auto simp: pipe_inv_def)
  ultimately show ?thesis by (auto simp: pipe_exits_def seq_run_def bindR_eq_Inr)
qed

definition upload_input :: "wrapped_chunk \<Rightarrow> bool" where
  "upload_input w \<longleftrightarrow> dual_input w \<and>
     (is_cache_msg w \<or> length (w_fp w) = CHUNK_HASH_SIZE \<and> w_data w \<noteq> [] \<and> length (w_data w) \<le> ENC_MAX_CHUNK_SIZE)"

lemma first_of_subset: "set (first_of seen ps) \<subseteq> set ps"
  by (induction ps arbitrary: seen) (auto split: if_splits)

lemma list_all2_source: "list_all2 P xs ys \<Longrightarrow> y \<in> set ys \<Longrightarrow> \<exists>x \<in> set xs. P x y"
  by (induction rule: list_all2_induct) auto

lemma seq_run_inputs:
  assumes inv: "dw_inv S dw" and up: "\<forall>w \<in> set ws. upload_input w"
    and run: "seq_run feat denc iter (pipe_start ws dd cc dw) = Inr (cc', cs)" and delta: "delta_ok denc ddec"
  shows "writer_inputs S cs"
proof -
  let ?dd = "dd \<lparr> dd_fp_2_addr := dw_fp_2_addr dw \<rparr>"
  have start: "dual_here (pipe_start ws dd cc dw) = ?dd" by (simp add: dual_here_def pipe_start_def)
  obtain d1 ds where 1: "run_thd (DualDedupThd_step feat) ?dd ws = Inr (d1, ds)"
      "run_thd (CacheCompThd_step denc iter) cc ds = Inr (cc', cs)"
    using run start by (auto simp: seq_run_def bindR_eq_Inr pipe_start_def)
  let ?ds = "filter (\<lambda>w. \<not> is_cache_msg w) ds"
  have "\<forall>w \<in> set ws. dual_input w" using up by (simp add: upload_input_def)
  from DualDedup_run [OF this, of feat ?dd] 1(1) have ch: "chunks_in ds = first_of (dual_dom ?dd) (chunks_in ws)" by auto
  have like: "list_all2 (comp_of denc) ?ds cs" by (rule CacheComp_run_shape [OF 1(2)])
  have fps: "map w_fp cs = map fst (chunks_in ds)"
    using like by (auto simp: list_all2_conv_all_nth comp_of_def intro!: nth_equalityI)
  have dist: "distinct (map w_fp cs)" unfolding fps ch by (rule first_of_distinct)
  have new: "set (map w_fp cs) \<inter> dual_dom ?dd = {}"
    unfolding fps ch first_of_fst by blast
  have "dw_input S c" if c: "c \<in> set cs" for c
  proof -
    obtain o1 where o1: "o1 \<in> set ?ds" "comp_of denc o1 c"
      using list_all2_source [OF like c] by blast
    then have "fp_data o1 \<in> set (chunks_in ds)" by simp
    then have "fp_data o1 \<in> set (chunks_in ws)" unfolding ch using first_of_subset by blast
    then obtain w where w: "w \<in> set ws" "\<not> is_cache_msg w" "fp_data w = fp_data o1" by auto
    then have "w_fp w = w_fp o1" "w_data w = w_data o1" by (simp_all add: fp_data_def)
    with w up have o1': "length (w_fp o1) = CHUNK_HASH_SIZE" "w_data o1 \<noteq> []" "length (w_data o1) \<le> ENC_MAX_CHUNK_SIZE"
      by (auto simp: upload_input_def)
    have "w_fp c \<notin> dom (map_of (dw_fp_2_addr dw))" using new c by auto
    then have "w_fp c \<notin> S" using inv unfolding dw_inv_def by blast
    with o1(2) o1' delta show ?thesis by (auto simp: dw_input_def comp_of_def delta_ok_def)
  qed
  with dist show ?thesis by (simp add: writer_inputs_def)
qed

lemma pipe_inv_run:
  assumes "dw_inv S dw" "seq_run feat denc iter (pipe_start ws dd cc dw) = Inr (cc', cs)" "writer_inputs S cs"
    and "\<And>m. mset (iter m) = mset m" "delta_ok denc ddec" "delta_total denc"
    and "(pipe_step feat denc iter)\<^sup>*\<^sup>* (pipe_start ws dd cc dw) s"
  shows "\<exists>done. pipe_inv feat denc ddec iter S (stored ddec dw) cc' cs done s \<and>
    pipe_kinds S (dw_fp_2_addr dw) done s"
  using assms(7)
proof (induction rule: rtranclp_induct)
  case base
  have "writer_here (pipe_start ws dd cc dw) = dw" by (simp add: writer_here_def pipe_start_def)
  then have "pipe_inv feat denc ddec iter S (stored ddec dw) cc' cs [] (pipe_start ws dd cc dw)"
    using assms(1,2) by (simp add: pipe_inv_def pipe_indexed_def) (simp add: pipe_start_def)
  then show ?case by (intro exI [of _ "[]"]) (simp add: pipe_kinds_def pipe_start_def)
next
  case (step s1 s2)
  then show ?case using pipe_inv_step [OF _ assms(3-6)] by blast
qed


subsection \<open>Termination\<close>

definition pipe_work :: "pipeline \<Rightarrow> nat" where
  "pipe_work s = 3 * length (pp_recv_2_dual s) + 2 * length (pp_dual_2_comp s) + length (pp_comp_2_writer s)"

lemma pipe_step_work:
  assumes "pipe_step feat denc iter s s'"
  shows "pipe_work s' < pipe_work s"
  using assms
proof (cases rule: pipe_step.cases)
  case (pipe_dual w ws dd os)
  then show ?thesis using DualDedup_dom(3) [of feat "dual_here s" w dd os] by (simp add: pipe_work_def)
next
  case (pipe_comp w ws cc os)
  then have "length os \<le> 1" using CacheComp_shape [of denc iter "pp_comp s" w cc os] by (auto split: if_splits)
  with pipe_comp show ?thesis by (simp add: pipe_work_def)
next
  case (pipe_write w ws rand dw)
  then show ?thesis by (simp add: pipe_work_def)
qed

lemma pipe_steps_work: "(pipe_step feat denc iter ^^ n) s s' \<Longrightarrow> n + pipe_work s' \<le> pipe_work s"
proof (induction n arbitrary: s')
  case 0
  then show ?case by simp
next
  case (Suc n)
  then obtain s1 where "(pipe_step feat denc iter ^^ n) s s1" "pipe_step feat denc iter s1 s'" by auto
  with Suc.IH [of s1] pipe_step_work [of feat denc iter s1 s'] show ?case by simp
qed

lemma pipe_progress:
  fixes rand :: "nat \<Rightarrow> nat \<Rightarrow> nat"
  assumes "\<not> pipe_exits feat denc iter s" "\<not> pipe_empty s"
    and "fresh_id (dw_store (pp_writer s)) (dw_client (pp_writer s)) (rand 1)"
  shows "\<exists>s'. pipe_step feat denc iter s s'"
proof -
  consider w ws where "pp_recv_2_dual s = w # ws" | w ws where "pp_dual_2_comp s = w # ws"
    | w ws where "pp_comp_2_writer s = w # ws"
    using assms(2) by (auto simp: pipe_empty_def neq_Nil_conv)
  then show ?thesis
  proof cases
    case 1
    with assms(1) obtain r where "DualDedupThd_step feat (dual_here s) w = Inr r"
      by (cases "DualDedupThd_step feat (dual_here s) w") (auto simp: pipe_exits_def)
    with 1 show ?thesis by (cases r) (blast intro: pipe_step.pipe_dual)
  next
    case 2
    with assms(1) obtain r where "CacheCompThd_step denc iter (pp_comp s) w = Inr r"
      by (cases "CacheCompThd_step denc iter (pp_comp s) w") (auto simp: pipe_exits_def)
    with 2 show ?thesis by (cases r) (blast intro: pipe_step.pipe_comp)
  next
    case 3
    with assms(1,3) obtain r where "DataWriterThd_step denc iter rand (writer_here s) w = Inr r"
      by (cases "DataWriterThd_step denc iter rand (writer_here s) w") (auto simp: pipe_exits_def)
    with 3 assms(3) show ?thesis by (blast intro: pipe_step.pipe_write)
  qed
qed


subsection \<open>One chunk in the pipeline\<close>

definition pair_demo :: wrapped_chunk where
  "pair_demo = \<lparr> w_info = chunk_info_init \<lparr> ci_fp := replicate 32 4, ci_stat := CHUNK_PAIR \<rparr>, w_data = [4, 7] \<rparr>"

definition cc_new :: cache_comp where
  "cc_new = \<lparr> cc_inform_cache = ic_new, cc_output = pair_demo, cc_similar_chunk_num = 0, cc_similar_data_size = 0,
              cc_delta_size = 0 \<rparr>"

lemma pair_demo_input: "\<forall>w \<in> set [pair_demo]. upload_input w"
  by (simp add: upload_input_def dual_input_def pair_demo_def size_consts)

abbreviation pair_start :: pipeline where
  "pair_start \<equiv> pipe_start [pair_demo] dd_new cc_new dw_new"

definition pair_out :: "chunk_status \<Rightarrow> wrapped_chunk" where
  "pair_out st = \<lparr> w_info = (w_info pair_demo) \<lparr> ci_stat := st, ci_features := [1, 2, 3] \<rparr>, w_data = [4, 7] \<rparr>"

lemma pair_dual:
  "\<exists>dd. DualDedupThd_step (\<lambda>_. [1, 2, 3]) (dual_here pair_start) pair_demo = Inr (dd, [pair_out UNIQUE_CHUNK_AFTER_CACHE])"
  by (simp add: dual_here_def pipe_start_def dw_new_def dd_new_def pair_demo_def pair_out_def DualDedupThd_step_def
      DetectDuplicate_def)

lemma pair_comp:
  "CacheCompThd_step demo_denc rev cc_new (pair_out UNIQUE_CHUNK_AFTER_CACHE) = Inr (cc_new, [pair_out UNIQUE_CHUNK])"
  by (simp add: CacheCompThd_step_def pair_out_def)

lemma pair_seq: "seq_run (\<lambda>_. [1, 2, 3]) demo_denc rev pair_start = Inr (cc_new, [pair_out UNIQUE_CHUNK])"
proof -
  have "pp_recv_2_dual pair_start = [pair_demo]" "pp_dual_2_comp pair_start = []" "pp_comp_2_writer pair_start = []"
      "pp_comp pair_start = cc_new" by (simp_all add: pipe_start_def)
  with pair_dual pair_comp show ?thesis by (auto simp: seq_run_def)
qed

lemma pair_fresh: "fresh_id (dw_store dw_new) (dw_client dw_new) (\<lambda>_. 1)"
  using fresh_new by (simp add: dw_new_def)



end
