(* ===== verification/Server_Opt.thy ===== *)
theory Server_Opt
  imports Server_Write
begin

text \<open>
  What outlives a session on the server: the statistics of \<open>ServerOptThd\<close> (\<open>StoreStat\<close>,
  \<open>LoadStat\<close>, \<open>PrintClientLog\<close> of \<open>src/server/server_opt_thd.cc\<close>) and the informed cache of a client
  (destructor and constructor of \<open>ClientVar\<close> in \<open>src/server/client_var.cc\<close> and of \<open>InformCache\<close> in
  \<open>src/server/inform_cache.cc\<close>). The server keeps one object per thread class for all sessions; of
  them only the counters matter here.
\<close>

subsection \<open>Statistics\<close>

record server_opt =
  so_recv :: data_recv
  so_dual :: dual_dedup
  so_comp :: cache_comp
  so_writer :: data_writer        \<comment> \<open>with \<open>storage_core_\<close> as \<open>dw_store\<close>\<close>

definition stat_list :: "server_opt \<Rightarrow> nat list" where
  "stat_list so =
    [dr_logical_chunk_num (so_recv so), dr_logical_data_size (so_recv so),
     dr_unique_chunk_num (so_recv so), dr_unique_data_size (so_recv so),
     cc_similar_chunk_num (so_comp so), cc_similar_data_size (so_comp so), cc_delta_size (so_comp so),
     dw_similar_chunk_num (so_writer so), dw_similar_data_size (so_writer so), dw_delta_size (so_writer so),
     st_write_chunk_num (dw_store (so_writer so)), st_write_data_size (dw_store (so_writer so))]"

definition set_stats :: "nat list \<Rightarrow> server_opt \<Rightarrow> server_opt" where
  "set_stats v so =
    so \<lparr> so_recv := so_recv so \<lparr> dr_logical_chunk_num := v ! 0, dr_logical_data_size := v ! 1,
                                dr_unique_chunk_num := v ! 2, dr_unique_data_size := v ! 3 \<rparr>,
         so_comp := so_comp so \<lparr> cc_similar_chunk_num := v ! 4, cc_similar_data_size := v ! 5, cc_delta_size := v ! 6 \<rparr>,
         so_writer := so_writer so \<lparr> dw_similar_chunk_num := v ! 7, dw_similar_data_size := v ! 8, dw_delta_size := v ! 9,
           dw_store := dw_store (so_writer so) \<lparr> st_write_chunk_num := v ! 10, st_write_data_size := v ! 11 \<rparr> \<rparr> \<rparr>"

definition StoreStat :: "server_opt \<Rightarrow> bytes" where
  "StoreStat so = concat (map (\<lambda>n. u64_le (of_nat n)) (stat_list so))"

fun load_stats :: "istream \<Rightarrow> nat list \<Rightarrow> nat list" where
  \<comment> \<open>each \<open>read\<close> overwrites one counter; a short one keeps bytes of its old value\<close>
  "load_stats st [] = []"
| "load_stats st (old # olds) =
     (case read_field 8 st (u64_le (of_nat old)) of (b, st) \<Rightarrow> le_nat b # load_stats st olds)"

definition LoadStat :: "bytes option \<Rightarrow> server_opt \<Rightarrow> server_opt" where
  "LoadStat stat_file so =
    (case stat_file of None \<Rightarrow> so | Some f \<Rightarrow> set_stats (load_stats (f, False) (stat_list so)) so)"

definition PrintClientLog :: "server_opt \<Rightarrow> nat \<Rightarrow> nat list" where
  \<comment> \<open>the numbers of the line appended to the log\<close>
  "PrintClientLog so total_cache_size =
    [dr_logical_data_size (so_recv so), dr_logical_chunk_num (so_recv so),
     dd_unique_data_size (so_dual so), dd_unique_chunk_num (so_dual so),
     cc_similar_data_size (so_comp so), cc_similar_chunk_num (so_comp so), cc_delta_size (so_comp so),
     dw_similar_data_size (so_writer so), dw_similar_chunk_num (so_writer so), dw_delta_size (so_writer so),
     st_write_data_size (dw_store (so_writer so)), total_cache_size]"

lemma load_stats_stored:
  assumes "length olds = length ns" "\<forall>n \<in> set ns. n < 2 ^ 64"
  shows "load_stats (concat (map (\<lambda>n. u64_le (of_nat n)) ns), False) olds = ns"
  using assms
proof (induction olds ns rule: list_induct2)
  case (Cons old olds n ns)
  have "read_field 8 (u64_le (of_nat n) @ concat (map (\<lambda>n. u64_le (of_nat n)) ns), False) (u64_le (of_nat old)) =
      (u64_le (of_nat n), (concat (map (\<lambda>n. u64_le (of_nat n)) ns), False))"
    by (simp add: read_field_def)
  then show ?case using Cons by (simp add: le_nat_u64_le)
qed simp

text \<open>C38. The statistics survive a restart of the server, except two: a server that stores its
  statistics and another that loads them agree on every counter that is stored, but the counters of
  \<open>DualDedupThd\<close> are not stored, so the log of the new server shows the unique size and the number of
  unique chunks counted from its own start, beside logical sizes counted from the first start.\<close>

theorem StoreStat_LoadStat:
  assumes "\<forall>n \<in> set (stat_list so). n < 2 ^ 64"
  shows "stat_list (LoadStat (Some (StoreStat so)) so0) = stat_list so \<and>
    PrintClientLog (LoadStat (Some (StoreStat so)) so0) total_cache_size =
      (PrintClientLog so total_cache_size)[2 := dd_unique_data_size (so_dual so0), 3 := dd_unique_chunk_num (so_dual so0)] \<and>
    LoadStat None so0 = so0"
proof -
  have "load_stats (StoreStat so, False) (stat_list so0) = stat_list so"
    unfolding StoreStat_def by (rule load_stats_stored [OF _ assms]) (simp add: stat_list_def)
  then have l: "LoadStat (Some (StoreStat so)) so0 = set_stats (stat_list so) so0" by (simp add: LoadStat_def)
  show ?thesis unfolding l by (simp add: set_stats_def stat_list_def PrintClientLog_def LoadStat_def numeral_eq_Suc)
qed

definition server_opt_demo :: server_opt where
  "server_opt_demo =
    \<lparr> so_recv = data_recv_new 4 [] \<lparr> dr_logical_chunk_num := 9, dr_logical_data_size := 90 \<rparr>,
      so_dual = \<lparr> dd_fp_2_addr = [], dd_unique_chunk_num = 5, dd_unique_data_size = 50 \<rparr>,
      so_comp = \<lparr> cc_inform_cache = ic_new, cc_output = \<lparr> w_info = chunk_info_init, w_data = [] \<rparr>, cc_similar_chunk_num = 2,
                  cc_similar_data_size = 20, cc_delta_size = 3 \<rparr>,
      so_writer = \<lparr> dw_store = \<lparr> st_prefix = [], st_suffix = [], st_files = [], st_read_container_num = 0,
                      st_read_chunk_num = 0, st_read_data_size = 0, st_write_container_num = 1, st_write_chunk_num = 6,
                      st_write_data_size = 40 \<rparr>, dw_client = client_store_new (\<lambda>_. 0) 4, dw_fp_2_addr = [],
                    dw_feature_2_fp = \<lparr> index_obj = [] \<rparr>, dw_similar_chunk_num = 1, dw_similar_data_size = 10, dw_delta_size = 2 \<rparr> \<rparr>"

lemma StoreStat_LoadStat_witness:
  "PrintClientLog (LoadStat (Some (StoreStat server_opt_demo)) (server_opt_demo \<lparr> so_dual := \<lparr> dd_fp_2_addr = [],
      dd_unique_chunk_num = 0, dd_unique_data_size = 0 \<rparr> \<rparr>)) 7 = [90, 9, 0, 0, 20, 2, 3, 10, 1, 2, 40, 7]"
proof -
  have "\<forall>n \<in> set (stat_list server_opt_demo). n < 2 ^ 64"
    by (simp add: stat_list_def server_opt_demo_def data_recv_new_def)
  from StoreStat_LoadStat [OF this] show ?thesis
    by (simp add: PrintClientLog_def server_opt_demo_def data_recv_new_def)
qed

subsection \<open>The informed cache between sessions\<close>

record client_files =
  cf_cnt :: bytes
  cf_idx :: bytes
  cf_db :: "(bytes, bytes) in_memory_db"

definition ClientVar_close :: "inform_cache \<Rightarrow> client_files \<times> u64" where
  \<comment> \<open>\<open>~ClientVar\<close>: the base chunks without references go, the indexes are stored; \<open>_total_cache_size\<close>\<close>
  "ClientVar_close ic =
    (case DeleteEvictChunk ic of (ic, total_cache_size) \<Rightarrow>
     case StoreCntIdx ic of (cnt, idx) \<Rightarrow>
       (\<lparr> cf_cnt = cnt, cf_idx = idx, cf_db = ic_base_2_data ic \<rparr>, total_cache_size))"

definition InformCache_open :: "client_files \<Rightarrow> inform_cache" where
  "InformCache_open fs =
    (case LoadCntIdx (Some (cf_cnt fs)) (Some (cf_idx fs)) of (base_2_cnt, feature_2_fp) \<Rightarrow>
       \<lparr> ic_feature_2_fp = feature_2_fp, ic_base_2_cnt = base_2_cnt, ic_base_2_data = cf_db fs \<rparr>)"

lemma DeleteEvict_keys:
  assumes "ic_ok ic" "DeleteEvictChunk ic = (ic', n)"
  shows "dom (map_of (ic_base_2_cnt ic')) \<subseteq> dom (map_of (ic_base_2_cnt ic))"
proof
  fix b
  assume "b \<in> dom (map_of (ic_base_2_cnt ic'))"
  then obtain c s where "map_of (ic_base_2_cnt ic') b = Some (c, s)" by auto
  moreover note D = DeleteEvictChunk_correct [OF assms]
  ultimately obtain d where "InMem_Query (ic_base_2_data ic') b = Some d" using ic_okD(2) by blast
  with D have "InMem_Query (ic_base_2_data ic) b = Some d" by (auto split: if_splits)
  with ic_okD(3) [OF assms(1)] show "b \<in> dom (map_of (ic_base_2_cnt ic))" by blast
qed

lemma umap_length_mono:
  assumes "umap_ok m" "dom (map_of m) \<subseteq> dom (map_of m')"
  shows "length m \<le> length m'"
proof -
  have "length m = card (fst ` set m)" using distinct_card [OF assms(1)] by simp
  also have "\<dots> \<le> card (fst ` set m')" using assms(2) by (intro card_mono) (simp_all add: dom_map_of_conv_image_fst)
  also have "\<dots> \<le> length m'" using card_length [of "map fst m'"] by simp
  finally show ?thesis .
qed

lemma session_close:
  assumes ok: "ic_ok ic" and close: "ClientVar_close ic = (files, total_size)"
    and fp: "\<forall>b. map_of (ic_base_2_cnt ic) b \<noteq> None \<longrightarrow> length b = CHUNK_HASH_SIZE"
    and small: "length (ic_base_2_cnt ic) < 2 ^ 64" "length (ic_feature_2_fp ic) < 2 ^ 64"
  shows "ic_ok (InformCache_open files) \<and>
    ic_feature_2_fp (InformCache_open files) = ic_feature_2_fp ic \<and>
    (\<forall>b. InMem_Query (ic_base_2_data (InformCache_open files)) b =
       (if cnt_of ic b = 0 then None else InMem_Query (ic_base_2_data ic) b)) \<and>
    (\<forall>f b. map_of (ic_feature_2_fp ic) f = Some b \<longrightarrow>
       InMem_Query (ic_base_2_data (InformCache_open files)) b \<noteq> None) \<and>
    total_size = sum_list (map (\<lambda>(b, c, s). if c = 0 then 0 else ucast s) (ic_base_2_cnt ic))"
proof -
  obtain ic' n where d: "DeleteEvictChunk ic = (ic', n)" by fastforce
  obtain cnt idx where st: "StoreCntIdx ic' = (cnt, idx)" by fastforce
  have f: "files = \<lparr> cf_cnt = cnt, cf_idx = idx, cf_db = ic_base_2_data ic' \<rparr>" "total_size = n"
    using close d st by (simp_all add: ClientVar_close_def)
  note D = DeleteEvictChunk_correct [OF ok d]
  have ok': "ic_ok ic'" and feat: "ic_feature_2_fp ic' = ic_feature_2_fp ic" using D by simp_all
  have keys: "dom (map_of (ic_base_2_cnt ic')) \<subseteq> dom (map_of (ic_base_2_cnt ic))" by (rule DeleteEvict_keys [OF ok d])
  have "length (fst e) = CHUNK_HASH_SIZE" if "e \<in> set (ic_base_2_cnt ic')" for e
  proof -
    have "fst e \<in> dom (map_of (ic_base_2_cnt ic'))" using that by (simp add: dom_map_of_conv_image_fst)
    then have "fst e \<in> dom (map_of (ic_base_2_cnt ic))" using keys by (rule subsetD [rotated])
    then show ?thesis using fp by (simp add: dom_def)
  qed
  moreover have "length (snd e) = CHUNK_HASH_SIZE" if "e \<in> set (ic_feature_2_fp ic')" for e
  proof -
    have "umap_ok (ic_feature_2_fp ic)" using ok by (simp add: ic_ok_def)
    then have "map_of (ic_feature_2_fp ic) (fst e) = Some (snd e)" using that feat by (simp add: map_of_eq_Some_iff)
    from ic_okD(1) [OF ok this] fp show ?thesis by blast
  qed
  moreover have "length (ic_base_2_cnt ic') < 2 ^ 64"
    using umap_length_mono [OF _ keys] ok' small(1) by (simp add: ic_ok_def)
  ultimately have "LoadCntIdx (Some cnt) (Some idx) = (ic_base_2_cnt ic', ic_feature_2_fp ic')"
    using StoreCntIdx_LoadCntIdx [OF ok' _ _ _ _ st] small(2) feat by simp
  then have o: "InformCache_open files = ic'" by (simp add: InformCache_open_def f)
  have "InMem_Query (ic_base_2_data ic') b \<noteq> None" if "map_of (ic_feature_2_fp ic) f = Some b" for f b
    using ic_okD(1) [OF ok', of f b] feat that by auto
  with D show ?thesis unfolding o f(2) by auto
qed


definition ic_session_demo :: inform_cache where
  "ic_session_demo = \<lparr> ic_feature_2_fp = [(1, replicate 32 9)], ic_base_2_cnt = [(replicate 32 9, (1, 2)), (replicate 32 8, (0, 1))],
     ic_base_2_data = \<lparr> index_obj = [(replicate 32 9, [5, 6]), (replicate 32 8, [4])] \<rparr> \<rparr>"

lemma ic_session_demo_ok: "ic_ok ic_session_demo"
  by (auto simp: ic_ok_def ic_session_demo_def db_ok_def InMem_Query_def cnt_of_def refs_def)


end
