(* ===== verification/Upload_Run.thy ===== *)
theory Upload_Run
  imports Chunker Pipeline Server_Opt
begin

text \<open>
  An upload from the chunks of the client to the store of the server: selective compression
  (\<open>src/client/select_comp_thd.cc\<close>), the sender, the receiver, deduplication and the
  compression against the informed cache, chunk by chunk. The two halves of the cache stay in
  agreement, so each chunk that is new to the server leaves the compression thread either as the
  compressed form, or as a delta against a base chunk that the cache keeps to the end of the
  upload and into the next session.
\<close>

subsection \<open>The forms of a chunk\<close>

definition packed ::
  "(evp_setup \<Rightarrow> bytes \<Rightarrow> bytes) \<Rightarrow> codec \<Rightarrow> (u64 \<Rightarrow> nat \<Rightarrow> u32) \<Rightarrow> enc_feature_chunk \<Rightarrow> bytes" where
  \<comment> \<open>compressed, padded and encrypted\<close>
  "packed evp_enc cmp rng ch =
    (case TwoPhaseEncChunk evp_enc (CompressWithPad cmp rng (raw_data (c_raw ch)) (c_seed ch)) (c_key ch) of
       Inr d \<Rightarrow> d | Inl _ \<Rightarrow> [])"

definition dual_fp ::
  "(bytes \<Rightarrow> bytes) \<Rightarrow> (evp_setup \<Rightarrow> bytes \<Rightarrow> bytes) \<Rightarrow> codec \<Rightarrow> (u64 \<Rightarrow> nat \<Rightarrow> u32) \<Rightarrow> enc_feature_chunk \<Rightarrow> bytes" where
  "dual_fp hash evp_enc cmp rng ch = hash (hash (c_enc_data ch) @ hash (packed evp_enc cmp rng ch))"

definition cipher_ok :: "(evp_setup \<Rightarrow> bytes \<Rightarrow> bytes) \<Rightarrow> enc_feature_chunk \<Rightarrow> bool" where
  \<comment> \<open>a chunk as it leaves key generation and feature extraction\<close>
  "cipher_ok evp_enc ch \<longleftrightarrow> c_type ch = NORMAL_CHUNK \<and> raw_data (c_raw ch) \<noteq> [] \<and>
     length (raw_data (c_raw ch)) \<le> MAX_CHUNK_SIZE \<and> length (c_key ch) = CHUNK_HASH_SIZE \<and>
     length (c_features ch) = SUPER_FEATURE_PER_CHUNK \<and>
     TwoPhaseEncChunk evp_enc (raw_data (c_raw ch)) (c_key ch) = Inr (c_enc_data ch)"

lemma cipher_data:
  assumes "evp_ok evp_enc evp_dec" "cipher_ok evp_enc ch"
  shows "c_enc_data ch \<noteq> []" "length (c_enc_data ch) \<le> ENC_MAX_CHUNK_SIZE"
proof -
  have "length (raw_data (c_raw ch)) \<le> MAX_CHUNK_SIZE + 4" using assms(2) by (simp add: cipher_ok_def)
  from TwoPhaseEncChunk_size [OF assms(1) this, of "c_key ch"] obtain c
    where c: "TwoPhaseEncChunk evp_enc (raw_data (c_raw ch)) (c_key ch) = Inr c" "length c \<le> ENC_MAX_CHUNK_SIZE"
      "length (raw_data (c_raw ch)) < length c" by blast
  then have "c = c_enc_data ch" using assms(2) by (simp add: cipher_ok_def)
  with c(2,3) show "c_enc_data ch \<noteq> []" "length (c_enc_data ch) \<le> ENC_MAX_CHUNK_SIZE" by auto
qed

lemma packed_ok:
  assumes "evp_ok evp_enc evp_dec" "codec_ok cmp dcmp" "cipher_ok evp_enc ch"
  shows "TwoPhaseEncChunk evp_enc (CompressWithPad cmp rng (raw_data (c_raw ch)) (c_seed ch)) (c_key ch) =
      Inr (packed evp_enc cmp rng ch)"
    and "packed evp_enc cmp rng ch \<noteq> []" "length (packed evp_enc cmp rng ch) \<le> ENC_MAX_CHUNK_SIZE"
proof -
  let ?p = "CompressWithPad cmp rng (raw_data (c_raw ch)) (c_seed ch)"
  have "length ?p \<le> MAX_CHUNK_SIZE + 4" using assms(2,3) by (intro CompressWithPad_fits) (simp_all add: cipher_ok_def)
  from TwoPhaseEncChunk_size [OF assms(1) this, of "c_key ch"] obtain c
    where c: "TwoPhaseEncChunk evp_enc ?p (c_key ch) = Inr c" "length c \<le> ENC_MAX_CHUNK_SIZE" "length ?p < length c" by blast
  then show "TwoPhaseEncChunk evp_enc ?p (c_key ch) = Inr (packed evp_enc cmp rng ch)"
    "packed evp_enc cmp rng ch \<noteq> []" "length (packed evp_enc cmp rng ch) \<le> ENC_MAX_CHUNK_SIZE"
    by (auto simp: packed_def)
qed

subsection \<open>From selective compression to the wire\<close>

text \<open>The arrays of the two buffers of the thread have their sizes, whatever they hold.\<close>

definition arrays_ok :: "select_comp \<Rightarrow> bool" where
  "arrays_ok sl \<longleftrightarrow> (\<forall>c \<in> {sl_send sl, sl_cache sl}. header_wf (s2_chunk c) \<and> length (s2_key c) = CHUNK_HASH_SIZE)"

text \<open>What becomes of the client's table.\<close>

definition cm_chunk :: "cache_meta \<Rightarrow> u64 list \<Rightarrow> cache_meta \<times> bool" where
  "cm_chunk cm fs =
    (case QueryCacheMeta cm fs of (cm, sim) \<Rightarrow> (if sim then cm else UpdateCacheMeta cm fs, sim))"

text \<open>What the receiver hands on for a chunk in either form.\<close>

definition chunk_view ::
  "(bytes \<Rightarrow> bytes) \<Rightarrow> (evp_setup \<Rightarrow> bytes \<Rightarrow> bytes) \<Rightarrow> codec \<Rightarrow> (u64 \<Rightarrow> nat \<Rightarrow> u32) \<Rightarrow>
   enc_feature_chunk \<Rightarrow> bool \<Rightarrow> chunk_view list" where
  "chunk_view hash evp_enc cmp rng ch sim =
    (let fp = dual_fp hash evp_enc cmp rng ch; fs = c_features ch
     in if sim then [(SINGLE_CHUNK, fp, fs, c_enc_data ch)]
        else [(CACHE_INSERT_CHUNK, fp, fs, c_enc_data ch), (CHUNK_PAIR, fp, fs, packed evp_enc cmp rng ch)])"

lemma select_unit:
  assumes evp: "evp_ok evp_enc evp_dec" and codec: "codec_ok cmp dcmp" and ch: "cipher_ok evp_enc ch"
    and sl: "arrays_ok sl" and hash: "\<And>x. length (hash x) = CHUNK_HASH_SIZE"
    and cm: "cm_chunk (sl_cache_meta sl) (c_features ch) = (cm', sim)"
  obtains sl' u where "SelectCompThd_step hash evp_enc cmp rng FULL_EDR sl ch = Inr (sl', u)"
    "arrays_ok sl'" "sl_cache_meta sl' = cm'" "edr_unit u" "unit_key u = c_key ch"
    "unit_fp hash evp_enc u = dual_fp hash evp_enc cmp rng ch"
    "unit_view hash evp_enc u = chunk_view hash evp_enc cmp rng ch sim"
proof -
  obtain cm1 where q: "QueryCacheMeta (sl_cache_meta sl) (c_features ch) = (cm1, sim)"
      "cm' = (if sim then cm1 else UpdateCacheMeta cm1 (c_features ch))"
    using cm by (auto simp: cm_chunk_def split: prod.splits)
  have type: "c_type ch = NORMAL_CHUNK" and fs: "length (c_features ch) = SUPER_FEATURE_PER_CHUNK"
    and key: "length (c_key ch) = CHUNK_HASH_SIZE" using ch by (simp_all add: cipher_ok_def)
  have p: "length (CompressWithPad cmp rng (raw_data (c_raw ch)) (c_seed ch)) \<le> MAX_CHUNK_SIZE + 4"
    using ch by (intro CompressWithPad_fits [OF codec]) (simp add: cipher_ok_def)
  then have p': "length (CompressWithPad cmp rng (raw_data (c_raw ch)) (c_seed ch)) \<le> ENC_MAX_CHUNK_SIZE"
    by (simp add: size_consts)
  note d = cipher_data [OF evp ch] and e = packed_ok [OF evp codec ch, of rng]
  let ?r = "SelectCompThd_step hash evp_enc cmp rng FULL_EDR sl ch"
  have "\<exists>sl' u. ?r = Inr (sl', u) \<and> arrays_ok sl' \<and> sl_cache_meta sl' = cm' \<and> edr_unit u \<and> unit_key u = c_key ch \<and>
      unit_fp hash evp_enc u = dual_fp hash evp_enc cmp rng ch \<and>
      unit_view hash evp_enc u = chunk_view hash evp_enc cmp rng ch sim"
  proof (cases sim)
    case True
    then show ?thesis using q type fs key d e sl hash
      by (simp add: SelectCompThd_step_def FullEDR_def put_chunk_def Let_def arrays_ok_def header_wf_def edr_unit_def
          unit_ok_def fits_send_def unit_key_def unit_fp_def unit_view_def dual_fp_def chunk_view_def)
  next
    case False
    then show ?thesis using q type fs key d e sl hash p p'
      by (simp add: SelectCompThd_step_def FullEDR_def put_chunk_def Let_def arrays_ok_def header_wf_def edr_unit_def
          unit_ok_def fits_send_def unit_key_def unit_fp_def unit_view_def dual_fp_def chunk_view_def sent_def)
  qed
  then show thesis using that by blast
qed

subsection \<open>What the caches keep during an upload\<close>

text \<open>
  During an upload a feature keeps its base chunk, and a base chunk keeps its data.
\<close>

definition used_feature :: "cache_meta \<Rightarrow> u64 \<Rightarrow> bool" where
  "used_feature cm f \<longleftrightarrow> map_of (cm_feature_2_version cm) f = Some (cm_cur_version cm)"

definition cache_keeps :: "cache_meta \<Rightarrow> inform_cache \<Rightarrow> cache_meta \<Rightarrow> inform_cache \<Rightarrow> bool" where
  "cache_keeps cm ic cm' ic' \<longleftrightarrow>
     (\<forall>f. used_feature cm f \<longrightarrow> used_feature cm' f) \<and>
     (\<forall>f b. map_of (ic_feature_2_fp ic) f = Some b \<longrightarrow> map_of (ic_feature_2_fp ic') f = Some b) \<and>
     (\<forall>b d. InMem_Query (ic_base_2_data ic) b = Some d \<longrightarrow> InMem_Query (ic_base_2_data ic') b = Some d)"

lemma cache_keeps_refl [simp]: "cache_keeps cm ic cm ic"
  by (simp add: cache_keeps_def)

lemma cache_keeps_trans:
  "cache_keeps cm ic cm1 ic1 \<Longrightarrow> cache_keeps cm1 ic1 cm2 ic2 \<Longrightarrow> cache_keeps cm ic cm2 ic2"
  by (simp add: cache_keeps_def)

text \<open>Room for \<open>n\<close> more chunks, and sizes that the files of the cache can hold.\<close>

definition cache_room :: "nat \<Rightarrow> inform_cache \<Rightarrow> bool" where
  "cache_room n ic \<longleftrightarrow> counts_small (SUPER_FEATURE_PER_CHUNK * n) ic \<and>
     (\<forall>b. map_of (ic_base_2_cnt ic) b \<noteq> None \<longrightarrow> length b = CHUNK_HASH_SIZE) \<and>
     (\<forall>b d. InMem_Query (ic_base_2_data ic) b = Some d \<longrightarrow> length d \<le> ENC_MAX_CHUNK_SIZE) \<and>
     length (ic_base_2_cnt ic) + n < 2 ^ 64 \<and> length (ic_feature_2_fp ic) + SUPER_FEATURE_PER_CHUNK * n < 2 ^ 64"

lemma counts_small_mono: "counts_small (k + n) ic \<Longrightarrow> counts_small n ic"
  by (meson add_le_cancel_left counts_small_def le_add2 order_le_less_trans)

lemma cache_room_mono: "cache_room (Suc n) ic \<Longrightarrow> cache_room n ic"
  using counts_small_mono [of SUPER_FEATURE_PER_CHUNK "SUPER_FEATURE_PER_CHUNK * n" ic] by (simp add: cache_room_def)

lemma length_update: "length (AList.update k v m) \<le> Suc (length m)"
  by (induction m) auto

lemma length_update_known: "k \<in> fst ` set m \<Longrightarrow> length (AList.update k v m) = length m"
  by (induction m) auto

lemma length_insert_all: "length (umap.insert_all m fs b) \<le> length m + length fs"
proof (induction fs arbitrary: m)
  case Nil
  then show ?case by (simp add: umap.insert_all_def)
next
  case (Cons f fs)
  have "umap.insert_all m (f # fs) b = umap.insert_all (AList.update f b m) fs b" by (simp add: umap.insert_all_def)
  with Cons [of "AList.update f b m"] length_update [of f b m] show ?case by (auto intro: order_trans)
qed

lemma InsertCachedChunk_features:
  "ic_feature_2_fp (InsertCachedChunk ic w) =
     umap.insert_all (ic_feature_2_fp ic) (take SUPER_FEATURE_PER_CHUNK (ci_features (w_info w))) (ci_fp (w_info w))"
  by (simp add: InsertCachedChunk_def Let_def UpdateFeatureIndex_umap split: option.splits)

lemma InsertCachedChunk_room:
  assumes room: "cache_room (Suc n) ic" and ok: "ic_ok ic"
    and w: "length (ci_fp (w_info w)) = CHUNK_HASH_SIZE" "length (w_data w) \<le> ENC_MAX_CHUNK_SIZE"
  shows "cache_room n (InsertCachedChunk ic w)"
proof -
  let ?ic = "InsertCachedChunk ic w"
  have "counts_small (SUPER_FEATURE_PER_CHUNK + SUPER_FEATURE_PER_CHUNK * n) ic" using room by (simp add: cache_room_def)
  then have "counts_small (SUPER_FEATURE_PER_CHUNK * n) ?ic" by (rule counts_small_insert)
  moreover have "length b = CHUNK_HASH_SIZE" if "map_of (ic_base_2_cnt ?ic) b \<noteq> None" for b
    using that room w(1) by (auto simp: cache_room_def InsertCachedChunk_def Let_def split: option.splits if_splits)
  moreover have "length d \<le> ENC_MAX_CHUNK_SIZE" if "InMem_Query (ic_base_2_data ?ic) b = Some d" for b d
    using that room w(2) ok
    by (auto simp: cache_room_def InsertCachedChunk_def Let_def ic_ok_def inmem.query_insert split: option.splits if_splits)
  moreover have "length (ic_base_2_cnt ?ic) + n < 2 ^ 64"
  proof -
    have "length (ic_base_2_cnt ?ic) \<le> Suc (length (ic_base_2_cnt ic))"
      by (simp add: InsertCachedChunk_def Let_def length_update split: option.splits)
    then show ?thesis using room by (simp add: cache_room_def)
  qed
  moreover have "length (ic_feature_2_fp ?ic) + SUPER_FEATURE_PER_CHUNK * n < 2 ^ 64"
  proof -
    have "length (ic_feature_2_fp ?ic) \<le> length (ic_feature_2_fp ic) + SUPER_FEATURE_PER_CHUNK"
      unfolding InsertCachedChunk_features
      using length_insert_all [of "ic_feature_2_fp ic" "take SUPER_FEATURE_PER_CHUNK (ci_features (w_info w))" "ci_fp (w_info w)"]
      by simp
    then show ?thesis using room by (simp add: cache_room_def)
  qed
  ultimately show ?thesis by (simp add: cache_room_def)
qed

lemma cm_chunk_used:
  assumes cm: "cm_chunk cm fs = (cm', sim)"
  shows "cm_cur_version cm' = cm_cur_version cm" "cm_batch cm' = cm_batch cm" "cm_dom cm \<subseteq> cm_dom cm'"
    and "f \<in> set (take SUPER_FEATURE_PER_CHUNK fs) \<Longrightarrow> f \<in> cm_dom cm \<Longrightarrow> used_feature cm' f"
    and "used_feature cm f \<Longrightarrow> used_feature cm' f"
proof -
  obtain cm1 where q: "QueryCacheMeta cm fs = (cm1, sim)" and cm': "cm' = (if sim then cm1 else UpdateCacheMeta cm1 fs)"
    using cm by (auto simp: cm_chunk_def split: prod.splits)
  note spec = QueryCacheMeta_spec [OF q]
  have upd: "used_feature (UpdateCacheMeta c fs) f \<longleftrightarrow> f \<in> set (take SUPER_FEATURE_PER_CHUNK fs) \<or> used_feature c f" for c f
    by (simp add: used_feature_def UpdateCacheMeta_def fold_update_map_of)
  show "cm_cur_version cm' = cm_cur_version cm" "cm_batch cm' = cm_batch cm"
    using spec(5,6) by (simp_all add: cm' UpdateCacheMeta_def)
  show "cm_dom cm \<subseteq> cm_dom cm'" using spec(2) by (auto simp: cm' UpdateCacheMeta_dom)
  show "used_feature cm' f" if "f \<in> set (take SUPER_FEATURE_PER_CHUNK fs)" "f \<in> cm_dom cm"
  proof -
    have "used_feature cm1 f" using that spec(4) [of f] spec(5) by (simp add: used_feature_def)
    then show ?thesis by (simp add: cm' upd)
  qed
  show "used_feature cm' f" if "used_feature cm f"
  proof -
    have "used_feature cm1 f" using that spec(4) [of f] spec(5) by (auto simp: used_feature_def)
    then show ?thesis by (simp add: cm' upd)
  qed
qed

lemma cm_chunk_keeps:
  assumes sync: "cache_sync cm ic" and cm: "cm_chunk cm fs = (cm', sim)"
  shows "sim \<longleftrightarrow> (\<exists>f \<in> set (take SUPER_FEATURE_PER_CHUNK fs). map_of (ic_feature_2_fp ic) f \<noteq> None)"
    and "sim \<Longrightarrow> cache_sync cm' ic"
    and "\<not> sim \<Longrightarrow> ci_features (w_info w) = fs \<Longrightarrow> cache_room (Suc n) ic \<Longrightarrow> cache_sync cm' (InsertCachedChunk ic w)"
proof -
  obtain cm1 where q: "QueryCacheMeta cm fs = (cm1, sim)" and cm': "cm' = (if sim then cm1 else UpdateCacheMeta cm1 fs)"
    using cm by (auto simp: cm_chunk_def split: prod.splits)
  note spec = QueryCacheMeta_spec [OF q]
  have dom: "cm_dom cm = dom (map_of (ic_feature_2_fp ic))" using sync by (simp add: cache_sync_def)
  show "sim \<longleftrightarrow> (\<exists>f \<in> set (take SUPER_FEATURE_PER_CHUNK fs). map_of (ic_feature_2_fp ic) f \<noteq> None)"
    using spec(3) by (simp add: dom domIff)
  have s1: "cache_sync cm1 ic" by (rule sync_query [OF sync q])
  then show "cache_sync cm' ic" if sim using that by (simp add: cm')
  show "cache_sync cm' (InsertCachedChunk ic w)" if "\<not> sim" "ci_features (w_info w) = fs" "cache_room (Suc n) ic"
  proof -
    have "cnt_of ic (ci_fp (w_info w)) + (SUPER_FEATURE_PER_CHUNK + SUPER_FEATURE_PER_CHUNK * n) < 2 ^ 32"
      using that(3) by (simp add: cache_room_def counts_small_def)
    then show ?thesis using sync_insert [OF s1 that(2)] that(1) by (simp add: cm')
  qed
qed

lemma insert_keeps:
  assumes sync: "cache_sync cm ic" and cm: "cm_chunk cm fs = (cm', False)" and w: "ci_features (w_info w) = fs"
  shows "cache_keeps cm ic cm' (InsertCachedChunk ic w)"
proof -
  have ok: "ic_ok ic" using sync by (simp add: cache_sync_def)
  then have uok: "umap_ok (ic_feature_2_fp ic)" by (simp add: ic_ok_def)
  have new: "\<forall>f \<in> set (take SUPER_FEATURE_PER_CHUNK fs). map_of (ic_feature_2_fp ic) f = None"
    using cm_chunk_keeps(1) [OF sync cm] by simp
  have "map_of (ic_feature_2_fp (InsertCachedChunk ic w)) f = Some b" if "map_of (ic_feature_2_fp ic) f = Some b" for f b
    using that new w by (auto simp: InsertCachedChunk_features umap.query_insert_all [OF uok])
  moreover have "InMem_Query (ic_base_2_data (InsertCachedChunk ic w)) b = Some d"
    if "InMem_Query (ic_base_2_data ic) b = Some d" for b d
    using that ok ic_okD(3) [OF ok that]
    by (auto simp: InsertCachedChunk_def Let_def ic_ok_def inmem.query_insert split: option.splits)
  ultimately show ?thesis using cm_chunk_used(5) [OF cm] by (simp add: cache_keeps_def)
qed

subsection \<open>One chunk on the server\<close>

text \<open>What leaves the compression thread for a chunk that is new to the server.\<close>

definition stored_form ::
  "(bytes \<Rightarrow> bytes) \<Rightarrow> (evp_setup \<Rightarrow> bytes \<Rightarrow> bytes) \<Rightarrow> codec \<Rightarrow> (u64 \<Rightarrow> nat \<Rightarrow> u32) \<Rightarrow>
   (bytes \<Rightarrow> bytes \<Rightarrow> nat \<Rightarrow> bytes option) \<Rightarrow> u64 set \<Rightarrow> inform_cache \<Rightarrow> enc_feature_chunk \<Rightarrow> wrapped_chunk \<Rightarrow> bool" where
  \<comment> \<open>a delta is against the base chunk of one of its features, which is in \<open>U\<close>\<close>
  "stored_form hash evp_enc cmp rng denc U ic ch w \<longleftrightarrow> w_fp w = dual_fp hash evp_enc cmp rng ch \<and>
     (ci_stat (w_info w) = UNIQUE_CHUNK \<and> w_data w = packed evp_enc cmp rng ch \<or>
      ci_stat (w_info w) = CACHE_DELTA_CHUNK \<and>
        (\<exists>f base. f \<in> U \<and> f \<in> set (take SUPER_FEATURE_PER_CHUNK (c_features ch)) \<and>
           map_of (ic_feature_2_fp ic) f = Some (a_base_fp (ci_addr (w_info w))) \<and>
           InMem_Query (ic_base_2_data ic) (a_base_fp (ci_addr (w_info w))) = Some base \<and>
           denc base (c_enc_data ch) ENC_MAX_CHUNK_SIZE = Some (w_data w)))"

lemma stored_form_keeps:
  "stored_form hash evp_enc cmp rng denc (Collect (used_feature cm)) ic ch w \<Longrightarrow> cache_keeps cm ic cm' ic' \<Longrightarrow>
   stored_form hash evp_enc cmp rng denc (Collect (used_feature cm')) ic' ch w"
  unfolding stored_form_def cache_keeps_def mem_Collect_eq by metis

lemma view_simps: "view w = (st, fp, fs, d) \<longleftrightarrow>
    ci_stat (w_info w) = st \<and> w_fp w = fp \<and> ci_features (w_info w) = fs \<and> w_data w = d"
  by (simp add: view_def)

lemma dual_single:
  assumes "view w = (SINGLE_CHUNK, fp, fs, d)"
  shows "fp \<in> dual_dom dd \<Longrightarrow> DualDedupThd_step feat dd w = Inr (dd, [])"
    and "fp \<notin> dual_dom dd \<Longrightarrow> \<exists>dd' w'. DualDedupThd_step feat dd w = Inr (dd', [w']) \<and>
      view w' = (UNIQUE_CHUNK, fp, fs, d) \<and> dual_dom dd' = insert fp (dual_dom dd)"
  using assms by (auto simp: view_simps DualDedupThd_step_def DetectDuplicate_def domIff Let_def split: option.splits)

lemma dual_pair:
  assumes "view w = (CHUNK_PAIR, fp, fs, d)"
  shows "fp \<in> dual_dom dd \<Longrightarrow> DualDedupThd_step feat dd w = Inr (dd, [])"
    and "fp \<notin> dual_dom dd \<Longrightarrow> \<exists>dd' w'. DualDedupThd_step feat dd w = Inr (dd', [w']) \<and>
      view w' = (UNIQUE_CHUNK_AFTER_CACHE, fp, feat d, d) \<and> dual_dom dd' = insert fp (dual_dom dd)"
  using assms by (auto simp: view_simps DualDedupThd_step_def DetectDuplicate_def domIff Let_def split: option.splits)

lemma cache_similar:
  assumes w: "view w = (UNIQUE_CHUNK, fp, fs, d)" and sync: "cache_sync cm (cc_inform_cache cc)"
    and room: "cache_room n (cc_inform_cache cc)" and cm: "cm_chunk cm fs = (cm', True)"
    and env: "\<And>m. mset (iter m) = mset m" "delta_total denc" "length d \<le> ENC_MAX_CHUNK_SIZE"
  obtains cc' o1 f base where "CacheCompThd_step denc iter cc w = Inr (cc', [o1])" "cc_inform_cache cc' = cc_inform_cache cc"
    "w_fp o1 = fp" "ci_stat (w_info o1) = CACHE_DELTA_CHUNK" "used_feature cm' f"
    "f \<in> set (take SUPER_FEATURE_PER_CHUNK fs)"
    "map_of (ic_feature_2_fp (cc_inform_cache cc)) f = Some (a_base_fp (ci_addr (w_info o1)))"
    "InMem_Query (ic_base_2_data (cc_inform_cache cc)) (a_base_fp (ci_addr (w_info o1))) = Some base"
    "denc base d ENC_MAX_CHUNK_SIZE = Some (w_data o1)"
proof -
  let ?ic = "cc_inform_cache cc"
  have ok: "ic_ok ?ic" and dom: "cm_dom cm = dom (map_of (ic_feature_2_fp ?ic))" using sync by (simp_all add: cache_sync_def)
  have fp32: "length b = CHUNK_HASH_SIZE" if "map_of (ic_feature_2_fp ?ic) f = Some b" for f b
    using ic_okD(1) [OF ok that] room by (auto simp: cache_room_def)
  have enc: "denc b (w_data w) ENC_MAX_CHUNK_SIZE \<noteq> None" for b
    using env(2,3) w by (simp add: delta_total_def view_simps)
  have sim: "\<exists>f \<in> set (take SUPER_FEATURE_PER_CHUNK (ci_features (w_info w))). map_of (ic_feature_2_fp ?ic) f \<noteq> None"
    using cm_chunk_keeps(1) [OF sync cm] w by (simp add: view_simps)
  have "\<exists>ret inp out. ProcessNormalChunk (\<lambda>b d. denc b d ENC_MAX_CHUNK_SIZE) iter ?ic w (cc_output cc) = Inr (ret, inp, out) \<and>
    (ret \<longleftrightarrow> (\<exists>f \<in> set (take SUPER_FEATURE_PER_CHUNK (ci_features (w_info w))). map_of (ic_feature_2_fp ?ic) f \<noteq> None)) \<and>
    (ret \<longrightarrow> (\<exists>f b base delta. f \<in> set (take SUPER_FEATURE_PER_CHUNK (ci_features (w_info w))) \<and>
        map_of (ic_feature_2_fp ?ic) f = Some b \<and> InMem_Query (ic_base_2_data ?ic) b = Some base \<and>
        denc base (w_data w) ENC_MAX_CHUNK_SIZE = Some delta \<and> w_data out = delta \<and> a_base_fp (ci_addr (w_info out)) = b \<and>
        ci_fp (w_info out) = ci_fp (w_info w) \<and> ci_stat (w_info out) = CACHE_DELTA_CHUNK))"
    using env(1) ok enc fp32 by (rule ProcessNormalChunk_base)
  with sim
  obtain inp o1 f base where 1: "ProcessNormalChunk (\<lambda>b d. denc b d ENC_MAX_CHUNK_SIZE) iter ?ic w (cc_output cc) = Inr (True, inp, o1)"
      "f \<in> set (take SUPER_FEATURE_PER_CHUNK (ci_features (w_info w)))"
      "map_of (ic_feature_2_fp ?ic) f = Some (a_base_fp (ci_addr (w_info o1)))"
      "InMem_Query (ic_base_2_data ?ic) (a_base_fp (ci_addr (w_info o1))) = Some base"
      "denc base (w_data w) ENC_MAX_CHUNK_SIZE = Some (w_data o1)" "w_fp o1 = w_fp w" "ci_stat (w_info o1) = CACHE_DELTA_CHUNK"
    by auto
  have st: "ci_stat (w_info w) = UNIQUE_CHUNK" using w by (simp add: view_simps)
  have f: "used_feature cm' f" using cm_chunk_used(4) [OF cm, of f] 1(2,3) w dom by (auto simp: view_simps)
  from 1(1) st have "\<exists>cc'. CacheCompThd_step denc iter cc w = Inr (cc', [o1]) \<and> cc_inform_cache cc' = ?ic"
    by (simp add: CacheCompThd_step_def Let_def)
  then show thesis using 1 f w by (auto simp: view_simps intro: that)
qed

definition new_chunk ::
  "(bytes \<Rightarrow> bytes) \<Rightarrow> (evp_setup \<Rightarrow> bytes \<Rightarrow> bytes) \<Rightarrow> codec \<Rightarrow> (u64 \<Rightarrow> nat \<Rightarrow> u32) \<Rightarrow>
   (bytes \<Rightarrow> bytes \<Rightarrow> nat \<Rightarrow> bytes option) \<Rightarrow> bytes set \<Rightarrow> cache_meta \<Rightarrow> inform_cache \<Rightarrow> enc_feature_chunk \<Rightarrow>
   wrapped_chunk list \<Rightarrow> bool" where
  \<comment> \<open>the chunk comes out exactly if its fingerprint is not known\<close>
  "new_chunk hash evp_enc cmp rng denc D cm ic ch outs \<longleftrightarrow>
     (if dual_fp hash evp_enc cmp rng ch \<in> D then outs = []
      else \<exists>w. outs = [w] \<and> stored_form hash evp_enc cmp rng denc (Collect (used_feature cm)) ic ch w)"

lemma server_similar:
  assumes evp: "evp_ok evp_enc evp_dec" and ch: "cipher_ok evp_enc ch"
    and ws: "map view ws = chunk_view hash evp_enc cmp rng ch True"
    and sync: "cache_sync cm (cc_inform_cache cc)" and room: "cache_room (Suc n) (cc_inform_cache cc)"
    and cm: "cm_chunk cm (c_features ch) = (cm', True)"
    and env: "\<And>m. mset (iter m) = mset m" "delta_total denc"
  shows "\<exists>dd' os cc' outs. run_thd (DualDedupThd_step feat) dd ws = Inr (dd', os) \<and>
    run_thd (CacheCompThd_step denc iter) cc os = Inr (cc', outs) \<and> cache_sync cm' (cc_inform_cache cc') \<and>
    cache_room n (cc_inform_cache cc') \<and> cache_keeps cm (cc_inform_cache cc) cm' (cc_inform_cache cc') \<and>
    dual_dom dd' = insert (dual_fp hash evp_enc cmp rng ch) (dual_dom dd) \<and>
    new_chunk hash evp_enc cmp rng denc (dual_dom dd) cm' (cc_inform_cache cc') ch outs"
proof -
  let ?ic = "cc_inform_cache cc" and ?fp = "dual_fp hash evp_enc cmp rng ch"
  obtain w where w: "ws = [w]" "view w = (SINGLE_CHUNK, ?fp, c_features ch, c_enc_data ch)"
    using ws by (auto simp: chunk_view_def Let_def)
  have s: "cache_sync cm' ?ic" using cm_chunk_keeps(2) [OF sync cm] by simp
  have k: "cache_keeps cm ?ic cm' ?ic" using cm_chunk_used(5) [OF cm] by (simp add: cache_keeps_def)
  show ?thesis
  proof (cases "?fp \<in> dual_dom dd")
    case True
    with dual_single(1) [OF w(2), of dd feat] w(1) s k cache_room_mono [OF room] show ?thesis
      by (auto simp: new_chunk_def insert_absorb)
  next
    case False
    then obtain dd' w' where d: "DualDedupThd_step feat dd w = Inr (dd', [w'])"
        "view w' = (UNIQUE_CHUNK, ?fp, c_features ch, c_enc_data ch)" "dual_dom dd' = insert ?fp (dual_dom dd)"
      using dual_single(2) [OF w(2), of dd feat] by auto
    obtain cc' o1 f base where c: "CacheCompThd_step denc iter cc w' = Inr (cc', [o1])" "cc_inform_cache cc' = ?ic"
        "w_fp o1 = ?fp" "ci_stat (w_info o1) = CACHE_DELTA_CHUNK" "used_feature cm' f"
        "f \<in> set (take SUPER_FEATURE_PER_CHUNK (c_features ch))"
        "map_of (ic_feature_2_fp ?ic) f = Some (a_base_fp (ci_addr (w_info o1)))"
        "InMem_Query (ic_base_2_data ?ic) (a_base_fp (ci_addr (w_info o1))) = Some base"
        "denc base (c_enc_data ch) ENC_MAX_CHUNK_SIZE = Some (w_data o1)"
      by (rule cache_similar [OF d(2) sync room cm env cipher_data(2) [OF evp ch]])
    have "stored_form hash evp_enc cmp rng denc (Collect (used_feature cm')) ?ic ch o1" using c(3-9) by (auto simp: stored_form_def)
    with d(1,3) c(1,2) False w(1) s k cache_room_mono [OF room] show ?thesis by (auto simp: new_chunk_def)
  qed
qed

lemma server_announced:
  assumes evp: "evp_ok evp_enc evp_dec" and codec: "codec_ok cmp dcmp" and ch: "cipher_ok evp_enc ch"
    and hash: "\<And>x. length (hash x) = CHUNK_HASH_SIZE"
    and ws: "map view ws = chunk_view hash evp_enc cmp rng ch False"
    and sync: "cache_sync cm (cc_inform_cache cc)" and room: "cache_room (Suc n) (cc_inform_cache cc)"
    and cm: "cm_chunk cm (c_features ch) = (cm', False)"
  shows "\<exists>dd' os cc' outs. run_thd (DualDedupThd_step feat) dd ws = Inr (dd', os) \<and>
    run_thd (CacheCompThd_step denc iter) cc os = Inr (cc', outs) \<and> cache_sync cm' (cc_inform_cache cc') \<and>
    cache_room n (cc_inform_cache cc') \<and> cache_keeps cm (cc_inform_cache cc) cm' (cc_inform_cache cc') \<and>
    dual_dom dd' = insert (dual_fp hash evp_enc cmp rng ch) (dual_dom dd) \<and>
    new_chunk hash evp_enc cmp rng denc (dual_dom dd) cm' (cc_inform_cache cc') ch outs"
proof -
  let ?ic = "cc_inform_cache cc" and ?fp = "dual_fp hash evp_enc cmp rng ch"
  obtain k w where w: "ws = [k, w]" "view k = (CACHE_INSERT_CHUNK, ?fp, c_features ch, c_enc_data ch)"
      "view w = (CHUNK_PAIR, ?fp, c_features ch, packed evp_enc cmp rng ch)"
    using ws by (auto simp: chunk_view_def Let_def)
  have ok: "ic_ok ?ic" using sync by (simp add: cache_sync_def)
  have ci: "ci_features (w_info k) = c_features ch" "w_data k = c_enc_data ch" "w_fp k = ?fp"
      "ci_stat (w_info k) = CACHE_INSERT_CHUNK" using w(2) by (simp_all add: view_simps)
  let ?cc = "cc \<lparr> cc_inform_cache := InsertCachedChunk ?ic k \<rparr>"
  have dk: "DualDedupThd_step feat dd k = Inr (dd, [k])" and ck: "CacheCompThd_step denc iter cc k = Inr (?cc, [])"
    using ci(4) by (simp_all add: DualDedupThd_step_def CacheCompThd_step_def)
  have s: "cache_sync cm' (InsertCachedChunk ?ic k)" using cm_chunk_keeps(3) [OF sync cm _ ci(1) room] by simp
  have r: "cache_room n (InsertCachedChunk ?ic k)"
    using cipher_data(2) [OF evp ch] ci hash by (intro InsertCachedChunk_room [OF room ok]) (simp_all add: dual_fp_def)
  have kp: "cache_keeps cm ?ic cm' (InsertCachedChunk ?ic k)" by (rule insert_keeps [OF sync cm ci(1)])
  show ?thesis
  proof (cases "?fp \<in> dual_dom dd")
    case True
    with dual_pair(1) [OF w(3), of dd feat] w(1) dk ck s r kp show ?thesis
      by (auto simp: new_chunk_def insert_absorb)
  next
    case False
    then obtain dd' w' where d: "DualDedupThd_step feat dd w = Inr (dd', [w'])"
        "view w' = (UNIQUE_CHUNK_AFTER_CACHE, ?fp, feat (packed evp_enc cmp rng ch), packed evp_enc cmp rng ch)"
        "dual_dom dd' = insert ?fp (dual_dom dd)"
      using dual_pair(2) [OF w(3), of dd feat] by auto
    let ?o = "w' \<lparr> w_info := (w_info w') \<lparr> ci_stat := UNIQUE_CHUNK \<rparr> \<rparr>"
    have c: "CacheCompThd_step denc iter ?cc w' = Inr (?cc, [?o])" using d(2) by (simp add: view_simps CacheCompThd_step_def)
    have "stored_form hash evp_enc cmp rng denc (Collect (used_feature cm')) (InsertCachedChunk ?ic k) ch ?o"
      using d(2) by (simp add: stored_form_def view_simps)
    with d(1,3) c dk ck False w(1) s r kp show ?thesis by (auto simp: new_chunk_def)
  qed
qed

subsection \<open>A stream of chunks\<close>

fun cm_run :: "cache_meta \<Rightarrow> u64 list list \<Rightarrow> cache_meta \<times> bool list" where
  "cm_run cm [] = (cm, [])"
| "cm_run cm (fs # fss) =
     (case cm_chunk cm fs of (cm, sim) \<Rightarrow> case cm_run cm fss of (cm, sims) \<Rightarrow> (cm, sim # sims))"

lemma cm_run_used:
  "cm_run cm fss = (cm', sims) \<Longrightarrow> fs \<in> set fss \<Longrightarrow> f \<in> set (take SUPER_FEATURE_PER_CHUNK fs) \<Longrightarrow>
   f \<in> cm_dom cm \<Longrightarrow> used_feature cm' f"
  and cm_run_keeps: "cm_run cm fss = (cm', sims) \<Longrightarrow> used_feature cm f \<Longrightarrow> used_feature cm' f"
proof -
  show k: "cm_run cm fss = (cm', sims) \<Longrightarrow> used_feature cm f \<Longrightarrow> used_feature cm' f" for cm fss sims
  proof (induction fss arbitrary: cm sims)
    case Nil
    then show ?case by simp
  next
    case (Cons fs fss)
    then show ?case using cm_chunk_used(5) by (fastforce split: prod.splits)
  qed
  show "cm_run cm fss = (cm', sims) \<Longrightarrow> fs \<in> set fss \<Longrightarrow> f \<in> set (take SUPER_FEATURE_PER_CHUNK fs) \<Longrightarrow>
     f \<in> cm_dom cm \<Longrightarrow> used_feature cm' f"
  proof (induction fss arbitrary: cm sims)
    case Nil
    then show ?case by simp
  next
    case (Cons g fss)
    obtain cm1 sim sims1 where 1: "cm_chunk cm g = (cm1, sim)" "cm_run cm1 fss = (cm', sims1)"
      using Cons.prems(1) by (auto split: prod.splits)
    show ?case
    proof (cases "fs = g")
      case True
      then have "used_feature cm1 f" using cm_chunk_used(4) [OF 1(1)] Cons.prems(3,4) by simp
      with k [OF 1(2)] show ?thesis .
    next
      case False
      then show ?thesis using Cons.IH [OF 1(2)] Cons.prems(2-4) cm_chunk_used(3) [OF 1(1)] by auto
    qed
  qed
qed

lemma cm_run_ok: "cm_run cm fss = (cm', sims) \<Longrightarrow> cm_ok cm \<Longrightarrow> cm_ok cm'"
proof (induction fss arbitrary: cm sims)
  case Nil
  then show ?case by simp
next
  case (Cons fs fss)
  obtain cm1 sim sims1 where 1: "cm_chunk cm fs = (cm1, sim)" "cm_run cm1 fss = (cm', sims1)"
    using Cons.prems(1) by (auto split: prod.splits)
  have "cm_ok cm1" using 1(1) Cons.prems(2) QueryCacheMeta_spec(1) [of cm fs]
    by (auto simp: cm_chunk_def UpdateCacheMeta_ok split: prod.splits if_splits)
  with Cons.IH [OF 1(2)] show ?case .
qed

definition stream_view ::
  "(bytes \<Rightarrow> bytes) \<Rightarrow> (evp_setup \<Rightarrow> bytes \<Rightarrow> bytes) \<Rightarrow> codec \<Rightarrow> (u64 \<Rightarrow> nat \<Rightarrow> u32) \<Rightarrow>
   enc_feature_chunk list \<Rightarrow> bool list \<Rightarrow> chunk_view list" where
  "stream_view hash evp_enc cmp rng chs sims = concat (map2 (chunk_view hash evp_enc cmp rng) chs sims)"

lemma select_run:
  assumes env: "evp_ok evp_enc evp_dec" "codec_ok cmp dcmp" "\<And>x. length (hash x) = CHUNK_HASH_SIZE"
    and "\<forall>ch \<in> set chs. cipher_ok evp_enc ch" "arrays_ok sl" "cm_run (sl_cache_meta sl) (map c_features chs) = (cm', sims)"
  shows "\<exists>sl' us. run_thd (SelectCompThd_step hash evp_enc cmp rng FULL_EDR) sl chs = Inr (sl', concat us) \<and>
    arrays_ok sl' \<and> sl_cache_meta sl' = cm' \<and> (\<forall>u \<in> set us. edr_unit u) \<and> map unit_key us = map c_key chs \<and>
    map (unit_fp hash evp_enc) us = map (dual_fp hash evp_enc cmp rng) chs \<and>
    concat (map (unit_view hash evp_enc) us) = stream_view hash evp_enc cmp rng chs sims"
  using assms(4-6)
proof (induction chs arbitrary: sl cm' sims)
  case Nil
  then show ?case by (auto simp: stream_view_def intro: exI [of _ "[]"])
next
  case (Cons ch chs)
  obtain cm1 sim sims' where c: "cm_chunk (sl_cache_meta sl) (c_features ch) = (cm1, sim)"
      "cm_run cm1 (map c_features chs) = (cm', sims')" "sims = sim # sims'"
    using Cons.prems(3) by (auto split: prod.splits)
  have ch: "cipher_ok evp_enc ch" and chs: "\<forall>ch \<in> set chs. cipher_ok evp_enc ch" using Cons.prems(1) by simp_all
  obtain sl1 u where u: "SelectCompThd_step hash evp_enc cmp rng FULL_EDR sl ch = Inr (sl1, u)" "arrays_ok sl1"
      "sl_cache_meta sl1 = cm1" "edr_unit u" "unit_key u = c_key ch" "unit_fp hash evp_enc u = dual_fp hash evp_enc cmp rng ch"
      "unit_view hash evp_enc u = chunk_view hash evp_enc cmp rng ch sim"
    by (rule select_unit [OF env(1,2) ch Cons.prems(2) env(3) c(1)])
  from Cons.IH [OF chs u(2), of cm' sims'] c(2) u(3) obtain sl2 us where
      us: "run_thd (SelectCompThd_step hash evp_enc cmp rng FULL_EDR) sl1 chs = Inr (sl2, concat us)"
      "arrays_ok sl2" "sl_cache_meta sl2 = cm'" "\<forall>u \<in> set us. edr_unit u" "map unit_key us = map c_key chs"
      "map (unit_fp hash evp_enc) us = map (dual_fp hash evp_enc cmp rng) chs"
      "concat (map (unit_view hash evp_enc) us) = stream_view hash evp_enc cmp rng chs sims'" by auto
  show ?case using u us c(3)
    by (intro exI [of _ sl2] exI [of _ "u # us"]) (simp add: stream_view_def)
qed

definition upload_out ::
  "(bytes \<Rightarrow> bytes) \<Rightarrow> (evp_setup \<Rightarrow> bytes \<Rightarrow> bytes) \<Rightarrow> codec \<Rightarrow> (u64 \<Rightarrow> nat \<Rightarrow> u32) \<Rightarrow>
   (bytes \<Rightarrow> bytes \<Rightarrow> nat \<Rightarrow> bytes option) \<Rightarrow> bytes set \<Rightarrow> u64 set \<Rightarrow> inform_cache \<Rightarrow> enc_feature_chunk list \<Rightarrow>
   wrapped_chunk list \<Rightarrow> bool" where
  \<comment> \<open>what comes out are forms of chunks, and every chunk whose fingerprint is new is among them\<close>
  "upload_out hash evp_enc cmp rng denc D U ic chs outs \<longleftrightarrow>
     (\<forall>w \<in> set outs. \<exists>ch \<in> set chs. stored_form hash evp_enc cmp rng denc U ic ch w \<and> w_fp w \<notin> D) \<and>
     (\<forall>ch \<in> set chs. dual_fp hash evp_enc cmp rng ch \<in> D \<or> dual_fp hash evp_enc cmp rng ch \<in> set (map w_fp outs))"

lemma upload_out_Cons:
  assumes n: "new_chunk hash evp_enc cmp rng denc D cm1 ic1 ch o1" and k: "cache_keeps cm1 ic1 cm2 ic2"
    and u: "upload_out hash evp_enc cmp rng denc (insert (dual_fp hash evp_enc cmp rng ch) D) (Collect (used_feature cm2)) ic2 chs o2"
  shows "upload_out hash evp_enc cmp rng denc D (Collect (used_feature cm2)) ic2 (ch # chs) (o1 @ o2)"
proof -
  have "\<exists>ch' \<in> set (ch # chs). stored_form hash evp_enc cmp rng denc (Collect (used_feature cm2)) ic2 ch' w \<and> w_fp w \<notin> D" if "w \<in> set (o1 @ o2)" for w
  proof (cases "w \<in> set o1")
    case True
    with n have "stored_form hash evp_enc cmp rng denc (Collect (used_feature cm1)) ic1 ch w" "dual_fp hash evp_enc cmp rng ch \<notin> D"
      by (auto simp: new_chunk_def split: if_splits)
    moreover from this have "w_fp w \<notin> D" by (simp add: stored_form_def)
    ultimately show ?thesis using stored_form_keeps [OF _ k] by auto
  next
    case False
    with that u show ?thesis by (auto simp: upload_out_def)
  qed
  moreover have "dual_fp hash evp_enc cmp rng ch \<in> D \<or> dual_fp hash evp_enc cmp rng ch \<in> set (map w_fp o1)"
    using n by (auto simp: new_chunk_def stored_form_def split: if_splits)
  ultimately show ?thesis using u by (auto simp: upload_out_def)
qed

lemma server_chunk:
  assumes env: "evp_ok evp_enc evp_dec" "codec_ok cmp dcmp" "\<And>x. length (hash x) = CHUNK_HASH_SIZE"
      "\<And>m. mset (iter m) = mset m" "delta_total denc"
    and ch: "cipher_ok evp_enc ch" and ws: "map view ws = chunk_view hash evp_enc cmp rng ch sim"
    and st: "cache_sync cm (cc_inform_cache cc)" "cache_room (Suc n) (cc_inform_cache cc)" "cm_chunk cm (c_features ch) = (cm', sim)"
  shows "\<exists>dd' os cc' outs. run_thd (DualDedupThd_step feat) dd ws = Inr (dd', os) \<and>
    run_thd (CacheCompThd_step denc iter) cc os = Inr (cc', outs) \<and> cache_sync cm' (cc_inform_cache cc') \<and>
    cache_room n (cc_inform_cache cc') \<and> cache_keeps cm (cc_inform_cache cc) cm' (cc_inform_cache cc') \<and>
    dual_dom dd' = insert (dual_fp hash evp_enc cmp rng ch) (dual_dom dd) \<and>
    new_chunk hash evp_enc cmp rng denc (dual_dom dd) cm' (cc_inform_cache cc') ch outs"
proof (cases sim)
  case True
  then have "map view ws = chunk_view hash evp_enc cmp rng ch True" "cm_chunk cm (c_features ch) = (cm', True)"
    using ws st(3) by simp_all
  from server_similar [OF env(1) ch this(1) st(1,2) this(2) env(4,5)] show ?thesis .
next
  case False
  then have "map view ws = chunk_view hash evp_enc cmp rng ch False" "cm_chunk cm (c_features ch) = (cm', False)"
    using ws st(3) by simp_all
  from server_announced [OF env(1,2) ch env(3) this(1) st(1,2) this(2)] show ?thesis .
qed

lemma server_run:
  assumes env: "evp_ok evp_enc evp_dec" "codec_ok cmp dcmp" "\<And>x. length (hash x) = CHUNK_HASH_SIZE"
      "\<And>m. mset (iter m) = mset m" "delta_total denc"
    and "\<forall>ch \<in> set chs. cipher_ok evp_enc ch" "map view ws = stream_view hash evp_enc cmp rng chs sims"
    and "cache_sync cm (cc_inform_cache cc)" "cache_room (length chs + n) (cc_inform_cache cc)"
    and "cm_run cm (map c_features chs) = (cm', sims)"
  shows "\<exists>dd' os cc' outs. run_thd (DualDedupThd_step feat) dd ws = Inr (dd', os) \<and>
    run_thd (CacheCompThd_step denc iter) cc os = Inr (cc', outs) \<and> cache_sync cm' (cc_inform_cache cc') \<and>
    cache_room n (cc_inform_cache cc') \<and> cache_keeps cm (cc_inform_cache cc) cm' (cc_inform_cache cc') \<and>
    dual_dom dd' = dual_dom dd \<union> dual_fp hash evp_enc cmp rng ` set chs \<and>
    upload_out hash evp_enc cmp rng denc (dual_dom dd) (Collect (used_feature cm')) (cc_inform_cache cc') chs outs"
  using assms(6-10)
proof (induction chs arbitrary: ws sims cm cc dd)
  case Nil
  then show ?case by (simp add: stream_view_def upload_out_def)
next
  case (Cons ch chs)
  obtain cm1 sim sims' where c: "cm_chunk cm (c_features ch) = (cm1, sim)" "cm_run cm1 (map c_features chs) = (cm', sims')"
      "sims = sim # sims'"
    using Cons.prems(5) by (auto split: prod.splits)
  obtain ws1 ws2 where w: "ws = ws1 @ ws2" "map view ws1 = chunk_view hash evp_enc cmp rng ch sim"
      "map view ws2 = stream_view hash evp_enc cmp rng chs sims'"
    using Cons.prems(2) unfolding c(3) stream_view_def by (auto simp: map_eq_append_conv)
  have ch: "cipher_ok evp_enc ch" and chs: "\<forall>ch \<in> set chs. cipher_ok evp_enc ch" using Cons.prems(1) by simp_all
  have room: "cache_room (Suc (length chs + n)) (cc_inform_cache cc)" using Cons.prems(4) by simp
  from server_chunk [OF env ch w(2) Cons.prems(3) room c(1), of feat dd]
  obtain dd1 o1 cc1 out1 where 1: "run_thd (DualDedupThd_step feat) dd ws1 = Inr (dd1, o1)"
      "run_thd (CacheCompThd_step denc iter) cc o1 = Inr (cc1, out1)" "cache_sync cm1 (cc_inform_cache cc1)"
      "cache_room (length chs + n) (cc_inform_cache cc1)" "cache_keeps cm (cc_inform_cache cc) cm1 (cc_inform_cache cc1)"
      "dual_dom dd1 = insert (dual_fp hash evp_enc cmp rng ch) (dual_dom dd)"
      "new_chunk hash evp_enc cmp rng denc (dual_dom dd) cm1 (cc_inform_cache cc1) ch out1" by blast
  from Cons.IH [OF chs w(3) 1(3,4) c(2), of dd1]
  obtain dd2 o2 cc2 out2 where 2: "run_thd (DualDedupThd_step feat) dd1 ws2 = Inr (dd2, o2)"
      "run_thd (CacheCompThd_step denc iter) cc1 o2 = Inr (cc2, out2)" "cache_sync cm' (cc_inform_cache cc2)"
      "cache_room n (cc_inform_cache cc2)" "cache_keeps cm1 (cc_inform_cache cc1) cm' (cc_inform_cache cc2)"
      "dual_dom dd2 = dual_dom dd1 \<union> dual_fp hash evp_enc cmp rng ` set chs"
      "upload_out hash evp_enc cmp rng denc (dual_dom dd1) (Collect (used_feature cm')) (cc_inform_cache cc2) chs out2" by blast
  have "run_thd (DualDedupThd_step feat) dd ws = Inr (dd2, o1 @ o2)" using 1(1) 2(1) by (simp add: w(1) run_thd_append)
  moreover have "run_thd (CacheCompThd_step denc iter) cc (o1 @ o2) = Inr (cc2, out1 @ out2)"
    using 1(2) 2(2) by (simp add: run_thd_append)
  moreover have "upload_out hash evp_enc cmp rng denc (dual_dom dd) (Collect (used_feature cm')) (cc_inform_cache cc2) (ch # chs) (out1 @ out2)"
    by (rule upload_out_Cons [OF 1(7) 2(5) 2(7) [unfolded 1(6)]])
  ultimately show ?case using 1(6) 2(3,4,6) cache_keeps_trans [OF 1(5) 2(5)] by auto
qed

subsection \<open>The messages of an upload\<close>

lemma sender_run:
  assumes evp: "evp_ok evp_enc evp_dec" and batch: "0 < batch" "0 < key_batch" and us: "\<forall>u \<in> set us. unit_ok u"
    and r: "sc_type (s2_chunk r) = RECIPE_CHUNK" "length (sc_data (s2_chunk r)) \<le> SEND_CHUNK_SIZE"
    and ev: "EvictFeature cm = (cm', ms)"
  shows "\<exists>sd' gs. run_thd (SenderThd_step evp_enc) (sender_new batch key_batch cm) (concat us @ [r]) =
      Inr (sd', map (group_msg evp_enc) gs @ [(CLIENT_UPLOAD_RECIPE_END, 0, sc_data (s2_chunk r))] @
                map (\<lambda>(n, d). (CLIENT_UPLOAD_FEATURE, n, d)) ms) \<and>
    concat gs = us \<and> sd_key_file sd' = concat (map unit_key us) \<and> sd_cache_meta sd' = cm'"
proof -
  have "sender_inv evp_enc (sender_new batch key_batch cm) [] []"
    using batch by (simp add: sender_inv_def sender_new_def)
  from SenderThd_units [OF evp us this] obtain sd1 gs pend where
      1: "run_thd (SenderThd_step evp_enc) (sender_new batch key_batch cm) (concat us) = Inr (sd1, map (group_msg evp_enc) gs)"
      "sender_inv evp_enc sd1 pend (map unit_key us)" "concat gs @ pend = us" "sd_cache_meta sd1 = cm"
    by (auto simp: sender_new_def)
  from SenderThd_recipe [OF 1(2) r, of cm' ms] ev 1(4) obtain sd2 where
      2: "SenderThd_step evp_enc sd1 r = Inr (sd2, map (group_msg evp_enc) (if pend = [] then [] else [pend]) @
        [(CLIENT_UPLOAD_RECIPE_END, 0, sc_data (s2_chunk r))] @ map (\<lambda>(n, d). (CLIENT_UPLOAD_FEATURE, n, d)) ms)"
      "sd_key_file sd2 = concat (map unit_key us)" "sd_cache_meta sd2 = cm'" by auto
  show ?thesis
    using 1 2 by (intro exI [of _ sd2] exI [of _ "gs @ (if pend = [] then [] else [pend])"])
      (cases "pend = []"; simp add: run_thd_append)
qed

text \<open>The receiver's buffer of fingerprints is empty when its count is zero.\<close>

definition recipe_ok :: "data_recv \<Rightarrow> bool" where
  "recipe_ok dr \<longleftrightarrow> (dr_recipe_cnt dr = 0 \<longrightarrow> dr_recipe_buf dr = [])"

lemma recipe_ok_simps [simp]: "recipe_ok (ProcessRecipe dr fp)" "recipe_ok (count_logical dr n) = recipe_ok dr"
  "recipe_ok (dr \<lparr> dr_chunk_batch_num := k \<rparr>) = recipe_ok dr"
  by (simp_all add: recipe_ok_def ProcessRecipe_def Let_def count_logical_def)

lemma recv_chunk_recipe_ok:
  "recv_cache_pair hash buf dr info off sz fs = Inr (dr1, r) \<Longrightarrow> recipe_ok dr1"
  "recv_single hash buf dr info off sz fs cfp = Inr (dr1, r) \<Longrightarrow> recipe_ok dr1"
  "recv_normal hash feat buf dr info off sz = Inr (dr1, r) \<Longrightarrow> recipe_ok dr1"
proof -
  show "recv_cache_pair hash buf dr info off sz fs = Inr (dr1, r) \<Longrightarrow> recipe_ok dr1"
    and "recv_single hash buf dr info off sz fs cfp = Inr (dr1, r) \<Longrightarrow> recipe_ok dr1"
    by (auto simp: recv_cache_pair_def recv_single_def bindR_eq_Inr Let_def)
  assume "recv_normal hash feat buf dr info off sz = Inr (dr1, r)"
  then obtain d where d: "read_data buf off sz = Inr d" by (auto simp: recv_normal_def bindR_eq_Inr)
  obtain i m where "DetectDuplicate (info \<lparr> ci_fp := hash d, ci_addr := (ci_addr info)
      \<lparr> a_compressed_fp := replicate CHUNK_HASH_SIZE 0 \<rparr> \<rparr>) (dr_fp_2_addr dr) = (i, m)" by fastforce
  with \<open>recv_normal hash feat buf dr info off sz = Inr (dr1, r)\<close> d show "recipe_ok dr1"
    by (cases "ci_stat i = UNIQUE_CHUNK") (auto simp: recv_normal_def Let_def recipe_ok_def ProcessRecipe_def count_logical_def)
qed

lemma recv_loop_recipe_ok:
  "recv_loop hash feat buf n (dr, info, off) = Inr (dr', os) \<Longrightarrow> recipe_ok dr \<Longrightarrow> recipe_ok dr'"
proof (induction n arbitrary: dr info off os)
  case 0
  then show ?case by simp
next
  case (Suc n)
  from Suc.prems(1) obtain sz t fs cfp where h: "read_header buf off = Inr (sz, t, fs, cfp)"
    by (auto simp: bindR_eq_Inr)
  let ?r = "case t of
                   Some FULL_EDR_CACHE_CHUNK \<Rightarrow> recv_cache_pair hash buf dr info (off + HEADER_SIZE) sz fs
                 | Some FULL_EDR_UNCOMPRESS_CHUNK \<Rightarrow> recv_single hash buf dr info (off + HEADER_SIZE) sz fs cfp
                 | Some NORMAL_CHUNK \<Rightarrow> recv_normal hash feat buf dr info (off + HEADER_SIZE) sz
                 | _ \<Rightarrow> Inl WrongChunkType"
  obtain dr1 i1 off1 os1 where 1: "?r = Inr (dr1, i1, off1, os1)"
      and 2: "\<exists>os2. recv_loop hash feat buf n (dr1, i1, off1) = Inr (dr', os2)"
    using Suc.prems(1) h by (auto simp: bindR_eq_Inr Let_def)
  have "recipe_ok dr1"
    using 1 by (auto dest: recv_chunk_recipe_ok split: option.splits data_type.splits)
  with 2 Suc.IH show ?case by blast
qed

lemma recv_groups:
  assumes evp: "evp_ok evp_enc evp_dec" and "\<forall>u \<in> set (concat gs). edr_unit u" "recipe_ok dr"
  shows "\<exists>dr' ws. run_thd (DataRecvThd_step hash feat) dr (map (group_msg evp_enc) gs) = Inr (dr', ws) \<and>
    map view ws = concat (map (unit_view hash evp_enc) (concat gs)) \<and> recipe_ok dr' \<and>
    recipe_stream dr' = recipe_stream dr @ concat (map (\<lambda>u. take CHUNK_HASH_SIZE (unit_fp hash evp_enc u)) (concat gs))"
  using assms(2,3)
proof (induction gs arbitrary: dr)
  case Nil
  then show ?case by simp
next
  case (Cons g gs)
  have g: "\<forall>u \<in> set g. edr_unit u" using Cons.prems(1) by simp
  let ?dr = "dr \<lparr> dr_chunk_batch_num := dr_chunk_batch_num dr + 1 \<rparr>"
  from recv_group [OF evp g, of hash feat "[]" ?dr chunk_info_init] obtain dr1 ws1 where
      1: "recv_loop hash feat (concat (map (unit_bytes evp_enc) g)) (length g) (?dr, chunk_info_init, 0) = Inr (dr1, ws1)"
      "map view ws1 = concat (map (unit_view hash evp_enc) g)"
      "recipe_stream dr1 = recipe_stream dr @ concat (map (\<lambda>u. take CHUNK_HASH_SIZE (unit_fp hash evp_enc u)) g)"
    by (auto simp: recipe_stream_def)
  have s1: "DataRecvThd_step hash feat dr (group_msg evp_enc g) = Inr (dr1, ws1)"
    using 1(1) by (simp add: DataRecvThd_step_def group_msg_def ProcessChunks_def)
  have "recipe_ok dr1" using recv_loop_recipe_ok [OF 1(1)] Cons.prems(2) by simp
  with Cons.IH [of dr1] Cons.prems(1) obtain dr2 ws2 where
      2: "run_thd (DataRecvThd_step hash feat) dr1 (map (group_msg evp_enc) gs) = Inr (dr2, ws2)"
      "map view ws2 = concat (map (unit_view hash evp_enc) (concat gs))" "recipe_ok dr2"
      "recipe_stream dr2 = recipe_stream dr1 @ concat (map (\<lambda>u. take CHUNK_HASH_SIZE (unit_fp hash evp_enc u)) (concat gs))"
    by auto
  show ?case using s1 1(2,3) 2 by (intro exI [of _ dr2] exI [of _ "ws1 @ ws2"]) simp
qed

definition evict_chunk :: "wrapped_chunk \<Rightarrow> bool" where
  "evict_chunk w \<longleftrightarrow> ci_stat (w_info w) = CACHE_EVICT_CHUNK \<and> 8 dvd length (w_data w)"

lemma recv_evictions:
  "\<exists>ws. run_thd (DataRecvThd_step hash feat) dr (map (\<lambda>(n, d). (CLIENT_UPLOAD_FEATURE, n, d)) (map feature_msg_of mss)) =
      Inr (dr, ws) \<and> concat (map w_data ws) = feature_bytes (concat mss) \<and> (\<forall>w \<in> set ws. evict_chunk w)"
proof (induction mss)
  case Nil
  then show ?case by (simp add: feature_bytes_def)
next
  case (Cons fs mss)
  have "length (feature_bytes fs) = length fs * 8" by simp
  from evict_split_spec [OF this, of 0] obtain os where
      1: "evict_split (feature_bytes fs) (length fs) 0 = Inr os" "concat (map w_data os) = feature_bytes fs"
      "\<forall>w \<in> set os. evict_chunk w" by (auto simp: evict_chunk_def)
  have s1: "DataRecvThd_step hash feat dr (CLIENT_UPLOAD_FEATURE, feature_msg_of fs) = Inr (dr, os)"
    using 1(1) by (simp add: DataRecvThd_step_def ProcessEvictFeature_def feature_msg_of_def)
  from Cons obtain ws where 2: "run_thd (DataRecvThd_step hash feat) dr
      (map (\<lambda>(n, d). (CLIENT_UPLOAD_FEATURE, n, d)) (map feature_msg_of mss)) = Inr (dr, ws)"
      "concat (map w_data ws) = feature_bytes (concat mss)" "\<forall>w \<in> set ws. evict_chunk w" by blast
  have "feature_bytes (concat (fs # mss)) = feature_bytes fs @ feature_bytes (concat mss)" by (simp add: feature_bytes_def)
  then show ?case using s1 1(2,3) 2
    by (intro exI [of _ "os @ ws"]) auto
qed

lemma feature_bytes_split:
  assumes "d @ ds = feature_bytes fs" "length d = 8 * k"
  obtains fs1 fs2 where "fs = fs1 @ fs2" "d = feature_bytes fs1" "ds = feature_bytes fs2"
proof -
  have len: "length d + length ds = 8 * length fs" using arg_cong [OF assms(1), of length] by simp
  have k: "k \<le> length fs" using len assms(2) by simp
  have "feature_bytes fs = feature_bytes (take k fs) @ feature_bytes (drop k fs)"
    unfolding feature_bytes_def by (metis append_take_drop_id concat_append map_append)
  moreover have "length (feature_bytes (take k fs)) = length d" using assms(2) k by simp
  ultimately have "d = feature_bytes (take k fs)" "ds = feature_bytes (drop k fs)" using assms(1) by (metis append_eq_append_conv)+
  then show thesis by (intro that [of "take k fs" "drop k fs"]) simp_all
qed

lemma comp_evictions:
  assumes "\<forall>w \<in> set ws. evict_chunk w" "concat (map w_data ws) = feature_bytes fs"
    and "foldR evict_feature (cc_inform_cache cc) fs = Inr ic"
  shows "run_thd (CacheCompThd_step denc iter) cc ws = Inr (cc \<lparr> cc_inform_cache := ic \<rparr>, [])"
  using assms
proof (induction ws arbitrary: fs cc)
  case Nil
  then have "8 * length fs = length ([] :: bytes)" by (metis concat.simps(1) length_feature_bytes list.map(1))
  with Nil show ?case by simp
next
  case (Cons w ws)
  obtain k where k: "length (w_data w) = 8 * k" using Cons.prems(1) by (auto simp: evict_chunk_def elim: dvdE)
  obtain fs1 fs2 where f: "fs = fs1 @ fs2" "w_data w = feature_bytes fs1" "concat (map w_data ws) = feature_bytes fs2"
    using feature_bytes_split [of "w_data w" "concat (map w_data ws)" fs k] Cons.prems(2) k by auto
  obtain ic1 where e: "foldR evict_feature (cc_inform_cache cc) fs1 = Inr ic1" "foldR evict_feature ic1 fs2 = Inr ic"
    using Cons.prems(3) by (auto simp: f(1) foldR_append bindR_eq_Inr)
  have "EvictCacheChunk (cc_inform_cache cc) w = Inr ic1"
    using e(1) by (simp add: EvictCacheChunk_def f(2) features_of_bytes Let_def del: length_feature_bytes)
  then have s: "CacheCompThd_step denc iter cc w = Inr (cc \<lparr> cc_inform_cache := ic1 \<rparr>, [])"
    using Cons.prems(1) by (simp add: CacheCompThd_step_def evict_chunk_def)
  from Cons.IH [of fs2 "cc \<lparr> cc_inform_cache := ic1 \<rparr>"] Cons.prems(1) f(3) e(2) s show ?case by simp
qed

lemma dual_evictions:
  "\<forall>w \<in> set ws. evict_chunk w \<Longrightarrow> run_thd (DualDedupThd_step feat) dd ws = Inr (dd, ws)"
  by (induction ws) (simp_all add: DualDedupThd_step_def evict_chunk_def)


lemma evict_feature_size:
  assumes "evict_feature ic f = Inr ic'"
  shows "dom (map_of (ic_base_2_cnt ic')) = dom (map_of (ic_base_2_cnt ic))"
    and "length (ic_base_2_cnt ic') = length (ic_base_2_cnt ic)" "length (ic_feature_2_fp ic') \<le> length (ic_feature_2_fp ic)"
    and "ic_base_2_data ic' = ic_base_2_data ic"
proof -
  obtain b c z where b: "map_of (ic_feature_2_fp ic) f = Some b" "map_of (ic_base_2_cnt ic) b = Some (c, z)"
      "ic' = ic \<lparr> ic_base_2_cnt := AList.update b (if 0 < c then c - 1 else 0, z) (ic_base_2_cnt ic),
                 ic_feature_2_fp := AList.delete f (ic_feature_2_fp ic) \<rparr>"
    using assms by (auto simp: evict_feature_def split: option.splits)
  have "b \<in> fst ` set (ic_base_2_cnt ic)" using b(2) by (metis domI dom_map_of_conv_image_fst)
  then have "length (AList.update b x (ic_base_2_cnt ic)) = length (ic_base_2_cnt ic)" for x
    by (rule length_update_known)
  then show "length (ic_base_2_cnt ic') = length (ic_base_2_cnt ic)" using b(3) by simp
  show "dom (map_of (ic_base_2_cnt ic')) = dom (map_of (ic_base_2_cnt ic))" using b(2,3) by (auto simp: domIff)
  show "length (ic_feature_2_fp ic') \<le> length (ic_feature_2_fp ic)" using b(3) by (simp add: AList.length_delete_le)
  show "ic_base_2_data ic' = ic_base_2_data ic" using b(3) by simp
qed

lemma evictions_room:
  "foldR evict_feature ic fs = Inr ic' \<Longrightarrow> cache_room 0 ic \<Longrightarrow> cache_room 0 ic'"
proof (induction fs arbitrary: ic)
  case Nil
  then show ?case by simp
next
  case (Cons f fs)
  obtain ic1 where 1: "evict_feature ic f = Inr ic1" "foldR evict_feature ic1 fs = Inr ic'"
    using Cons.prems(1) by (auto simp: bindR_eq_Inr)
  note z = evict_feature_size [OF 1(1)]
  have "unat (c :: u32) < 2 ^ LENGTH(32)" for c by (rule unsigned_less)
  then have "counts_small 0 ic1" by (simp add: counts_small_def cnt_of_def split: option.splits)
  moreover have "(map_of (ic_base_2_cnt ic1) b \<noteq> None) = (map_of (ic_base_2_cnt ic) b \<noteq> None)" for b
    using z(1) by (simp add: domIff set_eq_iff)
  ultimately have "cache_room 0 ic1" using Cons.prems(2) z by (simp add: cache_room_def)
  with Cons.IH [OF 1(2)] show ?case .
qed


subsection \<open>The whole upload\<close>

lemma upload_inputs:
  assumes evp: "evp_ok evp_enc evp_dec" and codec: "codec_ok cmp dcmp" and hash: "\<And>x. length (hash x) = CHUNK_HASH_SIZE"
    and chs: "\<forall>ch \<in> set chs. cipher_ok evp_enc ch" and ws: "map view ws = stream_view hash evp_enc cmp rng chs sims"
  shows "\<forall>w \<in> set ws. upload_input w"
proof
  fix w assume "w \<in> set ws"
  then have "view w \<in> set (stream_view hash evp_enc cmp rng chs sims)" unfolding ws [symmetric] by simp
  then obtain ch sim where ch: "ch \<in> set chs" "view w \<in> set (chunk_view hash evp_enc cmp rng ch sim)"
    by (auto simp: stream_view_def dest: set_zip_leftD)
  then have ok: "cipher_ok evp_enc ch" using chs by simp
  note d = cipher_data [OF evp ok] and e = packed_ok [OF evp codec ok, of rng]
  have "length (dual_fp hash evp_enc cmp rng ch) = CHUNK_HASH_SIZE" by (simp add: dual_fp_def hash)
  with ch(2) d e show "upload_input w"
    by (auto simp: upload_input_def dual_input_def is_cache_msg_def chunk_view_def Let_def view_simps split: if_splits)
qed

lemma recipe_file_end:
  assumes "recipe_ok dr" "recipe_stream dr = replicate RECIPE_HEAD_SIZE 0 @ r" "length h = RECIPE_HEAD_SIZE"
  shows "dr_recipe_file (ProcessRecipeEnd dr h) = h @ r"
proof -
  have "(if dr_recipe_cnt dr \<noteq> 0 then dr_recipe_file dr @ dr_recipe_buf dr else dr_recipe_file dr) = recipe_stream dr"
    using assms(1) by (auto simp: recipe_ok_def recipe_stream_def)
  then show ?thesis using assms(2,3) by (simp add: ProcessRecipeEnd_def overlay_def)
qed

lemma client_messages:
  assumes evp: "evp_ok evp_enc evp_dec" and codec: "codec_ok cmp dcmp" and hash: "\<And>x. length (hash x) = CHUNK_HASH_SIZE"
    and chs: "\<forall>ch \<in> set chs. cipher_ok evp_enc ch" and rc: "c_type rc = RECIPE_CHUNK" and sl: "arrays_ok sl"
    and cm: "cm_run (sl_cache_meta sl) (map c_features chs) = (cm1, sims)" "EvictFeature cm1 = (cm2, ms)"
    and batch: "0 < batch" "0 < key_batch"
  shows "\<exists>sl' body sd gs.
    run_thd (SelectCompThd_step hash evp_enc cmp rng FULL_EDR) sl (chs @ [rc]) = Inr (sl', body) \<and> sl_cache_meta sl' = cm1 \<and>
    run_thd (SenderThd_step evp_enc) (sender_new batch key_batch (sl_cache_meta sl')) body =
      Inr (sd, map (group_msg evp_enc) gs @ [(CLIENT_UPLOAD_RECIPE_END, 0, recipe_head_bytes (c_head rc))] @
               map (\<lambda>(n, d). (CLIENT_UPLOAD_FEATURE, n, d)) ms) \<and>
    sd_cache_meta sd = cm2 \<and> sd_key_file sd = concat (map c_key chs) \<and> (\<forall>u \<in> set (concat gs). edr_unit u) \<and>
    map (unit_fp hash evp_enc) (concat gs) = map (dual_fp hash evp_enc cmp rng) chs \<and>
    concat (map (unit_view hash evp_enc) (concat gs)) = stream_view hash evp_enc cmp rng chs sims"
proof -
  from select_run [where hash = hash and rng = rng, OF evp codec hash chs sl cm(1)] obtain sl1 us where
      1: "run_thd (SelectCompThd_step hash evp_enc cmp rng FULL_EDR) sl chs = Inr (sl1, concat us)"
      "sl_cache_meta sl1 = cm1" "\<forall>u \<in> set us. edr_unit u" "map unit_key us = map c_key chs"
      "map (unit_fp hash evp_enc) us = map (dual_fp hash evp_enc cmp rng) chs"
      "concat (map (unit_view hash evp_enc) us) = stream_view hash evp_enc cmp rng chs sims" by blast
  let ?r = "put_chunk (sl_send sl1) RECIPE_CHUNK (recipe_head_bytes (c_head rc))"
  have 2: "SelectCompThd_step hash evp_enc cmp rng FULL_EDR sl1 rc = Inr (sl1 \<lparr> sl_send := ?r \<rparr>, [?r])"
    using rc by (simp add: SelectCompThd_step_def FullEDR_def)
  have 3: "\<forall>u \<in> set us. unit_ok u" using 1(3) by (simp add: edr_unit_def)
  have 4: "sc_type (s2_chunk ?r) = RECIPE_CHUNK" "length (sc_data (s2_chunk ?r)) \<le> SEND_CHUNK_SIZE"
    by (simp_all add: put_chunk_def recipe_head_bytes_def SEND_CHUNK_SIZE_def)
  have data: "sc_data (s2_chunk ?r) = recipe_head_bytes (c_head rc)" by (simp add: put_chunk_def)
  from sender_run [OF evp batch 3 4 cm(2)] obtain sd gs where
      5: "run_thd (SenderThd_step evp_enc) (sender_new batch key_batch cm1) (concat us @ [?r]) =
        Inr (sd, map (group_msg evp_enc) gs @ [(CLIENT_UPLOAD_RECIPE_END, 0, recipe_head_bytes (c_head rc))] @
                 map (\<lambda>(n, d). (CLIENT_UPLOAD_FEATURE, n, d)) ms)"
      "concat gs = us" "sd_key_file sd = concat (map unit_key us)" "sd_cache_meta sd = cm2" unfolding data by blast
  show ?thesis
  proof (intro exI conjI)
    show "run_thd (SelectCompThd_step hash evp_enc cmp rng FULL_EDR) sl (chs @ [rc]) =
        Inr (sl1 \<lparr> sl_send := ?r \<rparr>, concat us @ [?r])"
      using 1(1) 2 by (simp add: run_thd_append)
    show "sl_cache_meta (sl1 \<lparr> sl_send := ?r \<rparr>) = cm1" using 1(2) by simp
    then show "run_thd (SenderThd_step evp_enc) (sender_new batch key_batch (sl_cache_meta (sl1 \<lparr> sl_send := ?r \<rparr>))) (concat us @ [?r]) =
        Inr (sd, map (group_msg evp_enc) gs @ [(CLIENT_UPLOAD_RECIPE_END, 0, recipe_head_bytes (c_head rc))] @
                 map (\<lambda>(n, d). (CLIENT_UPLOAD_FEATURE, n, d)) ms)" using 5(1) by simp
  qed (use 1 5 in simp_all)
qed

lemma recv_upload:
  assumes evp: "evp_ok evp_enc evp_dec" and hash: "\<And>x. length (hash x) = CHUNK_HASH_SIZE"
    and gs: "\<forall>u \<in> set (concat gs). edr_unit u" "map (unit_fp hash evp_enc) (concat gs) = map (dual_fp hash evp_enc cmp rng) chs"
      "concat (map (unit_view hash evp_enc) (concat gs)) = stream_view hash evp_enc cmp rng chs sims"
  shows "\<exists>dr ws1 ws2.
    run_thd (DataRecvThd_step hash feat) (data_recv_new recipe_batch idx)
      (map (group_msg evp_enc) gs @ [(CLIENT_UPLOAD_RECIPE_END, 0, recipe_head_bytes h)] @
       map (\<lambda>(n, d). (CLIENT_UPLOAD_FEATURE, n, d)) (map feature_msg_of mss)) = Inr (dr, ws1 @ ws2) \<and>
    dr_recipe_file dr = recipe_head_bytes h @ concat (map (dual_fp hash evp_enc cmp rng) chs) \<and>
    map view ws1 = stream_view hash evp_enc cmp rng chs sims \<and>
    concat (map w_data ws2) = feature_bytes (concat mss) \<and> (\<forall>w \<in> set ws2. evict_chunk w)"
proof -
  let ?dr = "data_recv_new recipe_batch idx"
  have "recipe_ok ?dr" by (simp add: recipe_ok_def data_recv_new_def)
  from recv_groups [OF evp gs(1) this, of hash feat] obtain dr1 ws1 where
      1: "run_thd (DataRecvThd_step hash feat) ?dr (map (group_msg evp_enc) gs) = Inr (dr1, ws1)"
      "map view ws1 = concat (map (unit_view hash evp_enc) (concat gs))" "recipe_ok dr1"
      "recipe_stream dr1 = recipe_stream ?dr @ concat (map (\<lambda>u. take CHUNK_HASH_SIZE (unit_fp hash evp_enc u)) (concat gs))"
    by blast
  have "concat (map (\<lambda>u. take CHUNK_HASH_SIZE (unit_fp hash evp_enc u)) (concat gs)) =
      concat (map (take CHUNK_HASH_SIZE) (map (unit_fp hash evp_enc) (concat gs)))" by (simp add: comp_def)
  also have "\<dots> = concat (map (dual_fp hash evp_enc cmp rng) chs)" unfolding gs(2) by (simp add: comp_def dual_fp_def [abs_def] hash)
  finally have st: "recipe_stream dr1 = replicate RECIPE_HEAD_SIZE 0 @ concat (map (dual_fp hash evp_enc cmp rng) chs)"
    using 1(4) by (simp add: recipe_stream_def data_recv_new_def)
  let ?dr2 = "ProcessRecipeEnd dr1 (recipe_head_bytes h)"
  have r: "dr_recipe_file ?dr2 = recipe_head_bytes h @ concat (map (dual_fp hash evp_enc cmp rng) chs)"
    by (rule recipe_file_end [OF 1(3) st]) (simp add: recipe_head_bytes_def RECIPE_HEAD_SIZE_def)
  from recv_evictions [of hash feat ?dr2 mss] obtain ws2 where
      2: "run_thd (DataRecvThd_step hash feat) ?dr2 (map (\<lambda>(n, d). (CLIENT_UPLOAD_FEATURE, n, d)) (map feature_msg_of mss)) =
        Inr (?dr2, ws2)" "concat (map w_data ws2) = feature_bytes (concat mss)" "\<forall>w \<in> set ws2. evict_chunk w" by blast
  have e: "DataRecvThd_step hash feat dr1 (CLIENT_UPLOAD_RECIPE_END, 0, recipe_head_bytes h) = Inr (?dr2, [])"
    by (simp add: DataRecvThd_step_def)
  have "run_thd (DataRecvThd_step hash feat) ?dr
      (map (group_msg evp_enc) gs @ [(CLIENT_UPLOAD_RECIPE_END, 0, recipe_head_bytes h)] @
       map (\<lambda>(n, d). (CLIENT_UPLOAD_FEATURE, n, d)) (map feature_msg_of mss)) = Inr (?dr2, ws1 @ ws2)"
    unfolding run_thd_append 1(1) using 2(1) e by (simp add: run_thd_append)
  with r 1(2) gs(3) 2(2,3) show ?thesis by auto
qed

text \<open>The evictions leave the base chunks of the features that the upload has used.\<close>

lemma evict_upload_out:
  assumes u: "upload_out hash evp_enc cmp rng denc D (Collect (used_feature cm1)) ic1 chs outs"
    and f: "map_of (ic_feature_2_fp ic2) = (map_of (ic_feature_2_fp ic1)) |` (- E)" and b: "ic_base_2_data ic2 = ic_base_2_data ic1"
    and e: "\<And>f v. f \<in> E \<Longrightarrow> map_of (cm_feature_2_version cm1) f = Some v \<Longrightarrow> v \<noteq> cm_cur_version cm1"
  shows "upload_out hash evp_enc cmp rng denc D UNIV ic2 chs outs"
proof -
  have "map_of (ic_feature_2_fp ic2) f = map_of (ic_feature_2_fp ic1) f" if "used_feature cm1 f" for f
  proof -
    have "f \<notin> E" using e [of f "cm_cur_version cm1"] that by (auto simp: used_feature_def)
    then show ?thesis by (simp add: f)
  qed
  then have "stored_form hash evp_enc cmp rng denc UNIV ic2 ch w"
    if "stored_form hash evp_enc cmp rng denc (Collect (used_feature cm1)) ic1 ch w" for ch w
    using that unfolding stored_form_def b mem_Collect_eq by (metis UNIV_I)
  with u show ?thesis unfolding upload_out_def by blast
qed

text \<open>The features of the chunks of the upload that had a base chunk before still have it.\<close>

definition cache_carries :: "enc_feature_chunk list \<Rightarrow> inform_cache \<Rightarrow> inform_cache \<Rightarrow> bool" where
  "cache_carries chs ic ic' \<longleftrightarrow>
     (\<forall>ch \<in> set chs. \<forall>f \<in> set (take SUPER_FEATURE_PER_CHUNK (c_features ch)). \<forall>b.
        map_of (ic_feature_2_fp ic) f = Some b \<longrightarrow> map_of (ic_feature_2_fp ic') f = Some b) \<and>
     (\<forall>b d. InMem_Query (ic_base_2_data ic) b = Some d \<longrightarrow> InMem_Query (ic_base_2_data ic') b = Some d)"

lemma evict_carries:
  assumes sync: "cache_sync cm ic" and cm: "cm_run cm (map c_features chs) = (cm1, sims)" and k: "cache_keeps cm ic cm1 ic1"
    and f: "map_of (ic_feature_2_fp ic2) = (map_of (ic_feature_2_fp ic1)) |` (- E)" and b: "ic_base_2_data ic2 = ic_base_2_data ic1"
    and e: "\<And>f v. f \<in> E \<Longrightarrow> map_of (cm_feature_2_version cm1) f = Some v \<Longrightarrow> v \<noteq> cm_cur_version cm1"
  shows "cache_carries chs ic ic2"
proof -
  have "map_of (ic_feature_2_fp ic2) g = Some x"
    if "ch \<in> set chs" "g \<in> set (take SUPER_FEATURE_PER_CHUNK (c_features ch))" "map_of (ic_feature_2_fp ic) g = Some x" for ch g x
  proof -
    have "g \<in> cm_dom cm" using sync that(3) by (auto simp: cache_sync_def)
    then have "used_feature cm1 g" using cm_run_used [OF cm _ that(2)] that(1) by simp
    then have "g \<notin> E" using e [of g "cm_cur_version cm1"] by (auto simp: used_feature_def)
    moreover have "map_of (ic_feature_2_fp ic1) g = Some x" using k that(3) by (simp add: cache_keeps_def)
    ultimately show ?thesis by (simp add: f)
  qed
  then show ?thesis using k b by (simp add: cache_carries_def cache_keeps_def)
qed

lemma server_messages:
  assumes env: "evp_ok evp_enc evp_dec" "codec_ok cmp dcmp" "\<And>x. length (hash x) = CHUNK_HASH_SIZE"
      "\<And>m. mset (iter m) = mset m" "delta_total denc"
    and chs: "\<forall>ch \<in> set chs. cipher_ok evp_enc ch" and sync: "cache_sync cm (cc_inform_cache cc)"
    and room: "cache_room (length chs) (cc_inform_cache cc)"
    and cm: "cm_run cm (map c_features chs) = (cm1, sims)" "EvictFeature cm1 = (cm2, ms)"
    and gs: "\<forall>u \<in> set (concat gs). edr_unit u" "map (unit_fp hash evp_enc) (concat gs) = map (dual_fp hash evp_enc cmp rng) chs"
      "concat (map (unit_view hash evp_enc) (concat gs)) = stream_view hash evp_enc cmp rng chs sims"
  shows "\<exists>dr ws dd' os cc' outs.
    run_thd (DataRecvThd_step hash feat) (data_recv_new recipe_batch idx)
      (map (group_msg evp_enc) gs @ [(CLIENT_UPLOAD_RECIPE_END, 0, recipe_head_bytes h)] @
       map (\<lambda>(n, d). (CLIENT_UPLOAD_FEATURE, n, d)) ms) = Inr (dr, ws) \<and>
    dr_recipe_file dr = recipe_head_bytes h @ concat (map (dual_fp hash evp_enc cmp rng) chs) \<and>
    (\<forall>w \<in> set ws. upload_input w) \<and> run_thd (DualDedupThd_step feat) dd ws = Inr (dd', os) \<and>
    run_thd (CacheCompThd_step denc iter) cc os = Inr (cc', outs) \<and> cache_sync cm2 (cc_inform_cache cc') \<and>
    cache_room 0 (cc_inform_cache cc') \<and> cache_carries chs (cc_inform_cache cc) (cc_inform_cache cc') \<and>
    upload_out hash evp_enc cmp rng denc (dual_dom dd) UNIV (cc_inform_cache cc') chs outs"
proof -
  have ok1: "cm_ok cm1" using cm_run_ok [OF cm(1)] sync by (simp add: cache_sync_def)
  from EvictFeature_spec [OF ok1 cm(2)] obtain mss where ms: "ms = map feature_msg_of mss" by blast
  from recv_upload [where rng = rng, OF env(1,3) gs, of feat recipe_batch idx h mss] obtain dr ws1 ws2 where
      r: "run_thd (DataRecvThd_step hash feat) (data_recv_new recipe_batch idx)
        (map (group_msg evp_enc) gs @ [(CLIENT_UPLOAD_RECIPE_END, 0, recipe_head_bytes h)] @
         map (\<lambda>(n, d). (CLIENT_UPLOAD_FEATURE, n, d)) ms) = Inr (dr, ws1 @ ws2)"
      "dr_recipe_file dr = recipe_head_bytes h @ concat (map (dual_fp hash evp_enc cmp rng) chs)"
      "map view ws1 = stream_view hash evp_enc cmp rng chs sims"
      "concat (map w_data ws2) = feature_bytes (concat mss)" "\<forall>w \<in> set ws2. evict_chunk w"
    unfolding ms by blast
  have "cache_room (length chs + 0) (cc_inform_cache cc)" using room by simp
  from server_run [where hash = hash and rng = rng and iter = iter and denc = denc and feat = feat and dd = dd,
      OF env chs r(3) sync this cm(1)]
  obtain dd' os cc1 outs where 1: "run_thd (DualDedupThd_step feat) dd ws1 = Inr (dd', os)"
      "run_thd (CacheCompThd_step denc iter) cc os = Inr (cc1, outs)" "cache_sync cm1 (cc_inform_cache cc1)"
      "cache_room 0 (cc_inform_cache cc1)" "cache_keeps cm (cc_inform_cache cc) cm1 (cc_inform_cache cc1)"
      "upload_out hash evp_enc cmp rng denc (dual_dom dd) (Collect (used_feature cm1)) (cc_inform_cache cc1) chs outs" by blast
  obtain mss' ic2 where e: "ms = map feature_msg_of mss'" "foldR evict_feature (cc_inform_cache cc1) (concat mss') = Inr ic2"
      "cache_sync cm2 ic2" "map_of (ic_feature_2_fp ic2) = (map_of (ic_feature_2_fp (cc_inform_cache cc1))) |` (- set (concat mss'))"
      "ic_base_2_data ic2 = ic_base_2_data (cc_inform_cache cc1)"
      "\<And>f v. f \<in> set (concat mss') \<Longrightarrow> map_of (cm_feature_2_version cm1) f = Some v \<Longrightarrow> v \<noteq> cm_cur_version cm1"
    by (rule sync_evict [OF 1(3) cm(2)]) blast
  have same: "feature_bytes (concat mss) = feature_bytes (concat mss')"
  proof -
    have "map snd ms = map feature_bytes mss" by (simp add: ms feature_msg_of_def)
    moreover have "map snd ms = map feature_bytes mss'" unfolding e(1) by (simp add: feature_msg_of_def)
    moreover have "feature_bytes (concat xs) = concat (map feature_bytes xs)" for xs by (induction xs) (simp_all add: feature_bytes_def)
    ultimately show ?thesis by simp
  qed
  have 2: "run_thd (DualDedupThd_step feat) dd (ws1 @ ws2) = Inr (dd', os @ ws2)"
    using 1(1) dual_evictions [OF r(5)] by (simp add: run_thd_append)
  have 3: "run_thd (CacheCompThd_step denc iter) cc (os @ ws2) = Inr (cc1 \<lparr> cc_inform_cache := ic2 \<rparr>, outs)"
    using 1(2) comp_evictions [OF r(5) r(4) [unfolded same] e(2)] by (simp add: run_thd_append)
  have in1: "\<forall>w \<in> set ws1. upload_input w" by (rule upload_inputs [OF env(1-3) chs r(3)])
  have in2: "\<forall>w \<in> set ws2. upload_input w"
    using r(5) by (simp add: upload_input_def dual_input_def is_cache_msg_def evict_chunk_def)
  have u: "upload_out hash evp_enc cmp rng denc (dual_dom dd) UNIV ic2 chs outs" by (rule evict_upload_out [OF 1(6) e(4,5,6)])
  have c: "cache_carries chs (cc_inform_cache cc) ic2" by (rule evict_carries [OF sync cm(1) 1(5) e(4,5,6)])
  show ?thesis
  proof (intro exI conjI)
    show "\<forall>w \<in> set (ws1 @ ws2). upload_input w" using in1 in2 by auto
    show "cache_room 0 (cc_inform_cache (cc1 \<lparr> cc_inform_cache := ic2 \<rparr>))" using evictions_room [OF e(2) 1(4)] by simp
  qed (use r(1,2) 2 3 e(3) u c in simp_all)
qed

end
