(* ===== verification/Restore.thy ===== *)
theory Restore
  imports Server_Write
begin

text \<open>
  Restoring a file on the server: \<open>src/server/data_reader_thd.cc\<close> walks over the file recipe and
  reads each chunk with its base, \<open>src/server/data_decoder_thd.cc\<close> decodes what the server can
  decode and sends batches. \<open>junk n\<close> is what an uninitialised buffer of \<open>n\<close> bytes holds.
\<close>

subsection \<open>The reader of the server\<close>

record data_reader =
  re_store :: storage_core
  re_client :: client_store
  re_fp_2_addr :: "(bytes, key_for_chunk) umap"
  re_inform :: inform_cache

definition reader_read :: "(nat \<Rightarrow> bytes) \<Rightarrow> data_reader \<Rightarrow> key_for_chunk \<Rightarrow> (data_reader \<times> bytes) result" where
  \<comment> \<open>the result of \<open>ReadChunk\<close> is not looked at: without a container the buffer keeps its junk\<close>
  "reader_read junk re addr =
    (if ENC_MAX_CHUNK_SIZE < a_len addr then Inl OutOfBounds
     else bindR (ReadChunk (re_store re) (re_client re) addr) (\<lambda>(sc, cl, r).
       Inr (re \<lparr> re_store := sc, re_client := cl \<rparr>, case r of Some d \<Rightarrow> d | None \<Rightarrow> junk (a_len addr))))"

definition ProcNormalDeltaChunk ::
  "(nat \<Rightarrow> bytes) \<Rightarrow> data_reader \<Rightarrow> key_for_chunk \<Rightarrow> reader_2_decoder \<Rightarrow> (data_reader \<times> reader_2_decoder) result" where
  "ProcNormalDeltaChunk junk re input_addr raw =
    (case map_of (re_fp_2_addr re) (a_base_fp input_addr) of
       None \<Rightarrow> Inl AddrNotFound
     | Some base_addr \<Rightarrow>
         bindR (reader_read junk re base_addr) (\<lambda>(re, d).
           Inr (re, raw \<lparr> rd_base_data := d, rd_base_type := a_stat base_addr \<rparr>)))"

definition Reader_ProcCacheDeltaChunk ::
  "(bytes \<Rightarrow> bytes \<Rightarrow> nat \<Rightarrow> bytes option) \<Rightarrow> (nat \<Rightarrow> bytes) \<Rightarrow> data_reader \<Rightarrow> key_for_chunk \<Rightarrow> reader_2_decoder \<Rightarrow>
   (data_reader \<times> reader_2_decoder) result" where
  "Reader_ProcCacheDeltaChunk ddec junk re input_addr raw =
    (if IsBaseChunkExist (re_inform re) (a_base_fp input_addr) then
       bindR (FetchBaseChunk (re_inform re) (a_base_fp input_addr)) (\<lambda>base.
         Inr (re, raw \<lparr> rd_base_data := base, rd_base_type := UNCOMP_BASE_CHUNK \<rparr>))
     else case map_of (re_fp_2_addr re) (a_base_fp input_addr) of
       None \<Rightarrow> Inl AddrNotFound
     | Some base_addr \<Rightarrow>
         (case a_stat base_addr of
            COMP_DELTA_CHUNK \<Rightarrow>
              bindR (reader_read junk re base_addr) (\<lambda>(re, delta).
              case map_of (re_fp_2_addr re) (a_base_fp base_addr) of
                None \<Rightarrow> Inl AddrNotFound
              | Some base_base_addr \<Rightarrow>
                  bindR (reader_read junk re base_base_addr) (\<lambda>(re, base_base).
                  bindR (DeltaDecode ddec base_base delta) (\<lambda>base.
                    Inr (re, raw \<lparr> rd_base_data := base, rd_base_type := COMP_BASE_CHUNK \<rparr>))))
          | COMP_BASE_CHUNK \<Rightarrow>
              bindR (reader_read junk re base_addr) (\<lambda>(re, base).
                Inr (re, raw \<lparr> rd_base_data := base, rd_base_type := COMP_BASE_CHUNK \<rparr>))
          | CACHE_DELTA_CHUNK \<Rightarrow> Inr (re, raw \<lparr> rd_base_type := MULTI_LEVEL_DELTA_CHUNK \<rparr>)
          | _ \<Rightarrow> Inl WrongChunkType))"

definition FetchChunk ::
  "(bytes \<Rightarrow> bytes \<Rightarrow> nat \<Rightarrow> bytes option) \<Rightarrow> (nat \<Rightarrow> bytes) \<Rightarrow> data_reader \<Rightarrow> bytes \<Rightarrow>
   (data_reader \<times> reader_2_decoder) result" where
  "FetchChunk ddec junk re fp =
    (case map_of (re_fp_2_addr re) fp of
       None \<Rightarrow> Inl AddrNotFound
     | Some addr \<Rightarrow>
         bindR (reader_read junk re addr) (\<lambda>(re, d).
           let raw = \<lparr> rd_type = a_stat addr, rd_data = d, rd_base_type = UNIQUE_CHUNK, rd_base_data = [] \<rparr>
           in case a_stat addr of
                COMP_DELTA_CHUNK \<Rightarrow> ProcNormalDeltaChunk junk re addr raw
              | COMP_BASE_CHUNK \<Rightarrow> Inr (re, raw)
              | CACHE_DELTA_CHUNK \<Rightarrow> Reader_ProcCacheDeltaChunk ddec junk re addr raw
              | _ \<Rightarrow> Inl WrongChunkType))"

fun recipe_items :: "nat \<Rightarrow> bytes \<Rightarrow> bytes list" where
  \<comment> \<open>the first \<open>n\<close> fingerprints of a recipe buffer\<close>
  "recipe_items 0 buf = []"
| "recipe_items (Suc n) buf = take CHUNK_HASH_SIZE buf # recipe_items n (drop CHUNK_HASH_SIZE buf)"

function read_recipe :: "nat \<Rightarrow> istream \<Rightarrow> bytes list" where
  \<comment> \<open>the fingerprints in the order in which the loop of \<open>Run\<close> takes them from the file\<close>
  "read_recipe batch st =
    (case istream_read (batch * CHUNK_HASH_SIZE) st of (got, rest, eof) \<Rightarrow>
       let n = length got div CHUNK_HASH_SIZE
       in if n = 0 then [] else if eof then recipe_items n got
          else recipe_items n got @ read_recipe batch (rest, eof))"
  by pat_completeness auto
termination
proof (relation "measure (\<lambda>(_, rest, _). length rest)", simp)
  fix batch st got p rest eof n
  assume r: "(got, p) = istream_read (batch * CHUNK_HASH_SIZE) st" "(rest, eof) = p"
    and n: "n = length got div CHUNK_HASH_SIZE" "n \<noteq> 0" "\<not> eof"
  obtain s f where st: "st = (s, f)" by (cases st)
  have "got \<noteq> []" using n by auto
  with r n st show "((batch, rest, eof), batch, st) \<in> measure (\<lambda>(_, rest, _). length rest)"
    by (auto simp: istream_read_def split: if_splits)
qed

declare read_recipe.simps [simp del]

fun fetch_all ::
  "(bytes \<Rightarrow> bytes \<Rightarrow> nat \<Rightarrow> bytes option) \<Rightarrow> (nat \<Rightarrow> bytes) \<Rightarrow> data_reader \<Rightarrow> bytes list \<Rightarrow>
   (data_reader \<times> reader_2_decoder list) result" where
  "fetch_all ddec junk re [] = Inr (re, [])"
| "fetch_all ddec junk re (fp # fps) =
    bindR (FetchChunk ddec junk re fp) (\<lambda>(re, raw). bindR (fetch_all ddec junk re fps) (\<lambda>(re, raws). Inr (re, raw # raws)))"

definition DataReaderThd_Run ::
  "(bytes \<Rightarrow> bytes \<Rightarrow> nat \<Rightarrow> bytes option) \<Rightarrow> (nat \<Rightarrow> bytes) \<Rightarrow> nat \<Rightarrow> data_reader \<Rightarrow> bytes \<Rightarrow>
   (data_reader \<times> reader_2_decoder list) result" where
  \<comment> \<open>the session has read the head of the recipe file before\<close>
  "DataReaderThd_Run ddec junk batch re recipe_file =
     fetch_all ddec junk re (read_recipe batch (drop RECIPE_HEAD_SIZE recipe_file, False))"

subsection \<open>The decoder of the server\<close>

record data_decoder =
  de_item_num :: nat
  de_data :: bytes
  de_batch :: nat

definition restore_frame :: "data_type \<Rightarrow> bytes \<Rightarrow> send_chunk" where
  \<comment> \<open>features and fingerprint of the header are not set\<close>
  "restore_frame t d = \<lparr> sc_type = t, sc_features = [0, 0, 0], sc_compressed_fp = replicate CHUNK_HASH_SIZE 0, sc_data = d \<rparr>"

definition de_put :: "data_decoder \<Rightarrow> send_chunk \<Rightarrow> data_decoder result" where
  \<comment> \<open>the two \<open>memcpy\<close> of a frame; the buffer holds \<open>2 * batch * sizeof(SendChunk_t)\<close> bytes\<close>
  "de_put de c =
    (if length (de_data de) + length (send_frame c) \<le> 2 * de_batch de * SEND_CHUNK_SIZE
     then Inr (de \<lparr> de_data := de_data de @ send_frame c \<rparr>) else Inl OutOfBounds)"

definition de_count :: "data_decoder \<Rightarrow> data_decoder" where
  "de_count de = de \<lparr> de_item_num := de_item_num de + 1 \<rparr>"

definition DecodeChunk ::
  "(bytes \<Rightarrow> bytes \<Rightarrow> nat \<Rightarrow> bytes option) \<Rightarrow> data_decoder \<Rightarrow> reader_2_decoder \<Rightarrow> data_decoder result" where
  "DecodeChunk ddec de raw =
    (case rd_type raw of
       COMP_DELTA_CHUNK \<Rightarrow>
         (if rd_base_type raw \<noteq> COMP_BASE_CHUNK then Inl MultiLevelDelta
          else bindR (DeltaDecode ddec (rd_base_data raw) (rd_data raw)) (\<lambda>d.
               bindR (de_put de (restore_frame COMP_NORMAL_CHUNK d)) (\<lambda>de. Inr (de_count de))))
     | CACHE_DELTA_CHUNK \<Rightarrow>
         (case rd_base_type raw of
            COMP_BASE_CHUNK \<Rightarrow>
              bindR (de_put de (restore_frame CACHE_RESTORE_DELTA (rd_data raw))) (\<lambda>de.
              bindR (de_put de (restore_frame CACHE_RESTORE_BASE (rd_base_data raw))) (\<lambda>de. Inr (de_count de)))
          | UNCOMP_BASE_CHUNK \<Rightarrow>
              bindR (DeltaDecode ddec (rd_base_data raw) (rd_data raw)) (\<lambda>d.
              bindR (de_put de (restore_frame UNCOMP_NORMAL_CHUNK d)) (\<lambda>de. Inr (de_count de)))
          | MULTI_LEVEL_DELTA_CHUNK \<Rightarrow>
              bindR (de_put de (restore_frame MULTI_LEVEL_TYPE (rd_data raw))) (\<lambda>de. Inr (de_count de))
          | _ \<Rightarrow> Inl WrongChunkType)
     | COMP_BASE_CHUNK \<Rightarrow>
         bindR (de_put de (restore_frame COMP_NORMAL_CHUNK (rd_data raw))) (\<lambda>de. Inr (de_count de))
     | _ \<Rightarrow> Inl WrongChunkType)"

definition Decoder_SendChunks :: "data_decoder \<Rightarrow> data_decoder \<times> net_msg" where
  "Decoder_SendChunks de = (de \<lparr> de_item_num := 0, de_data := [] \<rparr>, (SERVER_RESTORE_CHUNK, de_item_num de, de_data de))"

definition DataDecoderThd_step ::
  "(bytes \<Rightarrow> bytes \<Rightarrow> nat \<Rightarrow> bytes option) \<Rightarrow> data_decoder \<Rightarrow> reader_2_decoder \<Rightarrow> (data_decoder \<times> net_msg list) result" where
  "DataDecoderThd_step ddec de raw =
    bindR (DecodeChunk ddec de raw) (\<lambda>de.
      if de_item_num de mod de_batch de = 0 then (case Decoder_SendChunks de of (de, msg) \<Rightarrow> Inr (de, [msg]))
      else Inr (de, []))"

definition DataDecoderThd_end :: "data_decoder \<Rightarrow> net_msg list" where
  \<comment> \<open>the tail batch and the end flag\<close>
  "DataDecoderThd_end de =
    (if de_item_num de \<noteq> 0 then [snd (Decoder_SendChunks de)] else []) @ [(SERVER_RESTORE_FINAL, 0, [])]"

definition DataDecoderThd_Run ::
  "(bytes \<Rightarrow> bytes \<Rightarrow> nat \<Rightarrow> bytes option) \<Rightarrow> nat \<Rightarrow> reader_2_decoder list \<Rightarrow> net_msg list result" where
  "DataDecoderThd_Run ddec batch raws =
    bindR (run_thd (DataDecoderThd_step ddec) \<lparr> de_item_num = 0, de_data = [], de_batch = batch \<rparr> raws) (\<lambda>(de, msgs).
      Inr (msgs @ DataDecoderThd_end de))"

subsection \<open>What the server sends for a fingerprint\<close>

text \<open>
  A session that restores works on the containers and the index the writer left; every chunk the
  writer has stored is where it was.
\<close>

definition reader_of :: "data_writer \<Rightarrow> data_reader \<Rightarrow> bool" where
  "reader_of dw re \<longleftrightarrow> store_ok (re_store re) (re_client re) \<and> re_fp_2_addr re = dw_fp_2_addr dw \<and>
     (\<forall>a d. dw_chunk dw a = Some d \<longrightarrow> d \<noteq> [] \<longrightarrow> chunk_at (re_store re) (re_client re) a = Some d)"

definition server_frames ::
  "(bytes \<Rightarrow> bytes \<Rightarrow> nat \<Rightarrow> bytes option) \<Rightarrow> data_writer \<Rightarrow> inform_cache \<Rightarrow> bytes \<Rightarrow> send_chunk list option" where
  \<comment> \<open>the frames of one chunk, in terms of what the fingerprints denote\<close>
  "server_frames ddec dw ic fp =
    (case (map_of (dw_fp_2_addr dw) fp, stored ddec dw fp) of
       (Some a, Some d) \<Rightarrow>
         (if a_stat a \<noteq> CACHE_DELTA_CHUNK then Some [restore_frame COMP_NORMAL_CHUNK d]
          else if IsBaseChunkExist ic (a_base_fp a) then
            (case FetchBaseChunk ic (a_base_fp a) of
               Inl _ \<Rightarrow> None
             | Inr base \<Rightarrow> map_option (\<lambda>e. [restore_frame UNCOMP_NORMAL_CHUNK e]) (ddec base d ENC_MAX_CHUNK_SIZE))
          else
            (case (map_of (dw_fp_2_addr dw) (a_base_fp a), stored ddec dw (a_base_fp a)) of
               (Some b, Some c) \<Rightarrow>
                 if a_stat b = CACHE_DELTA_CHUNK then Some [restore_frame MULTI_LEVEL_TYPE d]
                 else Some [restore_frame CACHE_RESTORE_DELTA d, restore_frame CACHE_RESTORE_BASE c]
             | _ \<Rightarrow> None))
     | _ \<Rightarrow> None)"

definition restorable ::
  "bytes set \<Rightarrow> (bytes \<Rightarrow> bytes \<Rightarrow> nat \<Rightarrow> bytes option) \<Rightarrow> data_writer \<Rightarrow> inform_cache \<Rightarrow> bytes \<Rightarrow> bool" where
  "restorable S ddec dw ic fp \<longleftrightarrow> fp \<in> S \<and> server_frames ddec dw ic fp \<noteq> None \<and>
     (\<forall>a. map_of (dw_fp_2_addr dw) fp = Some a \<longrightarrow> a_stat a = CACHE_DELTA_CHUNK \<longrightarrow>
        IsBaseChunkExist ic (a_base_fp a) \<or> a_base_fp a \<in> S)"

definition frames_of ::
  "(bytes \<Rightarrow> bytes \<Rightarrow> nat \<Rightarrow> bytes option) \<Rightarrow> data_writer \<Rightarrow> inform_cache \<Rightarrow> bytes \<Rightarrow> send_chunk list" where
  "frames_of ddec dw ic fp = (case server_frames ddec dw ic fp of Some fs \<Rightarrow> fs | None \<Rightarrow> [])"

lemma reader_read_ok:
  assumes "reader_of dw re" "dw_chunk dw a = Some d" "length d \<le> ENC_MAX_CHUNK_SIZE" "d \<noteq> []"
  obtains re' where "reader_read junk re a = Inr (re', d)" "reader_of dw re'" "re_inform re' = re_inform re"
proof -
  have ok: "store_ok (re_store re) (re_client re)" and at: "chunk_at (re_store re) (re_client re) a = Some d"
    using assms(1,2,4) by (simp_all add: reader_of_def)
  obtain sc cl where rd: "ReadChunk (re_store re) (re_client re) a = Inr (sc, cl, Some d)"
    using ReadChunk_returns [OF ok at] by blast
  have "a_len a \<le> ENC_MAX_CHUNK_SIZE" using chunk_at_length [OF ok at] assms(3) by simp
  then have run: "reader_read junk re a = Inr (re \<lparr> re_store := sc, re_client := cl \<rparr>, d)"
    using rd by (simp add: reader_read_def)
  have "reader_of dw (re \<lparr> re_store := sc, re_client := cl \<rparr>)"
    using ReadChunk_keeps [OF ok rd] assms(1) by (simp add: reader_of_def)
  then show thesis by (rule that [OF run]) simp
qed

text \<open>The two kinds of entries of the index, and what reading them gives.\<close>

lemma stored_whole:
  assumes inv: "dw_inv S dw" and fp: "fp \<in> S" and a: "map_of (dw_fp_2_addr dw) fp = Some a"
  obtains d where "dw_chunk dw a = Some d" "length d \<le> ENC_MAX_CHUNK_SIZE"
    "a_stat a \<noteq> COMP_DELTA_CHUNK \<Longrightarrow> stored ddec dw fp = Some d \<and> a_stat a \<in> {COMP_BASE_CHUNK, CACHE_DELTA_CHUNK}"
    "d \<noteq> []"
proof -
  have "dw_entry_ok S dw a" using inv fp a by (auto simp: dw_inv_def)
  then show thesis using a by (auto simp: dw_entry_ok_def stored_def intro: that)
qed

lemma stored_delta:
  assumes inv: "dw_inv S dw" and fp: "fp \<in> S" and a: "map_of (dw_fp_2_addr dw) fp = Some a"
    and d: "a_stat a = COMP_DELTA_CHUNK" "stored ddec dw fp = Some d"
  obtains b base delta where "map_of (dw_fp_2_addr dw) (a_base_fp a) = Some b" "a_stat b = COMP_BASE_CHUNK"
    "dw_chunk dw b = Some base" "length base \<le> ENC_MAX_CHUNK_SIZE" "dw_chunk dw a = Some delta"
    "length delta \<le> ENC_MAX_CHUNK_SIZE" "ddec base delta ENC_MAX_CHUNK_SIZE = Some d" "base \<noteq> []" "delta \<noteq> []"
proof -
  have a': "dw_entry_ok S dw a" using inv fp a by (auto simp: dw_inv_def)
  with d(1) have "a_base_fp a \<in> S" by (simp add: dw_entry_ok_def)
  then obtain b where b: "map_of (dw_fp_2_addr dw) (a_base_fp a) = Some b" "dw_entry_ok S dw b"
    using inv by (auto simp: dw_inv_def)
  moreover have "a_stat b = COMP_BASE_CHUNK" using a' d(1) b(1) by (simp add: dw_entry_ok_def base_fp_def)
  ultimately show thesis using a a' d by (auto simp: dw_entry_ok_def stored_def intro: that)
qed

definition de_add :: "data_decoder \<Rightarrow> send_chunk list \<Rightarrow> data_decoder" where
  "de_add de fs = de \<lparr> de_item_num := de_item_num de + 1, de_data := de_data de @ concat (map send_frame fs) \<rparr>"

definition de_room :: "data_decoder \<Rightarrow> send_chunk list \<Rightarrow> bool" where
  "de_room de fs \<longleftrightarrow> length (de_data de) + length (concat (map send_frame fs)) \<le> 2 * de_batch de * SEND_CHUNK_SIZE"

lemma decode_plain:
  "rd_type raw = COMP_BASE_CHUNK \<Longrightarrow> de_room de [restore_frame COMP_NORMAL_CHUNK (rd_data raw)] \<Longrightarrow>
   DecodeChunk ddec de raw = Inr (de_add de [restore_frame COMP_NORMAL_CHUNK (rd_data raw)])"
  by (simp add: DecodeChunk_def de_put_def de_room_def de_add_def de_count_def)

lemma decode_delta:
  "rd_type raw = COMP_DELTA_CHUNK \<Longrightarrow> rd_base_type raw = COMP_BASE_CHUNK \<Longrightarrow>
   ddec (rd_base_data raw) (rd_data raw) ENC_MAX_CHUNK_SIZE = Some d \<Longrightarrow> de_room de [restore_frame COMP_NORMAL_CHUNK d] \<Longrightarrow>
   DecodeChunk ddec de raw = Inr (de_add de [restore_frame COMP_NORMAL_CHUNK d])"
  by (simp add: DecodeChunk_def DeltaDecode_def de_put_def de_room_def de_add_def de_count_def)

lemma decode_cache:
  assumes "rd_type raw = CACHE_DELTA_CHUNK"
  shows "rd_base_type raw = COMP_BASE_CHUNK \<Longrightarrow>
      de_room de [restore_frame CACHE_RESTORE_DELTA (rd_data raw), restore_frame CACHE_RESTORE_BASE (rd_base_data raw)] \<Longrightarrow>
      DecodeChunk ddec de raw =
        Inr (de_add de [restore_frame CACHE_RESTORE_DELTA (rd_data raw), restore_frame CACHE_RESTORE_BASE (rd_base_data raw)])"
    and "rd_base_type raw = UNCOMP_BASE_CHUNK \<Longrightarrow>
      ddec (rd_base_data raw) (rd_data raw) ENC_MAX_CHUNK_SIZE = Some d \<Longrightarrow> de_room de [restore_frame UNCOMP_NORMAL_CHUNK d] \<Longrightarrow>
      DecodeChunk ddec de raw = Inr (de_add de [restore_frame UNCOMP_NORMAL_CHUNK d])"
    and "rd_base_type raw = MULTI_LEVEL_DELTA_CHUNK \<Longrightarrow> de_room de [restore_frame MULTI_LEVEL_TYPE (rd_data raw)] \<Longrightarrow>
      DecodeChunk ddec de raw = Inr (de_add de [restore_frame MULTI_LEVEL_TYPE (rd_data raw)])"
  using assms by (simp_all add: DecodeChunk_def DeltaDecode_def de_put_def de_room_def de_add_def de_count_def)

text \<open>What reading a fingerprint hands to the decoder gives the frames of the fingerprint.\<close>

definition fetches ::
  "(bytes \<Rightarrow> bytes \<Rightarrow> nat \<Rightarrow> bytes option) \<Rightarrow> (nat \<Rightarrow> bytes) \<Rightarrow> data_writer \<Rightarrow> data_reader \<Rightarrow> bytes \<Rightarrow> send_chunk list \<Rightarrow> bool" where
  "fetches ddec junk dw re fp fs \<longleftrightarrow> (\<exists>re' raw. FetchChunk ddec junk re fp = Inr (re', raw) \<and> reader_of dw re' \<and>
     re_inform re' = re_inform re \<and> (\<forall>de. de_room de fs \<longrightarrow> DecodeChunk ddec de raw = Inr (de_add de fs)))"

lemma fetch_plain:
  assumes inv: "dw_inv S dw" and re: "reader_of dw re" and fp: "fp \<in> S"
    and a: "map_of (dw_fp_2_addr dw) fp = Some a" and stat: "a_stat a \<noteq> CACHE_DELTA_CHUNK" and d: "stored ddec dw fp = Some d"
  shows "fetches ddec junk dw re fp [restore_frame COMP_NORMAL_CHUNK d]"
proof (cases "a_stat a = COMP_DELTA_CHUNK")
  case True
  obtain b base delta where b: "map_of (dw_fp_2_addr dw) (a_base_fp a) = Some b" "a_stat b = COMP_BASE_CHUNK"
      "dw_chunk dw b = Some base" "length base \<le> ENC_MAX_CHUNK_SIZE" "dw_chunk dw a = Some delta"
      "length delta \<le> ENC_MAX_CHUNK_SIZE" "ddec base delta ENC_MAX_CHUNK_SIZE = Some d" "base \<noteq> []" "delta \<noteq> []"
    by (rule stored_delta [OF inv fp a True d])
  obtain re1 where 1: "reader_read junk re a = Inr (re1, delta)" "reader_of dw re1" "re_inform re1 = re_inform re"
    by (rule reader_read_ok [OF re b(5,6,9)])
  obtain re2 where 2: "reader_read junk re1 b = Inr (re2, base)" "reader_of dw re2" "re_inform re2 = re_inform re1"
    by (rule reader_read_ok [OF 1(2) b(3,4,8)])
  have idx: "re_fp_2_addr re = dw_fp_2_addr dw" "re_fp_2_addr re1 = dw_fp_2_addr dw" using re 1(2) by (simp_all add: reader_of_def)
  show ?thesis unfolding fetches_def
    using 1 2 True a b idx
    by (simp add: FetchChunk_def ProcNormalDeltaChunk_def Let_def decode_delta)
next
  case False
  obtain d' where d': "dw_chunk dw a = Some d'" "length d' \<le> ENC_MAX_CHUNK_SIZE"
      "stored ddec dw fp = Some d' \<and> a_stat a \<in> {COMP_BASE_CHUNK, CACHE_DELTA_CHUNK}" "d' \<noteq> []"
    by (rule stored_whole [OF inv fp a, of ddec]) (use False in blast)
  then have d1: "d' = d" and s: "a_stat a = COMP_BASE_CHUNK" using d stat by auto
  obtain re1 where 1: "reader_read junk re a = Inr (re1, d)" "reader_of dw re1" "re_inform re1 = re_inform re"
    by (rule reader_read_ok [OF re d'(1,2,4) [unfolded d1]])
  have idx: "re_fp_2_addr re = dw_fp_2_addr dw" using re by (simp add: reader_of_def)
  show ?thesis unfolding fetches_def
    using 1 s a idx by (simp add: FetchChunk_def Let_def decode_plain)
qed

lemma fetch_cached_base:
  assumes inv: "dw_inv S dw" and re: "reader_of dw re" and fp: "fp \<in> S"
    and a: "map_of (dw_fp_2_addr dw) fp = Some a" and stat: "a_stat a = CACHE_DELTA_CHUNK" and d: "stored ddec dw fp = Some d"
    and base: "IsBaseChunkExist (re_inform re) (a_base_fp a)" "FetchBaseChunk (re_inform re) (a_base_fp a) = Inr base"
    and e: "ddec base d ENC_MAX_CHUNK_SIZE = Some e"
  shows "fetches ddec junk dw re fp [restore_frame UNCOMP_NORMAL_CHUNK e]"
proof -
  obtain d' where d': "dw_chunk dw a = Some d'" "length d' \<le> ENC_MAX_CHUNK_SIZE" "stored ddec dw fp = Some d'" "d' \<noteq> []"
    by (rule stored_whole [OF inv fp a, of ddec]) (use stat in auto)
  then have d1: "d' = d" using d by simp
  obtain re1 where 1: "reader_read junk re a = Inr (re1, d)" "reader_of dw re1" "re_inform re1 = re_inform re"
    by (rule reader_read_ok [OF re d'(1,2,4) [unfolded d1]])
  have idx: "re_fp_2_addr re = dw_fp_2_addr dw" using re by (simp add: reader_of_def)
  show ?thesis unfolding fetches_def
    using 1 stat a idx base e
    by (simp add: FetchChunk_def Reader_ProcCacheDeltaChunk_def Let_def decode_cache(2))
qed

lemma fetch_multi_level:
  assumes inv: "dw_inv S dw" and re: "reader_of dw re" and fp: "fp \<in> S"
    and a: "map_of (dw_fp_2_addr dw) fp = Some a" and stat: "a_stat a = CACHE_DELTA_CHUNK" and d: "stored ddec dw fp = Some d"
    and base: "\<not> IsBaseChunkExist (re_inform re) (a_base_fp a)" "map_of (dw_fp_2_addr dw) (a_base_fp a) = Some b"
      "a_stat b = CACHE_DELTA_CHUNK"
  shows "fetches ddec junk dw re fp [restore_frame MULTI_LEVEL_TYPE d]"
proof -
  obtain d' where d': "dw_chunk dw a = Some d'" "length d' \<le> ENC_MAX_CHUNK_SIZE" "stored ddec dw fp = Some d'" "d' \<noteq> []"
    by (rule stored_whole [OF inv fp a, of ddec]) (use stat in auto)
  then have d1: "d' = d" using d by simp
  obtain re1 where 1: "reader_read junk re a = Inr (re1, d)" "reader_of dw re1" "re_inform re1 = re_inform re"
    by (rule reader_read_ok [OF re d'(1,2,4) [unfolded d1]])
  have idx: "re_fp_2_addr re = dw_fp_2_addr dw" "re_fp_2_addr re1 = dw_fp_2_addr dw" using re 1(2) by (simp_all add: reader_of_def)
  show ?thesis unfolding fetches_def
    using 1 stat a idx base
    by (simp add: FetchChunk_def Reader_ProcCacheDeltaChunk_def Let_def decode_cache(3))
qed

lemma fetch_evicted_base:
  assumes inv: "dw_inv S dw" and re: "reader_of dw re" and fp: "fp \<in> S"
    and a: "map_of (dw_fp_2_addr dw) fp = Some a" and stat: "a_stat a = CACHE_DELTA_CHUNK" and d: "stored ddec dw fp = Some d"
    and base: "\<not> IsBaseChunkExist (re_inform re) (a_base_fp a)" "map_of (dw_fp_2_addr dw) (a_base_fp a) = Some b"
      "a_stat b \<noteq> CACHE_DELTA_CHUNK" "a_base_fp a \<in> S" "stored ddec dw (a_base_fp a) = Some c"
  shows "fetches ddec junk dw re fp [restore_frame CACHE_RESTORE_DELTA d, restore_frame CACHE_RESTORE_BASE c]"
proof -
  obtain d' where d': "dw_chunk dw a = Some d'" "length d' \<le> ENC_MAX_CHUNK_SIZE" "stored ddec dw fp = Some d'" "d' \<noteq> []"
    by (rule stored_whole [OF inv fp a, of ddec]) (use stat in auto)
  then have d1: "d' = d" using d by simp
  obtain re1 where 1: "reader_read junk re a = Inr (re1, d)" "reader_of dw re1" "re_inform re1 = re_inform re"
    by (rule reader_read_ok [OF re d'(1,2,4) [unfolded d1]])
  have idx: "re_fp_2_addr re' = dw_fp_2_addr dw" if "reader_of dw re'" for re'
    using that by (simp add: reader_of_def)
  show ?thesis
  proof (cases "a_stat b = COMP_DELTA_CHUNK")
    case True
    obtain bb base' delta where b: "map_of (dw_fp_2_addr dw) (a_base_fp b) = Some bb" "a_stat bb = COMP_BASE_CHUNK"
        "dw_chunk dw bb = Some base'" "length base' \<le> ENC_MAX_CHUNK_SIZE" "dw_chunk dw b = Some delta"
        "length delta \<le> ENC_MAX_CHUNK_SIZE" "ddec base' delta ENC_MAX_CHUNK_SIZE = Some c" "base' \<noteq> []" "delta \<noteq> []"
      by (rule stored_delta [OF inv base(4,2) True base(5)])
    obtain re2 where 2: "reader_read junk re1 b = Inr (re2, delta)" "reader_of dw re2" "re_inform re2 = re_inform re1"
      by (rule reader_read_ok [OF 1(2) b(5,6,9)])
    obtain re3 where 3: "reader_read junk re2 bb = Inr (re3, base')" "reader_of dw re3" "re_inform re3 = re_inform re2"
      by (rule reader_read_ok [OF 2(2) b(3,4,8)])
    show ?thesis unfolding fetches_def
      using 1 2 3 True stat a base(1,2) b idx [OF re] idx [OF 1(2)] idx [OF 2(2)]
      by (simp add: FetchChunk_def Reader_ProcCacheDeltaChunk_def Let_def DeltaDecode_def decode_cache(1))
  next
    case False
    obtain c' where c': "dw_chunk dw b = Some c'" "length c' \<le> ENC_MAX_CHUNK_SIZE"
        "stored ddec dw (a_base_fp a) = Some c' \<and> a_stat b \<in> {COMP_BASE_CHUNK, CACHE_DELTA_CHUNK}" "c' \<noteq> []"
      by (rule stored_whole [OF inv base(4,2), of ddec]) (use False in blast)
    then have c1: "c' = c" and s: "a_stat b = COMP_BASE_CHUNK" using base(3,5) by auto
    obtain re2 where 2: "reader_read junk re1 b = Inr (re2, c)" "reader_of dw re2" "re_inform re2 = re_inform re1"
      by (rule reader_read_ok [OF 1(2) c'(1,2,4) [unfolded c1]])
    show ?thesis unfolding fetches_def
      using 1 2 s stat a base(1,2) idx [OF re] idx [OF 1(2)]
      by (simp add: FetchChunk_def Reader_ProcCacheDeltaChunk_def Let_def decode_cache(1))
  qed
qed

lemma fetch_frames:
  assumes inv: "dw_inv S dw" and re: "reader_of dw re" and r: "restorable S ddec dw (re_inform re) fp"
  shows "fetches ddec junk dw re fp (frames_of ddec dw (re_inform re) fp)"
proof -
  have fp: "fp \<in> S" using r by (simp add: restorable_def)
  obtain a d where a: "map_of (dw_fp_2_addr dw) fp = Some a" and d: "stored ddec dw fp = Some d"
    using r by (auto simp: restorable_def server_frames_def split: option.splits)
  show ?thesis
  proof (cases "a_stat a = CACHE_DELTA_CHUNK")
    case False
    with fetch_plain [OF inv re fp a False d] a d show ?thesis by (simp add: frames_of_def server_frames_def)
  next
    case True
    show ?thesis
    proof (cases "IsBaseChunkExist (re_inform re) (a_base_fp a)")
      case base: True
      with r a d True obtain base' e where e: "FetchBaseChunk (re_inform re) (a_base_fp a) = Inr base'"
          "ddec base' d ENC_MAX_CHUNK_SIZE = Some e"
        by (auto simp: restorable_def server_frames_def split: sum.splits)
      from fetch_cached_base [OF inv re fp a True d base e] a d True base e show ?thesis
        by (simp add: frames_of_def server_frames_def)
    next
      case base: False
      with r a d True obtain b c where b: "map_of (dw_fp_2_addr dw) (a_base_fp a) = Some b"
          "stored ddec dw (a_base_fp a) = Some c" "a_base_fp a \<in> S"
        by (auto simp: restorable_def server_frames_def split: option.splits if_splits)
      show ?thesis
      proof (cases "a_stat b = CACHE_DELTA_CHUNK")
        case bs: True
        from fetch_multi_level [OF inv re fp a True d base b(1) bs] a d True base b bs show ?thesis
          by (simp add: frames_of_def server_frames_def)
      next
        case bs: False
        from fetch_evicted_base [OF inv re fp a True d base b(1) bs b(3,2)] a d True base b bs show ?thesis
          by (simp add: frames_of_def server_frames_def)
      qed
    qed
  qed
qed

subsection \<open>Sizes\<close>

definition ddec_bounded :: "(bytes \<Rightarrow> bytes \<Rightarrow> nat \<Rightarrow> bytes option) \<Rightarrow> bool" where
  \<comment> \<open>the decoder of xdelta respects the size of its output buffer\<close>
  "ddec_bounded ddec \<longleftrightarrow> (\<forall>b d n x. ddec b d n = Some x \<longrightarrow> length x \<le> n)"

definition frames_fit :: "send_chunk list \<Rightarrow> bool" where
  "frames_fit fs \<longleftrightarrow> length fs \<le> 2 \<and> (\<forall>c \<in> set fs. length (sc_data c) \<le> ENC_MAX_CHUNK_SIZE)"

definition frames_bytes :: "send_chunk list \<Rightarrow> bytes" where
  "frames_bytes fs = concat (map send_frame fs)"

lemma header_wf_restore [simp]: "header_wf (restore_frame t d)"
  by (simp add: header_wf_def restore_frame_def size_consts)

lemma sc_restore [simp]: "sc_data (restore_frame t d) = d" "sc_type (restore_frame t d) = t"
  by (simp_all add: restore_frame_def)

lemma stored_bounded:
  assumes "dw_inv S dw" "ddec_bounded ddec" "fp \<in> S" "stored ddec dw fp = Some d"
  shows "length d \<le> ENC_MAX_CHUNK_SIZE"
proof -
  obtain a where a: "map_of (dw_fp_2_addr dw) fp = Some a" using assms(4) by (auto simp: stored_def split: option.splits)
  show ?thesis
  proof (cases "a_stat a = COMP_DELTA_CHUNK")
    case True
    show ?thesis
      by (rule stored_delta [OF assms(1,3) a True assms(4)]) (use assms(2) in \<open>auto simp: ddec_bounded_def\<close>)
  next
    case False
    show ?thesis
      by (rule stored_whole [OF assms(1,3) a, of ddec]) (use False assms(4) in auto)
  qed
qed

lemma frames_of_fit:
  assumes inv: "dw_inv S dw" and b: "ddec_bounded ddec" and r: "restorable S ddec dw ic fp"
  shows "frames_fit (frames_of ddec dw ic fp) \<and> (\<forall>c \<in> set (frames_of ddec dw ic fp). header_wf c)"
proof -
  have fp: "fp \<in> S" using r by (simp add: restorable_def)
  note sb = stored_bounded [OF inv b]
  have e: "length x \<le> ENC_MAX_CHUNK_SIZE" if "ddec y z ENC_MAX_CHUNK_SIZE = Some x" for x y z
    using b that by (auto simp: ddec_bounded_def)
  show ?thesis
    using r sb fp e
    by (auto simp: restorable_def frames_of_def server_frames_def frames_fit_def split: option.splits if_splits sum.splits)
qed

lemma frames_bytes_size:
  assumes "frames_fit fs" "\<forall>c \<in> set fs. header_wf c"
  shows "length (frames_bytes fs) \<le> 2 * SEND_CHUNK_SIZE"
proof -
  have "length (send_frame c) \<le> SEND_CHUNK_SIZE" if "c \<in> set fs" for c
    using assms that length_send_frame [of c]
    by (auto simp: frames_fit_def HEADER_SIZE_def SEND_CHUNK_SIZE_def size_consts)
  then have "length (frames_bytes fs) \<le> length fs * SEND_CHUNK_SIZE"
    unfolding frames_bytes_def by (induction fs) (simp_all add: add_mono)
  also have "\<dots> \<le> 2 * SEND_CHUNK_SIZE" using assms(1) by (simp add: frames_fit_def)
  finally show ?thesis .
qed

subsection \<open>Batches\<close>

definition restore_msg :: "send_chunk list list \<Rightarrow> net_msg" where
  "restore_msg g = (SERVER_RESTORE_CHUNK, length g, concat (map frames_bytes g))"

definition decoder_inv :: "data_decoder \<Rightarrow> send_chunk list list \<Rightarrow> bool" where
  "decoder_inv de pend \<longleftrightarrow> de_item_num de = length pend \<and> length pend < de_batch de \<and>
     de_data de = concat (map frames_bytes pend) \<and> (\<forall>fs \<in> set pend. frames_fit fs \<and> (\<forall>c \<in> set fs. header_wf c))"

lemma frames_list_size:
  "\<forall>fs \<in> set g. frames_fit fs \<and> (\<forall>c \<in> set fs. header_wf c) \<Longrightarrow>
   length (concat (map frames_bytes g)) \<le> length g * (2 * SEND_CHUNK_SIZE)"
proof (induction g)
  case Nil
  then show ?case by simp
next
  case (Cons fs g)
  with frames_bytes_size [of fs] show ?case by simp
qed

lemma decoder_step:
  assumes inv: "decoder_inv de pend" and fs: "frames_fit fs" "\<forall>c \<in> set fs. header_wf c"
    and dec: "\<And>de. de_room de fs \<Longrightarrow> DecodeChunk ddec de raw = Inr (de_add de fs)"
  shows "if length pend + 1 = de_batch de
    then DataDecoderThd_step ddec de raw = Inr (de \<lparr> de_item_num := 0, de_data := [] \<rparr>, [restore_msg (pend @ [fs])])
    else DataDecoderThd_step ddec de raw = Inr (de_add de fs, []) \<and> decoder_inv (de_add de fs) (pend @ [fs])"
proof -
  have all: "\<forall>fs' \<in> set (pend @ [fs]). frames_fit fs' \<and> (\<forall>c \<in> set fs'. header_wf c)"
    using inv fs by (auto simp: decoder_inv_def)
  have data: "de_data de @ frames_bytes fs = concat (map frames_bytes (pend @ [fs]))"
    using inv by (simp add: decoder_inv_def)
  have len: "length pend + 1 \<le> de_batch de" using inv by (simp add: decoder_inv_def)
  have "length (de_data de @ frames_bytes fs) \<le> (length pend + 1) * (2 * SEND_CHUNK_SIZE)"
    using frames_list_size [OF all] unfolding data by simp
  also have "\<dots> \<le> de_batch de * (2 * SEND_CHUNK_SIZE)" using len by (rule mult_le_mono1)
  finally have "de_room de fs" by (simp add: de_room_def frames_bytes_def mult_ac)
  from dec [OF this] have D: "DecodeChunk ddec de raw = Inr (de_add de fs)" .
  have m: "(length pend + 1) mod de_batch de = 0 \<longleftrightarrow> length pend + 1 = de_batch de"
    using len by (metis le_neq_implies_less mod_less mod_self add_is_0 zero_neq_one)
  show ?thesis
    using D m inv all data
    by (auto simp: DataDecoderThd_step_def decoder_inv_def de_add_def Decoder_SendChunks_def restore_msg_def
        frames_bytes_def Suc_le_eq)
qed

lemma decoder_run:
  assumes "list_all2 (\<lambda>raw fs. frames_fit fs \<and> (\<forall>c \<in> set fs. header_wf c) \<and>
      (\<forall>de. de_room de fs \<longrightarrow> DecodeChunk ddec de raw = Inr (de_add de fs))) raws fss"
    and "decoder_inv de pend"
  shows "\<exists>de' gs pend'. run_thd (DataDecoderThd_step ddec) de raws = Inr (de', map restore_msg gs) \<and>
    decoder_inv de' pend' \<and> de_batch de' = de_batch de \<and> concat gs @ pend' = pend @ fss \<and> (\<forall>g \<in> set gs. length g = de_batch de)"
  using assms
proof (induction raws fss arbitrary: de pend rule: list_all2_induct)
  case Nil
  then show ?case by (intro exI [of _ de] exI [of _ "[]"] exI [of _ pend]) simp
next
  case (Cons raw raws fs fss)
  have fs: "frames_fit fs" "\<forall>c \<in> set fs. header_wf c" "\<And>de. de_room de fs \<Longrightarrow> DecodeChunk ddec de raw = Inr (de_add de fs)"
    using Cons.hyps(1) by blast+
  note step = decoder_step [OF Cons.prems fs]
  show ?case
  proof (cases "length pend + 1 = de_batch de")
    case True
    let ?de = "de \<lparr> de_item_num := 0, de_data := [] \<rparr>"
    have "decoder_inv ?de []" using True by (simp add: decoder_inv_def)
    from Cons.IH [OF this] obtain de' gs pend' where 1: "run_thd (DataDecoderThd_step ddec) ?de raws = Inr (de', map restore_msg gs)"
        "decoder_inv de' pend'" "de_batch de' = de_batch de" "concat gs @ pend' = fss" "\<forall>g \<in> set gs. length g = de_batch de"
      by auto
    then show ?thesis using step True
      by (intro exI [of _ de'] exI [of _ "(pend @ [fs]) # gs"] exI [of _ pend']) auto
  next
    case False
    with step have s: "DataDecoderThd_step ddec de raw = Inr (de_add de fs, [])" "decoder_inv (de_add de fs) (pend @ [fs])"
      by simp_all
    from Cons.IH [OF s(2)] obtain de' gs pend' where "run_thd (DataDecoderThd_step ddec) (de_add de fs) raws = Inr (de', map restore_msg gs)"
        "decoder_inv de' pend'" "de_batch de' = de_batch de" "concat gs @ pend' = pend @ fs # fss" "\<forall>g \<in> set gs. length g = de_batch de"
      by (auto simp: de_add_def)
    then show ?thesis using s(1)
      by (intro exI [of _ de'] exI [of _ gs] exI [of _ pend']) auto
  qed
qed

text \<open>The recipe file is read back as the sequence of fingerprints it was written from.\<close>

lemma recipe_items_concat:
  "\<forall>fp \<in> set fps. length fp = CHUNK_HASH_SIZE \<Longrightarrow> n = length fps \<Longrightarrow> recipe_items n (concat fps) = fps"
  by (induction fps arbitrary: n) simp_all

lemma length_fps: "\<forall>fp \<in> set fps. length fp = CHUNK_HASH_SIZE \<Longrightarrow> length (concat fps) = length fps * CHUNK_HASH_SIZE"
  by (induction fps) simp_all

lemma take_drop_fps:
  assumes "\<forall>fp \<in> set fps. length fp = CHUNK_HASH_SIZE" "n \<le> length fps"
  shows "take (n * CHUNK_HASH_SIZE) (concat fps) = concat (take n fps)" "drop (n * CHUNK_HASH_SIZE) (concat fps) = concat (drop n fps)"
proof -
  have "length (concat (take n fps)) = n * CHUNK_HASH_SIZE"
    using assms length_fps [of "take n fps"] by (auto dest: in_set_takeD)
  moreover have "concat fps = concat (take n fps) @ concat (drop n fps)"
    by (simp flip: concat_append)
  ultimately show "take (n * CHUNK_HASH_SIZE) (concat fps) = concat (take n fps)"
      "drop (n * CHUNK_HASH_SIZE) (concat fps) = concat (drop n fps)"
    by simp_all
qed

lemma read_recipe_concat:
  assumes "0 < batch" "\<forall>fp \<in> set fps. length fp = CHUNK_HASH_SIZE"
  shows "read_recipe batch (concat fps, False) = fps"
  using assms(2)
proof (induction "length fps" arbitrary: fps rule: less_induct)
  case less
  note len = length_fps [OF less.prems]
  have pos: "0 < CHUNK_HASH_SIZE" by (simp add: size_consts)
  show ?case
  proof (cases "batch \<le> length fps")
    case True
    then have rd: "istream_read (batch * CHUNK_HASH_SIZE) (concat fps, False) = (concat (take batch fps), concat (drop batch fps), False)"
      using take_drop_fps [OF less.prems True] len by (simp add: istream_read_def)
    have "length (drop batch fps) < length fps" using True assms(1) by simp
    moreover have "\<forall>fp \<in> set (drop batch fps). length fp = CHUNK_HASH_SIZE" using less.prems by (auto dest: in_set_dropD)
    ultimately have IH: "read_recipe batch (concat (drop batch fps), False) = drop batch fps" by (rule less.hyps)
    have t: "\<forall>fp \<in> set (take batch fps). length fp = CHUNK_HASH_SIZE" using less.prems by (auto dest: in_set_takeD)
    have n: "length (concat (take batch fps)) div CHUNK_HASH_SIZE = batch"
      using length_fps [OF t] True pos by simp
    show ?thesis
      using assms(1) IH recipe_items_concat [OF t, of batch] True n
      by (subst read_recipe.simps) (simp add: rd Let_def del: recipe_items.simps)
  next
    case False
    then have rd: "istream_read (batch * CHUNK_HASH_SIZE) (concat fps, False) = (concat fps, [], True)"
      using len pos by (simp add: istream_read_def)
    have n: "length (concat fps) div CHUNK_HASH_SIZE = length fps" using len pos by simp
    show ?thesis
      using recipe_items_concat [OF less.prems refl] n
      by (subst read_recipe.simps) (simp add: rd Let_def del: recipe_items.simps)
  qed
qed

subsection \<open>The end of a session\<close>

lemma new_client_keeps:
  assumes ok: "store_ok sc cl" and size: "0 < cache_size" and fresh: "disk sc' (CreateUUID rand CONTAINER_ID_LENGTH) = None"
    and sc': "sc' = SaveContainer sc (cv_cur_container cl)"
  shows "store_ok sc' (client_store_new rand cache_size)"
    and "chunk_at sc cl a = Some d \<Longrightarrow> chunk_at sc' (client_store_new rand cache_size) a = Some d"
proof -
  let ?cur = "cv_cur_container cl" and ?new = "client_store_new rand cache_size"
  have ids: "length (ct_id ?cur) = CONTAINER_ID_LENGTH" using ok by (simp add: store_ok_def Let_def)
  have d: "disk sc' = (disk sc)(ct_id ?cur \<mapsto> take (ct_cur_size ?cur) (ct_body ?cur))"
    unfolding sc' by (rule disk_SaveContainer [OF ids])
  have old: "disk sc (ct_id ?cur) = None" "length (ct_body ?cur) = MAX_CONTAINER_SIZE" "ct_cur_size ?cur \<le> MAX_CONTAINER_SIZE"
    using ok by (simp_all add: store_ok_def Let_def)
  have cache: "rcache.coherent (ReadCache_new cache_size MAX_CONTAINER_SIZE) (disk sc')"
    using ReadCache_new_ok [OF size, of MAX_CONTAINER_SIZE]
    by (simp add: rcache.coherent_def) (simp add: ReadCache_new_def rc_lookup_def lru_new_def)
  have sizes: "length c \<le> MAX_CONTAINER_SIZE" if "disk sc' name = Some c" for name c
    using that ok old by (auto simp: d store_ok_def split: if_splits)
  show "store_ok sc' ?new"
    using cache sizes fresh
    by (simp add: store_ok_def client_store_new_def CreateUUID_nonzero Let_def) (simp add: ReadCache_new_def)
  show "chunk_at sc' ?new a = Some d" if at: "chunk_at sc cl a = Some d"
  proof (cases "disk sc (take CONTAINER_ID_LENGTH (a_container a))")
    case None
    then have s: "take CONTAINER_ID_LENGTH (a_container a) = ct_id ?cur"
        "subbuf (ct_body ?cur) (ct_cur_size ?cur) (a_offset a) (a_len a) = Some d"
      using at by (auto simp: chunk_at_def Let_def split: if_splits)
    then show ?thesis using old
      by (auto simp: chunk_at_def Let_def d subbuf_def drop_take min_def split: if_splits)
  next
    case (Some c)
    with at old(1) show ?thesis by (auto simp: chunk_at_def Let_def d)
  qed
qed

definition open_reader :: "(nat \<Rightarrow> nat) \<Rightarrow> nat \<Rightarrow> inform_cache \<Rightarrow> data_writer \<Rightarrow> data_reader" where
  \<comment> \<open>the session of a client that restores, with a \<open>ClientVar\<close> of its own\<close>
  "open_reader rand cache_size ic dw =
     \<lparr> re_store = dw_store dw, re_client = client_store_new rand cache_size, re_fp_2_addr = dw_fp_2_addr dw, re_inform = ic \<rparr>"

definition dw_session :: "(nat \<Rightarrow> nat) \<Rightarrow> nat \<Rightarrow> data_writer \<Rightarrow> data_writer" where
  \<comment> \<open>the writer of the next upload: the same store and indexes, a new \<open>ClientVar\<close>\<close>
  "dw_session rand cache_size dw = dw \<lparr> dw_client := client_store_new rand cache_size \<rparr>"

text \<open>A container that nothing was written to is not saved, and no chunk is in it.\<close>

lemma new_client_empty:
  assumes ok: "store_ok sc cl" and size: "0 < cache_size" and fresh: "disk sc (CreateUUID rand CONTAINER_ID_LENGTH) = None"
    and empty: "ct_cur_size (cv_cur_container cl) = 0"
  shows "store_ok sc (client_store_new rand cache_size)"
    and "chunk_at sc cl a = Some d \<Longrightarrow> d \<noteq> [] \<Longrightarrow> chunk_at sc (client_store_new rand cache_size) a = Some d"
proof -
  have cache: "rcache.coherent (ReadCache_new cache_size MAX_CONTAINER_SIZE) (disk sc)"
    using ReadCache_new_ok [OF size, of MAX_CONTAINER_SIZE]
    by (simp add: rcache.coherent_def) (simp add: ReadCache_new_def rc_lookup_def lru_new_def)
  show "store_ok sc (client_store_new rand cache_size)"
    using cache ok fresh
    by (simp add: store_ok_def client_store_new_def CreateUUID_nonzero Let_def) (simp add: ReadCache_new_def)
  show "chunk_at sc (client_store_new rand cache_size) a = Some d" if "chunk_at sc cl a = Some d" "d \<noteq> []"
    using that empty by (auto simp: chunk_at_def Let_def subbuf_def split: option.splits if_splits)
qed

lemma store_session_chunks:
  assumes ok: "store_ok (dw_store dw) (dw_client dw)" and size: "0 < cache_size"
    and fresh: "disk (dw_store (DataWriterThd_end dw)) (CreateUUID rand CONTAINER_ID_LENGTH) = None"
  shows "store_ok (dw_store (DataWriterThd_end dw)) (client_store_new rand cache_size)"
    and "dw_chunk dw a = Some d \<Longrightarrow> d \<noteq> [] \<Longrightarrow>
      chunk_at (dw_store (DataWriterThd_end dw)) (client_store_new rand cache_size) a = Some d"
proof -
  have "store_ok (dw_store (DataWriterThd_end dw)) (client_store_new rand cache_size) \<and>
    (dw_chunk dw a = Some d \<longrightarrow> d \<noteq> [] \<longrightarrow>
      chunk_at (dw_store (DataWriterThd_end dw)) (client_store_new rand cache_size) a = Some d)"
  proof (cases "ct_cur_size (cv_cur_container (dw_client dw)) = 0")
    case True
    then have "DataWriterThd_end dw = dw" by (simp add: DataWriterThd_end_def)
    with new_client_empty [OF ok size _ True] fresh show ?thesis by (simp add: dw_chunk_def)
  next
    case False
    then have e: "dw_store (DataWriterThd_end dw) = SaveContainer (dw_store dw) (cv_cur_container (dw_client dw))"
      by (simp add: DataWriterThd_end_def)
    from new_client_keeps [OF ok size fresh e] show ?thesis by (simp add: dw_chunk_def)
  qed
  then show "store_ok (dw_store (DataWriterThd_end dw)) (client_store_new rand cache_size)"
    and "dw_chunk dw a = Some d \<Longrightarrow> d \<noteq> [] \<Longrightarrow>
      chunk_at (dw_store (DataWriterThd_end dw)) (client_store_new rand cache_size) a = Some d" by simp_all
qed

lemma session_chunks:
  assumes inv: "dw_inv S dw" and size: "0 < cache_size"
    and fresh: "disk (dw_store (DataWriterThd_end dw)) (CreateUUID rand CONTAINER_ID_LENGTH) = None"
  shows "store_ok (dw_store (DataWriterThd_end dw)) (client_store_new rand cache_size)"
    and "dw_chunk dw a = Some d \<Longrightarrow> d \<noteq> [] \<Longrightarrow>
      chunk_at (dw_store (DataWriterThd_end dw)) (client_store_new rand cache_size) a = Some d"
  using inv store_session_chunks [OF _ size fresh] by (simp_all add: dw_inv_def)

lemma DataWriterThd_end_keeps [simp]:
  "dw_fp_2_addr (DataWriterThd_end dw) = dw_fp_2_addr dw" "dw_feature_2_fp (DataWriterThd_end dw) = dw_feature_2_fp dw"
  by (simp_all add: DataWriterThd_end_def)

lemma open_reader_of:
  assumes "dw_inv S dw" "0 < cache_size"
    and "disk (dw_store (DataWriterThd_end dw)) (CreateUUID rand CONTAINER_ID_LENGTH) = None"
  shows "reader_of dw (open_reader rand cache_size ic (DataWriterThd_end dw))"
  using session_chunks [OF assms] by (simp add: reader_of_def open_reader_def)

text \<open>
  C7. Nothing is lost between sessions. When an upload ends, its tail container is sealed; the next
  upload starts with a container and a read cache of its own, and every fingerprint that was
  stored still denotes the same chunk, in a state that is consistent again. This also holds for
  an upload that stored nothing new, whose empty container is not saved.
\<close>

theorem DataWriter_next_session:
  assumes "dw_inv S dw" "0 < cache_size"
    and "disk (dw_store (DataWriterThd_end dw)) (CreateUUID rand CONTAINER_ID_LENGTH) = None"
  shows "dw_inv S (dw_session rand cache_size (DataWriterThd_end dw)) \<and>
    (\<forall>fp \<in> S. stored ddec dw fp \<noteq> None \<longrightarrow> stored ddec (dw_session rand cache_size (DataWriterThd_end dw)) fp = stored ddec dw fp)"
proof -
  let ?dw = "dw_session rand cache_size (DataWriterThd_end dw)"
  note s = session_chunks [OF assms]
  have idx: "dw_fp_2_addr ?dw = dw_fp_2_addr dw" "dw_feature_2_fp ?dw = dw_feature_2_fp dw"
    by (simp_all add: dw_session_def)
  have chunk: "dw_chunk ?dw a = Some d" if "dw_chunk dw a = Some d" "d \<noteq> []" for a d
    using that s(2) by (simp add: dw_session_def dw_chunk_def)
  have base: "base_fp ?dw b = base_fp dw b" for b by (simp add: base_fp_def idx)
  have entry: "dw_entry_ok S ?dw a" if "dw_entry_ok S dw a" for a
    using that chunk by (auto simp: dw_entry_ok_def base)
  have "store_ok (dw_store ?dw) (dw_client ?dw)" using s(1) by (simp add: dw_session_def)
  then have "dw_inv S ?dw" using assms(1) entry unfolding dw_inv_def idx base by blast
  moreover have "stored ddec ?dw fp = Some d" if fp: "fp \<in> S" and d: "stored ddec dw fp = Some d" for fp d
  proof -
    obtain a where a: "map_of (dw_fp_2_addr dw) fp = Some a" using d by (auto simp: stored_def split: option.splits)
    show ?thesis
    proof (cases "a_stat a = COMP_DELTA_CHUNK")
      case True
      show ?thesis
        by (rule stored_delta [OF assms(1) fp a True d]) (use True a chunk in \<open>simp add: stored_def idx\<close>)
    next
      case False
      show ?thesis
        by (rule stored_whole [OF assms(1) fp a, of ddec]) (use False a d chunk in \<open>auto simp: stored_def idx\<close>)
    qed
  qed
  ultimately show ?thesis by auto
qed

definition dw_one :: "bytes \<Rightarrow> data_writer" where
  \<comment> \<open>a store with one chunk\<close>
  "dw_one d = (case DataWriterThd_step demo_denc rev (\<lambda>_ _. 1) dw_new ((chunk_demo_in 4) \<lparr> w_data := d \<rparr>) of
     Inr dw \<Rightarrow> dw | Inl _ \<Rightarrow> dw_new)"

definition one_addr :: "nat \<Rightarrow> key_for_chunk" where
  "one_addr n = \<lparr> a_stat = COMP_BASE_CHUNK, a_container = CreateUUID (\<lambda>_. 0) 8, a_offset = 0, a_len = n, a_base_fp = [],
                  a_compressed_fp = [] \<rparr>"

lemma find_new:
  "FindBaseChunk_db rev (dw_feature_2_fp dw_new) ci = ci \<lparr> ci_stat := NON_SIMILAR_CHUNK \<rparr>"
  by (rule FindBaseChunk_db_cases [of rev, OF mset_rev dw_new_inv]) auto

lemma dw_one_eval:
  assumes "length d \<le> ENC_MAX_CHUNK_SIZE"
  shows "DataWriterThd_step demo_denc rev (\<lambda>_ _. 1) dw_new ((chunk_demo_in 4) \<lparr> w_data := d \<rparr>) = Inr (dw_one d)"
    "ct_cur_size (cv_cur_container (dw_client (dw_one d))) = length d"
    "map_of (dw_fp_2_addr (dw_one d)) (replicate 32 4) = Some (one_addr (length d))"
    "st_files (dw_store (dw_one d)) = []" "ct_id (cv_cur_container (dw_client (dw_one d))) = CreateUUID (\<lambda>_. 0) 8"
proof -
  have m: "mem_write (replicate MAX_CONTAINER_SIZE 0) 0 d = Inr (d @ drop (length d) (replicate MAX_CONTAINER_SIZE 0))"
    using assms by (simp add: mem_write_def size_consts)
  show "DataWriterThd_step demo_denc rev (\<lambda>_ _. 1) dw_new ((chunk_demo_in 4) \<lparr> w_data := d \<rparr>) = Inr (dw_one d)"
    "ct_cur_size (cv_cur_container (dw_client (dw_one d))) = length d"
    "map_of (dw_fp_2_addr (dw_one d)) (replicate 32 4) = Some (one_addr (length d))"
    "st_files (dw_store (dw_one d)) = []" "ct_id (cv_cur_container (dw_client (dw_one d))) = CreateUUID (\<lambda>_. 0) 8"
    using m assms
    by (simp_all add: dw_one_def find_new DataWriterThd_step_def ProcNonSimilarChunk_def dw_write_def WriteChunk_def Let_def
        set_addr_stat_def chunk_demo_in_def)
      (simp_all add: dw_new_def sc0_def client_store_new_def addr0_def one_addr_def size_consts)
qed

lemma dw_one_inv:
  assumes "d \<noteq> []" "length d \<le> ENC_MAX_CHUNK_SIZE"
  shows "dw_inv {replicate 32 4} (dw_one d)" "stored demo_denc (dw_one d) (replicate 32 4) = Some d"
proof -
  let ?w = "(chunk_demo_in 4) \<lparr> w_data := d \<rparr>"
  have i: "dw_input {} ?w" using assms by (simp add: dw_input_def chunk_demo_in_def size_consts)
  have f: "fresh_id (dw_store dw_new) (dw_client dw_new) (\<lambda>_. 1)" using fresh_new by (simp add: dw_new_def)
  have "ci_stat (w_info ?w) = UNIQUE_CHUNK" by (simp add: chunk_demo_in_def)
  from dw_step_non_similar [where rand = "\<lambda>_ _. 1" and denc = demo_denc and ddec = demo_denc, OF dw_new_inv i f this find_new]
    dw_one_eval(1) [OF assms(2)]
  show "dw_inv {replicate 32 4} (dw_one d)" "stored demo_denc (dw_one d) (replicate 32 4) = Some d"
    by (auto simp: chunk_demo_in_def)
qed

lemma dw_one_fresh:
  assumes "length d \<le> ENC_MAX_CHUNK_SIZE"
  shows "disk (dw_store (DataWriterThd_end (dw_one d))) (CreateUUID (\<lambda>_. 1) CONTAINER_ID_LENGTH) = None"
proof -
  have "CreateUUID (\<lambda>_. 1) 8 \<noteq> CreateUUID (\<lambda>_. 0) 8"
    by (simp add: CreateUUID_def ALPHABET_def upt_rec_numeral) (rule exI [of _ 0], simp)
  then show ?thesis using dw_one_eval(2,4,5) [OF assms]
    by (auto simp: DataWriterThd_end_def SaveContainer_def Let_def disk_def container_path_def CONTAINER_ID_LENGTH_def)
qed

theorem DataWriter_next_session_witness:
  "dw_inv {replicate 32 4} (dw_session (\<lambda>_. 1) 3 (DataWriterThd_end (dw_one [4, 7]))) \<and>
   stored demo_denc (dw_session (\<lambda>_. 1) 3 (DataWriterThd_end (dw_one [4, 7]))) (replicate 32 4) = Some [4, 7]"
proof -
  have l: "length [4, 7 :: byte] \<le> ENC_MAX_CHUNK_SIZE" by (simp add: size_consts)
  show ?thesis
    using DataWriter_next_session [OF dw_one_inv(1) _ dw_one_fresh, of "[4, 7]" 3 demo_denc] dw_one_inv(2) [of "[4, 7]"]
      dw_one_eval(2) [OF l] l by simp
qed

subsection \<open>A whole file\<close>

lemma fetch_all_ok:
  assumes "dw_inv S dw" "ddec_bounded ddec" "reader_of dw re" "\<forall>fp \<in> set fps. restorable S ddec dw (re_inform re) fp"
  shows "\<exists>re' raws. fetch_all ddec junk re fps = Inr (re', raws) \<and>
    list_all2 (\<lambda>raw fs. frames_fit fs \<and> (\<forall>c \<in> set fs. header_wf c) \<and>
      (\<forall>de. de_room de fs \<longrightarrow> DecodeChunk ddec de raw = Inr (de_add de fs))) raws (map (frames_of ddec dw (re_inform re)) fps)"
  using assms(3,4)
proof (induction fps arbitrary: re)
  case Nil
  then show ?case by simp
next
  case (Cons fp fps)
  have r: "restorable S ddec dw (re_inform re) fp" using Cons.prems(2) by simp
  from fetch_frames [OF assms(1) Cons.prems(1) r, of junk] obtain re1 raw where
      1: "FetchChunk ddec junk re fp = Inr (re1, raw)" "reader_of dw re1" "re_inform re1 = re_inform re"
      "\<forall>de. de_room de (frames_of ddec dw (re_inform re) fp) \<longrightarrow>
        DecodeChunk ddec de raw = Inr (de_add de (frames_of ddec dw (re_inform re) fp))"
    by (auto simp: fetches_def)
  from Cons.IH [OF 1(2)] Cons.prems(2) 1(3) obtain re' raws where "fetch_all ddec junk re1 fps = Inr (re', raws)"
      "list_all2 (\<lambda>raw fs. frames_fit fs \<and> (\<forall>c \<in> set fs. header_wf c) \<and>
        (\<forall>de. de_room de fs \<longrightarrow> DecodeChunk ddec de raw = Inr (de_add de fs))) raws (map (frames_of ddec dw (re_inform re)) fps)"
    by auto
  with 1 frames_of_fit [OF assms(1,2) r] show ?case by simp
qed

lemma server_restore_run:
  assumes inv: "dw_inv S dw" and b: "ddec_bounded ddec" and re: "reader_of dw re"
    and r: "\<forall>fp \<in> set fps. restorable S ddec dw (re_inform re) fp" and batch: "0 < batch" "0 < recipe_batch"
    and head: "length head = RECIPE_HEAD_SIZE"
  shows "\<exists>re' raws gs. DataReaderThd_Run ddec junk recipe_batch re (head @ concat fps) = Inr (re', raws) \<and>
    DataDecoderThd_Run ddec batch raws = Inr (map restore_msg gs @ [(SERVER_RESTORE_FINAL, 0, [])]) \<and>
    concat gs = map (frames_of ddec dw (re_inform re)) fps \<and> (\<forall>g \<in> set gs. 0 < length g \<and> length g \<le> batch)"
proof -
  have "\<forall>fp \<in> set fps. length fp = CHUNK_HASH_SIZE" using inv r by (auto simp: dw_inv_def restorable_def)
  then have rd: "read_recipe recipe_batch (concat fps, False) = fps" by (rule read_recipe_concat [OF batch(2)])
  obtain re' raws where 1: "fetch_all ddec junk re fps = Inr (re', raws)"
      "list_all2 (\<lambda>raw fs. frames_fit fs \<and> (\<forall>c \<in> set fs. header_wf c) \<and>
        (\<forall>de. de_room de fs \<longrightarrow> DecodeChunk ddec de raw = Inr (de_add de fs))) raws (map (frames_of ddec dw (re_inform re)) fps)"
    using fetch_all_ok [OF inv b re r] by blast
  let ?de = "\<lparr> de_item_num = 0, de_data = [], de_batch = batch \<rparr>"
  have "decoder_inv ?de []" using batch(1) by (simp add: decoder_inv_def)
  from decoder_run [OF 1(2) this] obtain de' gs pend where 2: "run_thd (DataDecoderThd_step ddec) ?de raws = Inr (de', map restore_msg gs)"
      "decoder_inv de' pend" "de_batch de' = batch" "concat gs @ pend = map (frames_of ddec dw (re_inform re)) fps"
      "\<forall>g \<in> set gs. length g = batch"
    by auto
  let ?gs = "gs @ (if pend = [] then [] else [pend])"
  have "DataReaderThd_Run ddec junk recipe_batch re (head @ concat fps) = Inr (re', raws)"
    using 1(1) rd head by (simp add: DataReaderThd_Run_def)
  moreover have "DataDecoderThd_Run ddec batch raws = Inr (map restore_msg ?gs @ [(SERVER_RESTORE_FINAL, 0, [])])"
    using 2(1,2) by (simp add: DataDecoderThd_Run_def DataDecoderThd_end_def decoder_inv_def restore_msg_def Decoder_SendChunks_def)
  moreover have "concat ?gs = map (frames_of ddec dw (re_inform re)) fps" using 2(4) by (cases "pend = []") simp_all
  moreover have "\<forall>g \<in> set ?gs. 0 < length g \<and> length g \<le> batch"
    using 2(2,3,5) batch(1) by (auto simp: decoder_inv_def)
  ultimately show ?thesis by blast
qed

text \<open>
  C6. What the server sends for a file. After the upload session has ended, a new session that
  walks over the recipe reads every chunk without an exit, decodes deltas against whole chunks
  itself, and sends for each fingerprint, in the order of the recipe, exactly the frames that
  its abstract content prescribes, in batches that never overrun the send buffer and never split
  a chunk from its base.
\<close>

theorem Server_restore:
  assumes "dw_inv S dw" "ddec_bounded ddec" "0 < cache_size"
    and "disk (dw_store (DataWriterThd_end dw)) (CreateUUID rand CONTAINER_ID_LENGTH) = None"
    and "\<forall>fp \<in> set fps. restorable S ddec dw ic fp" "0 < batch" "0 < recipe_batch" "length head = RECIPE_HEAD_SIZE"
  shows "\<exists>re' raws gs.
    DataReaderThd_Run ddec junk recipe_batch (open_reader rand cache_size ic (DataWriterThd_end dw)) (head @ concat fps) = Inr (re', raws) \<and>
    DataDecoderThd_Run ddec batch raws = Inr (map restore_msg gs @ [(SERVER_RESTORE_FINAL, 0, [])]) \<and>
    concat gs = map (frames_of ddec dw ic) fps \<and> (\<forall>g \<in> set gs. 0 < length g \<and> length g \<le> batch)"
  using server_restore_run [OF assms(1,2) open_reader_of [OF assms(1,3,4), of ic], of fps batch recipe_batch head junk] assms(5-8)
  by (simp add: open_reader_def)

theorem Server_restore_witness:
  "\<exists>re' raws gs.
    DataReaderThd_Run demo_denc (\<lambda>_. []) 1 (open_reader (\<lambda>_. 1) 3 ic_new (DataWriterThd_end (dw_one [4, 7])))
      (replicate 16 0 @ replicate 32 4 @ replicate 32 4) = Inr (re', raws) \<and>
    DataDecoderThd_Run demo_denc 1 raws = Inr (map restore_msg gs @ [(SERVER_RESTORE_FINAL, 0, [])]) \<and>
    concat gs = [[restore_frame COMP_NORMAL_CHUNK [4, 7]], [restore_frame COMP_NORMAL_CHUNK [4, 7]]]"
proof -
  have l: "length [4, 7 :: byte] \<le> ENC_MAX_CHUNK_SIZE" by (simp add: size_consts)
  note inv = dw_one_inv [of "[4, 7]", OF _ l, simplified] and ev = dw_one_eval [OF l]
  have f: "server_frames demo_denc (dw_one [4, 7]) ic_new (replicate 32 4) = Some [restore_frame COMP_NORMAL_CHUNK [4, 7]]"
    using ev(3) inv(2) by (simp add: server_frames_def one_addr_def)
  then have "restorable {replicate 32 4} demo_denc (dw_one [4, 7]) ic_new (replicate 32 4)"
    using ev(3) by (simp add: restorable_def one_addr_def)
  moreover have "ddec_bounded demo_denc" by (simp add: ddec_bounded_def demo_denc_def)
  ultimately show ?thesis
    using Server_restore [OF inv(1) _ _ dw_one_fresh [OF l], of demo_denc 3 "[replicate 32 4, replicate 32 4]" ic_new 1 1
        "replicate 16 0" "\<lambda>_. []"] ev(2) f
    by (simp add: frames_of_def RECIPE_HEAD_SIZE_def) blast
qed

text \<open>
  A chunk whose container is lost is restored as junk: the reader does not look at the result of
  the read, so the decoder sends as many bytes of an uninitialised buffer as the index says.
\<close>

theorem FetchChunk_lost_container:
  assumes "map_of (re_fp_2_addr re) fp = Some a" "a_stat a = COMP_BASE_CHUNK" "a_len a \<le> ENC_MAX_CHUNK_SIZE"
    and "ReadChunk (re_store re) (re_client re) a = Inr (sc, cl, None)"
    and "length (junk (a_len a)) + HEADER_SIZE \<le> 2 * batch * SEND_CHUNK_SIZE"
  shows "\<exists>re' raw. FetchChunk ddec junk re fp = Inr (re', raw) \<and>
    DecodeChunk ddec \<lparr> de_item_num = 0, de_data = [], de_batch = batch \<rparr> raw =
      Inr \<lparr> de_item_num = 1, de_data = send_frame (restore_frame COMP_NORMAL_CHUNK (junk (a_len a))), de_batch = batch \<rparr>"
proof -
  have "de_room \<lparr> de_item_num = 0, de_data = [], de_batch = batch \<rparr> [restore_frame COMP_NORMAL_CHUNK (junk (a_len a))]"
    using assms(5) by (simp add: de_room_def length_send_frame)
  with assms show ?thesis
    by (simp add: FetchChunk_def reader_read_def Let_def decode_plain de_add_def)
qed

theorem FetchChunk_lost_container_witness:
  "\<exists>re' raw. FetchChunk demo_denc (\<lambda>n. replicate n 170)
      \<lparr> re_store = sc0, re_client = client_store_new (\<lambda>_. 0) 2, re_fp_2_addr = [([9], (one_addr 2) \<lparr> a_container := replicate 8 1 \<rparr>)],
        re_inform = ic_new \<rparr> [9] = Inr (re', raw) \<and>
    DecodeChunk demo_denc \<lparr> de_item_num = 0, de_data = [], de_batch = 1 \<rparr> raw =
      Inr \<lparr> de_item_num = 1, de_data = send_frame (restore_frame COMP_NORMAL_CHUNK [170, 170]), de_batch = 1 \<rparr>"
proof -
  have id: "takeWhile (\<lambda>c. c \<noteq> 0) (CreateUUID (\<lambda>_. 0) 8) = replicate 8 97"
    by (simp add: CreateUUID_def ALPHABET_def upt_rec_numeral map_replicate_const takeWhile_eq_all_conv)
  have lost: "ReadChunk sc0 (client_store_new (\<lambda>_. 0) 2) ((one_addr 2) \<lparr> a_container := replicate 8 1 \<rparr>) =
      Inr (sc0, client_store_new (\<lambda>_. 0) 2, None)"
    by (simp add: sc0_def client_store_new_def ReadChunk_def Let_def strncmp_eq_def id CONTAINER_ID_LENGTH_def
        ReadCache_new_def ReadCache_Exist_def lru_contains_def lru_new_def one_addr_def takeWhile_eq_all_conv)
  have two: "replicate 2 (170 :: byte) = [170, 170]" by (simp add: numeral_2_eq_2)
  show ?thesis
    using FetchChunk_lost_container [of _ "[9]" "(one_addr 2) \<lparr> a_container := replicate 8 1 \<rparr>" sc0 "client_store_new (\<lambda>_. 0) 2"
        "\<lambda>n. replicate n 170" 1 demo_denc] lost two
    by (simp add: one_addr_def size_consts HEADER_SIZE_def SEND_CHUNK_SIZE_def)
qed

end
