(* ===== verification/Retriever.thy ===== *)
theory Retriever
  imports Restore
begin

text \<open>
  Restoring a file on the client: \<open>src/client/data_retriever_thd.cc\<close> logs in, parses the batches
  of the server, decrypts each chunk with the next key of the key recipe and decompresses it;
  \<open>src/client/download_writer_thd.cc\<close> writes the file.
\<close>

subsection \<open>The retriever\<close>

record data_retriever =
  rt_method :: edr_design            \<comment> \<open>\<open>method_type_\<close>\<close>
  rt_batch :: nat                    \<comment> \<open>\<open>send_chunk_batch_size_\<close>\<close>
  rt_key_batch :: nat                \<comment> \<open>\<open>send_recipe_batch_size_\<close>\<close>
  rt_key_hdl :: istream              \<comment> \<open>\<open>key_recipe_hdl_\<close>\<close>
  rt_key_buf :: bytes                \<comment> \<open>\<open>key_recipe_buf_.buf\<close>\<close>
  rt_key_cnt :: nat                  \<comment> \<open>\<open>key_recipe_buf_.cnt\<close>\<close>
  rt_remain :: nat                   \<comment> \<open>\<open>remain_recipe_num_\<close>, a \<open>uint32_t\<close>\<close>
  rt_head :: file_recipe_head        \<comment> \<open>\<open>recipe_head_\<close>\<close>
  rt_recv_chunk_num :: nat
  rt_recv_data_size :: nat

definition data_retriever_new :: "edr_design \<Rightarrow> nat \<Rightarrow> nat \<Rightarrow> bytes \<Rightarrow> (nat \<Rightarrow> bytes) \<Rightarrow> data_retriever" where
  "data_retriever_new method batch key_batch key_file junk =
     \<lparr> rt_method = method, rt_batch = batch, rt_key_batch = key_batch, rt_key_hdl = (key_file, False),
       rt_key_buf = junk (key_batch * CHUNK_HASH_SIZE), rt_key_cnt = 0, rt_remain = 0,
       rt_head = \<lparr> rh_size = 0, rh_chunk_num = 0 \<rparr>, rt_recv_chunk_num = 0, rt_recv_data_size = 0 \<rparr>"

definition DownloadLogin :: "data_retriever \<Rightarrow> net_msg \<Rightarrow> data_retriever result" where
  \<comment> \<open>what the client does with the response to its \<open>CLIENT_LOGIN_DOWNLOAD\<close>\<close>
  "DownloadLogin rt response =
    (case response of (msg_type, _, data_buf) \<Rightarrow>
       (case msg_type of
          SERVER_FILE_NON_EXIST \<Rightarrow> Inl FileError
        | SERVER_LOGIN_RESPONSE \<Rightarrow>
            bindR (mem_read data_buf 0 RECIPE_HEAD_SIZE) (\<lambda>h.
              Inr (rt \<lparr> rt_head := \<lparr> rh_size = le_nat (take 8 h), rh_chunk_num = le_nat (drop 8 h) \<rparr> \<rparr>))
        | _ \<Rightarrow> Inl LoginError))"

definition FetchKeyRecipe :: "data_retriever \<Rightarrow> data_retriever" where
  \<comment> \<open>a short read leaves the end of the buffer as it was\<close>
  "FetchKeyRecipe rt =
    (case istream_read (rt_key_batch rt * CHUNK_HASH_SIZE) (rt_key_hdl rt) of (got, hdl) \<Rightarrow>
       rt \<lparr> rt_key_hdl := hdl, rt_key_buf := overlay got (rt_key_buf rt), rt_key_cnt := 0,
            rt_remain := to_u32 (length got div CHUNK_HASH_SIZE) \<rparr>)"

definition ProcCompChunk ::
  "(evp_setup \<Rightarrow> bytes \<Rightarrow> bytes) \<Rightarrow> codec \<Rightarrow> bytes \<Rightarrow> bytes \<Rightarrow> bytes result" where
  "ProcCompChunk evp_dec dcmp input_chunk key =
     bindR (TwoPhaseDecChunk evp_dec input_chunk key) (DecompressWithPad dcmp)"

definition ProcUncompChunk :: "(evp_setup \<Rightarrow> bytes \<Rightarrow> bytes) \<Rightarrow> bytes \<Rightarrow> bytes \<Rightarrow> bytes result" where
  "ProcUncompChunk evp_dec input_chunk key = TwoPhaseDecChunk evp_dec input_chunk key"

definition ProcRestoreBaseChunk ::
  "(evp_setup \<Rightarrow> bytes \<Rightarrow> bytes) \<Rightarrow> (evp_setup \<Rightarrow> bytes \<Rightarrow> bytes) \<Rightarrow> codec \<Rightarrow> bytes \<Rightarrow> bytes \<Rightarrow> bytes result" where
  "ProcRestoreBaseChunk evp_enc evp_dec dcmp input_chunk key =
    bindR (TwoPhaseDecChunk evp_dec input_chunk key) (\<lambda>un_enc_comp_base.
    bindR (DecompressWithPad dcmp un_enc_comp_base) (\<lambda>base_chunk.
      TwoPhaseEncChunk evp_enc base_chunk key))"

text \<open>
  One chunk of a batch in each mode. \<open>off\<close> is the offset of its data, the result is the restored
  chunk with the offset of the next header. A read behind the message is an error of the model.
\<close>

definition restore_full_edr ::
  "(evp_setup \<Rightarrow> bytes \<Rightarrow> bytes) \<Rightarrow> (evp_setup \<Rightarrow> bytes \<Rightarrow> bytes) \<Rightarrow> codec \<Rightarrow>
   (bytes \<Rightarrow> bytes \<Rightarrow> nat \<Rightarrow> bytes option) \<Rightarrow> bytes \<Rightarrow> nat \<Rightarrow> nat \<Rightarrow> data_type option \<Rightarrow> bytes \<Rightarrow> (bytes \<times> nat) result" where
  "restore_full_edr evp_enc evp_dec dcmp ddec buf off sz t key =
    (case t of
       Some COMP_NORMAL_CHUNK \<Rightarrow>
         bindR (mem_read buf off sz) (\<lambda>c. bindR (ProcCompChunk evp_dec dcmp c key) (\<lambda>d. Inr (d, off + sz)))
     | Some UNCOMP_NORMAL_CHUNK \<Rightarrow>
         bindR (mem_read buf off sz) (\<lambda>c. bindR (ProcUncompChunk evp_dec c key) (\<lambda>d. Inr (d, off + sz)))
     | Some CACHE_RESTORE_DELTA \<Rightarrow>
         bindR (read_data buf off sz) (\<lambda>delta.
           let off = off + sz
           in bindR (read_header buf off) (\<lambda>(base_size, _).
                let off = off + HEADER_SIZE
                in bindR (mem_read buf off base_size) (\<lambda>c.
                   bindR (ProcRestoreBaseChunk evp_enc evp_dec dcmp c key) (\<lambda>base.
                   bindR (DeltaDecode ddec base delta) (\<lambda>e.
                   bindR (ProcUncompChunk evp_dec e key) (\<lambda>d. Inr (d, off + base_size)))))))
     | Some MULTI_LEVEL_TYPE \<Rightarrow> bindR (read_data buf off sz) (\<lambda>d. Inr (d, off + sz))
     | _ \<Rightarrow> Inl WrongChunkType)"

definition restore_only_enc ::
  "(evp_setup \<Rightarrow> bytes \<Rightarrow> bytes) \<Rightarrow> bytes \<Rightarrow> nat \<Rightarrow> nat \<Rightarrow> data_type option \<Rightarrow> bytes \<Rightarrow> (bytes \<times> nat) result" where
  \<comment> \<open>the type is not looked at\<close>
  "restore_only_enc evp_dec buf off sz t key =
     bindR (mem_read buf off sz) (\<lambda>c. bindR (ProcUncompChunk evp_dec c key) (\<lambda>d. Inr (d, off + sz)))"

definition restore_enc_comp ::
  "(evp_setup \<Rightarrow> bytes \<Rightarrow> bytes) \<Rightarrow> codec \<Rightarrow> bytes \<Rightarrow> nat \<Rightarrow> nat \<Rightarrow> data_type option \<Rightarrow> bytes \<Rightarrow> (bytes \<times> nat) result" where
  "restore_enc_comp evp_dec dcmp buf off sz t key =
     bindR (mem_read buf off sz) (\<lambda>c. bindR (ProcCompChunk evp_dec dcmp c key) (\<lambda>d. Inr (d, off + sz)))"

definition next_key :: "data_retriever \<Rightarrow> (data_retriever \<times> bytes) result" where
  "next_key rt =
    (let rt = (if rt_remain rt = 0 then FetchKeyRecipe rt else rt)
     in bindR (mem_read (rt_key_buf rt) (rt_key_cnt rt * CHUNK_HASH_SIZE) CHUNK_HASH_SIZE) (\<lambda>key. Inr (rt, key)))"

definition count_restored :: "data_retriever \<Rightarrow> bytes \<Rightarrow> data_retriever" where
  \<comment> \<open>\<open>remain_recipe_num_--\<close> wraps around at zero\<close>
  "count_restored rt d =
     rt \<lparr> rt_key_cnt := rt_key_cnt rt + 1, rt_remain := to_u32 (rt_remain rt + 2 ^ 32 - 1),
          rt_recv_chunk_num := rt_recv_chunk_num rt + 1, rt_recv_data_size := rt_recv_data_size rt + length d \<rparr>"

fun restore_loop ::
  "(bytes \<Rightarrow> nat \<Rightarrow> nat \<Rightarrow> data_type option \<Rightarrow> bytes \<Rightarrow> (bytes \<times> nat) result) \<Rightarrow> bytes \<Rightarrow> nat \<Rightarrow>
   data_retriever \<times> nat \<Rightarrow> (data_retriever \<times> bytes list) result" where
  "restore_loop mode buf 0 (rt, off) = Inr (rt, [])"
| "restore_loop mode buf (Suc n) (rt, off) =
     bindR (read_header buf off) (\<lambda>(sz, t, _).
     bindR (next_key rt) (\<lambda>(rt, key).
     bindR (mode buf (off + HEADER_SIZE) sz t key) (\<lambda>(d, off).
     bindR (restore_loop mode buf n (count_restored rt d, off)) (\<lambda>(rt, ds). Inr (rt, d # ds)))))"

definition restore_mode ::
  "(evp_setup \<Rightarrow> bytes \<Rightarrow> bytes) \<Rightarrow> (evp_setup \<Rightarrow> bytes \<Rightarrow> bytes) \<Rightarrow> codec \<Rightarrow>
   (bytes \<Rightarrow> bytes \<Rightarrow> nat \<Rightarrow> bytes option) \<Rightarrow> edr_design \<Rightarrow>
   bytes \<Rightarrow> nat \<Rightarrow> nat \<Rightarrow> data_type option \<Rightarrow> bytes \<Rightarrow> (bytes \<times> nat) result" where
  "restore_mode evp_enc evp_dec dcmp ddec method =
    (case method of
       ONLY_SIMILAR_ENC \<Rightarrow> restore_only_enc evp_dec
     | SIMILAR_ENC_COMP \<Rightarrow> restore_enc_comp evp_dec dcmp
     | FULL_EDR \<Rightarrow> restore_full_edr evp_enc evp_dec dcmp ddec)"

fun DataRetrieverThd_Run ::
  "(evp_setup \<Rightarrow> bytes \<Rightarrow> bytes) \<Rightarrow> (evp_setup \<Rightarrow> bytes \<Rightarrow> bytes) \<Rightarrow> codec \<Rightarrow>
   (bytes \<Rightarrow> bytes \<Rightarrow> nat \<Rightarrow> bytes option) \<Rightarrow> data_retriever \<Rightarrow> net_msg list \<Rightarrow> (data_retriever \<times> bytes list) result" where
  \<comment> \<open>\<open>ReceiveData\<close> writes the whole message into a buffer of \<open>batch * sizeof(SendChunk_t)\<close> bytes\<close>
  "DataRetrieverThd_Run evp_enc evp_dec dcmp ddec rt [] = Inl NetworkError"
| "DataRetrieverThd_Run evp_enc evp_dec dcmp ddec rt ((msg_type, item_num, data_buf) # msgs) =
    (if rt_batch rt * SEND_CHUNK_SIZE < length data_buf then Inl OutOfBounds
     else case msg_type of
       SERVER_RESTORE_CHUNK \<Rightarrow>
         bindR (restore_loop (restore_mode evp_enc evp_dec dcmp ddec (rt_method rt)) data_buf item_num (rt, 0)) (\<lambda>(rt, ds).
         bindR (DataRetrieverThd_Run evp_enc evp_dec dcmp ddec rt msgs) (\<lambda>(rt, ds'). Inr (rt, ds @ ds')))
     | SERVER_RESTORE_FINAL \<Rightarrow> Inr (rt, [])
     | _ \<Rightarrow> Inl WrongMsgType)"

definition download_mismatch :: "data_retriever \<Rightarrow> bool" where
  \<comment> \<open>the test after the loop, it is only logged\<close>
  "download_mismatch rt \<longleftrightarrow> rt_recv_chunk_num rt \<noteq> rh_chunk_num (rt_head rt) \<or> rt_recv_data_size rt \<noteq> rh_size (rt_head rt)"

subsection \<open>The writer of the restored file\<close>

record download_writer =
  dl_file :: bytes
  dl_write_chunk_num :: nat
  dl_write_data_size :: nat

definition DownloadWriterThd_step :: "download_writer \<Rightarrow> bytes \<Rightarrow> download_writer" where
  "DownloadWriterThd_step dl data =
     dl \<lparr> dl_file := dl_file dl @ data, dl_write_chunk_num := dl_write_chunk_num dl + 1,
          dl_write_data_size := dl_write_data_size dl + length data \<rparr>"

definition DownloadWriterThd_Run :: "bytes list \<Rightarrow> download_writer" where
  "DownloadWriterThd_Run ds =
     fold (\<lambda>d dl. DownloadWriterThd_step dl d) ds \<lparr> dl_file = [], dl_write_chunk_num = 0, dl_write_data_size = 0 \<rparr>"

subsection \<open>Keys in the order of the recipe\<close>

definition key_inv :: "data_retriever \<Rightarrow> bytes list \<Rightarrow> bool" where
  \<comment> \<open>\<open>ks\<close> are the keys that are still to come, from the buffer and then from the file\<close>
  "key_inv rt ks \<longleftrightarrow>
     0 < rt_key_batch rt \<and> rt_key_batch rt < 2 ^ 32 \<and> length (rt_key_buf rt) = rt_key_batch rt * CHUNK_HASH_SIZE \<and>
     rt_key_cnt rt + rt_remain rt \<le> rt_key_batch rt \<and> rt_remain rt \<le> length ks \<and> (\<forall>k \<in> set ks. length k = CHUNK_HASH_SIZE) \<and>
     take (rt_remain rt * CHUNK_HASH_SIZE) (drop (rt_key_cnt rt * CHUNK_HASH_SIZE) (rt_key_buf rt)) = concat (take (rt_remain rt) ks) \<and>
     fst (rt_key_hdl rt) = concat (drop (rt_remain rt) ks) \<and> (snd (rt_key_hdl rt) \<longrightarrow> fst (rt_key_hdl rt) = [])"

definition rt_same :: "data_retriever \<Rightarrow> data_retriever \<Rightarrow> bool" where
  "rt_same rt rt' \<longleftrightarrow> rt_method rt' = rt_method rt \<and> rt_batch rt' = rt_batch rt \<and> rt_head rt' = rt_head rt"

lemma key_inv_new:
  "0 < key_batch \<Longrightarrow> key_batch < 2 ^ 32 \<Longrightarrow> \<forall>k \<in> set ks. length k = CHUNK_HASH_SIZE \<Longrightarrow> (\<And>n. length (junk n) = n) \<Longrightarrow>
   key_inv (data_retriever_new method batch key_batch (concat ks) junk) ks"
  by (simp add: key_inv_def data_retriever_new_def)

lemma FetchKeyRecipe_inv:
  assumes inv: "key_inv rt ks" and empty: "rt_remain rt = 0" and ks: "ks \<noteq> []"
  shows "key_inv (FetchKeyRecipe rt) ks \<and> 0 < rt_remain (FetchKeyRecipe rt)"
proof -
  let ?n = "min (rt_key_batch rt) (length ks)" and ?S = CHUNK_HASH_SIZE
  have pos: "0 < ?S" by (simp add: size_consts)
  have len: "\<forall>k \<in> set ks. length k = ?S" and b: "0 < rt_key_batch rt" "rt_key_batch rt < 2 ^ 32"
      "length (rt_key_buf rt) = rt_key_batch rt * ?S" and f: "fst (rt_key_hdl rt) = concat ks"
    using inv empty by (simp_all add: key_inv_def)
  have "concat ks \<noteq> []" using ks len pos by (cases ks) auto
  then have nf: "snd (rt_key_hdl rt) = False" using inv f by (auto simp: key_inv_def)
  have hdl: "rt_key_hdl rt = (concat ks, False)" using f nf by (simp add: prod_eq_iff)
  have lk: "length (concat ks) = length ks * ?S" by (rule length_fps [OF len])
  note td = take_drop_fps [OF len]
  obtain st where rd: "istream_read (rt_key_batch rt * ?S) (rt_key_hdl rt) = (concat (take ?n ks), st)"
      "fst st = concat (drop ?n ks)" "snd st \<longrightarrow> fst st = []"
  proof (cases "rt_key_batch rt \<le> length ks")
    case True
    then show thesis using td [OF True] lk
      by (intro that [of "(concat (drop (rt_key_batch rt) ks), False)"]) (simp_all add: istream_read_def hdl min_absorb1)
  next
    case False
    then show thesis using lk pos
      by (intro that [of "([], True)"]) (simp_all add: istream_read_def hdl min_absorb2)
  qed
  have lg: "length (concat (take ?n ks)) = ?n * ?S"
    using length_fps [of "take ?n ks"] len by (auto dest: in_set_takeD)
  have small: "?n < 2 ^ 32" using b(2) by (rule le_less_trans [OF min.cobounded1])
  have eq: "FetchKeyRecipe rt = rt \<lparr> rt_key_hdl := st, rt_key_buf := overlay (concat (take ?n ks)) (rt_key_buf rt), rt_key_cnt := 0,
      rt_remain := ?n \<rparr>"
  proof -
    have "to_u32 (length (concat (take ?n ks)) div ?S) = ?n" unfolding lg using pos small by simp
    then show ?thesis unfolding FetchKeyRecipe_def rd(1) by simp
  qed
  have n: "?n * ?S \<le> rt_key_batch rt * ?S" by (rule mult_le_mono1) simp
  have ov: "length (overlay (concat (take ?n ks)) (rt_key_buf rt)) = rt_key_batch rt * ?S"
    "take (?n * ?S) (overlay (concat (take ?n ks)) (rt_key_buf rt)) = concat (take ?n ks)"
    using lg b(3) n by (simp_all add: overlay_def)
  show ?thesis unfolding eq using ov b rd(2,3) len ks by (simp add: key_inv_def)
qed

lemma next_key_ok:
  assumes inv: "key_inv rt (k # ks)"
  shows "\<exists>rt'. next_key rt = Inr (rt', k) \<and> rt_same rt rt' \<and> rt_recv_chunk_num rt' = rt_recv_chunk_num rt \<and>
    rt_recv_data_size rt' = rt_recv_data_size rt \<and> key_inv (count_restored rt' d) ks"
proof -
  let ?rt = "if rt_remain rt = 0 then FetchKeyRecipe rt else rt" and ?S = CHUNK_HASH_SIZE
  have same: "rt_same rt ?rt" "rt_recv_chunk_num ?rt = rt_recv_chunk_num rt" "rt_recv_data_size ?rt = rt_recv_data_size rt"
    by (simp_all add: rt_same_def FetchKeyRecipe_def split: prod.splits)
  have i: "key_inv ?rt (k # ks)" "0 < rt_remain ?rt"
    using inv FetchKeyRecipe_inv [OF inv] by auto
  define r where "r = ?rt"
  have i: "key_inv r (k # ks)" "0 < rt_remain r" using i unfolding r_def .
  obtain m where m: "rt_remain r = Suc m" using i(2) by (cases "rt_remain r") auto
  have k: "length k = ?S" using i(1) by (simp add: key_inv_def)
  let ?d = "drop (rt_key_cnt r * ?S) (rt_key_buf r)"
  have t: "take (rt_remain r * ?S) ?d = k @ concat (take m ks)" using i(1) m by (simp add: key_inv_def)
  have bound: "rt_key_cnt r * ?S + rt_remain r * ?S \<le> length (rt_key_buf r)"
  proof -
    have "(rt_key_cnt r + rt_remain r) * ?S \<le> rt_key_batch r * ?S" using i(1) by (intro mult_le_mono1) (simp add: key_inv_def)
    then show ?thesis using i(1) by (simp add: key_inv_def add_mult_distrib)
  qed
  have "take ?S ?d = take ?S (take (rt_remain r * ?S) ?d)" by (simp add: m)
  also have "\<dots> = k" unfolding t using k by simp
  finally have key: "mem_read (rt_key_buf r) (rt_key_cnt r * ?S) ?S = Inr k"
    using bound by (simp add: mem_read_def m)
  have "take (m * ?S) (drop ((rt_key_cnt r + 1) * ?S) (rt_key_buf r)) = drop ?S (take (rt_remain r * ?S) ?d)"
    by (simp add: m drop_take add.commute)
  then have rest: "take (m * ?S) (drop ((rt_key_cnt r + 1) * ?S) (rt_key_buf r)) = concat (take m ks)"
    unfolding t using k by simp
  have "Suc m \<le> rt_key_batch r" "rt_key_batch r < 2 ^ 32" using i(1) m by (simp_all add: key_inv_def)
  then have "m < 2 ^ 32" by linarith
  then have u: "to_u32 (rt_remain r + 2 ^ 32 - 1) = m" by (simp add: m to_u32_def)
  have "key_inv (count_restored r d) ks"
    using i(1) m rest unfolding key_inv_def count_restored_def u by auto
  moreover have "next_key rt = Inr (r, k)" using key unfolding next_key_def Let_def r_def by simp
  ultimately show ?thesis using same unfolding r_def by blast
qed

subsection \<open>Opening the frames of one chunk\<close>

definition open_frames ::
  "(evp_setup \<Rightarrow> bytes \<Rightarrow> bytes) \<Rightarrow> (evp_setup \<Rightarrow> bytes \<Rightarrow> bytes) \<Rightarrow> codec \<Rightarrow>
   (bytes \<Rightarrow> bytes \<Rightarrow> nat \<Rightarrow> bytes option) \<Rightarrow> bytes \<Rightarrow> send_chunk list \<Rightarrow> bytes result" where
  \<comment> \<open>what the frames of a chunk mean to a client that has the key\<close>
  "open_frames evp_enc evp_dec dcmp ddec key fs =
    (case fs of
       [c] \<Rightarrow>
         (case sc_type c of
            COMP_NORMAL_CHUNK \<Rightarrow> ProcCompChunk evp_dec dcmp (sc_data c) key
          | UNCOMP_NORMAL_CHUNK \<Rightarrow> ProcUncompChunk evp_dec (sc_data c) key
          | MULTI_LEVEL_TYPE \<Rightarrow> Inr (sc_data c)
          | _ \<Rightarrow> Inl WrongChunkType)
     | [k, c] \<Rightarrow>
         (if sc_type k = CACHE_RESTORE_DELTA then
            bindR (ProcRestoreBaseChunk evp_enc evp_dec dcmp (sc_data c) key) (\<lambda>base.
            bindR (DeltaDecode ddec base (sc_data k)) (\<lambda>e. ProcUncompChunk evp_dec e key))
          else Inl WrongChunkType)
     | _ \<Rightarrow> Inl WrongChunkType)"

lemma frame_mem_read:
  assumes "header_wf c"
  shows "mem_read (pre @ send_frame c @ post) (length pre + HEADER_SIZE) (length (sc_data c)) = Inr (sc_data c)"
  using mem_read_append [of "pre @ send_header c" "sc_data c" post] length_send_header [OF assms] by (simp add: send_frame_def)

lemma restore_full_edr_frames:
  assumes fit: "frames_fit fs" "\<forall>c \<in> set fs. header_wf c"
    and op: "open_frames evp_enc evp_dec dcmp ddec key fs = Inr p"
  shows "\<exists>sz t r. read_header (pre @ frames_bytes fs @ post) (length pre) = Inr (sz, t, r) \<and>
    restore_full_edr evp_enc evp_dec dcmp ddec (pre @ frames_bytes fs @ post) (length pre + HEADER_SIZE) sz t key =
      Inr (p, length pre + length (frames_bytes fs))"
proof -
  consider c where "fs = [c]" | k c where "fs = [k, c]"
    using op by (auto simp: open_frames_def split: list.splits)
  then show ?thesis
  proof cases
    case 1
    have c: "header_wf c" "length (sc_data c) \<le> ENC_MAX_CHUNK_SIZE" using fit 1 by (simp_all add: frames_fit_def)
    note rd = frame_reads [OF c, of pre post] frame_mem_read [OF c(1), of pre post]
    show ?thesis using rd op 1 length_send_frame [OF c(1)]
      by (auto simp: frames_bytes_def open_frames_def restore_full_edr_def split: data_type.splits)
  next
    case 2
    have k: "header_wf k" "length (sc_data k) \<le> ENC_MAX_CHUNK_SIZE" and c: "header_wf c" "length (sc_data c) \<le> ENC_MAX_CHUNK_SIZE"
      using fit 2 by (simp_all add: frames_fit_def)
    have t: "sc_type k = CACHE_RESTORE_DELTA" using op 2 by (auto simp: open_frames_def split: if_splits)
    note k' = frame_reads [OF k, of pre "send_frame c @ post"]
    have len: "length (pre @ send_frame k) = length pre + HEADER_SIZE + length (sc_data k)"
      using length_send_frame [OF k(1)] by simp
    note c' = frame_reads(1) [OF c, of "pre @ send_frame k" post, unfolded len]
      frame_mem_read [OF c(1), of "pre @ send_frame k" post, unfolded len]
    show ?thesis using k' c' op t 2 length_send_frame [OF k(1)] length_send_frame [OF c(1)]
      by (auto simp: frames_bytes_def open_frames_def restore_full_edr_def Let_def bindR_eq_Inr)
  qed
qed

text \<open>A batch, and a sequence of batches.\<close>

type_synonym restored = "send_chunk list \<times> bytes \<times> bytes"

definition opens ::
  "(evp_setup \<Rightarrow> bytes \<Rightarrow> bytes) \<Rightarrow> (evp_setup \<Rightarrow> bytes \<Rightarrow> bytes) \<Rightarrow> codec \<Rightarrow>
   (bytes \<Rightarrow> bytes \<Rightarrow> nat \<Rightarrow> bytes option) \<Rightarrow> restored \<Rightarrow> bool" where
  "opens evp_enc evp_dec dcmp ddec x \<longleftrightarrow>
    (case x of (fs, key, p) \<Rightarrow> frames_fit fs \<and> (\<forall>c \<in> set fs. header_wf c) \<and> open_frames evp_enc evp_dec dcmp ddec key fs = Inr p)"

lemma restore_batch:
  assumes "\<forall>x \<in> set xs. opens evp_enc evp_dec dcmp ddec x" "key_inv rt (map (\<lambda>x. fst (snd x)) xs @ ks)"
  shows "\<exists>rt'. restore_loop (restore_full_edr evp_enc evp_dec dcmp ddec) (pre @ concat (map (\<lambda>x. frames_bytes (fst x)) xs) @ post)
      (length xs) (rt, length pre) = Inr (rt', map (\<lambda>x. snd (snd x)) xs) \<and> rt_same rt rt' \<and> key_inv rt' ks \<and>
    rt_recv_chunk_num rt' = rt_recv_chunk_num rt + length xs \<and>
    rt_recv_data_size rt' = rt_recv_data_size rt + length (concat (map (\<lambda>x. snd (snd x)) xs))"
  using assms
proof (induction xs arbitrary: rt pre)
  case Nil
  then show ?case by (simp add: rt_same_def)
next
  case (Cons x xs)
  obtain fs key p where x: "x = (fs, key, p)" by (cases x)
  have o: "frames_fit fs" "\<forall>c \<in> set fs. header_wf c" "open_frames evp_enc evp_dec dcmp ddec key fs = Inr p"
    using Cons.prems(1) x by (simp_all add: opens_def)
  let ?post = "concat (map (\<lambda>x. frames_bytes (fst x)) xs) @ post"
  obtain sz t r where 1: "read_header (pre @ frames_bytes fs @ ?post) (length pre) = Inr (sz, t, r)"
      "restore_full_edr evp_enc evp_dec dcmp ddec (pre @ frames_bytes fs @ ?post) (length pre + HEADER_SIZE) sz t key =
        Inr (p, length (pre @ frames_bytes fs))"
    using restore_full_edr_frames [OF o, of pre ?post] by auto
  obtain rt1 where 2: "next_key rt = Inr (rt1, key)" "rt_same rt rt1" "rt_recv_chunk_num rt1 = rt_recv_chunk_num rt"
      "rt_recv_data_size rt1 = rt_recv_data_size rt" "key_inv (count_restored rt1 p) (map (\<lambda>x. fst (snd x)) xs @ ks)"
    using next_key_ok [of rt key "map (\<lambda>x. fst (snd x)) xs @ ks" p] Cons.prems(2) x by auto
  have "\<forall>x \<in> set xs. opens evp_enc evp_dec dcmp ddec x" using Cons.prems(1) by simp
  from Cons.IH [OF this 2(5), of "pre @ frames_bytes fs"] obtain rt' where
      3: "restore_loop (restore_full_edr evp_enc evp_dec dcmp ddec) (pre @ frames_bytes fs @ ?post) (length xs)
        (count_restored rt1 p, length (pre @ frames_bytes fs)) = Inr (rt', map (\<lambda>x. snd (snd x)) xs)"
      "rt_same (count_restored rt1 p) rt'" "key_inv rt' ks"
      "rt_recv_chunk_num rt' = rt_recv_chunk_num (count_restored rt1 p) + length xs"
      "rt_recv_data_size rt' = rt_recv_data_size (count_restored rt1 p) + length (concat (map (\<lambda>x. snd (snd x)) xs))"
    by auto
  have "restore_loop (restore_full_edr evp_enc evp_dec dcmp ddec) (pre @ frames_bytes fs @ ?post) (Suc (length xs)) (rt, length pre) =
      Inr (rt', p # map (\<lambda>x. snd (snd x)) xs)"
    using 1 2(1) 3(1) by simp
  with 2(2-4) 3(2-5) x show ?case by (simp add: rt_same_def count_restored_def)
qed

lemma retriever_run:
  assumes "\<forall>g \<in> set gs. \<forall>x \<in> set g. opens evp_enc evp_dec dcmp ddec x"
    and "key_inv rt (map (\<lambda>x. fst (snd x)) (concat gs) @ ks)" "rt_method rt = FULL_EDR"
    and "\<forall>g \<in> set gs. length (concat (map (\<lambda>x. frames_bytes (fst x)) g)) \<le> rt_batch rt * SEND_CHUNK_SIZE"
  shows "\<exists>rt'. DataRetrieverThd_Run evp_enc evp_dec dcmp ddec rt (map (\<lambda>g. restore_msg (map fst g)) gs @ [(SERVER_RESTORE_FINAL, 0, [])]) =
      Inr (rt', map (\<lambda>x. snd (snd x)) (concat gs)) \<and> rt_same rt rt' \<and> key_inv rt' ks \<and>
    rt_recv_chunk_num rt' = rt_recv_chunk_num rt + length (concat gs) \<and>
    rt_recv_data_size rt' = rt_recv_data_size rt + length (concat (map (\<lambda>x. snd (snd x)) (concat gs)))"
  using assms
proof (induction gs arbitrary: rt)
  case Nil
  then show ?case by (simp add: rt_same_def)
next
  case (Cons g gs)
  have g: "\<forall>x \<in> set g. opens evp_enc evp_dec dcmp ddec x"
      "key_inv rt (map (\<lambda>x. fst (snd x)) g @ (map (\<lambda>x. fst (snd x)) (concat gs) @ ks))"
    using Cons.prems(1,2) by simp_all
  from restore_batch [OF g, of "[]" "[]"] obtain rt1 where
      1: "restore_loop (restore_full_edr evp_enc evp_dec dcmp ddec) (concat (map (\<lambda>x. frames_bytes (fst x)) g))
        (length g) (rt, 0) = Inr (rt1, map (\<lambda>x. snd (snd x)) g)" "rt_same rt rt1"
      "key_inv rt1 (map (\<lambda>x. fst (snd x)) (concat gs) @ ks)"
      "rt_recv_chunk_num rt1 = rt_recv_chunk_num rt + length g"
      "rt_recv_data_size rt1 = rt_recv_data_size rt + length (concat (map (\<lambda>x. snd (snd x)) g))"
    by auto
  have p: "\<forall>g \<in> set gs. \<forall>x \<in> set g. opens evp_enc evp_dec dcmp ddec x" "rt_method rt1 = FULL_EDR"
      "\<forall>g \<in> set gs. length (concat (map (\<lambda>x. frames_bytes (fst x)) g)) \<le> rt_batch rt1 * SEND_CHUNK_SIZE"
    using Cons.prems(1,3,4) 1(2) by (simp_all add: rt_same_def)
  obtain rt' where 2: "DataRetrieverThd_Run evp_enc evp_dec dcmp ddec rt1
        (map (\<lambda>g. restore_msg (map fst g)) gs @ [(SERVER_RESTORE_FINAL, 0, [])]) = Inr (rt', map (\<lambda>x. snd (snd x)) (concat gs))"
      "rt_same rt1 rt'" "key_inv rt' ks" "rt_recv_chunk_num rt' = rt_recv_chunk_num rt1 + length (concat gs)"
      "rt_recv_data_size rt' = rt_recv_data_size rt1 + length (concat (map (\<lambda>x. snd (snd x)) (concat gs)))"
    using Cons.IH [OF p(1) 1(3) p(2,3)] by blast
  have len: "length (concat (map (\<lambda>x. frames_bytes (fst x)) g)) \<le> rt_batch rt * SEND_CHUNK_SIZE" using Cons.prems(4) by simp
  have m: "restore_msg (map fst g) = (SERVER_RESTORE_CHUNK, length g, concat (map (\<lambda>x. frames_bytes (fst x)) g))"
    by (simp add: restore_msg_def comp_def)
  show ?case using 1 2 len Cons.prems(3)
    by (simp add: m restore_mode_def rt_same_def)
qed

subsection \<open>From the store to the plaintext\<close>

text \<open>
  What an upload of the plaintext \<open>p\<close> under a key leaves in the store: its compressed, padded and
  encrypted form, or the delta of its encrypted form against the encrypted form of another
  chunk, the base. If the base is no longer in the informed cache, the compressed form of the
  base is in the store.
\<close>

definition holds_comp ::
  "(evp_setup \<Rightarrow> bytes \<Rightarrow> bytes) \<Rightarrow> codec \<Rightarrow> codec \<Rightarrow> (u64 \<Rightarrow> nat \<Rightarrow> u32) \<Rightarrow> bytes \<Rightarrow> bytes \<Rightarrow> bytes \<Rightarrow> bool" where
  "holds_comp evp_enc cmp dcmp rng key p d \<longleftrightarrow> length p \<le> MAX_CHUNK_SIZE \<and> raw_safe cmp dcmp p \<and>
     (\<exists>seed. TwoPhaseEncChunk evp_enc (CompressWithPad cmp rng p seed) key = Inr d)"

definition denotes ::
  "(evp_setup \<Rightarrow> bytes \<Rightarrow> bytes) \<Rightarrow> codec \<Rightarrow> codec \<Rightarrow> (u64 \<Rightarrow> nat \<Rightarrow> u32) \<Rightarrow> (bytes \<Rightarrow> bytes \<Rightarrow> nat \<Rightarrow> bytes option) \<Rightarrow>
   bytes set \<Rightarrow> data_writer \<Rightarrow> inform_cache \<Rightarrow> bytes \<Rightarrow> bytes \<Rightarrow> bytes \<Rightarrow> bool" where
  "denotes evp_enc cmp dcmp rng ddec S dw ic fp key p \<longleftrightarrow> fp \<in> S \<and> length p \<le> MAX_CHUNK_SIZE \<and>
    (\<exists>a d. map_of (dw_fp_2_addr dw) fp = Some a \<and> stored ddec dw fp = Some d \<and>
      (if a_stat a \<noteq> CACHE_DELTA_CHUNK then holds_comp evp_enc cmp dcmp rng key p d
       else \<exists>base e. ddec base d ENC_MAX_CHUNK_SIZE = Some e \<and> TwoPhaseEncChunk evp_enc p key = Inr e \<and>
         (if IsBaseChunkExist ic (a_base_fp a) then FetchBaseChunk ic (a_base_fp a) = Inr base
          else a_base_fp a \<in> S \<and>
            (\<exists>b c q. map_of (dw_fp_2_addr dw) (a_base_fp a) = Some b \<and> a_stat b \<noteq> CACHE_DELTA_CHUNK \<and>
               stored ddec dw (a_base_fp a) = Some c \<and> holds_comp evp_enc cmp dcmp rng key q c \<and>
               TwoPhaseEncChunk evp_enc q key = Inr base))))"

lemma dec_enc:
  assumes "evp_ok evp_enc evp_dec" "length p \<le> MAX_CHUNK_SIZE + 4" "TwoPhaseEncChunk evp_enc p key = Inr d"
  shows "TwoPhaseDecChunk evp_dec d key = Inr p"
  using TwoPhaseEncChunk_size [OF assms(1,2), of key] assms(3) by auto

lemma open_comp:
  assumes "evp_ok evp_enc evp_dec" "codec_ok cmp dcmp" "holds_comp evp_enc cmp dcmp rng key p d"
  shows "bindR (TwoPhaseDecChunk evp_dec d key) (DecompressWithPad dcmp) = Inr p"
proof -
  obtain seed where e: "TwoPhaseEncChunk evp_enc (CompressWithPad cmp rng p seed) key = Inr d"
      and p: "length p \<le> MAX_CHUNK_SIZE" "raw_safe cmp dcmp p"
    using assms(3) by (auto simp: holds_comp_def)
  have "length p < 2 ^ 32" using p(1) by (simp add: size_consts)
  then have "length (CompressWithPad cmp rng p seed) \<le> MAX_CHUNK_SIZE + 4"
    using CompressWithPad_bound [OF assms(2), of p rng seed] p(1) by simp
  from dec_enc [OF assms(1) this e] Decompress_CompressWithPad [OF assms(2) p] show ?thesis by simp
qed

lemma denotes_opens:
  assumes evp: "evp_ok evp_enc evp_dec" and codec: "codec_ok cmp dcmp" and inv: "dw_inv S dw" and b: "ddec_bounded ddec"
    and d: "denotes evp_enc cmp dcmp rng ddec S dw ic fp key p"
  shows "restorable S ddec dw ic fp \<and> opens evp_enc evp_dec dcmp ddec (frames_of ddec dw ic fp, key, p)"
proof -
  obtain a d' where a: "fp \<in> S" "length p \<le> MAX_CHUNK_SIZE" "map_of (dw_fp_2_addr dw) fp = Some a" "stored ddec dw fp = Some d'"
      "if a_stat a \<noteq> CACHE_DELTA_CHUNK then holds_comp evp_enc cmp dcmp rng key p d'
       else \<exists>base e. ddec base d' ENC_MAX_CHUNK_SIZE = Some e \<and> TwoPhaseEncChunk evp_enc p key = Inr e \<and>
         (if IsBaseChunkExist ic (a_base_fp a) then FetchBaseChunk ic (a_base_fp a) = Inr base
          else a_base_fp a \<in> S \<and>
            (\<exists>b c q. map_of (dw_fp_2_addr dw) (a_base_fp a) = Some b \<and> a_stat b \<noteq> CACHE_DELTA_CHUNK \<and>
               stored ddec dw (a_base_fp a) = Some c \<and> holds_comp evp_enc cmp dcmp rng key q c \<and>
               TwoPhaseEncChunk evp_enc q key = Inr base))"
    using d unfolding denotes_def by blast
  have p4: "length p \<le> MAX_CHUNK_SIZE + 4" using a(2) by simp
  have goal: "restorable S ddec dw ic fp \<and> open_frames evp_enc evp_dec dcmp ddec key (frames_of ddec dw ic fp) = Inr p"
  proof (cases "a_stat a = CACHE_DELTA_CHUNK")
    case False
    then have "server_frames ddec dw ic fp = Some [restore_frame COMP_NORMAL_CHUNK d']" using a by (simp add: server_frames_def)
    moreover have "holds_comp evp_enc cmp dcmp rng key p d'" using a(5) False by simp
    ultimately show ?thesis using open_comp [OF evp codec] a False
      by (simp add: restorable_def frames_of_def open_frames_def ProcCompChunk_def)
  next
    case True
    then obtain base e where e: "ddec base d' ENC_MAX_CHUNK_SIZE = Some e" "TwoPhaseEncChunk evp_enc p key = Inr e"
        "if IsBaseChunkExist ic (a_base_fp a) then FetchBaseChunk ic (a_base_fp a) = Inr base
          else a_base_fp a \<in> S \<and>
            (\<exists>b c q. map_of (dw_fp_2_addr dw) (a_base_fp a) = Some b \<and> a_stat b \<noteq> CACHE_DELTA_CHUNK \<and>
               stored ddec dw (a_base_fp a) = Some c \<and> holds_comp evp_enc cmp dcmp rng key q c \<and>
               TwoPhaseEncChunk evp_enc q key = Inr base)"
      using a(5) by auto
    note pe = dec_enc [OF evp p4 e(2)]
    show ?thesis
    proof (cases "IsBaseChunkExist ic (a_base_fp a)")
      case base: True
      then have "server_frames ddec dw ic fp = Some [restore_frame UNCOMP_NORMAL_CHUNK e]"
        using a True e by (simp add: server_frames_def)
      then show ?thesis using pe a True base
        by (simp add: restorable_def frames_of_def open_frames_def ProcUncompChunk_def)
    next
      case base: False
      then obtain b c q where b: "a_base_fp a \<in> S" "map_of (dw_fp_2_addr dw) (a_base_fp a) = Some b"
          "a_stat b \<noteq> CACHE_DELTA_CHUNK" "stored ddec dw (a_base_fp a) = Some c" "holds_comp evp_enc cmp dcmp rng key q c"
          "TwoPhaseEncChunk evp_enc q key = Inr base"
        using e(3) by auto
      have "server_frames ddec dw ic fp = Some [restore_frame CACHE_RESTORE_DELTA d', restore_frame CACHE_RESTORE_BASE c]"
        using a True base b by (simp add: server_frames_def)
      moreover have "ProcRestoreBaseChunk evp_enc evp_dec dcmp c key = Inr base"
        using open_comp [OF evp codec b(5)] b(6) by (simp add: ProcRestoreBaseChunk_def bindR_assoc [symmetric])
      ultimately show ?thesis using pe a True base b e(1)
        by (simp add: restorable_def frames_of_def open_frames_def ProcUncompChunk_def DeltaDecode_def)
    qed
  qed
  with frames_of_fit [OF inv b, of ic fp] show ?thesis by (simp add: opens_def)
qed

lemma group_map:
  "concat gs = map f xs \<Longrightarrow> \<exists>hs. gs = map (map f) hs \<and> concat hs = xs"
proof (induction gs arbitrary: xs)
  case Nil
  then show ?case by (intro exI [of _ "[]"]) simp
next
  case (Cons g gs)
  have t: "map f (take (length g) xs) = g" "concat gs = map f (drop (length g) xs)"
    using Cons.prems by (metis append_eq_conv_conj concat.simps(2) take_map)
      (metis Cons.prems append_eq_conv_conj concat.simps(2) drop_map)
  from Cons.IH [OF t(2)] obtain hs where "gs = map (map f) hs" "concat hs = drop (length g) xs" by blast
  then show ?case using t(1) by (intro exI [of _ "take (length g) xs # hs"]) simp
qed

lemma DownloadWriter_file:
  "dl_file (fold (\<lambda>d dl. DownloadWriterThd_step dl d) ds dl) = dl_file dl @ concat ds"
  by (induction ds arbitrary: dl) (simp_all add: DownloadWriterThd_step_def)

lemma login_head:
  assumes "rh_size h < 2 ^ 64" "rh_chunk_num h < 2 ^ 64"
  shows "DownloadLogin rt (SERVER_LOGIN_RESPONSE, n, recipe_head_bytes h) = Inr (rt \<lparr> rt_head := h \<rparr>)"
proof -
  have "le_nat (u64_le (of_nat m)) = m" if "m < 2 ^ 64" for m
    using that by (simp add: u64_le_def le_nat_nat_le unat_of_nat)
  then show ?thesis using assms
    by (simp add: DownloadLogin_def recipe_head_bytes_def mem_read_def RECIPE_HEAD_SIZE_def)
qed

lemma restore_run:
  assumes "evp_ok evp_enc evp_dec" "codec_ok cmp dcmp" "ddec_bounded ddec" "dw_inv S dw"
    and "0 < cache_size"
    and "disk (dw_store (DataWriterThd_end dw)) (CreateUUID rand CONTAINER_ID_LENGTH) = None"
    and "0 < batch" "0 < recipe_batch" "0 < key_batch" "key_batch < 2 ^ 32" "\<And>n. length (junk n) = n"
    and xs: "\<forall>(fp, key, p) \<in> set xs. denotes evp_enc cmp dcmp rng ddec S dw ic fp key p \<and> length key = CHUNK_HASH_SIZE \<and>
      length (frames_bytes (frames_of ddec dw ic fp)) \<le> SEND_CHUNK_SIZE"
    and head: "head = \<lparr> rh_size = length (concat (map (\<lambda>x. snd (snd x)) xs)), rh_chunk_num = length xs \<rparr>"
      "rh_size head < 2 ^ 64" "rh_chunk_num head < 2 ^ 64"
  shows "\<exists>re' raws msgs rt rt'.
    DataReaderThd_Run ddec junk recipe_batch (open_reader rand cache_size ic (DataWriterThd_end dw))
      (recipe_head_bytes head @ concat (map fst xs)) = Inr (re', raws) \<and>
    DataDecoderThd_Run ddec batch raws = Inr msgs \<and>
    DownloadLogin (data_retriever_new FULL_EDR batch key_batch (concat (map (\<lambda>x. fst (snd x)) xs)) junk)
      (SERVER_LOGIN_RESPONSE, 0, recipe_head_bytes head) = Inr rt \<and>
    DataRetrieverThd_Run evp_enc evp_dec dcmp ddec rt msgs = Inr (rt', map (\<lambda>x. snd (snd x)) xs) \<and>
    \<not> download_mismatch rt' \<and>
    dl_file (DownloadWriterThd_Run (map (\<lambda>x. snd (snd x)) xs)) = concat (map (\<lambda>x. snd (snd x)) xs)"
proof -
  let ?f = "\<lambda>x. (frames_of ddec dw ic (fst x), snd x)"
  have x: "restorable S ddec dw ic (fst x) \<and> opens evp_enc evp_dec dcmp ddec (?f x)" if "x \<in> set xs" for x
    using denotes_opens [OF assms(1,2,4,3)] xs that by (cases x) fastforce
  have r: "\<forall>fp \<in> set (map fst xs). restorable S ddec dw (re_inform (open_reader rand cache_size ic (DataWriterThd_end dw))) fp"
    using x by (auto simp: open_reader_def)
  have hl: "length (recipe_head_bytes head) = RECIPE_HEAD_SIZE" by (simp add: recipe_head_bytes_def RECIPE_HEAD_SIZE_def)
  obtain re' raws gs where 1:
      "DataReaderThd_Run ddec junk recipe_batch (open_reader rand cache_size ic (DataWriterThd_end dw))
        (recipe_head_bytes head @ concat (map fst xs)) = Inr (re', raws)"
      "DataDecoderThd_Run ddec batch raws = Inr (map restore_msg gs @ [(SERVER_RESTORE_FINAL, 0, [])])"
      "concat gs = map (frames_of ddec dw ic) (map fst xs)" "\<forall>g \<in> set gs. 0 < length g \<and> length g \<le> batch"
    using server_restore_run [OF assms(4,3) open_reader_of [OF assms(4-6), of ic] r assms(7,8) hl, of junk]
    by (auto simp: open_reader_def)
  have "concat gs = map (\<lambda>x. frames_of ddec dw ic (fst x)) xs" using 1(3) by (simp add: comp_def)
  from group_map [OF this] obtain hs where hs: "gs = map (map (\<lambda>x. frames_of ddec dw ic (fst x))) hs" "concat hs = xs" by blast
  let ?gs = "map (map ?f) hs"
  have sub: "x \<in> set xs" if "h \<in> set hs" "x \<in> set h" for h x using that hs(2) by auto
  have g1: "\<forall>g \<in> set ?gs. \<forall>x \<in> set g. opens evp_enc evp_dec dcmp ddec x" using x sub by auto
  have cc: "map (\<lambda>x. fst (snd x)) (concat ?gs) = map (\<lambda>x. fst (snd x)) xs" "map (\<lambda>x. snd (snd x)) (concat ?gs) = map (\<lambda>x. snd (snd x)) xs"
      "length (concat ?gs) = length xs"
    using hs(2) by (simp_all add: map_concat [symmetric] comp_def flip: hs(2))
  have keys: "\<forall>k \<in> set (map (\<lambda>x. fst (snd x)) xs). length k = CHUNK_HASH_SIZE" using xs by auto
  let ?start = "data_retriever_new FULL_EDR batch key_batch (concat (map (\<lambda>x. fst (snd x)) xs)) junk"
  let ?rt = "?start \<lparr> rt_head := head \<rparr>"
  have k: "key_inv ?rt (map (\<lambda>x. fst (snd x)) (concat ?gs) @ [])"
    using key_inv_new [OF assms(9,10) keys assms(11), of FULL_EDR batch] unfolding cc
    by (simp add: key_inv_def data_retriever_new_def)
  have fits: "\<forall>g \<in> set ?gs. length (concat (map (\<lambda>x. frames_bytes (fst x)) g)) \<le> rt_batch ?rt * SEND_CHUNK_SIZE"
  proof
    fix g assume "g \<in> set ?gs"
    then obtain h where h: "h \<in> set hs" "g = map ?f h" by auto
    have "length h \<le> batch" using 1(4) hs(1) h(1) by auto
    moreover have "length (concat (map (\<lambda>x. frames_bytes (fst x)) (map ?f h))) \<le> length h * SEND_CHUNK_SIZE"
      if "set h \<subseteq> set xs" for h
      using that xs by (induction h) (auto intro: add_mono)
    ultimately show "length (concat (map (\<lambda>x. frames_bytes (fst x)) g)) \<le> rt_batch ?rt * SEND_CHUNK_SIZE"
      using h sub by (simp add: data_retriever_new_def) (meson le_trans mult_le_mono1 subsetI)
  qed
  have "rt_method ?rt = FULL_EDR" by (simp add: data_retriever_new_def)
  from retriever_run [OF g1 k this fits] obtain rt' where
      2: "DataRetrieverThd_Run evp_enc evp_dec dcmp ddec ?rt
          (map (\<lambda>g. restore_msg (map fst g)) ?gs @ [(SERVER_RESTORE_FINAL, 0, [])]) = Inr (rt', map (\<lambda>x. snd (snd x)) xs)"
      "rt_head rt' = head" "rt_recv_chunk_num rt' = length xs"
      "rt_recv_data_size rt' = length (concat (map (\<lambda>x. snd (snd x)) xs))"
    unfolding cc by (auto simp: rt_same_def data_retriever_new_def)
  have m: "map (\<lambda>g. restore_msg (map fst g)) ?gs = map restore_msg gs" by (simp add: hs(1) comp_def)
  have "\<not> download_mismatch rt'" using 2(2-4) by (simp add: download_mismatch_def head(1))
  moreover have "dl_file (DownloadWriterThd_Run (map (\<lambda>x. snd (snd x)) xs)) = concat (map (\<lambda>x. snd (snd x)) xs)"
    by (simp add: DownloadWriterThd_Run_def DownloadWriter_file)
  ultimately show ?thesis
    using 1(1,2) 2(1) login_head [OF head(2,3), of ?start 0] unfolding m by blast
qed

text \<open>
  C3. A file is restored. Take a store in a consistent state, a file recipe whose fingerprints denote
  the chunks of the file under the keys of the key recipe, and a head with its size. After the
  login, the server's reader and decoder and the client's retriever and writer finish without
  an exit, the client accepts the head, and the file it writes is the concatenation of the
  chunks. This covers chunks stored whole, stored as deltas on disk, stored as deltas against
  the informed cache, and such deltas whose base has been evicted; of the last kind the two
  frames together must fit the space of one chunk in the client's receive buffer.
\<close>

theorem Restore_file:
  assumes "evp_ok evp_enc evp_dec" "codec_ok cmp dcmp" "ddec_bounded ddec" "dw_inv S dw"
    and "0 < cache_size"
    and "disk (dw_store (DataWriterThd_end dw)) (CreateUUID rand CONTAINER_ID_LENGTH) = None"
    and "0 < batch" "0 < recipe_batch" "0 < key_batch" "key_batch < 2 ^ 32" "\<And>n. length (junk n) = n"
    and xs: "\<forall>(fp, key, p) \<in> set xs. denotes evp_enc cmp dcmp rng ddec S dw ic fp key p \<and> length key = CHUNK_HASH_SIZE \<and>
      length (frames_bytes (frames_of ddec dw ic fp)) \<le> SEND_CHUNK_SIZE"
    and head: "head = \<lparr> rh_size = length (concat (map (\<lambda>x. snd (snd x)) xs)), rh_chunk_num = length xs \<rparr>"
      "rh_size head < 2 ^ 64" "rh_chunk_num head < 2 ^ 64"
  shows "\<exists>re' raws msgs rt rt'.
    DataReaderThd_Run ddec junk recipe_batch (open_reader rand cache_size ic (DataWriterThd_end dw))
      (recipe_head_bytes head @ concat (map fst xs)) = Inr (re', raws) \<and>
    DataDecoderThd_Run ddec batch raws = Inr msgs \<and>
    DownloadLogin (data_retriever_new FULL_EDR batch key_batch (concat (map (\<lambda>x. fst (snd x)) xs)) junk)
      (SERVER_LOGIN_RESPONSE, 0, recipe_head_bytes head) = Inr rt \<and>
    DataRetrieverThd_Run evp_enc evp_dec dcmp ddec rt msgs = Inr (rt', map (\<lambda>x. snd (snd x)) xs) \<and>
    \<not> download_mismatch rt' \<and>
    dl_file (DownloadWriterThd_Run (map (\<lambda>x. snd (snd x)) xs)) = concat (map (\<lambda>x. snd (snd x)) xs)"
  by (rule restore_run [OF assms])

definition file_demo :: "(bytes \<times> bytes \<times> bytes) list" where
  \<comment> \<open>a file with two equal chunks\<close>
  "file_demo = [(replicate 32 4, replicate 32 1, [5]), (replicate 32 4, replicate 32 1, [5])]"

lemma enc_demo:
  "TwoPhaseEncChunk demo_enc (CompressWithPad demo_cmp (\<lambda>_ _. 0) [5] 0) key = Inr ([5, 1, 0, 0, 0] @ replicate 11 11)"
proof -
  have four: "(4 :: nat) = Suc (Suc (Suc (Suc 0)))" by simp
  have u: "u32_le 1 = [1, 0, 0, 0]" unfolding u32_le_def four nat_le.simps by simp
  have "padding_blk_num 0 1 1 = 0" by (simp add: padding_blk_num_def to_u32_def)
  then have "CompressWithPad demo_cmp (\<lambda>_ _. 0) [5] 0 = [5, 1, 0, 0, 0]"
    using u by (simp add: CompressWithPad_def PaddingWithSeed_def CompressOneChunk_def COMPRESSION_TYPE_def demo_cmp_def)
  then show ?thesis
    by (simp add: TwoPhaseEncChunk_def EncryptWithKeyIV_def demo_enc_def encrypt_setup_def size_consts)
qed

theorem Restore_file_witness:
  "\<exists>re' raws msgs rt rt'.
    DataReaderThd_Run demo_denc (\<lambda>n. replicate n 0) 7
      (open_reader (\<lambda>_. 1) 3 ic_new (DataWriterThd_end (dw_one ([5, 1, 0, 0, 0] @ replicate 11 11))))
      (recipe_head_bytes \<lparr> rh_size = 2, rh_chunk_num = 2 \<rparr> @ replicate 64 4) = Inr (re', raws) \<and>
    DataDecoderThd_Run demo_denc 1 raws = Inr msgs \<and>
    DownloadLogin (data_retriever_new FULL_EDR 1 5 (replicate 64 1) (\<lambda>n. replicate n 0))
      (SERVER_LOGIN_RESPONSE, 0, recipe_head_bytes \<lparr> rh_size = 2, rh_chunk_num = 2 \<rparr>) = Inr rt \<and>
    DataRetrieverThd_Run demo_enc demo_dec demo_dcmp demo_denc rt msgs = Inr (rt', [[5], [5]]) \<and> \<not> download_mismatch rt'"
proof -
  let ?d = "[5, 1, 0, 0, 0] @ replicate 11 11 :: bytes"
  have l: "length ?d \<le> ENC_MAX_CHUNK_SIZE" "?d \<noteq> []" by (simp_all add: size_consts)
  note inv = dw_one_inv [OF l(2,1)] and ev = dw_one_eval [OF l(1)]
  have h: "holds_comp demo_enc demo_cmp demo_dcmp (\<lambda>_ _. 0) (replicate 32 1) [5] ?d"
    using enc_demo by (auto simp: holds_comp_def raw_safe_def demo_dcmp_def size_consts)
  have "denotes demo_enc demo_cmp demo_dcmp (\<lambda>_ _. 0) demo_denc {replicate 32 4} (dw_one ?d) ic_new (replicate 32 4) (replicate 32 1) [5]"
    using ev(3) inv(2) h by (simp add: denotes_def one_addr_def size_consts)
  moreover have "frames_of demo_denc (dw_one ?d) ic_new (replicate 32 4) = [restore_frame COMP_NORMAL_CHUNK ?d]"
    using ev(3) inv(2) by (simp add: frames_of_def server_frames_def one_addr_def)
  moreover have "length (frames_bytes [restore_frame COMP_NORMAL_CHUNK ?d]) \<le> SEND_CHUNK_SIZE"
    by (simp add: frames_bytes_def length_send_frame HEADER_SIZE_def SEND_CHUNK_SIZE_def)
  ultimately have xs: "\<forall>(fp, key, p) \<in> set file_demo.
      denotes demo_enc demo_cmp demo_dcmp (\<lambda>_ _. 0) demo_denc {replicate 32 4} (dw_one ?d) ic_new fp key p \<and>
      length key = CHUNK_HASH_SIZE \<and> length (frames_bytes (frames_of demo_denc (dw_one ?d) ic_new fp)) \<le> SEND_CHUNK_SIZE"
    by (simp add: file_demo_def CHUNK_HASH_SIZE_def)
  have b: "ddec_bounded demo_denc" by (simp add: ddec_bounded_def demo_denc_def)
  have r: "concat (map fst file_demo) = replicate 64 4" "concat (map (\<lambda>x. fst (snd x)) file_demo) = replicate 64 1"
      "map (\<lambda>x. snd (snd x)) file_demo = [[5], [5]]" "length file_demo = 2"
    by (simp_all add: file_demo_def replicate_add [symmetric])
  have n: "0 < (3 :: nat)" "0 < (1 :: nat)" "0 < (7 :: nat)" "0 < (5 :: nat)" "(5 :: nat) < 2 ^ 32" by simp_all
  have j: "\<And>n. length (replicate n (0 :: byte)) = n" by simp
  have h: "\<lparr> rh_size = 2, rh_chunk_num = 2 \<rparr> =
      \<lparr> rh_size = length (concat (map (\<lambda>x. snd (snd x)) file_demo)), rh_chunk_num = length file_demo \<rparr>"
      "rh_size \<lparr> rh_size = 2, rh_chunk_num = 2 \<rparr> < 2 ^ 64" "rh_chunk_num \<lparr> rh_size = 2, rh_chunk_num = 2 \<rparr> < 2 ^ 64"
    using r by simp_all
  from Restore_file [OF demo_evp_ok demo_codec_ok b inv(1) n(1) dw_one_fresh [OF l(1)] n(2,3,4,5) j xs h]
  show ?thesis unfolding r by blast
qed


lemma chunk_at_addr:
  "a_container a = a_container b \<Longrightarrow> a_offset a = a_offset b \<Longrightarrow> a_len a = a_len b \<Longrightarrow> chunk_at sc cl a = chunk_at sc cl b"
  by (simp add: chunk_at_def Let_def split: option.split)

definition re_multi :: data_reader where
  \<comment> \<open>a chain of two deltas whose base is not in the cache\<close>
  "re_multi = \<lparr> re_store = dw_store (dw_one [4, 7]), re_client = dw_client (dw_one [4, 7]),
     re_fp_2_addr = [([1], (one_addr 2) \<lparr> a_stat := CACHE_DELTA_CHUNK, a_base_fp := [2] \<rparr>),
                     ([2], (one_addr 2) \<lparr> a_stat := CACHE_DELTA_CHUNK \<rparr>)],
     re_inform = ic_new \<rparr>"


text \<open>
  C39. The receive buffer of the client is smaller than the send buffer of the server. A delta and its
  evicted base that together exceed the space of one chunk go out in one message of the
  server, and receiving that message overruns the buffer of the client.
\<close>

theorem Retriever_overrun:
  assumes "rd_type raw = CACHE_DELTA_CHUNK" "rd_base_type raw = COMP_BASE_CHUNK"
    and "length (rd_data raw) \<le> ENC_MAX_CHUNK_SIZE" "length (rd_base_data raw) \<le> ENC_MAX_CHUNK_SIZE"
    and "SEND_CHUNK_SIZE < length (rd_data raw) + length (rd_base_data raw) + 2 * HEADER_SIZE"
  shows "\<exists>msgs. DataDecoderThd_Run ddec 1 [raw] = Inr msgs \<and>
    DataRetrieverThd_Run evp_enc evp_dec dcmp ddec (data_retriever_new FULL_EDR 1 key_batch key_file junk) msgs = Inl OutOfBounds"
proof -
  let ?fs = "[restore_frame CACHE_RESTORE_DELTA (rd_data raw), restore_frame CACHE_RESTORE_BASE (rd_base_data raw)]"
  let ?de = "\<lparr> de_item_num = 0, de_data = [], de_batch = 1 \<rparr>"
  have "de_room ?de ?fs"
    using assms(3,4) by (simp add: de_room_def length_send_frame HEADER_SIZE_def SEND_CHUNK_SIZE_def size_consts)
  from decode_cache(1) [OF assms(1,2) this] have
    run: "DataDecoderThd_Run ddec 1 [raw] = Inr [restore_msg [?fs], (SERVER_RESTORE_FINAL, 0, [])]"
    by (simp add: DataDecoderThd_Run_def DataDecoderThd_step_def DataDecoderThd_end_def de_add_def Decoder_SendChunks_def
        restore_msg_def frames_bytes_def)
  have "SEND_CHUNK_SIZE < length (frames_bytes ?fs)"
    using assms(5) by (simp add: frames_bytes_def length_send_frame)
  then have "DataRetrieverThd_Run evp_enc evp_dec dcmp ddec (data_retriever_new FULL_EDR 1 key_batch key_file junk)
      [restore_msg [?fs], (SERVER_RESTORE_FINAL, 0, [])] = Inl OutOfBounds"
    by (simp add: restore_msg_def data_retriever_new_def)
  with run show ?thesis by blast
qed

theorem Retriever_overrun_witness:
  "\<exists>msgs. DataDecoderThd_Run demo_denc 1
      [\<lparr> rd_type = CACHE_DELTA_CHUNK, rd_data = replicate 500 1, rd_base_type = COMP_BASE_CHUNK, rd_base_data = replicate 16000 2 \<rparr>] =
      Inr msgs \<and>
    DataRetrieverThd_Run demo_enc demo_dec demo_dcmp demo_denc (data_retriever_new FULL_EDR 1 4 [] (\<lambda>n. replicate n 0)) msgs =
      Inl OutOfBounds"
  by (rule Retriever_overrun) (simp_all add: size_consts SEND_CHUNK_SIZE_def HEADER_SIZE_def)

end
