(* ===== verification/Backup.thy ===== *)
theory Backup
  imports Upload_Run Retriever
begin

text \<open>
  A backup from end to end: the threads as \<open>src/app/client_main.cc\<close> and
  \<open>src/server/server_opt_thd.cc\<close> connect them, and the theorem that a file that was uploaded is
  restored. The threads of the client hand on messages in order and share nothing but the cache
  table, which the sender uses only after selective compression has finished with it; so a run of
  the client is a run of each thread on what the thread before it has produced.
\<close>

subsection \<open>The client's upload\<close>

definition client_front ::
  "(bytes \<Rightarrow> bytes) \<Rightarrow> (bytes \<Rightarrow> u64 list) \<Rightarrow> (evp_setup \<Rightarrow> bytes \<Rightarrow> bytes) \<Rightarrow> bytes \<Rightarrow>
   ((bytes, nat) umap \<Rightarrow> (bytes, nat) umap) \<Rightarrow> nat \<Rightarrow> u64 list \<Rightarrow> km_state \<Rightarrow> chunk_t list \<Rightarrow>
   (km_state \<times> enc_feature_chunk list) result" where
  \<comment> \<open>features, keys and encryption, features of the ciphertext\<close>
  "client_front hash feat evp_enc chunk_junk iter batch feature_junk km msgs =
    bindR (run_thd (PlainSimilarThd_step feat) feature_junk msgs) (\<lambda>(_, ps).
    bindR (run_thd (KeyGenThd_step (km_handle hash iter) (enc_chunk_with hash evp_enc chunk_junk))
             \<lparr> kg_chunk_buf = [], kg_send_buf = [], kg_batch = batch, kg_km = km, kg_finished = False \<rparr> ps) (\<lambda>(kg, ks).
    bindR (run_thd (CipherSimilarThd_step feat) () ks) (\<lambda>(_, cs). Inr (kg_km kg, cs))))"

definition client_back ::
  "(bytes \<Rightarrow> bytes) \<Rightarrow> (evp_setup \<Rightarrow> bytes \<Rightarrow> bytes) \<Rightarrow> codec \<Rightarrow> (u64 \<Rightarrow> nat \<Rightarrow> u32) \<Rightarrow> edr_design \<Rightarrow> select_comp \<Rightarrow>
   nat \<Rightarrow> nat \<Rightarrow> enc_feature_chunk list \<Rightarrow> (sender \<times> net_msg list) result" where
  \<comment> \<open>selective compression and the sender\<close>
  "client_back hash evp_enc cmp rng method_type sl batch key_batch cs =
    bindR (run_thd (SelectCompThd_step hash evp_enc cmp rng method_type) sl cs) (\<lambda>(sl, os).
      run_thd (SenderThd_step evp_enc) (sender_new batch key_batch (sl_cache_meta sl)) os)"

subsection \<open>The two sides of a download\<close>

definition server_download ::
  "(bytes \<Rightarrow> bytes \<Rightarrow> nat \<Rightarrow> bytes option) \<Rightarrow> (nat \<Rightarrow> bytes) \<Rightarrow> nat \<Rightarrow> nat \<Rightarrow> data_reader \<Rightarrow> bytes \<Rightarrow> net_msg list result" where
  \<comment> \<open>the response to the login carries the head of the recipe file; then the chunks\<close>
  "server_download ddec junk batch recipe_batch re recipe_file =
    bindR (DataReaderThd_Run ddec junk recipe_batch re recipe_file) (\<lambda>(re, raws).
    bindR (DataDecoderThd_Run ddec batch raws) (\<lambda>msgs.
      Inr ((SERVER_LOGIN_RESPONSE, 0, take RECIPE_HEAD_SIZE recipe_file) # msgs)))"

fun client_download ::
  "(evp_setup \<Rightarrow> bytes \<Rightarrow> bytes) \<Rightarrow> (evp_setup \<Rightarrow> bytes \<Rightarrow> bytes) \<Rightarrow> codec \<Rightarrow> (bytes \<Rightarrow> bytes \<Rightarrow> nat \<Rightarrow> bytes option) \<Rightarrow>
   data_retriever \<Rightarrow> net_msg list \<Rightarrow> (data_retriever \<times> bytes) result" where
  \<comment> \<open>the login, the retriever, and the file that the writer leaves\<close>
  "client_download evp_enc evp_dec dcmp ddec rt [] = Inl NetworkError"
| "client_download evp_enc evp_dec dcmp ddec rt (response # msgs) =
    bindR (DownloadLogin rt response) (\<lambda>rt.
    bindR (DataRetrieverThd_Run evp_enc evp_dec dcmp ddec rt msgs) (\<lambda>(rt, ds).
      Inr (rt, dl_file (DownloadWriterThd_Run ds))))"

subsection \<open>The front of the client never fails\<close>

lemma plain_run:
  "\<exists>fs. run_thd (PlainSimilarThd_step feat) feature_junk (map (normal_chunk_msg hash) ps @ [recipe_chunk_msg sz n]) =
     Inr (fs, map (\<lambda>p. chunk_t.extend (normal_chunk_msg hash p) (feature_chunk.fields (feat p))) ps @
              [chunk_t.extend (recipe_chunk_msg sz n) (feature_chunk.fields fs)])"
proof (induction ps arbitrary: feature_junk)
  case Nil
  then show ?case by (simp add: PlainSimilarThd_step_def recipe_chunk_msg_def)
next
  case (Cons p ps)
  have "PlainSimilarThd_step feat feature_junk (normal_chunk_msg hash p) =
      Inr (feat p, [chunk_t.extend (normal_chunk_msg hash p) (feature_chunk.fields (feat p))])"
    by (simp add: PlainSimilarThd_step_def normal_chunk_msg_def Let_def)
  with Cons [of "feat p"] show ?case by auto
qed

definition keyed :: "(evp_setup \<Rightarrow> bytes \<Rightarrow> bytes) \<Rightarrow> enc_feature_chunk \<Rightarrow> enc_feature_chunk \<Rightarrow> bool" where
  \<comment> \<open>a chunk before and after encryption\<close>
  "keyed evp_enc x y \<longleftrightarrow> c_type y = c_type x \<and> c_raw y = c_raw x \<and> length (c_key y) = CHUNK_HASH_SIZE \<and>
     TwoPhaseEncChunk evp_enc (raw_data (c_raw y)) (c_key y) = Inr (c_enc_data y)"

lemma enc_batch_keyed:
  assumes evp: "evp_ok evp_enc evp_dec" and hash: "\<And>x. length (hash x) = CHUNK_HASH_SIZE"
  shows "length keys = length xs \<Longrightarrow> \<forall>x \<in> set xs. length (raw_data (c_raw x)) \<le> MAX_CHUNK_SIZE \<Longrightarrow>
   \<exists>ys. enc_batch (enc_chunk_with hash evp_enc junk) xs keys = Inr ys \<and> list_all2 (keyed evp_enc) xs ys"
proof (induction keys xs rule: list_induct2)
  case Nil
  then show ?case by simp
next
  case (Cons k ks x xs)
  let ?key = "hash (sample junk (raw_data (c_raw x)) @ k)"
  have "length (raw_data (c_raw x)) \<le> MAX_CHUNK_SIZE + 4" using Cons.prems by simp
  from TwoPhaseEncChunk_size [OF evp this, of ?key] obtain c where
      "TwoPhaseEncChunk evp_enc (raw_data (c_raw x)) ?key = Inr c" by blast
  then obtain y where "enc_chunk_with hash evp_enc junk x k = Inr y" "keyed evp_enc x y"
    by (simp add: enc_chunk_with_def keyed_def Let_def hash)
  with Cons show ?case by auto
qed

lemma cipher_run:
  assumes "\<forall>x \<in> set xs. c_type x = NORMAL_CHUNK" "c_type rc = RECIPE_CHUNK"
  shows "run_thd (CipherSimilarThd_step feat) () (xs @ [rc]) =
    Inr ((), map (\<lambda>x. x \<lparr> c_features := feat (c_enc_data x) \<rparr>) xs @ [rc])"
  using assms by (induction xs) (simp_all add: CipherSimilarThd_step_def)

lemma front_run:
  assumes evp: "evp_ok evp_enc evp_dec" and hash: "\<And>x. length (hash x) = CHUNK_HASH_SIZE"
    and iter: "\<And>m. mset (iter m) = mset m" and feat: "\<And>d. length (feat d) = SUPER_FEATURE_PER_CHUNK"
    and batch: "0 < batch" and ps: "\<forall>p \<in> set ps. 0 < length p \<and> length p \<le> MAX_CHUNK_SIZE"
  shows "\<exists>km' chs rc. client_front hash feat evp_enc chunk_junk iter batch feature_junk km
      (map (normal_chunk_msg hash) ps @ [recipe_chunk_msg sz n]) = Inr (km', chs @ [rc]) \<and>
    c_type rc = RECIPE_CHUNK \<and> c_head rc = \<lparr> rh_size = sz, rh_chunk_num = n \<rparr> \<and>
    map (\<lambda>ch. raw_data (c_raw ch)) chs = ps \<and>
    (\<forall>ch \<in> set chs. cipher_ok evp_enc ch \<and> c_features ch = feat (c_enc_data ch))"
proof -
  let ?fc = "\<lambda>p. chunk_t.extend (normal_chunk_msg hash p) (feature_chunk.fields (feat p)) :: feature_chunk"
  let ?kg = "\<lparr> kg_chunk_buf = [], kg_send_buf = [], kg_batch = batch, kg_km = km, kg_finished = False \<rparr>"
  obtain fs where 1: "run_thd (PlainSimilarThd_step feat) feature_junk (map (normal_chunk_msg hash) ps @ [recipe_chunk_msg sz n]) =
      Inr (fs, map ?fc ps @ [chunk_t.extend (recipe_chunk_msg sz n) (feature_chunk.fields fs)])" using plain_run by blast
  let ?rc = "chunk_t.extend (recipe_chunk_msg sz n) (feature_chunk.fields fs) :: feature_chunk"
  have fc: "c_type (?fc p) = NORMAL_CHUNK" "raw_data (c_raw (?fc p)) = p" for p
    by (simp_all add: normal_chunk_msg_def chunk_t.defs feature_chunk.defs)
  have rc: "c_type ?rc = RECIPE_CHUNK" "c_head ?rc = \<lparr> rh_size = sz, rh_chunk_num = n \<rparr>"
    by (simp_all add: recipe_chunk_msg_def chunk_t.defs feature_chunk.defs)
  let ?xs = "map enc_of (map ?fc ps)"
  obtain km1 keys where k: "km_run hash iter km (map kg_req ?xs) = Inr (km1, keys)" using km_run_total [OF iter] by blast
  have "length keys = length ?xs" using km_run_length [OF k] by simp
  moreover have "\<forall>x \<in> set ?xs. length (raw_data (c_raw x)) \<le> MAX_CHUNK_SIZE" using ps by (auto simp: fc(2))
  ultimately obtain ys where ys: "enc_batch (enc_chunk_with hash evp_enc chunk_junk) ?xs keys = Inr ys"
      "list_all2 (keyed evp_enc) ?xs ys" using enc_batch_keyed [where hash = hash, OF evp hash] by blast
  have wf: "kg_wf ?kg" using batch by (simp add: kg_wf_def)
  have nc: "\<forall>ch \<in> set (map ?fc ps). c_type ch = NORMAL_CHUNK" by (auto simp: fc(1))
  have buf: "kg_chunk_buf ?kg @ map enc_of (map ?fc ps) = ?xs" by simp
  have ke: "km_run hash iter (kg_km ?kg) (map kg_req (kg_chunk_buf ?kg @ map enc_of (map ?fc ps))) = Inr (km1, keys)"
    unfolding buf using k by simp
  have be: "enc_batch (enc_chunk_with hash evp_enc chunk_junk) (kg_chunk_buf ?kg @ map enc_of (map ?fc ps)) keys = Inr ys"
    unfolding buf by (rule ys(1))
  from KeyGenThd_chunks [OF wf nc rc(1) ke be] obtain kg' where
      2: "run_thd (KeyGenThd_step (km_handle hash iter) (enc_chunk_with hash evp_enc chunk_junk)) ?kg (map ?fc ps @ [?rc]) =
        Inr (kg', ys @ [enc_of ?rc])" by blast
  have nrm: "\<forall>y \<in> set ys. c_type y = NORMAL_CHUNK"
  proof
    fix y assume "y \<in> set ys"
    with list_all2_source [OF ys(2)] show "c_type y = NORMAL_CHUNK" by (auto simp: keyed_def fc(1))
  qed
  let ?chs = "map (\<lambda>x. x \<lparr> c_features := feat (c_enc_data x) \<rparr>) ys"
  have 3: "run_thd (CipherSimilarThd_step feat) () (ys @ [enc_of ?rc]) = Inr ((), ?chs @ [enc_of ?rc])"
    by (rule cipher_run [OF nrm]) (simp add: rc(1))
  have raw: "map (\<lambda>ch. raw_data (c_raw ch)) ?chs = ps"
    using ys(2) by (simp add: list_eq_iff_nth_eq list_all2_conv_all_nth keyed_def fc(2) o_def)
  have ok: "cipher_ok evp_enc ch \<and> c_features ch = feat (c_enc_data ch)" if mem: "ch \<in> set ?chs" for ch
  proof -
    have p: "raw_data (c_raw ch) \<in> set ps" unfolding raw [symmetric] using mem by auto
    obtain y where y: "y \<in> set ys" "ch = y \<lparr> c_features := feat (c_enc_data y) \<rparr>" using mem by auto
    from list_all2_source [OF ys(2) y(1)] obtain x where "keyed evp_enc x y" by blast
    then show ?thesis using p ps nrm y by (auto simp: cipher_ok_def keyed_def feat)
  qed
  have "c_head (enc_of ?rc) = \<lparr> rh_size = sz, rh_chunk_num = n \<rparr>" "c_type (enc_of ?rc) = RECIPE_CHUNK"
    using rc by (simp_all add: enc_of_def feature_chunk.defs enc_feature_chunk.defs)
  moreover have "client_front hash feat evp_enc chunk_junk iter batch feature_junk km
      (map (normal_chunk_msg hash) ps @ [recipe_chunk_msg sz n]) = Inr (kg_km kg', ?chs @ [enc_of ?rc])"
    unfolding client_front_def 1 bindR_Inr prod.case 2 3 ..
  ultimately show ?thesis using raw ok by blast
qed

subsection \<open>What the server holds of a chunk\<close>

definition held ::
  "(bytes \<Rightarrow> bytes) \<Rightarrow> (evp_setup \<Rightarrow> bytes \<Rightarrow> bytes) \<Rightarrow> codec \<Rightarrow> (u64 \<Rightarrow> nat \<Rightarrow> u32) \<Rightarrow>
   (bytes \<Rightarrow> bytes \<Rightarrow> nat \<Rightarrow> bytes option) \<Rightarrow> bytes set \<Rightarrow> data_writer \<Rightarrow> inform_cache \<Rightarrow> enc_feature_chunk \<Rightarrow> bool" where
  \<comment> \<open>its compressed form, or a delta against the base chunk that the cache has for one of its features\<close>
  "held hash evp_enc cmp rng ddec S dw ic ch \<longleftrightarrow> dual_fp hash evp_enc cmp rng ch \<in> S \<and>
     (\<exists>a d. map_of (dw_fp_2_addr dw) (dual_fp hash evp_enc cmp rng ch) = Some a \<and>
        stored ddec dw (dual_fp hash evp_enc cmp rng ch) = Some d \<and>
        (if a_stat a \<noteq> CACHE_DELTA_CHUNK then d = packed evp_enc cmp rng ch
         else \<exists>f base. f \<in> set (take SUPER_FEATURE_PER_CHUNK (c_features ch)) \<and>
           map_of (ic_feature_2_fp ic) f = Some (a_base_fp a) \<and> InMem_Query (ic_base_2_data ic) (a_base_fp a) = Some base \<and>
           ddec base d ENC_MAX_CHUNK_SIZE = Some (c_enc_data ch)))"

definition cache_readable :: "inform_cache \<Rightarrow> bool" where
  \<comment> \<open>the base chunk of every feature can be fetched\<close>
  "cache_readable ic \<longleftrightarrow>
     (\<forall>f b base. map_of (ic_feature_2_fp ic) f = Some b \<longrightarrow> InMem_Query (ic_base_2_data ic) b = Some base \<longrightarrow>
        IsBaseChunkExist ic b \<and> FetchBaseChunk ic b = Inr base)"

lemma frame_size: "length d \<le> ENC_MAX_CHUNK_SIZE \<Longrightarrow> length (frames_bytes [restore_frame t d]) \<le> SEND_CHUNK_SIZE"
  using length_send_frame [OF header_wf_restore, of t d] by (simp add: frames_bytes_def HEADER_SIZE_def SEND_CHUNK_SIZE_def size_consts)

lemma held_denotes:
  assumes env: "evp_ok evp_enc evp_dec" "codec_ok cmp dcmp" and ch: "cipher_ok evp_enc ch"
    and raw: "raw_safe cmp dcmp (raw_data (c_raw ch))" and ic: "cache_readable ic"
    and h: "held hash evp_enc cmp rng ddec S dw ic ch"
  shows "denotes evp_enc cmp dcmp rng ddec S dw ic (dual_fp hash evp_enc cmp rng ch) (c_key ch) (raw_data (c_raw ch)) \<and>
    length (frames_bytes (frames_of ddec dw ic (dual_fp hash evp_enc cmp rng ch))) \<le> SEND_CHUNK_SIZE"
proof -
  let ?fp = "dual_fp hash evp_enc cmp rng ch" and ?p = "raw_data (c_raw ch)"
  obtain a d where a: "?fp \<in> S" "map_of (dw_fp_2_addr dw) ?fp = Some a" "stored ddec dw ?fp = Some d"
      "if a_stat a \<noteq> CACHE_DELTA_CHUNK then d = packed evp_enc cmp rng ch
         else \<exists>f base. f \<in> set (take SUPER_FEATURE_PER_CHUNK (c_features ch)) \<and>
           map_of (ic_feature_2_fp ic) f = Some (a_base_fp a) \<and> InMem_Query (ic_base_2_data ic) (a_base_fp a) = Some base \<and>
           ddec base d ENC_MAX_CHUNK_SIZE = Some (c_enc_data ch)"
    using h unfolding held_def by blast
  have p: "length ?p \<le> MAX_CHUNK_SIZE" "TwoPhaseEncChunk evp_enc ?p (c_key ch) = Inr (c_enc_data ch)"
    using ch by (simp_all add: cipher_ok_def)
  note e = packed_ok [OF env ch, of rng] and size = cipher_data(2) [OF env(1) ch]
  show ?thesis
  proof (cases "a_stat a = CACHE_DELTA_CHUNK")
    case False
    then have d: "d = packed evp_enc cmp rng ch" using a(4) by simp
    have "holds_comp evp_enc cmp dcmp rng (c_key ch) ?p d" using p(1) raw e(1) by (auto simp: holds_comp_def d)
    then have "denotes evp_enc cmp dcmp rng ddec S dw ic ?fp (c_key ch) ?p"
      using a(1-3) p(1) False by (auto simp: denotes_def)
    moreover have "frames_of ddec dw ic ?fp = [restore_frame COMP_NORMAL_CHUNK d]"
      using a(2,3) False by (simp add: frames_of_def server_frames_def)
    ultimately show ?thesis using frame_size e(3) by (simp add: d)
  next
    case True
    then obtain f base where b: "map_of (ic_feature_2_fp ic) f = Some (a_base_fp a)"
        "InMem_Query (ic_base_2_data ic) (a_base_fp a) = Some base" "ddec base d ENC_MAX_CHUNK_SIZE = Some (c_enc_data ch)"
      using a(4) by auto
    have f: "IsBaseChunkExist ic (a_base_fp a)" "FetchBaseChunk ic (a_base_fp a) = Inr base"
      using ic b(1,2) unfolding cache_readable_def by blast+
    have "denotes evp_enc cmp dcmp rng ddec S dw ic ?fp (c_key ch) ?p"
      using a(1-3) p True b(3) f by (auto simp: denotes_def)
    moreover have "frames_of ddec dw ic ?fp = [restore_frame UNCOMP_NORMAL_CHUNK (c_enc_data ch)]"
      using a(2,3) True f b(3) by (simp add: frames_of_def server_frames_def)
    ultimately show ?thesis using frame_size size by simp
  qed
qed

subsection \<open>The cache of the next session\<close>

lemma next_cache:
  assumes ok: "ic_ok ic" and room: "cache_room 0 ic" and close: "ClientVar_close ic = (files, n)"
  shows "cache_readable (InformCache_open files)"
    and "ic_feature_2_fp (InformCache_open files) = ic_feature_2_fp ic"
    and "map_of (ic_feature_2_fp ic) f = Some b \<Longrightarrow>
      InMem_Query (ic_base_2_data (InformCache_open files)) b = InMem_Query (ic_base_2_data ic) b"
proof -
  let ?ic = "InformCache_open files"
  have fp: "\<forall>b. map_of (ic_base_2_cnt ic) b \<noteq> None \<longrightarrow> length b = CHUNK_HASH_SIZE"
    and small: "length (ic_base_2_cnt ic) < 2 ^ 64" "length (ic_feature_2_fp ic) < 2 ^ 64"
    and bound: "\<forall>b d. InMem_Query (ic_base_2_data ic) b = Some d \<longrightarrow> length d \<le> ENC_MAX_CHUNK_SIZE"
    using room by (simp_all add: cache_room_def)
  from session_close [OF ok close fp small] have s: "ic_ok ?ic" "ic_feature_2_fp ?ic = ic_feature_2_fp ic"
      "\<And>b. InMem_Query (ic_base_2_data ?ic) b = (if cnt_of ic b = 0 then None else InMem_Query (ic_base_2_data ic) b)"
      "\<And>f b. map_of (ic_feature_2_fp ic) f = Some b \<Longrightarrow> InMem_Query (ic_base_2_data ?ic) b \<noteq> None" by blast+
  show "ic_feature_2_fp ?ic = ic_feature_2_fp ic" by (rule s(2))
  show q: "InMem_Query (ic_base_2_data ?ic) b = InMem_Query (ic_base_2_data ic) b"
    if "map_of (ic_feature_2_fp ic) f = Some b" for f b
    using s(3,4) that by (metis (full_types))
  show "cache_readable ?ic"
    unfolding cache_readable_def
  proof (intro allI impI)
    fix f b base assume f: "map_of (ic_feature_2_fp ?ic) f = Some b" and d: "InMem_Query (ic_base_2_data ?ic) b = Some base"
    have "map_of (ic_feature_2_fp ic) f = Some b" using f by (simp add: s(2))
    then have "length b = CHUNK_HASH_SIZE" "length base \<le> ENC_MAX_CHUNK_SIZE"
      using ic_okD(1) [OF ok, of f b] fp bound d q by (auto simp: q)
    with ic_okD(1) [OF s(1) f] d show "IsBaseChunkExist ?ic b \<and> FetchBaseChunk ?ic b = Inr base"
      by (auto simp: IsBaseChunkExist_def FetchBaseChunk_def)
  qed
qed

lemma held_next_cache:
  assumes ok: "ic_ok ic" and room: "cache_room 0 ic" and close: "ClientVar_close ic = (files, n)"
    and h: "held hash evp_enc cmp rng ddec S dw ic ch"
  shows "held hash evp_enc cmp rng ddec S dw (InformCache_open files) ch"
  using h next_cache(2,3) [OF ok room close] unfolding held_def by (metis (no_types, lifting))

subsection \<open>The server after an upload\<close>

definition collision_free ::
  "(bytes \<Rightarrow> bytes) \<Rightarrow> (evp_setup \<Rightarrow> bytes \<Rightarrow> bytes) \<Rightarrow> codec \<Rightarrow> (u64 \<Rightarrow> nat \<Rightarrow> u32) \<Rightarrow> enc_feature_chunk list \<Rightarrow> bool" where
  \<comment> \<open>chunks of the file with equal dual fingerprints have equal forms\<close>
  "collision_free hash evp_enc cmp rng chs \<longleftrightarrow>
     (\<forall>a \<in> set chs. \<forall>b \<in> set chs. dual_fp hash evp_enc cmp rng a = dual_fp hash evp_enc cmp rng b \<longrightarrow>
        c_enc_data a = c_enc_data b \<and> packed evp_enc cmp rng a = packed evp_enc cmp rng b)"

definition known_held ::
  "(bytes \<Rightarrow> bytes) \<Rightarrow> (evp_setup \<Rightarrow> bytes \<Rightarrow> bytes) \<Rightarrow> codec \<Rightarrow> (u64 \<Rightarrow> nat \<Rightarrow> u32) \<Rightarrow>
   (bytes \<Rightarrow> bytes \<Rightarrow> nat \<Rightarrow> bytes option) \<Rightarrow> bytes set \<Rightarrow> data_writer \<Rightarrow> inform_cache \<Rightarrow> enc_feature_chunk list \<Rightarrow> bool" where
  \<comment> \<open>the chunks of the file that the index knows already are held\<close>
  "known_held hash evp_enc cmp rng ddec S dw ic chs \<longleftrightarrow>
     (\<forall>ch \<in> set chs. map_of (dw_fp_2_addr dw) (dual_fp hash evp_enc cmp rng ch) \<noteq> None \<longrightarrow>
        held hash evp_enc cmp rng ddec S dw ic ch)"

lemma known_still_held:
  assumes k: "held hash evp_enc cmp rng ddec S dw ic ch" and ch: "ch \<in> set chs" and c: "cache_carries chs ic ic'"
    and idx: "\<forall>g \<in> S. \<forall>a. map_of (dw_fp_2_addr dw) g = Some a \<longrightarrow> map_of (dw_fp_2_addr dw') g = Some a"
    and data: "\<forall>g \<in> S. stored ddec dw' g = stored ddec dw g" and sub: "S \<subseteq> S'"
  shows "held hash evp_enc cmp rng ddec S' dw' ic' ch"
proof -
  let ?fp = "dual_fp hash evp_enc cmp rng ch"
  obtain a d where a: "?fp \<in> S" "map_of (dw_fp_2_addr dw) ?fp = Some a" "stored ddec dw ?fp = Some d"
      "if a_stat a \<noteq> CACHE_DELTA_CHUNK then d = packed evp_enc cmp rng ch
         else \<exists>f base. f \<in> set (take SUPER_FEATURE_PER_CHUNK (c_features ch)) \<and>
           map_of (ic_feature_2_fp ic) f = Some (a_base_fp a) \<and> InMem_Query (ic_base_2_data ic) (a_base_fp a) = Some base \<and>
           ddec base d ENC_MAX_CHUNK_SIZE = Some (c_enc_data ch)"
    using k unfolding held_def by blast
  have "if a_stat a \<noteq> CACHE_DELTA_CHUNK then d = packed evp_enc cmp rng ch
         else \<exists>f base. f \<in> set (take SUPER_FEATURE_PER_CHUNK (c_features ch)) \<and>
           map_of (ic_feature_2_fp ic') f = Some (a_base_fp a) \<and> InMem_Query (ic_base_2_data ic') (a_base_fp a) = Some base \<and>
           ddec base d ENC_MAX_CHUNK_SIZE = Some (c_enc_data ch)"
  proof (cases "a_stat a = CACHE_DELTA_CHUNK")
    case True
    then obtain f base where f: "f \<in> set (take SUPER_FEATURE_PER_CHUNK (c_features ch))"
        "map_of (ic_feature_2_fp ic) f = Some (a_base_fp a)" "InMem_Query (ic_base_2_data ic) (a_base_fp a) = Some base"
        "ddec base d ENC_MAX_CHUNK_SIZE = Some (c_enc_data ch)" using a(4) by auto
    then have "map_of (ic_feature_2_fp ic') f = Some (a_base_fp a)" "InMem_Query (ic_base_2_data ic') (a_base_fp a) = Some base"
      using c ch unfolding cache_carries_def by blast+
    with f True show ?thesis by auto
  qed (use a(4) in simp)
  moreover have "map_of (dw_fp_2_addr dw') ?fp = Some a" "stored ddec dw' ?fp = Some d" "?fp \<in> S'"
    using a(1-3) idx data sub by auto
  ultimately show ?thesis unfolding held_def by blast
qed

lemma written_held:
  assumes f: "stored_form hash evp_enc cmp rng denc U ic ch0 w" and fp: "dual_fp hash evp_enc cmp rng ch = w_fp w"
    and same: "c_enc_data ch = c_enc_data ch0" "packed evp_enc cmp rng ch = packed evp_enc cmp rng ch0" "c_features ch = c_features ch0"
    and idx: "map_of (dw_fp_2_addr dw) (w_fp w) = Some a" "entry_of w a" and data: "stored ddec dw (w_fp w) = Some (w_data w)"
    and S: "w_fp w \<in> S" and d: "delta_ok denc ddec" and size: "length (c_enc_data ch) \<le> ENC_MAX_CHUNK_SIZE"
  shows "held hash evp_enc cmp rng ddec S dw ic ch"
proof -
  have "if a_stat a \<noteq> CACHE_DELTA_CHUNK then w_data w = packed evp_enc cmp rng ch
         else \<exists>f base. f \<in> set (take SUPER_FEATURE_PER_CHUNK (c_features ch)) \<and>
           map_of (ic_feature_2_fp ic) f = Some (a_base_fp a) \<and> InMem_Query (ic_base_2_data ic) (a_base_fp a) = Some base \<and>
           ddec base (w_data w) ENC_MAX_CHUNK_SIZE = Some (c_enc_data ch)"
  proof (cases "ci_stat (w_info w) = CACHE_DELTA_CHUNK")
    case True
    then obtain f base where b: "f \<in> set (take SUPER_FEATURE_PER_CHUNK (c_features ch0))"
        "map_of (ic_feature_2_fp ic) f = Some (a_base_fp (ci_addr (w_info w)))"
        "InMem_Query (ic_base_2_data ic) (a_base_fp (ci_addr (w_info w))) = Some base"
        "denc base (c_enc_data ch0) ENC_MAX_CHUNK_SIZE = Some (w_data w)"
      using f by (auto simp: stored_form_def)
    have "ddec base (w_data w) ENC_MAX_CHUNK_SIZE = Some (c_enc_data ch)"
      using d b(4) size same(1) unfolding delta_ok_def by metis
    then show ?thesis using True idx(2) b(1-3) same(3) by (auto simp: entry_of_def)
  next
    case False
    then show ?thesis using f idx(2) same(2) by (simp add: stored_form_def entry_of_def)
  qed
  then show ?thesis using idx(1) data S unfolding held_def fp by blast
qed

lemma session_held:
  assumes inv: "dw_inv S dw" and up: "\<forall>w \<in> set ws. upload_input w"
    and seq: "seq_run feat denc iter (pipe_start ws dd cc dw) = Inr (cc', outs)"
    and out: "upload_out hash evp_enc cmp rng denc (dom (map_of (dw_fp_2_addr dw))) UNIV (cc_inform_cache cc') chs outs"
    and car: "cache_carries chs (cc_inform_cache cc) (cc_inform_cache cc')"
    and known: "known_held hash evp_enc cmp rng ddec S dw (cc_inform_cache cc) chs"
    and coll: "collision_free hash evp_enc cmp rng chs"
    and chs: "\<forall>ch \<in> set chs. c_features ch = feat (c_enc_data ch) \<and> length (c_enc_data ch) \<le> ENC_MAX_CHUNK_SIZE"
    and env: "\<And>m. mset (iter m) = mset m" "delta_ok denc ddec" "delta_total denc"
    and run: "(pipe_step feat denc iter)\<^sup>*\<^sup>* (pipe_start ws dd cc dw) s"
  shows "\<not> pipe_exits feat denc iter s"
    and "pipe_empty s \<Longrightarrow> pp_comp s = cc' \<and> dw_inv (S \<union> set (map w_fp outs)) (writer_here s) \<and>
      (\<forall>ch \<in> set chs. held hash evp_enc cmp rng ddec (S \<union> set (map w_fp outs)) (writer_here s) (cc_inform_cache cc') ch)"
proof -
  have ins: "writer_inputs S outs" by (rule seq_run_inputs [OF inv up seq env(2)])
  from pipe_inv_run [OF inv seq ins env run] obtain ds where
      I: "pipe_inv feat denc ddec iter S (stored ddec dw) cc' outs ds s" and K: "pipe_kinds S (dw_fp_2_addr dw) ds s" by blast
  show "\<not> pipe_exits feat denc iter s" by (rule pipe_inv_no_exit [OF I ins env])
  assume empty: "pipe_empty s"
  have ds: "ds = outs" "pp_comp s = cc'" using I empty by (auto simp: pipe_inv_def seq_run_def pipe_empty_def)
  let ?T = "S \<union> set (map w_fp outs)" and ?dw = "writer_here s" and ?ic = "cc_inform_cache cc'"
  have idx: "dw_fp_2_addr ?dw = pp_fp_2_addr s" by (simp add: writer_here_def)
  have old: "\<forall>g \<in> S. stored ddec ?dw g = stored ddec dw g" and new: "\<forall>w \<in> set outs. stored ddec ?dw (w_fp w) = Some (w_data w)"
    and T: "dw_inv ?T ?dw" using I by (simp_all add: pipe_inv_def ds(1))
  have "held hash evp_enc cmp rng ddec ?T ?dw ?ic ch" if ch: "ch \<in> set chs" for ch
  proof (cases "dual_fp hash evp_enc cmp rng ch \<in> dom (map_of (dw_fp_2_addr dw))")
    case True
    then have "held hash evp_enc cmp rng ddec S dw (cc_inform_cache cc) ch" using known ch by (auto simp: known_held_def)
    moreover have "\<forall>g \<in> S. \<forall>a. map_of (dw_fp_2_addr dw) g = Some a \<longrightarrow> map_of (dw_fp_2_addr ?dw) g = Some a"
      using K by (simp add: pipe_kinds_def idx)
    ultimately show ?thesis using known_still_held [OF _ ch car _ old, of hash evp_enc cmp rng ?T] by simp
  next
    case False
    then have "dual_fp hash evp_enc cmp rng ch \<in> w_fp ` set outs" using out ch unfolding upload_out_def set_map by blast
    then obtain w where w: "w \<in> set outs" "dual_fp hash evp_enc cmp rng ch = w_fp w" by blast
    then obtain ch0 where c0: "ch0 \<in> set chs" "stored_form hash evp_enc cmp rng denc UNIV ?ic ch0 w"
      using out w(1) unfolding upload_out_def by blast
    have "dual_fp hash evp_enc cmp rng ch = dual_fp hash evp_enc cmp rng ch0" using c0(2) w(2) by (simp add: stored_form_def)
    with coll ch c0(1) have eq: "c_enc_data ch = c_enc_data ch0" "packed evp_enc cmp rng ch = packed evp_enc cmp rng ch0"
      unfolding collision_free_def by blast+
    obtain a where a: "map_of (pp_fp_2_addr s) (w_fp w) = Some a" "entry_of w a" using K w(1) by (auto simp: pipe_kinds_def ds(1))
    show ?thesis
      by (rule written_held [OF c0(2) w(2) eq]) (use chs ch c0(1) eq(1) a idx new w(1) env(2) in auto)
  qed
  then show "pp_comp s = cc' \<and> dw_inv ?T ?dw \<and> (\<forall>ch \<in> set chs. held hash evp_enc cmp rng ddec ?T ?dw ?ic ch)"
    using ds(2) T by blast
qed

subsection \<open>The download\<close>

lemma download_held:
  assumes env: "evp_ok evp_enc evp_dec" "codec_ok cmp dcmp" "ddec_bounded ddec"
    and inv: "dw_inv S dw" and ic: "cache_readable ic"
    and chs: "\<forall>ch \<in> set chs. cipher_ok evp_enc ch \<and> raw_safe cmp dcmp (raw_data (c_raw ch)) \<and>
      held hash evp_enc cmp rng ddec S dw ic ch"
    and cfg: "0 < cache_size" "0 < batch" "0 < recipe_batch" "0 < key_batch" "key_batch < 2 ^ 32" "\<And>n. length (junk n) = n"
    and fresh: "disk (dw_store (DataWriterThd_end dw)) (CreateUUID rand CONTAINER_ID_LENGTH) = None"
    and head: "head = \<lparr> rh_size = length src, rh_chunk_num = length chs \<rparr>" "length src < 2 ^ 64"
    and src: "src = concat (map (\<lambda>ch. raw_data (c_raw ch)) chs)"
  shows "\<exists>msgs rt'.
    server_download ddec junk batch recipe_batch (open_reader rand cache_size ic (DataWriterThd_end dw))
      (recipe_head_bytes head @ concat (map (dual_fp hash evp_enc cmp rng) chs)) = Inr msgs \<and>
    client_download evp_enc evp_dec dcmp ddec
      (data_retriever_new FULL_EDR batch key_batch (concat (map c_key chs)) junk) msgs = Inr (rt', src) \<and>
    \<not> download_mismatch rt'"
proof -
  let ?xs = "map (\<lambda>ch. (dual_fp hash evp_enc cmp rng ch, c_key ch, raw_data (c_raw ch))) chs"
  have m: "map fst ?xs = map (dual_fp hash evp_enc cmp rng) chs" "map (\<lambda>x. fst (snd x)) ?xs = map c_key chs"
      "map (\<lambda>x. snd (snd x)) ?xs = map (\<lambda>ch. raw_data (c_raw ch)) chs" by (simp_all add: o_def)
  have num: "length chs \<le> length src"
  proof -
    have "\<forall>ch \<in> set chs. raw_data (c_raw ch) \<noteq> []" using chs by (simp add: cipher_ok_def)
    then have "length chs \<le> length (concat (map (\<lambda>ch. raw_data (c_raw ch)) chs))"
    proof (induction chs)
      case Nil
      then show ?case by simp
    next
      case (Cons c cs)
      then have "0 < length (raw_data (c_raw c))" "length cs \<le> length (concat (map (\<lambda>ch. raw_data (c_raw ch)) cs))" by simp_all
      then show ?case by (simp del: length_greater_0_conv)
    qed
    then show ?thesis by (simp add: src)
  qed
  have xs: "\<forall>(fp, key, p) \<in> set ?xs. denotes evp_enc cmp dcmp rng ddec S dw ic fp key p \<and> length key = CHUNK_HASH_SIZE \<and>
      length (frames_bytes (frames_of ddec dw ic fp)) \<le> SEND_CHUNK_SIZE"
    using held_denotes [OF env(1,2) _ _ ic] chs by (fastforce simp: cipher_ok_def)
  have h: "head = \<lparr> rh_size = length (concat (map (\<lambda>x. snd (snd x)) ?xs)), rh_chunk_num = length ?xs \<rparr>"
    unfolding m by (simp add: head(1) src)
  have hs: "rh_size head < 2 ^ 64" "rh_chunk_num head < 2 ^ 64" using head num by simp_all
  from restore_run [where junk = junk, OF env inv cfg(1) fresh cfg(2-6) xs h hs] obtain re' raws msgs rt rt' where
    1: "DataReaderThd_Run ddec junk recipe_batch (open_reader rand cache_size ic (DataWriterThd_end dw))
      (recipe_head_bytes head @ concat (map fst ?xs)) = Inr (re', raws)" "DataDecoderThd_Run ddec batch raws = Inr msgs"
    "DownloadLogin (data_retriever_new FULL_EDR batch key_batch (concat (map (\<lambda>x. fst (snd x)) ?xs)) junk)
      (SERVER_LOGIN_RESPONSE, 0, recipe_head_bytes head) = Inr rt"
    "DataRetrieverThd_Run evp_enc evp_dec dcmp ddec rt msgs = Inr (rt', map (\<lambda>x. snd (snd x)) ?xs)" "\<not> download_mismatch rt'"
    "dl_file (DownloadWriterThd_Run (map (\<lambda>x. snd (snd x)) ?xs)) = concat (map (\<lambda>x. snd (snd x)) ?xs)" by blast
  have "take RECIPE_HEAD_SIZE (recipe_head_bytes head @ y) = recipe_head_bytes head" for y
    by (simp add: recipe_head_bytes_def RECIPE_HEAD_SIZE_def)
  with 1 show ?thesis unfolding m src [symmetric]
    by (intro exI [of _ "(SERVER_LOGIN_RESPONSE, 0, recipe_head_bytes head) # msgs"] exI [of _ rt'])
      (simp add: server_download_def)
qed

subsection \<open>A file that was uploaded is restored\<close>

definition uploadable ::
  "(bytes \<Rightarrow> bytes) \<Rightarrow> (evp_setup \<Rightarrow> bytes \<Rightarrow> bytes) \<Rightarrow> codec \<Rightarrow> codec \<Rightarrow> (u64 \<Rightarrow> nat \<Rightarrow> u32) \<Rightarrow>
   (bytes \<Rightarrow> bytes \<Rightarrow> nat \<Rightarrow> bytes option) \<Rightarrow> bytes set \<Rightarrow> data_writer \<Rightarrow> inform_cache \<Rightarrow> enc_feature_chunk list \<Rightarrow> bool" where
  \<comment> \<open>what a file has to satisfy, given the digest, the codec and the state of the server\<close>
  "uploadable hash evp_enc cmp dcmp rng ddec S dw ic chs \<longleftrightarrow>
     collision_free hash evp_enc cmp rng chs \<and> (\<forall>ch \<in> set chs. raw_safe cmp dcmp (raw_data (c_raw ch))) \<and>
     known_held hash evp_enc cmp rng ddec S dw ic chs \<and> cache_room (length chs) ic"

definition session_restores ::
  "(evp_setup \<Rightarrow> bytes \<Rightarrow> bytes) \<Rightarrow> (evp_setup \<Rightarrow> bytes \<Rightarrow> bytes) \<Rightarrow> codec \<Rightarrow> (bytes \<Rightarrow> bytes \<Rightarrow> nat \<Rightarrow> bytes option) \<Rightarrow>
   (nat \<Rightarrow> bytes) \<Rightarrow> nat \<Rightarrow> nat \<Rightarrow> nat \<Rightarrow> nat \<Rightarrow> pipeline \<Rightarrow> bytes \<Rightarrow> bytes \<Rightarrow> bytes \<Rightarrow> bool" where
  \<comment> \<open>however the next session names its container, the client writes the file and finds its size\<close>
  "session_restores evp_enc evp_dec dcmp ddec junk cache_size batch recipe_batch key_batch s recipe_file key_file src \<longleftrightarrow>
     (\<forall>rand. disk (dw_store (DataWriterThd_end (writer_here s))) (CreateUUID rand CONTAINER_ID_LENGTH) = None \<longrightarrow>
        (\<exists>msgs rt.
           server_download ddec junk batch recipe_batch
             (open_reader rand cache_size (InformCache_open (fst (ClientVar_close (cc_inform_cache (pp_comp s)))))
                (DataWriterThd_end (writer_here s))) recipe_file = Inr msgs \<and>
           client_download evp_enc evp_dec dcmp ddec (data_retriever_new FULL_EDR batch key_batch key_file junk) msgs =
             Inr (rt, src) \<and> \<not> download_mismatch rt))"

definition session_keeps ::
  "(bytes \<Rightarrow> bytes) \<Rightarrow> (evp_setup \<Rightarrow> bytes \<Rightarrow> bytes) \<Rightarrow> codec \<Rightarrow> (u64 \<Rightarrow> nat \<Rightarrow> u32) \<Rightarrow>
   (bytes \<Rightarrow> bytes \<Rightarrow> nat \<Rightarrow> bytes option) \<Rightarrow> bytes set \<Rightarrow> pipeline \<Rightarrow> cache_meta \<Rightarrow> enc_feature_chunk list \<Rightarrow> bool" where
  \<comment> \<open>the next upload finds a consistent store, matching caches, and the chunks of this file\<close>
  "session_keeps hash evp_enc cmp rng ddec S s cm chs \<longleftrightarrow>
     (let ic = InformCache_open (fst (ClientVar_close (cc_inform_cache (pp_comp s))))
      in cache_sync cm ic \<and>
         (\<exists>T. S \<subseteq> T \<and> dw_inv T (writer_here s) \<and> (\<forall>ch \<in> set chs. held hash evp_enc cmp rng ddec T (writer_here s) ic ch)))"

lemma next_sync:
  assumes sync: "cache_sync cm ic" and room: "cache_room 0 ic" and close: "ClientVar_close ic = (files, n)"
  shows "cache_sync cm (InformCache_open files)"
proof -
  have ok: "ic_ok ic" using sync by (simp add: cache_sync_def)
  have "ic_ok (InformCache_open files) \<and> ic_feature_2_fp (InformCache_open files) = ic_feature_2_fp ic"
    using session_close [OF ok close] room by (simp add: cache_room_def)
  then show ?thesis using sync by (simp add: cache_sync_def)
qed

lemma upload_chain:
  assumes env: "evp_ok evp_enc evp_dec" "codec_ok cmp dcmp" "delta_total denc"
      "\<And>x. length (hash x) = CHUNK_HASH_SIZE" "\<And>m. mset (iter m) = mset m"
    and batch: "0 < batch" "0 < key_batch"
    and state: "cache_sync (sl_cache_meta sl) (cc_inform_cache cc)" "arrays_ok sl"
    and chs: "\<forall>ch \<in> set chs. cipher_ok evp_enc ch" and rc: "c_type rc = RECIPE_CHUNK"
    and room: "cache_room (length chs) (cc_inform_cache cc)"
  obtains sd out dr ws cc' outs where
    "client_back hash evp_enc cmp rng FULL_EDR sl batch key_batch (chs @ [rc]) = Inr (sd, out)"
    "run_thd (DataRecvThd_step hash feat) (data_recv_new recipe_batch (dw_fp_2_addr dw)) out = Inr (dr, ws)"
    "dr_recipe_file dr = recipe_head_bytes (c_head rc) @ concat (map (dual_fp hash evp_enc cmp rng) chs)"
    "sd_key_file sd = concat (map c_key chs)" "\<forall>w \<in> set ws. upload_input w"
    "seq_run feat denc iter (pipe_start ws dd cc dw) = Inr (cc', outs)"
    "cache_sync (sd_cache_meta sd) (cc_inform_cache cc')" "cache_room 0 (cc_inform_cache cc')"
    "cache_carries chs (cc_inform_cache cc) (cc_inform_cache cc')"
    "upload_out hash evp_enc cmp rng denc (dom (map_of (dw_fp_2_addr dw))) UNIV (cc_inform_cache cc') chs outs"
proof -
  obtain cm1 sims where cm: "cm_run (sl_cache_meta sl) (map c_features chs) = (cm1, sims)" by fastforce
  obtain cm2 ms where ev: "EvictFeature cm1 = (cm2, ms)" by fastforce
  from client_messages [where hash = hash and rng = rng, OF env(1,2,4) chs rc state(2) cm ev batch]
  obtain sl' body sd gs where c:
      "run_thd (SelectCompThd_step hash evp_enc cmp rng FULL_EDR) sl (chs @ [rc]) = Inr (sl', body)"
      "run_thd (SenderThd_step evp_enc) (sender_new batch key_batch (sl_cache_meta sl')) body =
        Inr (sd, map (group_msg evp_enc) gs @ [(CLIENT_UPLOAD_RECIPE_END, 0, recipe_head_bytes (c_head rc))] @
               map (\<lambda>(n, d). (CLIENT_UPLOAD_FEATURE, n, d)) ms)"
      "sd_cache_meta sd = cm2" "sd_key_file sd = concat (map c_key chs)" "\<forall>u \<in> set (concat gs). edr_unit u"
      "map (unit_fp hash evp_enc) (concat gs) = map (dual_fp hash evp_enc cmp rng) chs"
      "concat (map (unit_view hash evp_enc) (concat gs)) = stream_view hash evp_enc cmp rng chs sims" by blast
  let ?out = "map (group_msg evp_enc) gs @ [(CLIENT_UPLOAD_RECIPE_END, 0, recipe_head_bytes (c_head rc))] @
      map (\<lambda>(n, d). (CLIENT_UPLOAD_FEATURE, n, d)) ms"
  let ?dd = "dd \<lparr> dd_fp_2_addr := dw_fp_2_addr dw \<rparr>"
  from server_messages [where hash = hash and rng = rng and iter = iter and denc = denc and feat = feat and dd = ?dd and h = "c_head rc"
      and recipe_batch = recipe_batch and idx = "dw_fp_2_addr dw", OF env(1,2,4,5,3) chs state(1) room cm ev c(5-7)]
  obtain dr ws dd' os cc' outs where v:
      "run_thd (DataRecvThd_step hash feat) (data_recv_new recipe_batch (dw_fp_2_addr dw)) ?out = Inr (dr, ws)"
      "dr_recipe_file dr = recipe_head_bytes (c_head rc) @ concat (map (dual_fp hash evp_enc cmp rng) chs)"
      "\<forall>w \<in> set ws. upload_input w" "run_thd (DualDedupThd_step feat) ?dd ws = Inr (dd', os)"
      "run_thd (CacheCompThd_step denc iter) cc os = Inr (cc', outs)" "cache_sync cm2 (cc_inform_cache cc')"
      "cache_room 0 (cc_inform_cache cc')" "cache_carries chs (cc_inform_cache cc) (cc_inform_cache cc')"
      "upload_out hash evp_enc cmp rng denc (dual_dom ?dd) UNIV (cc_inform_cache cc') chs outs" by blast
  have seq: "seq_run feat denc iter (pipe_start ws dd cc dw) = Inr (cc', outs)"
    using v(4,5) by (simp add: seq_run_def pipe_start_def dual_here_def)
  have out: "upload_out hash evp_enc cmp rng denc (dom (map_of (dw_fp_2_addr dw))) UNIV (cc_inform_cache cc') chs outs"
    using v(9) by simp
  have cb: "client_back hash evp_enc cmp rng FULL_EDR sl batch key_batch (chs @ [rc]) = Inr (sd, ?out)"
    unfolding client_back_def c(1) bindR_Inr prod.case by (rule c(2))
  show thesis by (rule that [OF cb v(1,2) c(4) v(3) seq _ v(7,8) out]) (simp add: c(3) v(6))
qed

lemma upload_session:
  assumes env: "evp_ok evp_enc evp_dec" "codec_ok cmp dcmp" "delta_ok denc ddec" "delta_total denc" "ddec_bounded ddec"
      "\<And>x. length (hash x) = CHUNK_HASH_SIZE" "\<And>m. mset (iter m) = mset m"
    and cfg: "0 < cache_size" "0 < batch" "0 < recipe_batch" "0 < key_batch" "key_batch < 2 ^ 32" "\<And>n. length (junk n) = n"
    and state: "dw_inv S dw" "cache_sync (sl_cache_meta sl) (cc_inform_cache cc)" "arrays_ok sl"
    and chs: "\<forall>ch \<in> set chs. cipher_ok evp_enc ch \<and> c_features ch = feat (c_enc_data ch)"
    and rc: "c_type rc = RECIPE_CHUNK" "c_head rc = \<lparr> rh_size = length src, rh_chunk_num = length chs \<rparr>"
    and src: "concat (map (\<lambda>ch. raw_data (c_raw ch)) chs) = src" "length src < 2 ^ 64"
    and up: "uploadable hash evp_enc cmp dcmp rng ddec S dw (cc_inform_cache cc) chs"
  shows "\<exists>sd out dr ws.
    client_back hash evp_enc cmp rng FULL_EDR sl batch key_batch (chs @ [rc]) = Inr (sd, out) \<and>
    run_thd (DataRecvThd_step hash feat) (data_recv_new recipe_batch (dw_fp_2_addr dw)) out = Inr (dr, ws) \<and>
    (\<forall>s. (pipe_step feat denc iter)\<^sup>*\<^sup>* (pipe_start ws dd cc dw) s \<longrightarrow> \<not> pipe_exits feat denc iter s \<and>
       (pipe_empty s \<longrightarrow>
          session_restores evp_enc evp_dec dcmp ddec junk cache_size batch recipe_batch key_batch s
            (dr_recipe_file dr) (sd_key_file sd) src \<and>
          session_keeps hash evp_enc cmp rng ddec S s (sd_cache_meta sd) chs))"
proof -
  have cok: "\<forall>ch \<in> set chs. cipher_ok evp_enc ch" using chs by blast
  have coll: "collision_free hash evp_enc cmp rng chs" and raw: "\<forall>ch \<in> set chs. raw_safe cmp dcmp (raw_data (c_raw ch))"
    and known: "known_held hash evp_enc cmp rng ddec S dw (cc_inform_cache cc) chs"
    and room: "cache_room (length chs) (cc_inform_cache cc)" using up by (simp_all add: uploadable_def)
  obtain sd out dr ws cc' outs where v:
      "client_back hash evp_enc cmp rng FULL_EDR sl batch key_batch (chs @ [rc]) = Inr (sd, out)"
      "run_thd (DataRecvThd_step hash feat) (data_recv_new recipe_batch (dw_fp_2_addr dw)) out = Inr (dr, ws)"
      "dr_recipe_file dr = recipe_head_bytes (c_head rc) @ concat (map (dual_fp hash evp_enc cmp rng) chs)"
      "sd_key_file sd = concat (map c_key chs)" "\<forall>w \<in> set ws. upload_input w"
      "seq_run feat denc iter (pipe_start ws dd cc dw) = Inr (cc', outs)"
      "cache_sync (sd_cache_meta sd) (cc_inform_cache cc')" "cache_room 0 (cc_inform_cache cc')"
      "cache_carries chs (cc_inform_cache cc) (cc_inform_cache cc')"
      "upload_out hash evp_enc cmp rng denc (dom (map_of (dw_fp_2_addr dw))) UNIV (cc_inform_cache cc') chs outs"
    by (rule upload_chain [where hash = hash and rng = rng and iter = iter and dw = dw and dd = dd and feat = feat
          and recipe_batch = recipe_batch, OF env(1,2,4,6,7) cfg(2,4) state(2,3) cok rc(1) room])
  have size: "\<forall>ch \<in> set chs. c_features ch = feat (c_enc_data ch) \<and> length (c_enc_data ch) \<le> ENC_MAX_CHUNK_SIZE"
    using chs cipher_data(2) [OF env(1)] by blast
  have ok: "ic_ok (cc_inform_cache cc')" using v(7) by (simp add: cache_sync_def)
  have "\<not> pipe_exits feat denc iter s \<and>
     (pipe_empty s \<longrightarrow>
        session_restores evp_enc evp_dec dcmp ddec junk cache_size batch recipe_batch key_batch s
          (dr_recipe_file dr) (sd_key_file sd) src \<and>
        session_keeps hash evp_enc cmp rng ddec S s (sd_cache_meta sd) chs)"
    if run: "(pipe_step feat denc iter)\<^sup>*\<^sup>* (pipe_start ws dd cc dw) s" for s
  proof (intro conjI impI)
    note held = session_held [OF state(1) v(5,6,10,9) known coll size env(7,3,4) run]
    show "\<not> pipe_exits feat denc iter s" by (rule held(1))
    assume empty: "pipe_empty s"
    let ?T = "S \<union> set (map w_fp outs)"
    obtain files n where f: "ClientVar_close (cc_inform_cache cc') = (files, n)" by fastforce
    have h: "pp_comp s = cc'" "dw_inv ?T (writer_here s)"
        "\<forall>ch \<in> set chs. held hash evp_enc cmp rng ddec ?T (writer_here s) (InformCache_open files) ch"
      using held(2) [OF empty] held_next_cache [OF ok v(8) f] by blast+
    have ic: "InformCache_open (fst (ClientVar_close (cc_inform_cache (pp_comp s)))) = InformCache_open files"
      by (simp add: h(1) f)
    have all: "\<forall>ch \<in> set chs. cipher_ok evp_enc ch \<and> raw_safe cmp dcmp (raw_data (c_raw ch)) \<and>
        held hash evp_enc cmp rng ddec ?T (writer_here s) (InformCache_open files) ch" using cok raw h(3) by blast
    show "session_restores evp_enc evp_dec dcmp ddec junk cache_size batch recipe_batch key_batch s
        (dr_recipe_file dr) (sd_key_file sd) src"
      unfolding session_restores_def ic v(3,4)
      using download_held [OF env(1,2,5) h(2) next_cache(1) [OF ok v(8) f] all cfg _ rc(2) src(2) src(1) [symmetric]] by blast
    show "session_keeps hash evp_enc cmp rng ddec S s (sd_cache_meta sd) chs"
      unfolding session_keeps_def ic Let_def using h(2,3) next_sync [OF v(7,8) f] by blast
  qed
  with v(1,2) show ?thesis by blast
qed

lemma chunk_file:
  assumes "0 < rd" "rd * 2 ^ 20 < 2 ^ 32" "0 < mn" "mn \<le> mx" "mx \<le> MAX_CHUNK_SIZE"
  obtains ps where "ChunkerFPThd_Run hash FastCDC_GenerateOneChunk (FastCDC (AbsChunker avg mn mx rd)) src =
      Some (map (normal_chunk_msg hash) ps @ [recipe_chunk_msg (length src) (length ps)])"
    "concat ps = src" "\<forall>p \<in> set ps. 0 < length p \<and> length p \<le> MAX_CHUNK_SIZE"
proof -
  let ?c = "FastCDC (AbsChunker avg mn mx rd)"
  have mx: "mx < 2 ^ 32" using assms(5) by (simp add: size_consts)
  have "total_chunk_num ?c = 0" "total_file_size ?c = 0"
    by (simp_all add: FastCDC_def AbsChunker_def Let_def abs_chunker.defs)
  from cdc.Run_correct [OF FastCDC_cfg_ok [OF assms(1-4) mx, of avg] this, where hash = hash and src = src] obtain ps where
      ps: "ChunkerFPThd_Run hash FastCDC_GenerateOneChunk ?c src =
        Some (map (normal_chunk_msg hash) ps @ [recipe_chunk_msg (length src) (length ps)])"
      "concat ps = src" "\<forall>p \<in> set ps. 0 < length p \<and> length p \<le> mx" by blast
  have "\<forall>p \<in> set ps. 0 < length p \<and> length p \<le> MAX_CHUNK_SIZE" using ps(3) assms(5) by fastforce
  with ps(1,2) show thesis by (rule that)
qed


subsection \<open>A schedule that reaches the end\<close>

lemma drain_dual:
  "run_thd (DualDedupThd_step feat) (dual_here s) (pp_recv_2_dual s) = Inr (dd', os) \<Longrightarrow>
   \<exists>s'. (pipe_step feat denc iter)\<^sup>*\<^sup>* s s' \<and> pp_recv_2_dual s' = [] \<and> pp_dual_2_comp s' = pp_dual_2_comp s @ os \<and>
     pp_comp_2_writer s' = pp_comp_2_writer s \<and> pp_comp s' = pp_comp s \<and> pp_writer s' = pp_writer s"
proof (induction "pp_recv_2_dual s" arbitrary: s os)
  case Nil
  then show ?case by (intro exI [of _ s]) simp
next
  case (Cons w ws)
  note q = Cons.hyps(2) [symmetric]
  obtain dd1 o1 o2 where 1: "DualDedupThd_step feat (dual_here s) w = Inr (dd1, o1)"
      "run_thd (DualDedupThd_step feat) dd1 ws = Inr (dd', o2)" "os = o1 @ o2"
    using Cons.prems by (auto simp: q bindR_eq_Inr)
  let ?s = "s \<lparr> pp_recv_2_dual := ws, pp_dual_2_comp := pp_dual_2_comp s @ o1, pp_dual := dd1, pp_fp_2_addr := dd_fp_2_addr dd1 \<rparr>"
  have st: "pipe_step feat denc iter s ?s" by (rule pipe_step.pipe_dual [OF q 1(1)])
  have "dual_here ?s = dd1" by (simp add: dual_here_def)
  with Cons.hyps(1) [of ?s o2] 1(2) obtain s' where
      s': "(pipe_step feat denc iter)\<^sup>*\<^sup>* ?s s'" "pp_recv_2_dual s' = []" "pp_dual_2_comp s' = pp_dual_2_comp ?s @ o2"
      "pp_comp_2_writer s' = pp_comp_2_writer ?s" "pp_comp s' = pp_comp ?s" "pp_writer s' = pp_writer ?s" by auto
  have "(pipe_step feat denc iter)\<^sup>*\<^sup>* s s'" using st s'(1) by (rule converse_rtranclp_into_rtranclp)
  with s' 1(3) show ?case by auto
qed

lemma drain_comp:
  "run_thd (CacheCompThd_step denc iter) (pp_comp s) (pp_dual_2_comp s) = Inr (cc', os) \<Longrightarrow>
   \<exists>s'. (pipe_step feat denc iter)\<^sup>*\<^sup>* s s' \<and> pp_recv_2_dual s' = pp_recv_2_dual s \<and> pp_dual_2_comp s' = [] \<and>
     pp_comp_2_writer s' = pp_comp_2_writer s @ os \<and> pp_writer s' = pp_writer s"
proof (induction "pp_dual_2_comp s" arbitrary: s os)
  case Nil
  then show ?case by (intro exI [of _ s]) simp
next
  case (Cons w ws)
  note q = Cons.hyps(2) [symmetric]
  obtain c1 o1 o2 where 1: "CacheCompThd_step denc iter (pp_comp s) w = Inr (c1, o1)"
      "run_thd (CacheCompThd_step denc iter) c1 ws = Inr (cc', o2)" "os = o1 @ o2"
    using Cons.prems by (auto simp: q bindR_eq_Inr)
  let ?s = "s \<lparr> pp_dual_2_comp := ws, pp_comp_2_writer := pp_comp_2_writer s @ o1, pp_comp := c1 \<rparr>"
  have st: "pipe_step feat denc iter s ?s" by (rule pipe_step.pipe_comp [OF q 1(1)])
  from Cons.hyps(1) [of ?s o2] 1(2) obtain s' where
      s': "(pipe_step feat denc iter)\<^sup>*\<^sup>* ?s s'" "pp_recv_2_dual s' = pp_recv_2_dual ?s" "pp_dual_2_comp s' = []"
      "pp_comp_2_writer s' = pp_comp_2_writer ?s @ o2" "pp_writer s' = pp_writer ?s" by auto
  have "(pipe_step feat denc iter)\<^sup>*\<^sup>* s s'" using st s'(1) by (rule converse_rtranclp_into_rtranclp)
  with s' 1(3) show ?case by auto
qed

text \<open>Deduplication and compression first, then the writer.\<close>

lemma seq_schedule:
  assumes "seq_run feat denc iter (pipe_start ws dd cc dw) = Inr (cc', outs)"
  obtains s where "(pipe_step feat denc iter)\<^sup>*\<^sup>* (pipe_start ws dd cc dw) s" "pp_recv_2_dual s = []" "pp_dual_2_comp s = []"
    "pp_comp_2_writer s = outs" "pp_writer s = dw"
proof -
  let ?s0 = "pipe_start ws dd cc dw"
  obtain dd' os where r: "run_thd (DualDedupThd_step feat) (dual_here ?s0) (pp_recv_2_dual ?s0) = Inr (dd', os)"
      "run_thd (CacheCompThd_step denc iter) cc os = Inr (cc', outs)"
    using assms by (auto simp: seq_run_def bindR_eq_Inr pipe_start_def)
  from drain_dual [OF r(1)] obtain s1 where
      1: "(pipe_step feat denc iter)\<^sup>*\<^sup>* ?s0 s1" "pp_recv_2_dual s1 = []" "pp_dual_2_comp s1 = os" "pp_comp_2_writer s1 = []"
      "pp_comp s1 = cc" "pp_writer s1 = dw" by (auto simp: pipe_start_def)
  have "run_thd (CacheCompThd_step denc iter) (pp_comp s1) (pp_dual_2_comp s1) = Inr (cc', outs)" using r(2) 1 by simp
  from drain_comp [OF this] obtain s2 where
      2: "(pipe_step feat denc iter)\<^sup>*\<^sup>* s1 s2" "pp_recv_2_dual s2 = []" "pp_dual_2_comp s2 = []" "pp_comp_2_writer s2 = outs"
      "pp_writer s2 = dw" using 1 by auto
  show thesis using rtranclp_trans [OF 1(1) 2(1)] 2(2-5) by (rule that)
qed

lemma one_write:
  assumes seq: "seq_run feat denc iter (pipe_start ws dd cc dw) = Inr (cc', outs)" and one: "length outs \<le> 1"
    and safe: "\<And>s. (pipe_step feat denc iter)\<^sup>*\<^sup>* (pipe_start ws dd cc dw) s \<Longrightarrow> \<not> pipe_exits feat denc iter s"
    and fresh: "fresh_id (dw_store dw) (dw_client dw) (rand (1 :: nat))"
  obtains s where "(pipe_step feat denc iter)\<^sup>*\<^sup>* (pipe_start ws dd cc dw) s" "pipe_empty s"
proof -
  obtain s where s: "(pipe_step feat denc iter)\<^sup>*\<^sup>* (pipe_start ws dd cc dw) s" "pp_recv_2_dual s = []" "pp_dual_2_comp s = []"
      "pp_comp_2_writer s = outs" "pp_writer s = dw" by (rule seq_schedule [OF seq])
  show thesis
  proof (cases outs)
    case Nil
    with s show thesis by (intro that [OF s(1)]) (simp add: pipe_empty_def)
  next
    case (Cons w rest)
    with one have q: "pp_comp_2_writer s = [w]" using s(4) by simp
    have f: "fresh_id (dw_store (pp_writer s)) (dw_client (pp_writer s)) (rand 1)" using fresh s(5) by simp
    with safe [OF s(1)] q obtain dw' where d: "DataWriterThd_step denc iter rand (writer_here s) w = Inr dw'"
      by (cases "DataWriterThd_step denc iter rand (writer_here s) w") (auto simp: pipe_exits_def)
    let ?s = "s \<lparr> pp_comp_2_writer := [], pp_writer := dw', pp_fp_2_addr := dw_fp_2_addr dw' \<rparr>"
    have "pipe_step feat denc iter s ?s" by (rule pipe_step.pipe_write [OF q f d])
    moreover have "pipe_empty ?s" using s(2,3) by (simp add: pipe_empty_def)
    ultimately show thesis using that rtranclp.rtrancl_into_rtrancl [OF s(1)] by blast
  qed
qed

subsection \<open>A file of one byte\<close>

definition sl_demo :: select_comp where
  "sl_demo = \<lparr> sl_cache_meta = CacheMeta_new 4 None, sl_send = s2_demo NORMAL_CHUNK, sl_cache = s2_demo NORMAL_CHUNK \<rparr>"

lemma concat_one: "concat xs = [x] \<Longrightarrow> \<forall>y \<in> set xs. y \<noteq> [] \<Longrightarrow> xs = [[x]]"
  by (cases xs) (auto simp: append_eq_Cons_conv)

lemma demo_uploadable:
  assumes "raw_data (c_raw ch) = [5]"
  shows "uploadable demo_hash demo_enc demo_cmp demo_dcmp (\<lambda>_ _. 0) demo_denc {} dw_new (cc_inform_cache cc_new) [ch]"
proof -
  have "counts_small (SUPER_FEATURE_PER_CHUNK * 1) ic_new" by (rule counts_small_new) (simp add: SUPER_FEATURE_PER_CHUNK_def)
  then have "cache_room 1 ic_new"
    by (simp add: cache_room_def ic_new_def InMem_Query_def SUPER_FEATURE_PER_CHUNK_def)
  then show ?thesis using assms
    by (simp add: uploadable_def collision_free_def known_held_def dw_new_def cc_new_def raw_safe_def demo_dcmp_def)
qed


end
