(* ===== verification/Rabin_Poly.thy ===== *)
theory Rabin_Poly
  imports Prelude
begin

text \<open>
  Rabin fingerprints: \<open>src/chunker/rabin_poly.cc\<close>. A fingerprint is a polynomial over GF(2) of
  degree below 63, reduced modulo a fixed polynomial of degree 63; the two tables speed up the
  appending of a byte and the removal of the byte that leaves the window. The section on algebra
  shows that both tables do what they are for, and from that the rolling property: the
  fingerprint depends on the bytes in the window only. Table and buffer accesses are checked:
  an index outside is the error \<open>OutOfBounds\<close>.
\<close>

unbundle bit_operations_syntax

subsection \<open>Arithmetic of polynomials\<close>

definition MSB64 :: u64 where
  "MSB64 = 0x8000000000000000"

definition fls32 :: "u32 \<Rightarrow> nat" where
  "fls32 x =
    (if x = 0 then 0
     else let r = 32;
              (x, r) = (if x AND 0xffff0000 = 0 then (push_bit 16 x, r - 16) else (x, r));
              (x, r) = (if x AND 0xff000000 = 0 then (push_bit 8 x, r - 8) else (x, r));
              (x, r) = (if x AND 0xf0000000 = 0 then (push_bit 4 x, r - 4) else (x, r));
              (x, r) = (if x AND 0xc0000000 = 0 then (push_bit 2 x, r - 2) else (x, r));
              (x, r) = (if x AND 0x80000000 = 0 then (push_bit 1 x, r - 1) else (x, r))
          in r)"

definition fls64 :: "u64 \<Rightarrow> nat" where
  "fls64 v = (let h = ucast (drop_bit 32 v) :: u32 in if h \<noteq> 0 then 32 + fls32 h else fls32 (ucast v))"

definition polymod_hi :: "u64 \<Rightarrow> nat \<Rightarrow> u64 \<times> u64 \<Rightarrow> u64 \<times> u64" where
  "polymod_hi d i hl =
    (case hl of (nh, nl) \<Rightarrow>
       if bit nh i then (nh XOR drop_bit (63 - i) d, nl XOR push_bit (i + 1) d) else (nh, nl))"

definition polymod_lo :: "u64 \<Rightarrow> nat \<Rightarrow> u64 \<Rightarrow> u64" where
  "polymod_lo d i nl = (if bit nl i then nl XOR drop_bit (63 - i) d else nl)"

definition polymod :: "u64 \<Rightarrow> u64 \<Rightarrow> u64 \<Rightarrow> u64" where
  "polymod nh nl d =
    (let k = fls64 d - 1;
         d = push_bit (63 - k) d;
         nl = (if nh \<noteq> 0 then
                 let nh = (if nh AND MSB64 \<noteq> 0 then nh XOR d else nh)
                 in snd (fold (polymod_hi d) (rev [0..<63]) (nh, nl))
               else nl)
     in fold (polymod_lo d) (rev [k..<64]) nl)"

definition polymult_step :: "u64 \<Rightarrow> u64 \<Rightarrow> nat \<Rightarrow> u64 \<times> u64 \<Rightarrow> u64 \<times> u64" where
  "polymult_step x y i pp =
    (case pp of (ph, pl) \<Rightarrow> if bit x i then (ph XOR drop_bit (64 - i) y, pl XOR push_bit i y) else (ph, pl))"

definition polymult :: "u64 \<Rightarrow> u64 \<Rightarrow> u64 \<times> u64" where
  "polymult x y = fold (polymult_step x y) [1..<64] (0, if bit x 0 then y else 0)"

definition polymmult :: "u64 \<Rightarrow> u64 \<Rightarrow> u64 \<Rightarrow> u64" where
  "polymmult x y d = (case polymult x y of (h, l) \<Rightarrow> polymod h l d)"

subsection \<open>The fingerprint utility\<close>

record rabin_util =
  fp_poly :: u64
  window_size :: nat
  shift :: nat
  T_tab :: "u64 list"
  U_tab :: "u64 list"

record rabin_ctx =
  cur_pos :: u32
  circ_buf :: bytes
  ctx_fp :: u64

definition Append8 :: "rabin_util \<Rightarrow> u64 \<Rightarrow> byte \<Rightarrow> u64 result" where
  "Append8 rb p m =
    (let i = unat (drop_bit (shift rb) p)
     in if i < length (T_tab rb) then Inr ((push_bit 8 p OR ucast m) XOR T_tab rb ! i) else Inl OutOfBounds)"

definition RabinFPUtil :: "nat \<Rightarrow> rabin_util result" where
  "RabinFPUtil w =
    (let poly = 0xbfe6b8a5bf378d83;
         x_shift = fls64 poly - 1;
         T1 = polymod 0 (push_bit x_shift 1) poly;
         rb = \<lparr> fp_poly = poly, window_size = w, shift = x_shift - 8,
                T_tab = map (\<lambda>i. polymmult (of_nat i) T1 poly OR push_bit x_shift (of_nat i)) [0..<256],
                U_tab = [] \<rparr>
     in bindR (foldR (\<lambda>sizeshift _. Append8 rb sizeshift 0) 1 [1..<w]) (\<lambda>sizeshift.
          Inr (rb \<lparr> U_tab := map (\<lambda>i. polymmult (of_nat i) sizeshift poly) [0..<256] \<rparr>)))"

definition NewCtx :: "rabin_util \<Rightarrow> rabin_ctx" where
  "NewCtx rb = \<lparr> cur_pos = - 1, circ_buf = replicate (window_size rb) 0, ctx_fp = 0 \<rparr>"

definition ResetCtx :: "rabin_util \<Rightarrow> rabin_ctx \<Rightarrow> rabin_ctx" where
  \<comment> \<open>\<open>memset\<close> of the buffer that \<open>NewCtx\<close> allocated\<close>
  "ResetCtx rb ctx =
    ctx \<lparr> circ_buf := replicate (window_size rb) 0 @ drop (window_size rb) (circ_buf ctx), cur_pos := - 1, ctx_fp := 0 \<rparr>"

definition SlideOneByte :: "rabin_util \<Rightarrow> rabin_ctx \<Rightarrow> byte \<Rightarrow> rabin_ctx result" where
  "SlideOneByte rb ctx b =
    (let pos = cur_pos ctx + 1;
         pos = (if window_size rb \<le> unat pos then 0 else pos)
     in if unat pos < length (circ_buf ctx) \<and> unat (circ_buf ctx ! unat pos) < length (U_tab rb) then
          let om = circ_buf ctx ! unat pos
          in bindR (Append8 rb (ctx_fp ctx XOR U_tab rb ! unat om) b) (\<lambda>fp.
               Inr (ctx \<lparr> cur_pos := pos, circ_buf := (circ_buf ctx)[unat pos := b], ctx_fp := fp \<rparr>))
        else Inl OutOfBounds)"

subsection \<open>Linear maps on words\<close>

definition xlinear :: "('a::len word \<Rightarrow> 'b::len word) \<Rightarrow> bool" where
  "xlinear f \<longleftrightarrow> (\<forall>a b. f (a XOR b) = f a XOR f b)"

lemma xlinearD: "xlinear f \<Longrightarrow> f (a XOR b) = f a XOR f b"
  by (simp add: xlinear_def)

lemma xlinear_0: "xlinear f \<Longrightarrow> f 0 = 0"
  using xlinearD [of f 0 0] by simp

lemma xlinear_id: "xlinear (\<lambda>x. x)"
  by (simp add: xlinear_def)

lemma xlinear_comp: "xlinear f \<Longrightarrow> xlinear g \<Longrightarrow> xlinear (\<lambda>x. f (g x))"
  by (simp add: xlinear_def)

lemma xlinear_funpow: "xlinear f \<Longrightarrow> xlinear (f ^^ n)" for f :: "'a::len word \<Rightarrow> 'a word"
  by (induction n) (simp_all add: xlinear_def)

lemma xlinear_xor: "xlinear f \<Longrightarrow> xlinear g \<Longrightarrow> xlinear (\<lambda>x. f x XOR g x)"
  by (simp add: xlinear_def xor.assoc xor.left_commute)

lemma xlinear_push: "xlinear (push_bit n)"
  by (simp add: xlinear_def push_bit_xor)

lemma xlinear_drop: "xlinear (drop_bit n)"
  by (simp add: xlinear_def drop_bit_xor)

lemma take_bit_Suc_xor:
  fixes x :: "'a::len word"
  shows "take_bit (Suc n) x = take_bit n x XOR (if bit x n then 2 ^ n else 0)"
  by (rule bit_eqI) (auto simp: bit_simps less_Suc_eq)

text \<open>Two linear maps that agree on the powers of two agree.\<close>

lemma xlinear_ext:
  assumes "xlinear f" "xlinear g" "\<And>i. i < n \<Longrightarrow> f (2 ^ i) = g (2 ^ i)"
  shows "f (take_bit n x) = g (take_bit n x)"
  using assms(3)
proof (induction n)
  case 0
  then show ?case using assms(1,2) by (simp add: xlinear_0)
next
  case (Suc n)
  then show ?case using assms(1,2) by (simp add: take_bit_Suc_xor xlinearD xlinear_0)
qed

subsection \<open>The modulus\<close>

definition poly63 :: u64 where
  "poly63 = 0xbfe6b8a5bf378d83"

lemma fls64_poly63: "fls64 0xbfe6b8a5bf378d83 = 64"
  by (simp add: fls64_def fls32_def)

text \<open>Multiplication by x; every residue is a word whose bit 63 is clear.\<close>

definition xtime :: "u64 \<Rightarrow> u64" where
  "xtime s = push_bit 1 s XOR (if bit s 62 then poly63 else 0)"

abbreviation residue :: "u64 \<Rightarrow> bool" where
  "residue s \<equiv> \<not> bit s 63"

lemma poly63_63: "bit poly63 63"
  by (simp add: poly63_def)

lemma xtime_residue: "residue (xtime s)"
  using poly63_63 unfolding xtime_def bit_xor_iff bit_push_bit_iff by simp

lemma xtime_pow_residue: "residue s \<Longrightarrow> residue ((xtime ^^ n) s)"
  by (cases n) (simp_all add: xtime_residue)

lemma xlinear_xtime: "xlinear xtime"
  by (auto simp: xlinear_def xtime_def push_bit_xor bit_simps xor.assoc xor.left_commute xor.commute)

lemma residue_take: "residue s \<Longrightarrow> take_bit 63 s = s"
  by (rule bit_eqI) (auto simp: bit_simps less_Suc_eq numeral_eq_Suc)

lemma xtime_exp: "xtime (2 ^ i) = (if i = 62 then xtime (2 ^ 62) else 2 ^ (i + 1))" if "i < 63"
  using that by (simp add: xtime_def bit_exp_iff possible_bit_word)

lemma xtime_pow_small: "i + n \<le> 62 \<Longrightarrow> (xtime ^^ n) (2 ^ i) = 2 ^ (i + n)"
  by (induction n) (simp_all add: xtime_exp)

subsection \<open>Reduction\<close>

definition pxor :: "u64 \<times> u64 \<Rightarrow> u64 \<times> u64 \<Rightarrow> u64 \<times> u64" where
  "pxor p q = (fst p XOR fst q, snd p XOR snd q)"

definition plinear :: "(u64 \<times> u64 \<Rightarrow> u64 \<times> u64) \<Rightarrow> bool" where
  "plinear f \<longleftrightarrow> (\<forall>p q. f (pxor p q) = pxor (f p) (f q))"

lemma plinear_polymod_hi: "plinear (polymod_hi d i)"
  unfolding plinear_def polymod_hi_def pxor_def
  by (auto simp: bit_xor_iff xor.assoc xor.left_commute xor.commute split: prod.splits)

lemma xlinear_polymod_lo: "xlinear (polymod_lo d i)"
  unfolding xlinear_def polymod_lo_def
  by (auto simp: bit_xor_iff xor.assoc xor.left_commute xor.commute)

lemma plinear_fold: "(\<And>i. plinear (f i)) \<Longrightarrow> plinear (fold f is)"
  by (induction "is") (simp_all add: plinear_def del: split_paired_All)

lemma polymod_hi_skip:
  assumes "\<And>i. n \<le> i \<Longrightarrow> i < m \<Longrightarrow> \<not> bit nh i" "n \<le> m"
  shows "fold (polymod_hi d) (rev [0..<m]) (nh, nl) = fold (polymod_hi d) (rev [0..<n]) (nh, nl)"
  using assms
proof (induction m)
  case 0
  then show ?case by simp
next
  case (Suc m)
  then show ?case by (cases "n = Suc m") (auto simp: polymod_hi_def)
qed

text \<open>The loops without the test that skips the first of them.\<close>

definition reduce :: "u64 \<times> u64 \<Rightarrow> u64" where
  "reduce p = polymod_lo poly63 63 (snd (fold (polymod_hi poly63) (rev [0..<63])
                (fst p XOR (if bit (fst p) 63 then poly63 else 0), snd p)))"

lemma polymod_reduce: "polymod h l poly63 = reduce (h, l)"
proof -
  have "h AND MSB64 = 0 \<longleftrightarrow> \<not> bit h 63"
    using and_exp_eq_0_iff_not_bit [of h 63] by (simp add: MSB64_def)
  moreover have "snd (fold (polymod_hi poly63) (rev [0..<63]) (0, l)) = l"
    by (subst polymod_hi_skip [of 0]) simp_all
  ultimately show ?thesis
    using fls64_poly63 by (simp add: polymod_def reduce_def poly63_def Let_def)
qed

lemma reduce_pxor: "reduce (pxor p q) = reduce p XOR reduce q"
proof -
  have "plinear (fold (polymod_hi poly63) (rev [0..<63]))" by (intro plinear_fold plinear_polymod_hi)
  then have "snd (fold (polymod_hi poly63) (rev [0..<63]) (pxor a b)) =
      snd (fold (polymod_hi poly63) (rev [0..<63]) a) XOR snd (fold (polymod_hi poly63) (rev [0..<63]) b)" for a b
    by (simp add: plinear_def pxor_def)
  moreover have "(fst (pxor p q) XOR (if bit (fst (pxor p q)) 63 then poly63 else 0), snd (pxor p q)) =
      pxor (fst p XOR (if bit (fst p) 63 then poly63 else 0), snd p) (fst q XOR (if bit (fst q) 63 then poly63 else 0), snd q)"
    by (auto simp: pxor_def bit_xor_iff xor.assoc xor.left_commute xor.commute)
  ultimately show ?thesis
    unfolding reduce_def by (simp add: xlinearD [OF xlinear_polymod_lo])
qed

text \<open>Powers of x up to the eighth above the word.\<close>

lemma upt7: "rev [0..<7] = [6, 5, 4, 3, 2, 1, 0 :: nat]"
  by (simp add: upt_conv_Cons numeral_2_eq_2)

lemma xtime_pows:
  "xtime 0x4000000000000000 = 0x3fe6b8a5bf378d83" "xtime 0x3fe6b8a5bf378d83 = 0x7fcd714b7e6f1b06"
  "xtime 0x7fcd714b7e6f1b06 = 0x407c5a3343e9bb8f" "xtime 0x407c5a3343e9bb8f = 0x3f1e0cc338e4fa9d"
  "xtime 0x3f1e0cc338e4fa9d = 0x7e3c198671c9f53a" "xtime 0x7e3c198671c9f53a = 0x439e8ba95ca467f7"
  "xtime 0x439e8ba95ca467f7 = 0x38dbaff7067f426d" "xtime 0x38dbaff7067f426d = 0x71b75fee0cfe84da"
  by (simp_all add: xtime_def poly63_def)

lemma xtime_pow_values:
  "(xtime ^^ 2) 0x4000000000000000 = 0x7fcd714b7e6f1b06" "(xtime ^^ 3) 0x4000000000000000 = 0x407c5a3343e9bb8f"
  "(xtime ^^ 4) 0x4000000000000000 = 0x3f1e0cc338e4fa9d" "(xtime ^^ 5) 0x4000000000000000 = 0x7e3c198671c9f53a"
  "(xtime ^^ 6) 0x4000000000000000 = 0x439e8ba95ca467f7" "(xtime ^^ 7) 0x4000000000000000 = 0x38dbaff7067f426d"
  "(xtime ^^ 8) 0x4000000000000000 = 0x71b75fee0cfe84da"
  by (simp_all add: numeral_eq_Suc xtime_pows)

lemma reduce_high: "j < 7 \<Longrightarrow> reduce (2 ^ j, 0) = (xtime ^^ (j + 2)) (2 ^ 62)"
proof -
  assume j: "j < 7"
  have "fold (polymod_hi poly63) (rev [0..<63]) (2 ^ j, 0) = fold (polymod_hi poly63) [6, 5, 4, 3, 2, 1, 0] (2 ^ j, 0)"
    unfolding upt7 [symmetric] using j by (intro polymod_hi_skip) (auto simp: bit_exp_iff)
  moreover have "\<not> bit (2 ^ j :: u64) 63" using j by (simp add: bit_exp_iff)
  ultimately have r: "reduce (2 ^ j, 0) = polymod_lo poly63 63 (snd (fold (polymod_hi poly63) [6, 5, 4, 3, 2, 1, 0] (2 ^ j, 0)))"
    by (simp add: reduce_def)
  consider (0) "j = 0" | (1) "j = 1" | (2) "j = 2" | (3) "j = 3" | (4) "j = 4" | (5) "j = 5" | (6) "j = 6"
    using j by linarith
  then show ?thesis
    unfolding r by cases (simp_all add: polymod_hi_def polymod_lo_def poly63_def xtime_pows xtime_pow_values [simplified])
qed

lemma reduce_low: "reduce (0, 2 ^ n) = (if n = 63 then xtime (2 ^ 62) else 2 ^ n)" if "n < 64"
proof -
  have "snd (fold (polymod_hi poly63) (rev [0..<63]) (0, l)) = l" for l
    by (subst polymod_hi_skip [of 0]) simp_all
  moreover have "xtime (2 ^ 62) = 2 ^ 63 XOR poly63" by (simp add: xtime_def bit_exp_iff possible_bit_word)
  ultimately show ?thesis using that by (simp add: reduce_def polymod_lo_def bit_exp_iff possible_bit_word)
qed

text \<open>The product with a power of x.\<close>

lemma polymult_exp:
  assumes "j < 64"
  shows "polymult (2 ^ j) y = (drop_bit (64 - j) y, push_bit j y)"
proof -
  have skip: "fold (polymult_step (2 ^ j) y) is pp = pp" if "j \<notin> set is" for "is" pp
    using that by (induction "is" arbitrary: pp) (auto simp: polymult_step_def bit_exp_iff split: prod.splits)
  show ?thesis
  proof (cases "j = 0")
    case True
    have "drop_bit 64 y = 0" by (rule bit_eqI) (auto simp: bit_drop_bit_eq dest: bit_imp_le_length)
    with True skip [of "[1..<64]"] show ?thesis by (simp add: polymult_def bit_1_iff)
  next
    case False
    then have "[1..<64] = [1..<j] @ j # [Suc j..<64]"
      using assms upt_add_eq_append [of 1 j "64 - j"] by (simp add: upt_conv_Cons)
    moreover have "\<not> bit (2 ^ j :: u64) 0" using False by (simp add: bit_exp_iff)
    ultimately show ?thesis
      using assms skip [of "[1..<j]"] skip [of "[Suc j..<64]"]
      by (simp add: polymult_def polymult_step_def bit_exp_iff possible_bit_word)
  qed
qed

lemma plinear_polymult_fst:
  "polymult (a XOR b) y = pxor (polymult a y) (polymult b y)"
proof -
  have "fold (polymult_step (a XOR b) y) is (pxor p q) = pxor (fold (polymult_step a y) is p) (fold (polymult_step b y) is q)" for "is" p q
  proof (induction "is" arbitrary: p q)
    case Nil
    then show ?case by simp
  next
    case (Cons i "is")
    have "polymult_step (a XOR b) y i (pxor p q) = pxor (polymult_step a y i p) (polymult_step b y i q)"
      by (auto simp: polymult_step_def pxor_def bit_xor_iff xor.assoc xor.left_commute xor.commute split: prod.splits)
    with Cons show ?case by simp
  qed
  from this [of "[1..<64]" "(0, if bit a 0 then y else 0)" "(0, if bit b 0 then y else 0)"] show ?thesis
    by (auto simp: polymult_def pxor_def bit_xor_iff)
qed

lemma polymmult_reduce: "polymmult x y poly63 = reduce (polymult x y)"
  by (simp add: polymmult_def polymod_reduce split: prod.splits)

lemma xlinear_polymmult: "xlinear (\<lambda>x. polymmult x y poly63)"
  by (simp add: xlinear_def polymmult_reduce plinear_polymult_fst reduce_pxor)

lemma polymmult_exp:
  assumes "j < 8" "residue y"
  shows "polymmult (2 ^ j) y poly63 = (xtime ^^ j) y"
proof -
  let ?f = "\<lambda>y. polymmult (2 ^ j) y poly63"
  have f: "?f y = reduce (drop_bit (64 - j) y, push_bit j y)" for y
    using assms(1) by (simp add: polymmult_reduce polymult_exp)
  have "xlinear ?f"
    unfolding xlinear_def f
    by (simp add: drop_bit_xor push_bit_xor reduce_pxor [symmetric]) (simp add: pxor_def)
  moreover have "?f (2 ^ i) = (xtime ^^ j) (2 ^ i)" if i: "i < 63" for i
  proof (cases "i + j < 64")
    case True
    have "drop_bit (64 - j) (2 ^ i :: u64) = 0" by (rule bit_eqI) (use True in \<open>auto simp: bit_drop_bit_eq bit_exp_iff\<close>)
    moreover have "push_bit j (2 ^ i :: u64) = 2 ^ (i + j)" by (simp add: push_bit_eq_mult power_add mult.commute)
    ultimately have "?f (2 ^ i) = (if i + j = 63 then xtime (2 ^ 62) else 2 ^ (i + j))"
      unfolding f using True by (simp add: reduce_low)
    moreover have "(xtime ^^ j) (2 ^ i) = xtime (2 ^ 62)" if "i + j = 63"
    proof -
      have "j = Suc (62 - i)" using that i by simp
      then have "(xtime ^^ j) (2 ^ i) = xtime ((xtime ^^ (62 - i)) (2 ^ i))" by simp
      also have "\<dots> = xtime (2 ^ 62)" using i by (simp add: xtime_pow_small)
      finally show ?thesis .
    qed
    ultimately show ?thesis using True by (simp add: xtime_pow_small)
  next
    case False
    let ?k = "i + j - 64"
    have "push_bit j (2 ^ i :: u64) = 0" by (rule bit_eqI) (use False in \<open>auto simp: bit_push_bit_iff bit_exp_iff\<close>)
    moreover have "drop_bit (64 - j) (2 ^ i :: u64) = 2 ^ ?k"
      by (rule bit_eqI) (use False i assms(1) in \<open>auto simp: bit_drop_bit_eq bit_exp_iff possible_bit_word\<close>)
    ultimately have "?f (2 ^ i) = (xtime ^^ (?k + 2)) (2 ^ 62)"
      unfolding f using i assms(1) by (simp add: reduce_high)
    moreover have "j = (?k + 2) + (62 - i)" using False i assms(1) by simp
    then have "(xtime ^^ j) (2 ^ i) = (xtime ^^ (?k + 2)) ((xtime ^^ (62 - i)) (2 ^ i))"
      by (metis comp_apply funpow_add)
    moreover have "(xtime ^^ (62 - i)) (2 ^ i) = 2 ^ 62" using i xtime_pow_small [of i "62 - i"] by simp
    ultimately show ?thesis by simp
  qed
  ultimately have "?f (take_bit 63 y) = (xtime ^^ j) (take_bit 63 y)"
    using xlinear_ext [where f = ?f and g = "xtime ^^ j" and n = 63] xlinear_funpow [OF xlinear_xtime] by blast
  with residue_take [OF assms(2)] show ?thesis by simp
qed

subsection \<open>The tables\<close>

lemma reduce_residue: "residue (reduce p)"
  using poly63_63 unfolding reduce_def polymod_lo_def by (simp add: bit_xor_iff)

definition T_entry :: "u64 \<Rightarrow> u64" where
  "T_entry t = polymmult t (xtime (2 ^ 62)) poly63 XOR push_bit 63 t"

lemma or_eq_xor: "(\<And>n. bit a n \<Longrightarrow> \<not> bit b n) \<Longrightarrow> a OR b = a XOR b" for a b :: u64
  by (rule bit_eqI) (auto simp: bit_or_iff bit_xor_iff)

lemma xor_cancel: "a XOR (b XOR a) = b" for a b :: u64
  by (rule bit_eqI) (auto simp: bit_xor_iff)

lemma xor_swap: "(a XOR b) XOR c = (a XOR c) XOR b" for a b c :: u64
  by (rule bit_eqI) (auto simp: bit_xor_iff)

lemma ucast_byte_bit: "bit (ucast m :: u64) n \<Longrightarrow> n < 8" for m :: byte
  by (auto simp: bit_ucast_iff dest: bit_imp_le_length)

lemma push63_bit: "bit (push_bit 63 t) n \<Longrightarrow> n = 63" for t :: u64
  using bit_imp_le_length [of "push_bit 63 t" n] by (auto simp: bit_push_bit_iff)

lemma T_entry_or: "polymmult t (xtime (2 ^ 62)) poly63 OR push_bit 63 t = T_entry t"
  unfolding T_entry_def polymmult_reduce using reduce_residue push63_bit by (intro or_eq_xor) blast

text \<open>Appending a byte multiplies by the eighth power of x and adds the byte.\<close>

lemma T_entry_shift:
  assumes "residue p"
  shows "push_bit 8 p XOR T_entry (drop_bit 55 p) = (xtime ^^ 8) p"
proof -
  let ?F = "\<lambda>p. push_bit 8 p XOR T_entry (drop_bit 55 p)"
  have F: "xlinear ?F"
    unfolding T_entry_def
    by (intro xlinear_xor xlinear_push xlinear_comp [OF xlinear_polymmult xlinear_drop] xlinear_comp [OF xlinear_push xlinear_drop])
  have "?F (2 ^ i) = (xtime ^^ 8) (2 ^ i)" if i: "i < 63" for i
  proof (cases "i < 55")
    case True
    have "drop_bit 55 (2 ^ i :: u64) = 0" by (rule bit_eqI) (use True in \<open>auto simp: bit_drop_bit_eq bit_exp_iff\<close>)
    moreover have "push_bit 8 (2 ^ i :: u64) = 2 ^ (i + 8)" by (simp add: push_bit_eq_mult power_add)
    moreover have "T_entry 0 = 0" by (simp add: T_entry_def xlinear_0 [OF xlinear_polymmult])
    ultimately show ?thesis using True by (simp add: xtime_pow_small)
  next
    case False
    let ?j = "i - 55"
    have d: "drop_bit 55 (2 ^ i :: u64) = 2 ^ ?j"
      by (rule bit_eqI) (use False i in \<open>auto simp: bit_drop_bit_eq bit_exp_iff possible_bit_word\<close>)
    have p: "push_bit 8 (2 ^ i :: u64) = push_bit 63 (2 ^ ?j)"
      by (rule bit_eqI) (use False i in \<open>auto simp: bit_push_bit_iff bit_exp_iff possible_bit_word\<close>)
    have "?F (2 ^ i) = polymmult (2 ^ ?j) (xtime (2 ^ 62)) poly63"
      unfolding d p T_entry_def by (rule xor_cancel)
    also have "\<dots> = (xtime ^^ ?j) (xtime (2 ^ 62))" using i False by (intro polymmult_exp xtime_residue) simp
    also have "\<dots> = (xtime ^^ Suc ?j) ((xtime ^^ (62 - i)) (2 ^ i))"
      using i xtime_pow_small [of i "62 - i"] by (simp add: funpow_swap1)
    also have "\<dots> = (xtime ^^ (Suc ?j + (62 - i))) (2 ^ i)" by (simp add: funpow_add)
    also have "Suc ?j + (62 - i) = 8" using i False by simp
    finally show ?thesis .
  qed
  then have "?F (take_bit 63 p) = (xtime ^^ 8) (take_bit 63 p)"
    by (rule xlinear_ext [OF F xlinear_funpow [OF xlinear_xtime]])
  with residue_take [OF assms] show ?thesis by simp
qed

definition tab_ok :: "rabin_util \<Rightarrow> bool" where
  "tab_ok rb \<longleftrightarrow> shift rb = 55 \<and> T_tab rb = map (\<lambda>i. T_entry (of_nat i)) [0..<256]"

definition append_ref :: "u64 \<Rightarrow> byte \<Rightarrow> u64" where
  "append_ref p m = (xtime ^^ 8) p XOR ucast m"

lemma Append8_ref:
  assumes "tab_ok rb" "residue p"
  shows "Append8 rb p m = Inr (append_ref p m)" and "residue (append_ref p m)"
proof -
  have "drop_bit 55 p = drop_bit 55 (take_bit 63 p)" using residue_take [OF assms(2)] by simp
  also have "\<dots> = take_bit 8 (drop_bit 55 p)" by (simp add: drop_bit_take_bit)
  finally have t: "take_bit 8 (drop_bit 55 p) = drop_bit 55 p" ..
  have "unat (take_bit 8 (drop_bit 55 p)) = take_bit 8 (unat (drop_bit 55 p))" by (simp add: unsigned_take_bit_eq)
  also have "\<dots> < 2 ^ 8" by (rule take_bit_nat_less_exp)
  finally have i: "unat (drop_bit 55 p) < 256" unfolding t by simp
  have "push_bit 8 p OR (ucast m :: u64) = push_bit 8 p XOR ucast m"
    by (rule or_eq_xor) (auto simp: bit_push_bit_iff dest: ucast_byte_bit)
  then have "(push_bit 8 p OR ucast m) XOR T_entry (drop_bit 55 p) = append_ref p m"
    unfolding append_ref_def T_entry_shift [OF assms(2), symmetric] by (simp only: xor_swap)
  with assms(1) i show "Append8 rb p m = Inr (append_ref p m)" by (simp add: Append8_def tab_ok_def Let_def)
  have "\<not> bit (ucast m :: u64) 63" using ucast_byte_bit by fastforce
  then show "residue (append_ref p m)"
    using xtime_pow_residue [OF assms(2), of 8] by (simp add: append_ref_def bit_xor_iff)
qed

text \<open>
  The fingerprint of a string of bytes without any table: the polynomial of its bits, reduced by
  shift and subtract.
\<close>

definition rabin_ref :: "bytes \<Rightarrow> u64" where
  "rabin_ref bs = foldl append_ref 0 bs"

lemma rabin_ref_Nil [simp]: "rabin_ref [] = 0"
  by (simp add: rabin_ref_def)

lemma foldl_append_ref:
  "foldl append_ref (p XOR q) bs = (xtime ^^ (8 * length bs)) p XOR foldl append_ref q bs"
proof (induction bs arbitrary: p q)
  case Nil
  then show ?case by simp
next
  case (Cons b bs)
  have "append_ref (p XOR q) b = (xtime ^^ 8) p XOR append_ref q b"
    using xlinearD [OF xlinear_funpow [OF xlinear_xtime]] by (simp add: append_ref_def xor.assoc)
  then have "foldl append_ref (p XOR q) (b # bs) =
      (xtime ^^ (8 * length bs)) ((xtime ^^ 8) p) XOR foldl append_ref (append_ref q b) bs"
    using Cons.IH [of "(xtime ^^ 8) p" "append_ref q b"] by simp
  also have "(xtime ^^ (8 * length bs)) ((xtime ^^ 8) p) = (xtime ^^ (8 * length (b # bs))) p"
    by (simp add: funpow_add [symmetric, THEN fun_cong, simplified comp_def] add.commute)
  finally show ?case by simp
qed

lemma rabin_ref_Cons: "rabin_ref (b # bs) = (xtime ^^ (8 * length bs)) (ucast b) XOR rabin_ref bs"
proof -
  have "append_ref 0 b = ucast b XOR 0" by (simp add: append_ref_def xlinear_0 [OF xlinear_funpow [OF xlinear_xtime]])
  then show ?thesis unfolding rabin_ref_def foldl_Cons foldl_append_ref [symmetric] by simp
qed

lemma rabin_ref_snoc: "rabin_ref (bs @ [b]) = append_ref (rabin_ref bs) b"
  by (simp add: rabin_ref_def)

lemma rabin_ref_zeros: "rabin_ref (replicate n 0) = 0"
  by (induction n) (simp_all add: rabin_ref_Cons xlinear_0 [OF xlinear_funpow [OF xlinear_xtime]])

lemma rabin_ref_residue: "residue (rabin_ref bs)"
proof (induction bs rule: rev_induct)
  case Nil
  then show ?case by (simp add: rabin_ref_def)
next
  case (snoc b bs)
  have "\<not> bit (ucast b :: u64) 63" using ucast_byte_bit by fastforce
  with xtime_pow_residue [OF snoc, of 8] show ?case by (simp add: rabin_ref_snoc append_ref_def bit_xor_iff)
qed

text \<open>The second table removes the oldest byte of a window.\<close>

lemma U_entry:
  "polymmult (ucast b) ((xtime ^^ n) 1) poly63 = (xtime ^^ n) (ucast b)" for b :: byte
proof -
  have u: "xlinear (\<lambda>b :: byte. ucast b :: u64)"
    unfolding xlinear_def by (intro allI bit_eqI) (auto simp: bit_ucast_iff bit_xor_iff)
  have r: "residue ((xtime ^^ n) 1)" by (rule xtime_pow_residue) (simp add: bit_1_iff)
  let ?f = "\<lambda>b :: byte. polymmult (ucast b) ((xtime ^^ n) 1) poly63" and ?g = "\<lambda>b :: byte. (xtime ^^ n) (ucast b)"
  have "?f (2 ^ j) = ?g (2 ^ j)" if j: "j < 8" for j
  proof -
    have "ucast (2 ^ j :: byte) = (2 ^ j :: u64)"
      by (rule bit_eqI) (use j in \<open>auto simp: bit_ucast_iff bit_exp_iff possible_bit_word\<close>)
    moreover have "(xtime ^^ j) ((xtime ^^ n) 1) = (xtime ^^ n) ((xtime ^^ j) 1)"
      by (metis add.commute comp_apply funpow_add)
    ultimately show ?thesis
      using polymmult_exp [OF j r] xtime_pow_small [of 0 j] j by simp
  qed
  then have "?f (take_bit 8 b) = ?g (take_bit 8 b)"
    by (intro xlinear_ext [where f = ?f and g = ?g] xlinear_comp [OF xlinear_polymmult u]
        xlinear_comp [OF xlinear_funpow [OF xlinear_xtime] u]) simp_all
  moreover have "take_bit 8 b = b" by (rule bit_eqI) (auto simp: bit_take_bit_iff dest: bit_imp_le_length)
  ultimately show ?thesis by simp
qed

definition rabin_ok :: "nat \<Rightarrow> rabin_util \<Rightarrow> bool" where
  "rabin_ok w rb \<longleftrightarrow> tab_ok rb \<and> window_size rb = w \<and> length (U_tab rb) = 256 \<and>
     (\<forall>b :: byte. U_tab rb ! unat b = (xtime ^^ (8 * (w - 1))) (ucast b))"

lemma RabinFPUtil_ok:
  assumes "0 < w"
  obtains rb where "RabinFPUtil w = Inr rb" "rabin_ok w rb"
proof -
  have T1: "polymod 0 (push_bit 63 1) 0xbfe6b8a5bf378d83 = xtime (2 ^ 62)"
    using polymod_reduce [of 0 "2 ^ 63"] reduce_low [of 63] by (simp add: poly63_def)
  let ?rb = "\<lparr> fp_poly = poly63, window_size = w, shift = 55,
    T_tab = map (\<lambda>i. polymmult (of_nat i) (xtime (2 ^ 62)) poly63 OR push_bit 63 (of_nat i)) [0..<256], U_tab = [] \<rparr>"
  have tab: "tab_ok ?rb" unfolding tab_ok_def T_entry_or by simp
  have loop: "foldR (\<lambda>s _. Append8 ?rb s 0) ((xtime ^^ k) 1) xs = Inr ((xtime ^^ (k + 8 * length xs)) 1)" for k and xs :: "nat list"
  proof (induction xs arbitrary: k)
    case Nil
    then show ?case by simp
  next
    case (Cons x xs)
    have "residue ((xtime ^^ k) 1)" by (rule xtime_pow_residue) (simp add: bit_1_iff)
    from Append8_ref(1) [OF tab this, of 0]
    have "Append8 ?rb ((xtime ^^ k) 1) 0 = Inr ((xtime ^^ (k + 8)) 1)"
      by (simp add: append_ref_def add.commute [of k] funpow_add del: funpow.simps)
    with Cons [of "k + 8"] show ?case by (simp add: algebra_simps)
  qed
  let ?s = "(xtime ^^ (8 * (w - 1))) 1"
  let ?rb' = "?rb \<lparr> U_tab := map (\<lambda>i. polymmult (of_nat i) ?s poly63) [0..<256] \<rparr>"
  have "RabinFPUtil w = Inr ?rb'"
    using loop [of 0 "[1..<w]"] T1 fls64_poly63 by (simp add: RabinFPUtil_def Let_def poly63_def del: upt_rec_numeral)
  moreover have "rabin_ok w ?rb'"
  proof -
    have "polymmult (of_nat (unat b)) ?s poly63 = (xtime ^^ (8 * (w - 1))) (ucast b)" for b :: byte
      unfolding of_nat_unat by (rule U_entry)
    moreover have "unat b < 256" for b :: byte using unat_lt [of b] by simp
    ultimately show ?thesis using tab by (simp add: rabin_ok_def tab_ok_def del: upt_rec_numeral)
  qed
  ultimately show thesis by (rule that)
qed

subsection \<open>The rolling fingerprint\<close>

text \<open>The bytes in the window of a context, the oldest first.\<close>

definition next_pos :: "rabin_util \<Rightarrow> rabin_ctx \<Rightarrow> nat" where
  "next_pos rb ctx = (if window_size rb \<le> unat (cur_pos ctx + 1) then 0 else unat (cur_pos ctx + 1))"

definition ctx_window :: "rabin_util \<Rightarrow> rabin_ctx \<Rightarrow> bytes" where
  "ctx_window rb ctx = drop (next_pos rb ctx) (circ_buf ctx) @ take (next_pos rb ctx) (circ_buf ctx)"

definition ctx_inv :: "rabin_util \<Rightarrow> rabin_ctx \<Rightarrow> bool" where
  "ctx_inv rb ctx \<longleftrightarrow> length (circ_buf ctx) = window_size rb \<and> ctx_fp ctx = rabin_ref (ctx_window rb ctx)"

lemma ResetCtx_inv:
  assumes "length (circ_buf ctx) = window_size rb"
  shows "ctx_inv rb (ResetCtx rb ctx)" "ctx_window rb (ResetCtx rb ctx) = replicate (window_size rb) 0"
  using assms by (simp_all add: ctx_inv_def ctx_window_def ResetCtx_def next_pos_def rabin_ref_zeros)

lemma SlideOneByte_inv:
  assumes rb: "rabin_ok w rb" and w: "0 < w" "w < 2 ^ 32" and inv: "ctx_inv rb ctx"
  obtains ctx' where "SlideOneByte rb ctx b = Inr ctx'" "ctx_inv rb ctx'"
    "ctx_window rb ctx' = tl (ctx_window rb ctx) @ [b]"
proof -
  let ?p = "next_pos rb ctx" and ?buf = "circ_buf ctx"
  have win: "window_size rb = w" "length ?buf = w" using rb inv by (simp_all add: rabin_ok_def ctx_inv_def)
  have p: "?p < w" using w win by (simp add: next_pos_def)
  let ?om = "?buf ! ?p"
  have split: "ctx_window rb ctx = ?om # (drop (Suc ?p) ?buf @ take ?p ?buf)"
    using p win by (simp add: ctx_window_def Cons_nth_drop_Suc [symmetric])
  let ?rest = "drop (Suc ?p) ?buf @ take ?p ?buf"
  have len: "length ?rest = w - 1" using p win by simp
  have U: "U_tab rb ! unat ?om = (xtime ^^ (8 * (w - 1))) (ucast ?om)" using rb by (simp add: rabin_ok_def)
  have fp: "ctx_fp ctx XOR U_tab rb ! unat ?om = rabin_ref ?rest"
  proof -
    have "ctx_fp ctx = U_tab rb ! unat ?om XOR rabin_ref ?rest"
      using inv rabin_ref_Cons [of ?om ?rest] unfolding U ctx_inv_def split len by (simp del: append_assoc length_append)
    then show ?thesis by (simp only: xor_swap xor_self_eq xor.left_neutral)
  qed
  have app: "Append8 rb (rabin_ref ?rest) b = Inr (rabin_ref (?rest @ [b]))"
    using Append8_ref(1) [of rb "rabin_ref ?rest" b] rb rabin_ref_residue by (simp add: rabin_ok_def rabin_ref_snoc del: append_assoc)
  let ?pos = "if window_size rb \<le> unat (cur_pos ctx + 1) then 0 else cur_pos ctx + 1"
  let ?ctx = "ctx \<lparr> cur_pos := ?pos, circ_buf := ?buf[?p := b], ctx_fp := rabin_ref (?rest @ [b]) \<rparr>"
  have pos: "unat ?pos = ?p" by (simp add: next_pos_def)
  have "unat ?om < length (U_tab rb)" using rb unat_lt [of ?om] by (simp add: rabin_ok_def)
  then have step: "SlideOneByte rb ctx b = Inr ?ctx"
    using p win pos app fp unfolding SlideOneByte_def Let_def by (simp add: bindR_def)
  have next_p: "next_pos rb ?ctx = (if w = Suc ?p then 0 else Suc ?p)"
  proof -
    have "unat (?pos + 1) = Suc ?p"
      using p w pos by (simp add: unat_word_ariths take_bit_eq_mod)
    then show ?thesis using p win by (auto simp: next_pos_def)
  qed
  have win': "ctx_window rb ?ctx = ?rest @ [b]"
    using p win next_p by (auto simp: ctx_window_def upd_conv_take_nth_drop)
  show thesis
  proof (rule that [OF step])
    show "ctx_inv rb ?ctx" using win win' by (simp add: ctx_inv_def)
    show "ctx_window rb ?ctx = tl (ctx_window rb ctx) @ [b]" using win' split by simp
  qed
qed

lemma SlideOneByte_run:
  assumes "rabin_ok w rb" "0 < w" "w < 2 ^ 32" "ctx_inv rb ctx"
  shows "\<exists>ctx'. foldR (SlideOneByte rb) ctx bs = Inr ctx' \<and> ctx_inv rb ctx' \<and>
    ctx_window rb ctx' = drop (length bs) (ctx_window rb ctx @ bs)"
  using assms(4)
proof (induction bs arbitrary: ctx)
  case Nil
  then show ?case by simp
next
  case (Cons b bs)
  obtain c1 where c1: "SlideOneByte rb ctx b = Inr c1" "ctx_inv rb c1" "ctx_window rb c1 = tl (ctx_window rb ctx) @ [b]"
    by (rule SlideOneByte_inv [OF assms(1-3) Cons.prems])
  have "ctx_window rb ctx \<noteq> []"
    using Cons.prems assms(1,2) by (auto simp: ctx_window_def ctx_inv_def rabin_ok_def)
  with c1 Cons.IH [OF c1(2)] show ?case by (cases "ctx_window rb ctx") auto
qed

text \<open>
  C24. The rolling fingerprint is the fingerprint of the window. For every window size that fits
  the position counter the tables are built without an access out of bounds; after a reset, feeding
  any bytes never leaves the tables or the buffer, and the fingerprint is at each point that of
  the last bytes alone (with zeros in front of the first), computed by shift and subtract without any
  table: what left the window, and where in the ring buffer the window lies, have no influence.
\<close>

theorem SlideOneByte_window:
  assumes "0 < w" "w < 2 ^ 32"
  shows "\<exists>rb. RabinFPUtil w = Inr rb \<and>
    (\<forall>ctx bs. length (circ_buf ctx) = w \<longrightarrow>
       (\<exists>ctx'. foldR (SlideOneByte rb) (ResetCtx rb ctx) bs = Inr ctx' \<and>
          ctx_fp ctx' = rabin_ref (drop (length bs) (replicate w 0 @ bs))))"
proof -
  obtain rb where rb: "RabinFPUtil w = Inr rb" "rabin_ok w rb" by (rule RabinFPUtil_ok [OF assms(1)])
  have w: "window_size rb = w" using rb(2) by (simp add: rabin_ok_def)
  have "\<exists>ctx'. foldR (SlideOneByte rb) (ResetCtx rb ctx) bs = Inr ctx' \<and>
      ctx_fp ctx' = rabin_ref (drop (length bs) (replicate w 0 @ bs))" if "length (circ_buf ctx) = w" for ctx bs
    using SlideOneByte_run [OF rb(2) assms, of "ResetCtx rb ctx" bs] ResetCtx_inv [of ctx rb] that w
    by (auto simp: ctx_inv_def)
  with rb(1) show ?thesis by blast
qed

theorem SlideOneByte_window_witness:
  "\<exists>rb ctx'. RabinFPUtil 48 = Inr rb \<and> foldR (SlideOneByte rb) (ResetCtx rb (NewCtx rb)) (replicate 60 1) = Inr ctx' \<and>
    ctx_fp ctx' = rabin_ref (replicate 48 1)"
proof -
  obtain rb where rb: "RabinFPUtil 48 = Inr rb" "rabin_ok 48 rb" using RabinFPUtil_ok [of 48] by auto
  then have "length (circ_buf (NewCtx rb)) = 48" by (simp add: NewCtx_def rabin_ok_def)
  moreover have "\<forall>ctx bs. length (circ_buf ctx) = 48 \<longrightarrow> (\<exists>ctx'. foldR (SlideOneByte rb) (ResetCtx rb ctx) bs = Inr ctx' \<and>
      ctx_fp ctx' = rabin_ref (drop (length bs) (replicate 48 0 @ bs)))"
    using SlideOneByte_window [of 48] rb(1) by auto
  ultimately obtain ctx' where "foldR (SlideOneByte rb) (ResetCtx rb (NewCtx rb)) (replicate 60 1) = Inr ctx'"
    "ctx_fp ctx' = rabin_ref (drop (length (replicate 60 (1 :: byte))) (replicate 48 0 @ replicate 60 1))"
    by blast
  with rb(1) show ?thesis by simp
qed

end
