(* ===== verification/XXHash64.thy ===== *)
theory XXHash64
  imports Prelude
begin

text \<open>
  The hash of \<open>include/chunker/xxhash64.h\<close>, class \<open>XXHash64\<close>: the state of four words, the buffer for
  up to 31 bytes that do not fill a block, and the total length; \<open>add\<close> takes bytes in pieces of any
  size, \<open>hash\<close> finishes. The main result is that the pieces do not matter.
\<close>

unbundle bit_operations_syntax

subsection \<open>The class\<close>

definition Prime1 :: u64 where "Prime1 = 11400714785074694791"
definition Prime2 :: u64 where "Prime2 = 14029467366897019727"
definition Prime3 :: u64 where "Prime3 = 1609587929392839161"
definition Prime4 :: u64 where "Prime4 = 9650029242287828579"
definition Prime5 :: u64 where "Prime5 = 2870177450012600261"

definition MaxBufferSize :: nat where "MaxBufferSize = 31 + 1"

type_synonym xx_state = "u64 \<times> u64 \<times> u64 \<times> u64"

record xxhash =
  xx_state :: xx_state
  xx_buffer :: bytes
  xx_total :: u64

definition rotateLeft :: "u64 \<Rightarrow> nat \<Rightarrow> u64" where
  "rotateLeft x bits = push_bit bits x OR drop_bit (64 - bits) x"

definition processSingle :: "u64 \<Rightarrow> u64 \<Rightarrow> u64" where
  "processSingle previous input = rotateLeft (previous + input * Prime2) 31 * Prime1"

definition word_at :: "bytes \<Rightarrow> nat \<Rightarrow> u64" where
  \<comment> \<open>\<open>block[i]\<close> of a pointer to 64-bit words\<close>
  "word_at data i = le_u64 (take 8 (drop (8 * i) data))"

definition xx_process :: "bytes \<Rightarrow> xx_state \<Rightarrow> xx_state" where
  "xx_process data s =
    (case s of (s0, s1, s2, s3) \<Rightarrow>
       (processSingle s0 (word_at data 0), processSingle s1 (word_at data 1),
        processSingle s2 (word_at data 2), processSingle s3 (word_at data 3)))"

definition XXHash64 :: "u64 \<Rightarrow> xxhash" where
  "XXHash64 seed =
    \<lparr> xx_state = (seed + Prime1 + Prime2, seed + Prime2, seed, seed - Prime1), xx_buffer = [], xx_total = 0 \<rparr>"

function xx_blocks :: "xx_state \<Rightarrow> bytes \<Rightarrow> xx_state \<times> bytes" where
  \<comment> \<open>the loop over whole blocks; the second component is what the loop leaves\<close>
  "xx_blocks s data =
    (if MaxBufferSize \<le> length data
     then xx_blocks (xx_process (take MaxBufferSize data) s) (drop MaxBufferSize data) else (s, data))"
  by pat_completeness auto
termination
  by (relation "measure (\<lambda>(_, data). length data)") (simp_all add: MaxBufferSize_def)

declare xx_blocks.simps [simp del]

definition xx_add :: "xxhash \<Rightarrow> bytes \<Rightarrow> xxhash \<times> bool" where
  "xx_add h input =
    (if length input = 0 then (h, False)
     else
       let h = h \<lparr> xx_total := xx_total h + of_nat (length input) \<rparr>
       in if length (xx_buffer h) + length input < MaxBufferSize then (h \<lparr> xx_buffer := xx_buffer h @ input \<rparr>, True)
          else
            let (h, data) =
                  (if 0 < length (xx_buffer h) then
                     let n = MaxBufferSize - length (xx_buffer h)
                     in (h \<lparr> xx_state := xx_process (xx_buffer h @ take n input) (xx_state h) \<rparr>, drop n input)
                   else (h, input));
                (s, rest) = xx_blocks (xx_state h) data
            in (h \<lparr> xx_state := s, xx_buffer := rest \<rparr>, True))"

text \<open>The bytes of the buffer: words of eight bytes, one of four, single bytes.\<close>

fun hash_8 :: "u64 \<Rightarrow> bytes \<Rightarrow> u64 \<times> bytes" where
  "hash_8 result (b0 # b1 # b2 # b3 # b4 # b5 # b6 # b7 # data) =
     hash_8 (rotateLeft (result XOR processSingle 0 (le_u64 [b0, b1, b2, b3, b4, b5, b6, b7])) 27 * Prime1 + Prime4) data"
| "hash_8 result data = (result, data)"

definition hash_4 :: "u64 \<times> bytes \<Rightarrow> u64 \<times> bytes" where
  "hash_4 rd =
    (case rd of (result, data) \<Rightarrow>
       if 4 \<le> length data then
         (rotateLeft (result XOR ucast (le_u32 (take 4 data)) * Prime1) 23 * Prime2 + Prime3, drop 4 data)
       else (result, data))"

definition hash_1 :: "u64 \<Rightarrow> byte \<Rightarrow> u64" where
  "hash_1 result b = rotateLeft (result XOR ucast b * Prime5) 11 * Prime1"

definition merge_round :: "u64 \<Rightarrow> u64 \<Rightarrow> u64" where
  "merge_round result s = (result XOR processSingle 0 s) * Prime1 + Prime4"

definition xx_mix :: "u64 \<Rightarrow> u64" where
  "xx_mix result =
    (let result = result XOR drop_bit 33 result;
         result = result * Prime2;
         result = result XOR drop_bit 29 result;
         result = result * Prime3
     in result XOR drop_bit 32 result)"

definition xx_hash :: "xxhash \<Rightarrow> u64" where
  "xx_hash h =
    (case xx_state h of (s0, s1, s2, s3) \<Rightarrow>
       let result =
             (if MaxBufferSize \<le> unat (xx_total h) then
                foldl merge_round (rotateLeft s0 1 + rotateLeft s1 7 + rotateLeft s2 12 + rotateLeft s3 18) [s0, s1, s2, s3]
              else s2 + Prime5) + xx_total h;
           (result, data) = hash_4 (hash_8 result (xx_buffer h))
       in xx_mix (foldl hash_1 result data))"

definition XXHash64_hash :: "bytes \<Rightarrow> u64 \<Rightarrow> u64" where
  \<comment> \<open>the static function\<close>
  "XXHash64_hash input seed = xx_hash (fst (xx_add (XXHash64 seed) input))"

subsection \<open>Adding in pieces\<close>

lemma xx_blocks_short: "length data < MaxBufferSize \<Longrightarrow> xx_blocks s data = (s, data)"
  by (subst xx_blocks.simps) simp

lemma xx_blocks_full:
  "length block = MaxBufferSize \<Longrightarrow> xx_blocks s (block @ data) = xx_blocks (xx_process block s) data"
  by (subst xx_blocks.simps) simp

lemma xx_blocks_rest: "length (snd (xx_blocks s data)) < MaxBufferSize"
proof (induction s data rule: xx_blocks.induct)
  case (1 s data)
  then show ?case by (subst xx_blocks.simps) simp
qed

lemma xx_blocks_append:
  "xx_blocks s (xs @ ys) = xx_blocks (fst (xx_blocks s xs)) (snd (xx_blocks s xs) @ ys)"
proof (induction s xs rule: xx_blocks.induct)
  case (1 s xs)
  show ?case
  proof (cases "MaxBufferSize \<le> length xs")
    case True
    have e: "xx_blocks s xs = xx_blocks (xx_process (take MaxBufferSize xs) s) (drop MaxBufferSize xs)"
      using True by (subst xx_blocks.simps) simp
    have "xx_blocks s (xs @ ys) = xx_blocks s (take MaxBufferSize xs @ (drop MaxBufferSize xs @ ys))"
      by (simp only: append_assoc [symmetric] append_take_drop_id)
    also have "\<dots> = xx_blocks (xx_process (take MaxBufferSize xs) s) (drop MaxBufferSize xs @ ys)"
      using True by (intro xx_blocks_full) simp
    also have "\<dots> = xx_blocks (fst (xx_blocks s xs)) (snd (xx_blocks s xs) @ ys)"
      unfolding e by (rule 1 [OF True])
    finally show ?thesis .
  qed (simp add: xx_blocks_short)
qed

text \<open>The state after a string of bytes, whatever its pieces were.\<close>

definition absorbed :: "u64 \<Rightarrow> bytes \<Rightarrow> xxhash" where
  "absorbed seed bs =
    (case xx_blocks (xx_state (XXHash64 seed)) bs of (s, rest) \<Rightarrow>
       \<lparr> xx_state = s, xx_buffer = rest, xx_total = of_nat (length bs) \<rparr>)"

lemma absorbed_Nil: "XXHash64 seed = absorbed seed []"
  by (simp add: absorbed_def XXHash64_def xx_blocks_short MaxBufferSize_def)

lemma xx_add_absorbed: "fst (xx_add (absorbed seed xs) ys) = absorbed seed (xs @ ys)"
proof -
  obtain s r where sr: "xx_blocks (xx_state (XXHash64 seed)) xs = (s, r)" by fastforce
  have r: "length r < MaxBufferSize" using xx_blocks_rest [of "xx_state (XXHash64 seed)" xs] sr by simp
  have app: "xx_blocks (xx_state (XXHash64 seed)) (xs @ ys) = xx_blocks s (r @ ys)"
    by (subst xx_blocks_append) (simp add: sr)
  consider (none) "ys = []" | (fits) "ys \<noteq> []" "length r + length ys < MaxBufferSize"
    | (blocks) "ys \<noteq> []" "MaxBufferSize \<le> length r + length ys" by linarith
  then show ?thesis
  proof cases
    case none
    then show ?thesis by (simp add: xx_add_def)
  next
    case fits
    with sr app show ?thesis by (simp add: xx_add_def absorbed_def xx_blocks_short Let_def)
  next
    case blocks
    let ?n = "MaxBufferSize - length r"
    have "xx_blocks s (r @ ys) = xx_blocks s ((r @ take ?n ys) @ drop ?n ys)" by simp
    also have "\<dots> = xx_blocks (xx_process (r @ take ?n ys) s) (drop ?n ys)"
      using blocks r by (intro xx_blocks_full) simp
    finally have "xx_blocks s (r @ ys) = xx_blocks (xx_process (r @ take ?n ys) s) (drop ?n ys)" .
    with blocks sr app show ?thesis
      by (cases "r = []") (simp_all add: xx_add_def absorbed_def Let_def split: prod.splits)
  qed
qed

text \<open>
  C32. The hash does not depend on the pieces in which the bytes are added: adding any list of
  strings one after the other, empty ones included, gives the hash of their concatenation at once.
\<close>

theorem XXHash64_pieces:
  "xx_hash (foldl (\<lambda>h p. fst (xx_add h p)) (XXHash64 seed) ps) = XXHash64_hash (concat ps) seed"
proof -
  have "foldl (\<lambda>h p. fst (xx_add h p)) (absorbed seed xs) ps = absorbed seed (xs @ concat ps)" for xs
    by (induction ps arbitrary: xs) (simp_all add: xx_add_absorbed)
  from this [of "[]"] show ?thesis
    using xx_add_absorbed [of seed "[]" "concat ps"] by (simp add: XXHash64_hash_def absorbed_Nil)
qed

end
