(* ===== verification/Finesse.thy ===== *)
theory Finesse
  imports Data_Types Rabin_Poly XXHash64
begin

text \<open>
  Super-features of a chunk: \<open>src/chunker/finesse_util.cc\<close>. A chunk is cut into sub-chunks; the
  feature of a sub-chunk is the largest Rabin fingerprint of a window in it; the features are
  grouped, each group is sorted, and a super-feature hashes the features of one rank in all groups.
  The main result is the reason for the sorting: the order of the sub-chunks within a group does
  not matter.
\<close>

subsection \<open>The utility\<close>

record finesse_util =
  super_feature_per_chunk :: nat
  feature_per_chunk :: nat
  feature_per_super_feature :: nat
  fu_rabin :: rabin_util

definition FinesseUtil :: "nat \<Rightarrow> nat \<Rightarrow> nat \<Rightarrow> nat \<Rightarrow> finesse_util result" where
  "FinesseUtil sf f fsf win_size =
    bindR (RabinFPUtil win_size) (\<lambda>rb.
      Inr \<lparr> super_feature_per_chunk = sf, feature_per_chunk = f, feature_per_super_feature = fsf, fu_rabin = rb \<rparr>)"

definition max_step :: "rabin_util \<Rightarrow> bytes \<Rightarrow> nat \<Rightarrow> rabin_ctx \<times> u64 \<Rightarrow> nat \<Rightarrow> (rabin_ctx \<times> u64) result" where
  "max_step rb data sub_chunk_start s j =
    (case s of (ctx, max_rabin_fp) \<Rightarrow>
       bindR (mem_read data (sub_chunk_start + j) 1) (\<lambda>d.
       bindR (SlideOneByte rb ctx (hd d)) (\<lambda>ctx.
         Inr (ctx, if max_rabin_fp < ctx_fp ctx then ctx_fp ctx else max_rabin_fp))))"

type_synonym sub_state = "rabin_ctx \<times> u64 list list \<times> nat \<times> nat"

definition sub_step :: "finesse_util \<Rightarrow> bytes \<Rightarrow> nat \<Rightarrow> nat \<Rightarrow> sub_state \<Rightarrow> nat \<Rightarrow> sub_state result" where
  "sub_step fu data sub_chunk_size last_chunk_size s i =
    (case s of (ctx, groups, cur_group_id, cur_group_offset) \<Rightarrow>
       let running_limit = (if i = feature_per_chunk fu - 1 then last_chunk_size else sub_chunk_size)
       in bindR (foldR (max_step (fu_rabin fu) data (i * sub_chunk_size)) (ctx, 0) [0..<running_limit])
            (\<lambda>(ctx, max_rabin_fp).
              if cur_group_id < length groups \<and> cur_group_offset < length (groups ! cur_group_id) then
                let groups = groups[cur_group_id := (groups ! cur_group_id)[cur_group_offset := max_rabin_fp]];
                    cur_group_offset = cur_group_offset + 1;
                    (cur_group_id, cur_group_offset) =
                      (if cur_group_offset = super_feature_per_chunk fu then (cur_group_id + 1, 0)
                       else (cur_group_id, cur_group_offset))
                in Inr (ResetCtx (fu_rabin fu) ctx, groups, cur_group_id, cur_group_offset)
              else Inl OutOfBounds))"

definition ExtractFeature :: "finesse_util \<Rightarrow> rabin_ctx \<Rightarrow> bytes \<Rightarrow> (rabin_ctx \<times> u64 list) result" where
  "ExtractFeature fu ctx data =
    (let ctx = ResetCtx (fu_rabin fu) ctx;
         sub_chunk_size = length data div feature_per_chunk fu;
         last_chunk_size = sub_chunk_size + length data mod feature_per_chunk fu;
         groups = replicate (feature_per_super_feature fu) (replicate (super_feature_per_chunk fu) 0)
     in bindR (foldR (sub_step fu data sub_chunk_size last_chunk_size) (ctx, groups, 0, 0) [0..<feature_per_chunk fu])
          (\<lambda>(ctx, groups, _, _).
            let ctx = ResetCtx (fu_rabin fu) ctx;
                groups = map (\<lambda>g. rev (sort g)) groups;
                super_features = map (\<lambda>i. map (\<lambda>j. groups ! j ! i) [0..<feature_per_super_feature fu])
                                   [0..<super_feature_per_chunk fu]
            in Inr (ctx, map (\<lambda>s. XXHash64_hash (concat (map u64_le s)) 0) super_features)))"

subsection \<open>Sub-chunks and their features\<close>

definition sub_limit :: "nat \<Rightarrow> bytes \<Rightarrow> nat \<Rightarrow> nat" where
  "sub_limit n data i = (if i = n - 1 then length data div n + length data mod n else length data div n)"

definition sub_chunk :: "nat \<Rightarrow> bytes \<Rightarrow> nat \<Rightarrow> bytes" where
  "sub_chunk n data i = take (sub_limit n data i) (drop (i * (length data div n)) data)"

definition sub_chunks :: "nat \<Rightarrow> bytes \<Rightarrow> bytes list" where
  "sub_chunks n data = map (sub_chunk n data) [0..<n]"

lemma sub_limit_last:
  assumes "0 < n"
  shows "(n - 1) * (length data div n) + sub_limit n data (n - 1) = length data"
proof -
  let ?q = "length data div n" and ?r = "length data mod n"
  have "n * ?q + ?r = length data" by simp
  moreover have "(n - 1) * ?q + ?q = n * ?q" using assms by (cases n) simp_all
  moreover have "sub_limit n data (n - 1) = ?q + ?r" by (simp add: sub_limit_def)
  ultimately show ?thesis by linarith
qed

lemma sub_limit_fits:
  assumes "i < n"
  shows "i * (length data div n) + sub_limit n data i \<le> length data"
proof (cases "i = n - 1")
  case True
  with sub_limit_last [of n data] assms show ?thesis by simp
next
  case False
  let ?q = "length data div n"
  have "i * ?q + ?q = (i + 1) * ?q" by simp
  also have "\<dots> \<le> n * ?q" by (rule mult_le_mono1) (use assms in simp)
  also have "\<dots> \<le> length data" by simp
  finally show ?thesis using False by (simp add: sub_limit_def)
qed

lemma concat_sub_chunks: "0 < n \<Longrightarrow> concat (sub_chunks n data) = data"
proof -
  assume n: "0 < n"
  let ?q = "length data div n"
  have "concat (map (sub_chunk n data) [0..<k]) = take (k * ?q) data" if "k \<le> n - 1" for k
    using that
  proof (induction k)
    case 0
    then show ?case by simp
  next
    case (Suc k)
    then show ?case by (simp add: sub_chunk_def sub_limit_def take_add [symmetric] add.commute)
  qed
  moreover have "[0..<n] = [0..<n - 1] @ [n - 1]" using n by (metis Suc_diff_1 le0 upt_Suc_append)
  moreover have "sub_chunk n data (n - 1) = drop ((n - 1) * ?q) data"
    unfolding sub_chunk_def using sub_limit_last [OF n, of data] by (intro take_all) simp
  ultimately show ?thesis by (simp add: sub_chunks_def)
qed

definition window_fp :: "nat \<Rightarrow> bytes \<Rightarrow> u64" where
  "window_fp w bs = rabin_ref (drop (length bs) (replicate w 0 @ bs))"

definition sub_feature :: "nat \<Rightarrow> bytes \<Rightarrow> u64" where
  "sub_feature w bs = foldl max 0 (map (\<lambda>n. window_fp w (take (Suc n) bs)) [0..<length bs])"

lemma sub_feature_snoc: "sub_feature w (bs @ [b]) = max (sub_feature w bs) (window_fp w (bs @ [b]))"
proof -
  have eq: "map (\<lambda>n. window_fp w (take (Suc n) (bs @ [b]))) [0..<length bs] = map (\<lambda>n. window_fp w (take (Suc n) bs)) [0..<length bs]"
    by (rule map_cong) auto
  show ?thesis by (simp add: sub_feature_def eq del: take_append)
qed

lemma max_loop:
  assumes rb: "rabin_ok w rb" and w: "0 < w" "w < 2 ^ 32" and ctx: "length (circ_buf ctx) = w"
    and fits: "start + n \<le> length data"
  shows "\<exists>c. foldR (max_step rb data start) (ResetCtx rb ctx, 0) [0..<n] = Inr (c, sub_feature w (take n (drop start data))) \<and>
    ctx_inv rb c \<and> ctx_window rb c = drop n (replicate w 0 @ take n (drop start data))"
  using fits
proof (induction n)
  case 0
  have "window_size rb = w" using rb by (simp add: rabin_ok_def)
  with ResetCtx_inv [of ctx rb] ctx show ?case by (simp add: sub_feature_def)
next
  case (Suc n)
  let ?bs = "take n (drop start data)" and ?b = "data ! (start + n)"
  have snoc: "take (Suc n) (drop start data) = ?bs @ [?b]" using Suc.prems by (simp add: take_Suc_conv_app_nth)
  have len: "length ?bs = n" using Suc.prems by simp
  obtain c where c: "foldR (max_step rb data start) (ResetCtx rb ctx, 0) [0..<n] = Inr (c, sub_feature w ?bs)"
      "ctx_inv rb c" "ctx_window rb c = drop n (replicate w 0 @ ?bs)" using Suc by auto
  obtain c' where c': "SlideOneByte rb c ?b = Inr c'" "ctx_inv rb c'" "ctx_window rb c' = tl (ctx_window rb c) @ [?b]"
    by (rule SlideOneByte_inv [OF rb w c(2)])
  have win: "ctx_window rb c' = drop (Suc n) (replicate w 0 @ ?bs @ [?b])"
  proof -
    have "drop (Suc n) ((replicate w 0 @ ?bs) @ [?b]) = drop (Suc n) (replicate w 0 @ ?bs) @ [?b]"
      using len w(1) by (subst drop_append) simp
    then show ?thesis unfolding c'(3) c(3) by (simp only: tl_drop drop_Suc append_assoc)
  qed
  have fp: "ctx_fp c' = window_fp w (?bs @ [?b])"
    using c'(2) win len by (simp add: ctx_inv_def window_fp_def)
  have rd: "mem_read data (start + n) 1 = Inr [?b]"
    using Suc.prems by (simp add: mem_read_def take_Suc_conv_app_nth)
  have "max_step rb data start (c, sub_feature w ?bs) n = Inr (c', max (sub_feature w ?bs) (ctx_fp c'))"
    using rd c'(1) by (auto simp: max_step_def max_def)
  then have "foldR (max_step rb data start) (ResetCtx rb ctx, 0) [0..<Suc n] =
      Inr (c', sub_feature w (?bs @ [?b]))"
    using c(1) fp by (simp add: foldR_append sub_feature_snoc)
  with c'(2) win snoc show ?case by simp
qed

subsection \<open>The table of features\<close>

text \<open>The table after the first \<open>n\<close> features, row by row.\<close>

definition table :: "nat \<Rightarrow> nat \<Rightarrow> (nat \<Rightarrow> u64) \<Rightarrow> nat \<Rightarrow> u64 list list" where
  "table rows cols f n = map (\<lambda>g. map (\<lambda>j. if g * cols + j < n then f (g * cols + j) else 0) [0..<cols]) [0..<rows]"

lemma table_0: "table rows cols f 0 = replicate rows (replicate cols 0)"
  by (simp add: table_def map_replicate_const)

lemma length_table [simp]: "length (table rows cols f n) = rows"
  by (simp add: table_def)

lemma cell_index:
  fixes g cols j n :: nat
  assumes "j < cols"
  shows "g * cols + j = n \<longleftrightarrow> g = n div cols \<and> j = n mod cols"
  using assms by auto

lemma table_Suc:
  assumes "0 < cols" "n < rows * cols"
  shows "(table rows cols f n)[n div cols := (table rows cols f n ! (n div cols))[n mod cols := f n]] = table rows cols f (Suc n)"
proof -
  have row: "n div cols < rows" using assms by (simp add: less_mult_imp_div_less)
  show ?thesis
  proof (rule nth_equalityI)
    fix g assume "g < length ((table rows cols f n)[n div cols := (table rows cols f n ! (n div cols))[n mod cols := f n]])"
    then have g: "g < rows" by simp
    have cell: "g * cols + j = n \<longleftrightarrow> g = n div cols \<and> j = n mod cols" if "j < cols" for j
      using that by (rule cell_index)
    show "(table rows cols f n)[n div cols := (table rows cols f n ! (n div cols))[n mod cols := f n]] ! g = table rows cols f (Suc n) ! g"
      using g row cell by (intro nth_equalityI) (auto simp: table_def nth_list_update less_Suc_eq)
  qed simp
qed

lemma next_cell:
  fixes n cols :: nat
  assumes "0 < cols"
  shows "(if n mod cols + 1 = cols then (n div cols + 1, 0) else (n div cols, n mod cols + 1)) = (Suc n div cols, Suc n mod cols)"
  using assms by (simp add: div_Suc mod_Suc)

lemma sub_loop:
  assumes rb: "rabin_ok w (fu_rabin fu)" and w: "0 < w" "w < 2 ^ 32" and ctx: "length (circ_buf ctx) = w"
    and cols: "0 < super_feature_per_chunk fu" and n: "n \<le> feature_per_chunk fu"
    and size: "feature_per_chunk fu \<le> feature_per_super_feature fu * super_feature_per_chunk fu"
  shows "\<exists>c. foldR (sub_step fu data (length data div feature_per_chunk fu)
                    (length data div feature_per_chunk fu + length data mod feature_per_chunk fu))
           (ResetCtx (fu_rabin fu) ctx,
            replicate (feature_per_super_feature fu) (replicate (super_feature_per_chunk fu) 0), 0, 0) [0..<n] =
      Inr (ResetCtx (fu_rabin fu) c,
           table (feature_per_super_feature fu) (super_feature_per_chunk fu)
             (\<lambda>i. sub_feature w (sub_chunk (feature_per_chunk fu) data i)) n,
           n div super_feature_per_chunk fu, n mod super_feature_per_chunk fu) \<and> length (circ_buf c) = w"
  using n
proof (induction n)
  case 0
  then show ?case using ctx by (auto simp: table_0)
next
  case (Suc n)
  let ?N = "feature_per_chunk fu" and ?cols = "super_feature_per_chunk fu" and ?rows = "feature_per_super_feature fu"
  let ?f = "\<lambda>i. sub_feature w (sub_chunk ?N data i)" and ?rb = "fu_rabin fu"
  let ?step = "sub_step fu data (length data div ?N) (length data div ?N + length data mod ?N)"
  have limit: "(if n = ?N - 1 then length data div ?N + length data mod ?N else length data div ?N) = sub_limit ?N data n"
    by (simp add: sub_limit_def)
  obtain c where c: "foldR ?step (ResetCtx ?rb ctx, replicate ?rows (replicate ?cols 0), 0, 0) [0..<n] =
      Inr (ResetCtx ?rb c, table ?rows ?cols ?f n, n div ?cols, n mod ?cols)" "length (circ_buf c) = w"
    using Suc by auto
  have "n * (length data div ?N) + sub_limit ?N data n \<le> length data" using Suc.prems by (intro sub_limit_fits) simp
  from max_loop [OF rb w c(2) this] obtain c' where c': "foldR (max_step ?rb data (n * (length data div ?N))) (ResetCtx ?rb c, 0)
      [0..<sub_limit ?N data n] = Inr (c', ?f n)" "ctx_inv ?rb c'"
    by (auto simp: sub_chunk_def)
  have len: "length (circ_buf c') = w" using c'(2) rb by (simp add: ctx_inv_def rabin_ok_def)
  have nn: "n < ?rows * ?cols" using Suc.prems size by simp
  then have row: "n div ?cols < ?rows" by (simp add: less_mult_imp_div_less)
  have col: "n mod ?cols < length (table ?rows ?cols ?f n ! (n div ?cols))" using row cols by (simp add: table_def)
  have "?step (ResetCtx ?rb c, table ?rows ?cols ?f n, n div ?cols, n mod ?cols) n =
      Inr (ResetCtx ?rb c', table ?rows ?cols ?f (Suc n), Suc n div ?cols, Suc n mod ?cols)"
    unfolding sub_step_def prod.case Let_def limit c'(1) bindR_Inr next_cell [OF cols]
    using row col table_Suc [OF cols nn, of ?f] by simp
  with c(1) len show ?case by (auto simp: foldR_append)
qed

subsection \<open>Features of a chunk\<close>

definition group_of :: "nat \<Rightarrow> nat \<Rightarrow> 'a list \<Rightarrow> 'a list" where
  "group_of cols g xs = take cols (drop (g * cols) xs)"

text \<open>Reference: rank \<open>i\<close> of every group, hashed.\<close>

definition rank_hashes :: "nat \<Rightarrow> nat \<Rightarrow> u64 list list \<Rightarrow> u64 list" where
  "rank_hashes cols rows groups =
    map (\<lambda>s. XXHash64_hash (concat (map u64_le s)) 0) (map (\<lambda>i. map (\<lambda>j. groups ! j ! i) [0..<rows]) [0..<cols])"

definition super_features_ref :: "nat \<Rightarrow> nat \<Rightarrow> nat \<Rightarrow> bytes list \<Rightarrow> u64 list" where
  "super_features_ref w cols rows subs =
    rank_hashes cols rows (map (\<lambda>g. rev (sort (map (sub_feature w) (group_of cols g subs)))) [0..<rows])"

lemma table_full:
  assumes "n = rows * cols"
  shows "table rows cols f n = map (\<lambda>g. map f (group_of cols g [0..<n])) [0..<rows]"
  unfolding table_def
proof (rule map_cong [OF refl])
  fix g assume "g \<in> set [0..<rows]"
  then have "(g + 1) * cols \<le> rows * cols" by (intro mult_le_mono1) simp
  then have le: "g * cols + cols \<le> n" using assms by simp
  then have "group_of cols g [0..<n] = [g * cols..<g * cols + cols]" by (simp add: group_of_def)
  then show "map (\<lambda>j. if g * cols + j < n then f (g * cols + j) else 0) [0..<cols] = map f (group_of cols g [0..<n])"
    using le by (intro nth_equalityI) auto
qed

lemma ExtractFeature_ref:
  assumes rb: "rabin_ok w (fu_rabin fu)" and w: "0 < w" "w < 2 ^ 32" and ctx: "length (circ_buf ctx) = w"
    and fu: "0 < super_feature_per_chunk fu"
      "feature_per_chunk fu = feature_per_super_feature fu * super_feature_per_chunk fu"
  shows "\<exists>c. ExtractFeature fu ctx data =
      Inr (ResetCtx (fu_rabin fu) c,
           super_features_ref w (super_feature_per_chunk fu) (feature_per_super_feature fu) (sub_chunks (feature_per_chunk fu) data))"
proof -
  let ?N = "feature_per_chunk fu" and ?cols = "super_feature_per_chunk fu" and ?rows = "feature_per_super_feature fu"
  let ?f = "\<lambda>i. sub_feature w (sub_chunk ?N data i)"
  from sub_loop [OF rb w ctx fu(1) order_refl, of data] fu(2) obtain c where
    c: "foldR (sub_step fu data (length data div ?N) (length data div ?N + length data mod ?N))
        (ResetCtx (fu_rabin fu) ctx, replicate ?rows (replicate ?cols 0), 0, 0) [0..<?N] =
      Inr (ResetCtx (fu_rabin fu) c, table ?rows ?cols ?f ?N, ?N div ?cols, ?N mod ?cols)" by auto
  have g: "map ?f (group_of ?cols g [0..<?N]) = map (sub_feature w) (group_of ?cols g (sub_chunks ?N data))" for g
    by (simp add: group_of_def sub_chunks_def take_map drop_map comp_def)
  have t: "map (\<lambda>g. rev (sort g)) (table ?rows ?cols ?f ?N) =
      map (\<lambda>g. rev (sort (map (sub_feature w) (group_of ?cols g (sub_chunks ?N data))))) [0..<?rows]"
    unfolding table_full [OF fu(2), of ?f] g by simp
  have "rank_hashes ?cols ?rows (map (\<lambda>g. rev (sort g)) (table ?rows ?cols ?f ?N)) =
      super_features_ref w ?cols ?rows (sub_chunks ?N data)"
    unfolding t super_features_ref_def ..
  with c show ?thesis unfolding ExtractFeature_def Let_def rank_hashes_def by auto
qed

lemma super_features_ref_mset:
  assumes "\<forall>g < rows. mset (group_of cols g xs) = mset (group_of cols g ys)"
  shows "super_features_ref w cols rows xs = super_features_ref w cols rows ys"
proof -
  have "sort (map (sub_feature w) (group_of cols g xs)) = sort (map (sub_feature w) (group_of cols g ys))" if "g < rows" for g
    using assms that by (intro properties_for_sort) simp_all
  then have "map (\<lambda>g. rev (sort (map (sub_feature w) (group_of cols g xs)))) [0..<rows] =
      map (\<lambda>g. rev (sort (map (sub_feature w) (group_of cols g ys)))) [0..<rows]" by simp
  then show ?thesis unfolding super_features_ref_def by (rule arg_cong)
qed

text \<open>
  C25. Resemblance. Feature extraction never leaves the chunk, the table of features, the window or
  the tables of the fingerprint; the features do not depend on what the context was used for before;
  and two chunks whose groups of sub-chunks agree up to the order within each group have the same
  super-features. The sub-chunks of a chunk concatenate to it, so no byte is left out.
\<close>

theorem ExtractFeature_resemblance:
  assumes "FinesseUtil sf (fsf * sf) fsf w = Inr fu" "0 < sf" "0 < fsf" "0 < w" "w < 2 ^ 32"
    and "length (circ_buf ctx) = w" "length (circ_buf ctx') = w"
    and "\<forall>g < fsf. mset (group_of sf g (sub_chunks (fsf * sf) data)) = mset (group_of sf g (sub_chunks (fsf * sf) data'))"
  shows "concat (sub_chunks (fsf * sf) data) = data \<and>
    (\<exists>c c' fs. ExtractFeature fu ctx data = Inr (c, fs) \<and> ExtractFeature fu ctx' data' = Inr (c', fs) \<and> length fs = sf)"
proof -
  obtain rb where rb: "RabinFPUtil w = Inr rb" "rabin_ok w rb" by (rule RabinFPUtil_ok [OF assms(4)])
  have fu: "fu = \<lparr> super_feature_per_chunk = sf, feature_per_chunk = fsf * sf, feature_per_super_feature = fsf, fu_rabin = rb \<rparr>"
    using assms(1) rb(1) by (simp add: FinesseUtil_def)
  have ref: "\<exists>c. ExtractFeature fu x d = Inr (c, super_features_ref w sf fsf (sub_chunks (fsf * sf) d))"
    if "length (circ_buf x) = w" for x d
    using ExtractFeature_ref [of w fu x d] rb(2) assms(2,4,5) that by (auto simp: fu)
  have "super_features_ref w sf fsf (sub_chunks (fsf * sf) data) = super_features_ref w sf fsf (sub_chunks (fsf * sf) data')"
    by (rule super_features_ref_mset [OF assms(8)])
  moreover have "length (super_features_ref w sf fsf (sub_chunks (fsf * sf) data)) = sf" by (simp add: super_features_ref_def rank_hashes_def)
  moreover have "concat (sub_chunks (fsf * sf) data) = data" using assms(2,3) by (intro concat_sub_chunks) simp
  ultimately show ?thesis using ref [OF assms(6), of data] ref [OF assms(7), of data'] by metis
qed

lemma sub_chunks_bytes:
  assumes "length data = n" "0 < n"
  shows "sub_chunks n data = map (\<lambda>b. [b]) data"
proof (rule nth_equalityI)
  fix i assume "i < length (sub_chunks n data)"
  then have i: "i < n" by (simp add: sub_chunks_def)
  have "sub_limit n data i = 1" using assms by (simp add: sub_limit_def)
  moreover have "take 1 (drop i data) = [data ! i]" using i assms by (simp add: take_Suc_conv_app_nth)
  ultimately show "sub_chunks n data ! i = map (\<lambda>b. [b]) data ! i"
    using i assms by (simp add: sub_chunks_def sub_chunk_def)
qed (use assms in \<open>simp add: sub_chunks_def\<close>)

theorem ExtractFeature_resemblance_witness:
  "\<exists>fu c c' fs. FinesseUtil 3 12 4 48 = Inr fu \<and>
     ExtractFeature fu (NewCtx (fu_rabin fu)) [1, 2, 3, 4, 5, 6, 7, 8, 9, 10, 11, 12] = Inr (c, fs) \<and>
     ExtractFeature fu (NewCtx (fu_rabin fu)) [3, 1, 2, 4, 5, 6, 9, 8, 7, 10, 12, 11] = Inr (c', fs)"
proof -
  obtain rb where rb: "RabinFPUtil 48 = Inr rb" "rabin_ok 48 rb" using RabinFPUtil_ok [of 48] by auto
  obtain fu where fu: "FinesseUtil 3 (4 * 3) 4 48 = Inr fu" "fu_rabin fu = rb" using rb(1) by (simp add: FinesseUtil_def)
  have "length (circ_buf (NewCtx rb)) = 48" using rb(2) by (simp add: NewCtx_def rabin_ok_def)
  moreover have "mset (group_of 3 g (sub_chunks (4 * 3) [1, 2, 3, 4, 5, 6, 7, 8, 9, 10, 11, 12 :: byte])) =
      mset (group_of 3 g (sub_chunks (4 * 3) [3, 1, 2, 4, 5, 6, 9, 8, 7, 10, 12, 11]))" if g: "g < 4" for g
  proof -
    consider (0) "g = 0" | (1) "g = 1" | (2) "g = 2" | (3) "g = 3" using g by linarith
    then show ?thesis by cases (simp_all add: sub_chunks_bytes group_of_def)
  qed
  ultimately show ?thesis
    using ExtractFeature_resemblance [OF fu(1), of "NewCtx rb" "NewCtx rb"
        "[1, 2, 3, 4, 5, 6, 7, 8, 9, 10, 11, 12]" "[3, 1, 2, 4, 5, 6, 9, 8, 7, 10, 12, 11]"] fu by auto
qed

end
