(* ===== verification/Rw_Queue.thy ===== *)
theory Rw_Queue
  imports Prelude
begin

text \<open>
  The lock-free queue behind every connection of two threads, \<open>include/message_queue/readerwriterqueue.h\<close>,
  as \<open>lck_free_mq.h\<close> uses it: a ring of blocks, each a ring buffer with one spare slot, with the
  shadow copies of the other side's index. \<open>try_enqueue\<close> never allocates. An operation is one step
  here; the interleaving of the two threads is in \<open>Msg_Queue\<close>. The main result is that the queue is
  a list: first in, first out, and it refuses an element only when it holds as many as it was made for.
\<close>

unbundle bit_operations_syntax

subsection \<open>Blocks\<close>

record 'a block =
  b_front :: nat
  b_localTail :: nat
  b_tail :: nat
  b_localFront :: nat
  b_data :: "'a option list"      \<comment> \<open>\<open>None\<close>: no object lives in the slot\<close>
  b_sizeMask :: nat

definition make_block :: "nat \<Rightarrow> 'a block" where
  "make_block capacity =
    \<lparr> b_front = 0, b_localTail = 0, b_tail = 0, b_localFront = 0, b_data = replicate capacity None,
      b_sizeMask = capacity - 1 \<rparr>"

record 'a rw_queue =
  q_blocks :: "'a block list"     \<comment> \<open>\<open>next\<close> of the last block is the first\<close>
  q_frontBlock :: nat
  q_tailBlock :: nat

definition MAX_BLOCK_SIZE :: nat where
  "MAX_BLOCK_SIZE = 512"

definition ceilToPow2 :: "u64 \<Rightarrow> u64" where
  "ceilToPow2 x =
    (let x = x - 1;
         x = x OR drop_bit 1 x;
         x = x OR drop_bit 2 x;
         x = x OR drop_bit 4 x;
         x = x OR drop_bit 8 x;
         x = x OR drop_bit 16 x;
         x = x OR drop_bit 32 x
     in x + 1)"

definition ReaderWriterQueue :: "nat \<Rightarrow> 'a rw_queue" where
  "ReaderWriterQueue n =
    (let largestBlockSize = unat (ceilToPow2 (of_nat (n + 1)))
     in \<lparr> q_blocks =
            (if MAX_BLOCK_SIZE * 2 < largestBlockSize
             then replicate ((n + MAX_BLOCK_SIZE * 2 - 3) div (MAX_BLOCK_SIZE - 1)) (make_block MAX_BLOCK_SIZE)
             else [make_block largestBlockSize]),
          q_frontBlock = 0, q_tailBlock = 0 \<rparr>)"

definition next_block :: "'a rw_queue \<Rightarrow> nat \<Rightarrow> nat" where
  "next_block q i = (if i + 1 = length (q_blocks q) then 0 else i + 1)"

subsection \<open>Operations\<close>

definition put_elem :: "'a block \<Rightarrow> 'a \<Rightarrow> 'a block" where
  \<comment> \<open>the element is constructed at the tail, then the tail is published\<close>
  "put_elem b x = b \<lparr> b_data := (b_data b)[b_tail b := Some x], b_tail := (b_tail b + 1) AND b_sizeMask b \<rparr>"

definition set_block :: "'a rw_queue \<Rightarrow> nat \<Rightarrow> 'a block \<Rightarrow> 'a rw_queue" where
  "set_block q i b = q \<lparr> q_blocks := (q_blocks q)[i := b] \<rparr>"

definition reload_front :: "'a block \<Rightarrow> 'a block" where
  \<comment> \<open>the second operand of the disjunction is evaluated, with its assignment, when the first is false\<close>
  "reload_front b =
    (if (b_tail b + 1) AND b_sizeMask b \<noteq> b_localFront b then b else b \<lparr> b_localFront := b_front b \<rparr>)"

definition enqueue_next :: "'a rw_queue \<Rightarrow> 'a \<Rightarrow> bool \<times> 'a rw_queue" where
  \<comment> \<open>the tail block is full: the next block, unless it is the front block\<close>
  "enqueue_next q x =
    (let i = next_block q (q_tailBlock q);
         n = q_blocks q ! i
     in if i \<noteq> q_frontBlock q then
          (True, set_block q i (put_elem (n \<lparr> b_localFront := b_front n \<rparr>) x) \<lparr> q_tailBlock := i \<rparr>)
        else (False, q))"

definition inner_enqueue :: "'a rw_queue \<Rightarrow> 'a \<Rightarrow> bool \<times> 'a rw_queue" where
  \<comment> \<open>with \<open>CannotAlloc\<close>\<close>
  "inner_enqueue q x =
    (let b = reload_front (q_blocks q ! q_tailBlock q)
     in if (b_tail b + 1) AND b_sizeMask b \<noteq> b_localFront b
        then (True, set_block q (q_tailBlock q) (put_elem b x))
        else enqueue_next (set_block q (q_tailBlock q) b) x)"

definition take_elem :: "'a block \<Rightarrow> ('a \<times> 'a block) result" where
  \<comment> \<open>the element at the front is moved out and destroyed, then the front is published\<close>
  "take_elem b =
    (case b_data b ! b_front b of
       None \<Rightarrow> Inl OutOfBounds
     | Some x \<Rightarrow> Inr (x, b \<lparr> b_data := (b_data b)[b_front b := None], b_front := (b_front b + 1) AND b_sizeMask b \<rparr>))"

definition reload_tail :: "'a block \<Rightarrow> 'a block" where
  "reload_tail b = (if b_front b \<noteq> b_localTail b then b else b \<lparr> b_localTail := b_tail b \<rparr>)"

definition dequeue_next :: "'a rw_queue \<Rightarrow> ('a option \<times> 'a rw_queue) result" where
  \<comment> \<open>the front block is empty: the next block, unless it is the tail block\<close>
  "dequeue_next q =
    (if q_frontBlock q \<noteq> q_tailBlock q then
       let i = next_block q (q_frontBlock q);
           n = q_blocks q ! i
       in bindR (take_elem (n \<lparr> b_localTail := b_tail n \<rparr>)) (\<lambda>(x, n).
            Inr (Some x, set_block q i n \<lparr> q_frontBlock := i \<rparr>))
     else Inr (None, q))"

definition try_dequeue :: "'a rw_queue \<Rightarrow> ('a option \<times> 'a rw_queue) result" where
  "try_dequeue q =
    (let b = reload_tail (q_blocks q ! q_frontBlock q)
     in if b_front b \<noteq> b_localTail b then
          bindR (take_elem b) (\<lambda>(x, b). Inr (Some x, set_block q (q_frontBlock q) b))
        else dequeue_next (set_block q (q_frontBlock q) b))"

definition size_approx :: "'a rw_queue \<Rightarrow> nat" where
  \<comment> \<open>along the ring from the front block; \<open>size_t\<close> wraps below zero by a multiple of the block size\<close>
  "size_approx q =
    sum_list (map (\<lambda>j. let block = q_blocks q ! ((q_frontBlock q + j) mod length (q_blocks q))
                       in (b_tail block + (b_sizeMask block + 1) - b_front block) AND b_sizeMask block)
              [0..<length (q_blocks q)])"

subsection \<open>Ring arithmetic\<close>

lemma mask_mod: "x AND (2 ^ k - 1) = x mod 2 ^ k" for x :: nat
  using take_bit_eq_mask [of k x] by (simp add: take_bit_eq_mod mask_eq_exp_minus_1)

lemma mod_diff_eq:
  fixes a b n :: nat
  assumes "a \<le> b" "b - a \<le> n" "0 < n"
  shows "b mod n = a mod n \<longleftrightarrow> b = a \<or> b = a + n"
proof
  assume "b mod n = a mod n"
  then have "n dvd b - a" using assms(1) by (metis mod_eq_dvd_iff_nat)
  then obtain k where k: "b - a = n * k" by (auto simp: dvd_def)
  then have "n * k \<le> n * 1" using assms(2) by simp
  then have "k = 0 \<or> k = 1" using assms(3) by auto
  with k assms(1) show "b = a \<or> b = a + n" by auto
qed auto

lemma mod_shift_inj:
  fixes a j k n :: nat
  assumes "j < n" "k < n"
  shows "(a + j) mod n = (a + k) mod n \<longleftrightarrow> j = k"
proof
  assume "(a + j) mod n = (a + k) mod n"
  then have "j mod n = k mod n" by (auto simp: nat_mod_eq_iff)
  with assms show "j = k" by simp
qed simp

subsection \<open>A block is a bounded list\<close>

text \<open>
  Ghost counters that do not wrap: \<open>F\<close> elements have left the block, \<open>F + length xs\<close> have entered;
  the shadow copies are earlier values of the counters.
\<close>

definition blk_rep :: "nat \<Rightarrow> 'a block \<Rightarrow> nat \<Rightarrow> 'a list \<Rightarrow> bool" where
  "blk_rep n b F xs \<longleftrightarrow>
     b_sizeMask b = n - 1 \<and> length (b_data b) = n \<and> length xs < n \<and>
     b_front b = F mod n \<and> b_tail b = (F + length xs) mod n \<and>
     (\<exists>LF \<le> F. b_localFront b = LF mod n \<and> F + length xs < LF + n) \<and>
     (\<exists>LT \<ge> F. b_localTail b = LT mod n \<and> LT \<le> F + length xs) \<and>
     (\<forall>k < length xs. b_data b ! ((F + k) mod n) = Some (xs ! k))"

definition pow2 :: "nat \<Rightarrow> bool" where
  "pow2 n \<longleftrightarrow> (\<exists>k > 0. n = 2 ^ k)"

lemma pow2_mask: "pow2 n \<Longrightarrow> x AND (n - 1) = x mod n"
  unfolding pow2_def using mask_mod by blast

lemma pow2_gt: "pow2 n \<Longrightarrow> 1 < n"
  using one_less_power [of "2 :: nat"] by (auto simp: pow2_def)

lemma make_block_rep: "pow2 n \<Longrightarrow> blk_rep n (make_block n) 0 []"
  using pow2_gt [of n] by (auto simp: blk_rep_def make_block_def intro!: exI [of _ 0])

lemma blk_full:
  assumes "pow2 n" "blk_rep n b F xs"
  shows "(b_tail b + 1) AND b_sizeMask b = b_front b \<longleftrightarrow> length xs = n - 1"
proof -
  have "(b_tail b + 1) AND b_sizeMask b = (F + length xs + 1) mod n"
    using assms pow2_mask [OF assms(1)] by (simp add: blk_rep_def mod_simps)
  moreover have "(F + length xs + 1) mod n = F mod n \<longleftrightarrow> F + length xs + 1 = F \<or> F + length xs + 1 = F + n"
    by (rule mod_diff_eq) (use assms pow2_gt [OF assms(1)] in \<open>auto simp: blk_rep_def\<close>)
  ultimately show ?thesis using assms by (auto simp: blk_rep_def)
qed

lemma blk_local_full:
  assumes "pow2 n" "blk_rep n b F xs" "length xs = n - 1"
  shows "(b_tail b + 1) AND b_sizeMask b = b_localFront b"
proof -
  obtain LF where LF: "LF \<le> F" "b_localFront b = LF mod n" "F + length xs < LF + n" using assms(2) by (auto simp: blk_rep_def)
  with assms(3) pow2_gt [OF assms(1)] have "LF = F" by simp
  with LF blk_full [OF assms(1,2)] assms show ?thesis by (simp add: blk_rep_def)
qed

lemma blk_local_front:
  assumes "blk_rep n b F xs"
  shows "blk_rep n (b \<lparr> b_localFront := b_front b \<rparr>) F xs"
  using assms by (auto simp: blk_rep_def)

lemma blk_local_tail:
  assumes "blk_rep n b F xs"
  shows "blk_rep n (b \<lparr> b_localTail := b_tail b \<rparr>) F xs"
proof -
  have "\<exists>LT \<ge> F. b_tail b = LT mod n \<and> LT \<le> F + length xs"
    by (rule exI [of _ "F + length xs"]) (use assms in \<open>simp add: blk_rep_def\<close>)
  with assms show ?thesis unfolding blk_rep_def by simp
qed

lemma blk_put:
  assumes p: "pow2 n" and b: "blk_rep n b F xs" and room: "length xs < n - 1"
    and lf: "(b_tail b + 1) AND b_sizeMask b \<noteq> b_localFront b"
  shows "blk_rep n (put_elem b x) F (xs @ [x])"
proof -
  have n: "1 < n" by (rule pow2_gt [OF p])
  have mask: "(b_tail b + 1) AND b_sizeMask b = (F + length xs + 1) mod n"
    using b pow2_mask [OF p] by (simp add: blk_rep_def mod_simps)
  obtain LF where LF: "LF \<le> F" "b_localFront b = LF mod n" "F + length xs < LF + n" using b by (auto simp: blk_rep_def)
  have "F + length xs + 1 \<noteq> LF + n" using lf mask LF(2) by auto
  then have LF': "F + length (xs @ [x]) < LF + n" using LF(3) by simp
  have data: "(b_data b)[(F + length xs) mod n := Some x] ! ((F + k) mod n) = Some ((xs @ [x]) ! k)" if "k < length (xs @ [x])" for k
  proof (cases "k = length xs")
    case True
    then show ?thesis using b n by (simp add: blk_rep_def)
  next
    case False
    then have k: "k < length xs" using that by simp
    then have "(F + k) mod n \<noteq> (F + length xs) mod n" using b by (simp add: blk_rep_def mod_shift_inj)
    with k b show ?thesis by (simp add: blk_rep_def nth_append)
  qed
  show ?thesis
    unfolding blk_rep_def
  proof (intro conjI)
    show "\<exists>LF \<le> F. b_localFront (put_elem b x) = LF mod n \<and> F + length (xs @ [x]) < LF + n"
      using LF LF' by (auto simp: put_elem_def)
    show "\<exists>LT \<ge> F. b_localTail (put_elem b x) = LT mod n \<and> LT \<le> F + length (xs @ [x])"
      using b by (auto simp: put_elem_def blk_rep_def)
    show "\<forall>k < length (xs @ [x]). b_data (put_elem b x) ! ((F + k) mod n) = Some ((xs @ [x]) ! k)"
      using data b by (simp add: put_elem_def blk_rep_def)
  qed (use b room mask in \<open>simp_all add: put_elem_def blk_rep_def\<close>)
qed

lemma blk_empty:
  assumes "pow2 n" "blk_rep n b F xs"
  shows "b_front b = b_tail b \<longleftrightarrow> xs = []" and "b_front b \<noteq> b_localTail b \<Longrightarrow> xs \<noteq> []"
proof -
  have "(F + length xs) mod n = (F + 0) mod n \<longleftrightarrow> length xs = 0"
    using assms pow2_gt [OF assms(1)] by (intro mod_shift_inj) (auto simp: blk_rep_def)
  then show "b_front b = b_tail b \<longleftrightarrow> xs = []" using assms by (auto simp: blk_rep_def)
  show "xs \<noteq> []" if "b_front b \<noteq> b_localTail b"
    using that assms by (auto simp: blk_rep_def)
qed

lemma blk_take:
  assumes p: "pow2 n" and b: "blk_rep n b F (x # xs)" and lt: "b_front b \<noteq> b_localTail b"
  obtains b' where "take_elem b = Inr (x, b')" "blk_rep n b' (F + 1) xs"
proof -
  have n: "1 < n" by (rule pow2_gt [OF p])
  have cell: "b_data b ! b_front b = Some x" using b by (force simp: blk_rep_def)
  let ?b = "b \<lparr> b_data := (b_data b)[b_front b := None], b_front := (b_front b + 1) AND b_sizeMask b \<rparr>"
  obtain LF where LF: "LF \<le> F" "b_localFront b = LF mod n" "F + length (x # xs) < LF + n" using b by (auto simp: blk_rep_def)
  obtain LT where LT: "F \<le> LT" "b_localTail b = LT mod n" "LT \<le> F + length (x # xs)" using b by (auto simp: blk_rep_def)
  have "LT \<noteq> F" using lt LT(2) b by (auto simp: blk_rep_def)
  then have LT': "F + 1 \<le> LT" using LT(1) by simp
  have data: "(b_data b)[F mod n := None] ! ((F + 1 + k) mod n) = Some (xs ! k)" if k: "k < length xs" for k
  proof -
    have "(F + (1 + k)) mod n \<noteq> (F + 0) mod n" using k b n by (subst mod_shift_inj) (auto simp: blk_rep_def)
    then have "(b_data b)[F mod n := None] ! ((F + 1 + k) mod n) = b_data b ! ((F + Suc k) mod n)" by simp
    also have "\<dots> = Some ((x # xs) ! Suc k)" using b k unfolding blk_rep_def by (metis Suc_less_eq length_Cons)
    finally show ?thesis by simp
  qed
  have "blk_rep n ?b (F + 1) xs"
    unfolding blk_rep_def
  proof (intro conjI)
    show "\<exists>L \<le> F + 1. b_localFront ?b = L mod n \<and> F + 1 + length xs < L + n" using LF by (intro exI [of _ LF]) simp
    show "\<exists>L \<ge> F + 1. b_localTail ?b = L mod n \<and> L \<le> F + 1 + length xs" using LT LT' by (intro exI [of _ LT]) simp
    show "\<forall>k < length xs. b_data ?b ! ((F + 1 + k) mod n) = Some (xs ! k)" using data b by (simp add: blk_rep_def)
    show "b_front ?b = (F + 1) mod n" using b pow2_mask [OF p] by (simp add: blk_rep_def mod_simps)
  qed (use b n in \<open>auto simp: blk_rep_def\<close>)
  moreover have "take_elem b = Inr (x, ?b)" using cell by (simp add: take_elem_def)
  ultimately show thesis by (rule that [rotated])
qed

subsection \<open>The queue is a list\<close>

text \<open>
  From the front block to the tail block, the elements of the blocks are those of the queue; only
  the front block can be empty among them, and the blocks between the two are full.
\<close>

definition ring_pos :: "'a rw_queue \<Rightarrow> nat \<Rightarrow> nat" where
  "ring_pos q j = (q_frontBlock q + j) mod length (q_blocks q)"

definition rwq_rep :: "nat \<Rightarrow> 'a rw_queue \<Rightarrow> nat \<Rightarrow> (nat \<Rightarrow> nat) \<Rightarrow> (nat \<Rightarrow> 'a list) \<Rightarrow> bool" where
  "rwq_rep n q d F its \<longleftrightarrow>
     pow2 n \<and> q_frontBlock q < length (q_blocks q) \<and> d < length (q_blocks q) \<and> q_tailBlock q = ring_pos q d \<and>
     (\<forall>j < length (q_blocks q). blk_rep n (q_blocks q ! ring_pos q j) (F j) (its j)) \<and>
     (\<forall>j. 0 < j \<and> j \<le> d \<longrightarrow> its j \<noteq> []) \<and> (\<forall>j. 0 < j \<and> j < d \<longrightarrow> length (its j) = n - 1) \<and>
     (\<forall>j > d. its j = [])"

definition rwq_list :: "nat \<Rightarrow> 'a rw_queue \<Rightarrow> 'a list \<Rightarrow> bool" where
  "rwq_list n q xs \<longleftrightarrow> (\<exists>d F its. rwq_rep n q d F its \<and> xs = concat (map its [0..<Suc d]))"

lemma rwq_listI: "rwq_rep n q d F its \<Longrightarrow> rwq_list n q (concat (map its [0..<Suc d]))"
  unfolding rwq_list_def by blast

lemma ring_pos_lt: "q_frontBlock q < length (q_blocks q) \<Longrightarrow> ring_pos q j < length (q_blocks q)"
  unfolding ring_pos_def by (rule mod_less_divisor) auto

lemma ring_pos_inj: "j < length (q_blocks q) \<Longrightarrow> k < length (q_blocks q) \<Longrightarrow> ring_pos q j = ring_pos q k \<longleftrightarrow> j = k"
  unfolding ring_pos_def by (rule mod_shift_inj)

lemma ring_pos_0: "q_frontBlock q < length (q_blocks q) \<Longrightarrow> ring_pos q 0 = q_frontBlock q"
  by (simp add: ring_pos_def)

lemma next_block_pos:
  assumes "q_frontBlock q < length (q_blocks q)"
  shows "next_block q (ring_pos q j) = ring_pos q (Suc j)"
  using ring_pos_lt [OF assms, of j] by (simp add: next_block_def ring_pos_def mod_Suc)

lemma next_is_front:
  assumes "q_frontBlock q < length (q_blocks q)" "d < length (q_blocks q)"
  shows "next_block q (ring_pos q d) = q_frontBlock q \<longleftrightarrow> Suc d = length (q_blocks q)"
proof (cases "Suc d = length (q_blocks q)")
  case True
  then have "ring_pos q (Suc d) = q_frontBlock q" using assms(1) by (simp add: ring_pos_def)
  with True show ?thesis by (simp add: next_block_pos [OF assms(1)])
next
  case False
  then have "ring_pos q (Suc d) \<noteq> ring_pos q 0" using assms by (subst ring_pos_inj) auto
  with False assms(1) show ?thesis by (simp add: next_block_pos ring_pos_0)
qed

text \<open>Replacing one block.\<close>

lemma set_block_simps [simp]:
  "q_frontBlock (set_block q i b) = q_frontBlock q" "q_tailBlock (set_block q i b) = q_tailBlock q"
  "length (q_blocks (set_block q i b)) = length (q_blocks q)" "ring_pos (set_block q i b) = ring_pos q"
  "next_block (set_block q i b) = next_block q"
  "i < length (q_blocks q) \<Longrightarrow> q_blocks (set_block q i b) ! i = b"
  "i \<noteq> j \<Longrightarrow> q_blocks (set_block q i b) ! j = q_blocks q ! j"
  by (simp_all add: set_block_def ring_pos_def next_block_def fun_eq_iff)

lemma tail_simps [simp]:
  "q_frontBlock (q \<lparr> q_tailBlock := t \<rparr>) = q_frontBlock q" "ring_pos (q \<lparr> q_tailBlock := t \<rparr>) = ring_pos q"
  by (simp_all add: ring_pos_def fun_eq_iff)

lemma same_tail: "q_tailBlock q = t \<Longrightarrow> q \<lparr> q_tailBlock := t \<rparr> = q"
  by (cases q) simp

lemma rwq_set:
  assumes q: "rwq_rep n q d F its" and j: "j < length (q_blocks q)" and b: "blk_rep n b f xs"
    and its': "its' = its(j := xs)" and d': "d' < length (q_blocks q)"
    and shape: "\<forall>j. 0 < j \<and> j \<le> d' \<longrightarrow> its' j \<noteq> []" "\<forall>j. 0 < j \<and> j < d' \<longrightarrow> length (its' j) = n - 1" "\<forall>j > d'. its' j = []"
  shows "rwq_rep n (set_block q (ring_pos q j) b \<lparr> q_tailBlock := ring_pos q d' \<rparr>) d' (F(j := f)) its'"
proof -
  have fb: "q_frontBlock q < length (q_blocks q)" using q by (simp add: rwq_rep_def)
  have "blk_rep n (q_blocks (set_block q (ring_pos q j) b) ! ring_pos q k) ((F(j := f)) k) (its' k)" if k: "k < length (q_blocks q)" for k
  proof (cases "k = j")
    case True
    then show ?thesis using b ring_pos_lt [OF fb] by (simp add: its')
  next
    case False
    then have "ring_pos q j \<noteq> ring_pos q k" using k j by (simp add: ring_pos_inj)
    with False q k show ?thesis by (simp add: rwq_rep_def its')
  qed
  with q d' shape show ?thesis by (simp add: rwq_rep_def)
qed

lemma rwq_set_same:
  assumes "rwq_rep n q d F its" "j \<le> d" "blk_rep n b f xs" "0 < j \<longrightarrow> xs \<noteq> []" "0 < j \<and> j < d \<longrightarrow> length xs = n - 1"
  shows "rwq_rep n (set_block q (ring_pos q j) b) d (F(j := f)) (its(j := xs))"
proof -
  have tb: "q_tailBlock (set_block q (ring_pos q j) b) = ring_pos q d" using assms(1) by (simp add: rwq_rep_def)
  show ?thesis
    using rwq_set [OF assms(1) _ assms(3) refl, of j d] assms by (simp add: same_tail [OF tb] rwq_rep_def)
qed

lemma map_upd_upt: "d \<le> j \<Longrightarrow> map (f(j := y)) [0..<d] = map f [0..<d]"
  by (rule map_cong) auto

lemma reload_front_rep:
  assumes p: "pow2 n" and b: "blk_rep n b F xs"
  shows "blk_rep n (reload_front b) F xs"
    and "(b_tail (reload_front b) + 1) AND b_sizeMask (reload_front b) = b_localFront (reload_front b) \<longleftrightarrow> length xs = n - 1"
  using blk_local_front [OF b] b blk_full [OF p b] blk_local_full [OF p b] by (auto simp: reload_front_def)

lemma reload_tail_rep:
  assumes p: "pow2 n" and b: "blk_rep n b F xs"
  shows "blk_rep n (reload_tail b) F xs" and "b_front (reload_tail b) = b_localTail (reload_tail b) \<longleftrightarrow> xs = []"
  using blk_local_tail [OF b] b blk_empty [OF p b] by (auto simp: reload_tail_def)

text \<open>Enqueueing into the next block.\<close>

lemma enqueue_next_list:
  assumes rep: "rwq_rep n q d F its" and full: "length (its d) = n - 1" and more: "Suc d \<noteq> length (q_blocks q)"
  shows "\<exists>q'. enqueue_next q x = (True, q') \<and> length (q_blocks q') = length (q_blocks q) \<and>
    rwq_list n q' (concat (map its [0..<Suc d]) @ [x])"
proof -
  have p: "pow2 n" and fb: "q_frontBlock q < length (q_blocks q)" and d: "d < length (q_blocks q)"
    and tb: "q_tailBlock q = ring_pos q d" using rep by (simp_all add: rwq_rep_def)
  have sd: "Suc d < length (q_blocks q)" using d more by simp
  let ?i = "ring_pos q (Suc d)"
  let ?n = "q_blocks q ! ?i"
  let ?n' = "?n \<lparr> b_localFront := b_front ?n \<rparr>"
  have nb: "blk_rep n ?n (F (Suc d)) []" using rep sd by (metis lessI rwq_rep_def)
  have n': "blk_rep n ?n' (F (Suc d)) []" by (rule blk_local_front [OF nb])
  have "(b_tail ?n' + 1) AND b_sizeMask ?n' \<noteq> b_localFront ?n'" using blk_full [OF p nb] pow2_gt [OF p] by simp
  from blk_put [OF p n' _ this, of x] pow2_gt [OF p] have put: "blk_rep n (put_elem ?n' x) (F (Suc d)) [x]" by simp
  let ?q = "set_block q ?i (put_elem ?n' x) \<lparr> q_tailBlock := ?i \<rparr>"
  have ne: "its d \<noteq> []" using full pow2_gt [OF p] by auto
  have "rwq_rep n ?q (Suc d) (F(Suc d := F (Suc d))) (its(Suc d := [x]))"
    by (rule rwq_set [OF rep sd put refl sd]) (use rep full ne in \<open>auto simp: rwq_rep_def less_Suc_eq le_Suc_eq\<close>)
  from rwq_listI [OF this] have "rwq_list n ?q (concat (map its [0..<Suc d]) @ [x])" by (simp add: map_upd_upt)
  moreover have "enqueue_next q x = (True, ?q)"
    using next_is_front [OF fb d] more by (simp add: enqueue_next_def tb next_block_pos [OF fb] Let_def)
  ultimately show ?thesis by simp
qed

lemma full_length:
  assumes rep: "rwq_rep n q d F its" and full: "length (its d) = n - 1"
  shows "max 1 d * (n - 1) \<le> length (concat (map its [0..<Suc d]))"
proof -
  have "length (its j) = n - 1" if "0 < j" "j \<le> d" for j
    using that rep full by (cases "j = d") (auto simp: rwq_rep_def)
  then have "k * (n - 1) \<le> length (concat (map its [0..<Suc k]))" if "k \<le> d" for k
    using that by (induction k) auto
  from this [of d] show ?thesis using full by (cases "d = 0") (simp_all add: max_def)
qed

lemma inner_enqueue_list:
  assumes q: "rwq_list n q xs"
  shows "case inner_enqueue q x of (ok, q') \<Rightarrow>
    length (q_blocks q') = length (q_blocks q) \<and> rwq_list n q' (if ok then xs @ [x] else xs) \<and>
    (\<not> ok \<longrightarrow> max 1 (length (q_blocks q) - 1) * (n - 1) \<le> length xs)"
proof -
  obtain d F its where rep: "rwq_rep n q d F its" and xs: "xs = concat (map its [0..<Suc d])"
    using q by (auto simp: rwq_list_def)
  have p: "pow2 n" and fb: "q_frontBlock q < length (q_blocks q)" and d: "d < length (q_blocks q)"
    and tb: "q_tailBlock q = ring_pos q d" using rep by (simp_all add: rwq_rep_def)
  have b: "blk_rep n (q_blocks q ! ring_pos q d) (F d) (its d)" using rep d by (simp add: rwq_rep_def)
  define b' where "b' = reload_front (q_blocks q ! ring_pos q d)"
  have b': "blk_rep n b' (F d) (its d)" "(b_tail b' + 1) AND b_sizeMask b' = b_localFront b' \<longleftrightarrow> length (its d) = n - 1"
    unfolding b'_def by (rule reload_front_rep [OF p b])+
  let ?q = "set_block q (ring_pos q d) b'"
  have last: "0 < d \<longrightarrow> its d \<noteq> []" using rep by (simp add: rwq_rep_def)
  have rep': "rwq_rep n ?q d F its" using rwq_set_same [OF rep order_refl b'(1)] last by simp
  have run: "inner_enqueue q x = (if length (its d) \<noteq> n - 1 then (True, set_block q (ring_pos q d) (put_elem b' x)) else enqueue_next ?q x)"
    using b'(2) unfolding inner_enqueue_def tb b'_def [symmetric] Let_def by simp
  show ?thesis
  proof (cases "length (its d) = n - 1")
    case False
    moreover have "length (its d) < n" using b by (simp add: blk_rep_def)
    ultimately have "length (its d) < n - 1" by simp
    from blk_put [OF p b'(1) this, of x] b'(2) False have "blk_rep n (put_elem b' x) (F d) (its d @ [x])" by simp
    from rwq_listI [OF rwq_set_same [OF rep order_refl this]] have "rwq_list n (set_block q (ring_pos q d) (put_elem b' x)) (xs @ [x])"
      unfolding xs by (simp add: map_upd_upt)
    with run False show ?thesis by simp
  next
    case full: True
    show ?thesis
    proof (cases "Suc d = length (q_blocks q)")
      case True
      then have "enqueue_next ?q x = (False, ?q)" using next_is_front [OF fb d] by (simp add: enqueue_next_def tb)
      moreover have "rwq_list n ?q xs" unfolding xs by (rule rwq_listI [OF rep'])
      moreover have "d = length (q_blocks q) - 1" using True by simp
      ultimately show ?thesis using run full full_length [OF rep full] xs by simp
    next
      case False
      then have "Suc d \<noteq> length (q_blocks ?q)" by simp
      from enqueue_next_list [OF rep' full this, of x] obtain q' where "enqueue_next ?q x = (True, q')"
        "length (q_blocks q') = length (q_blocks q)" "rwq_list n q' (xs @ [x])" using xs by auto
      with run full show ?thesis by simp
    qed
  qed
qed

text \<open>Dequeueing from the next block; the empty front block becomes the last of the ring.\<close>

lemma dequeue_next_list:
  assumes rep: "rwq_rep n q d F its" and nil: "its 0 = []" and d0: "0 < d"
  shows "\<exists>x q'. dequeue_next q = Inr (Some x, q') \<and> length (q_blocks q') = length (q_blocks q) \<and>
    (\<exists>ys. concat (map its [0..<Suc d]) = x # ys \<and> rwq_list n q' ys)"
proof -
  have p: "pow2 n" and fb: "q_frontBlock q < length (q_blocks q)" and d: "d < length (q_blocks q)"
    and tb: "q_tailBlock q = ring_pos q d" using rep by (simp_all add: rwq_rep_def)
  have shape: "\<forall>j. 0 < j \<and> j \<le> d \<longrightarrow> its j \<noteq> []" "\<forall>j. 0 < j \<and> j < d \<longrightarrow> length (its j) = n - 1" "\<forall>j > d. its j = []"
    using rep by (simp_all add: rwq_rep_def)
  have f0: "ring_pos q 0 = q_frontBlock q" by (rule ring_pos_0 [OF fb])
  have N: "0 < length (q_blocks q)" "1 < length (q_blocks q)" using d d0 by linarith+
  have "its 1 \<noteq> []" using shape(1) d0 by simp
  then obtain x ys where one: "its 1 = x # ys" by (meson neq_Nil_conv)
  let ?i = "ring_pos q 1"
  let ?n = "q_blocks q ! ?i"
  let ?n' = "?n \<lparr> b_localTail := b_tail ?n \<rparr>"
  have nb: "blk_rep n ?n (F 1) (x # ys)" using rep N one by (metis rwq_rep_def)
  have "b_front ?n' \<noteq> b_localTail ?n'" using blk_empty(1) [OF p nb] by simp
  from blk_take [OF p blk_local_tail [OF nb] this] obtain c where c: "take_elem ?n' = Inr (x, c)" "blk_rep n c (F 1 + 1) ys" by blast
  have nxt: "next_block q (q_frontBlock q) = ?i" using next_block_pos [OF fb, of 0] f0 by simp
  have "q_frontBlock q \<noteq> q_tailBlock q"
    using ring_pos_inj [OF N(1) d] d0 f0 tb by simp
  then have run: "dequeue_next q = Inr (Some x, set_block q ?i c \<lparr> q_frontBlock := ?i \<rparr>)"
    using c(1) by (simp add: dequeue_next_def nxt Let_def)
  let ?q = "set_block q ?i c \<lparr> q_frontBlock := ?i \<rparr>"
  let ?F = "\<lambda>j. if j = 0 then F 1 + 1 else if Suc j = length (q_blocks q) then F 0 else F (Suc j)"
  let ?its = "\<lambda>j. if j = 0 then ys else its (Suc j)"
  have pos: "ring_pos ?q j = ring_pos q (Suc j)" for j
    by (simp add: ring_pos_def mod_simps)
  have i: "?i < length (q_blocks q)" by (rule ring_pos_lt [OF fb])
  have blks: "q_blocks ?q = q_blocks (set_block q ?i c)" by simp
  have "blk_rep n (q_blocks ?q ! ring_pos ?q j) (?F j) (?its j)" if j: "j < length (q_blocks q)" for j
  proof -
    consider (first) "j = 0" | (last) "0 < j" "Suc j = length (q_blocks q)" | (mid) "0 < j" "Suc j < length (q_blocks q)"
      using j by linarith
    then show ?thesis
    proof cases
      case first
      then show ?thesis unfolding pos blks using c(2) i by simp
    next
      case last
      have "ring_pos q (Suc j) = ring_pos q 0" using last(2) by (simp add: ring_pos_def)
      moreover have "?i \<noteq> ring_pos q 0" using ring_pos_inj [OF N(2,1)] by simp
      moreover have "its (Suc j) = []" using shape(3) last(2) d by simp
      moreover have "blk_rep n (q_blocks q ! ring_pos q 0) (F 0) []" using rep N(1) nil by (metis rwq_rep_def)
      ultimately show ?thesis unfolding pos blks using last by simp
    next
      case mid
      have "?i \<noteq> ring_pos q (Suc j)" using ring_pos_inj [OF N(2) mid(2)] mid(1) by simp
      then show ?thesis unfolding pos blks using mid rep by (simp add: rwq_rep_def)
    qed
  qed
  moreover have "q_tailBlock ?q = ring_pos ?q (d - 1)" unfolding pos using tb d0 by simp
  moreover have "\<forall>j. 0 < j \<and> j \<le> d - 1 \<longrightarrow> ?its j \<noteq> []" "\<forall>j. 0 < j \<and> j < d - 1 \<longrightarrow> length (?its j) = n - 1"
      "\<forall>j > d - 1. ?its j = []" using shape d0 by auto
  ultimately have "rwq_rep n ?q (d - 1) ?F ?its" using p d i unfolding rwq_rep_def by simp
  from rwq_listI [OF this] have "rwq_list n ?q (concat (map ?its [0..<Suc (d - 1)]))" .
  moreover have "concat (map its [0..<Suc d]) = x # concat (map ?its [0..<Suc (d - 1)])"
  proof -
    have "[0..<Suc d] = 0 # map Suc [0..<d]" by (simp add: upt_conv_Cons map_Suc_upt del: upt_Suc)
    moreover have "[0..<d] = 0 # [1..<d]" using d0 by (simp add: upt_conv_Cons)
    moreover have eq: "map (\<lambda>j. its (Suc j)) [Suc 0..<d] = map ?its [Suc 0..<d]" by (rule map_cong) auto
    ultimately show ?thesis using d0 nil one by (simp add: comp_def eq del: upt_Suc map_eq_conv)
  qed
  ultimately show ?thesis using run by (intro exI [of _ x] exI [of _ ?q]) auto
qed

lemma try_dequeue_list:
  assumes q: "rwq_list n q xs"
  shows "\<exists>q'. length (q_blocks q') = length (q_blocks q) \<and>
    (case xs of [] \<Rightarrow> try_dequeue q = Inr (None, q') \<and> rwq_list n q' []
     | x # ys \<Rightarrow> try_dequeue q = Inr (Some x, q') \<and> rwq_list n q' ys)"
proof -
  obtain d F its where rep: "rwq_rep n q d F its" and xs: "xs = concat (map its [0..<Suc d])"
    using q by (auto simp: rwq_list_def)
  have p: "pow2 n" and fb: "q_frontBlock q < length (q_blocks q)" and tb: "q_tailBlock q = ring_pos q d"
    using rep by (simp_all add: rwq_rep_def)
  have f0: "ring_pos q 0 = q_frontBlock q" by (rule ring_pos_0 [OF fb])
  have b: "blk_rep n (q_blocks q ! q_frontBlock q) (F 0) (its 0)"
    using rep fb f0 by (metis le_less_trans le0 rwq_rep_def)
  define b' where "b' = reload_tail (q_blocks q ! q_frontBlock q)"
  have b': "blk_rep n b' (F 0) (its 0)" "b_front b' = b_localTail b' \<longleftrightarrow> its 0 = []"
    unfolding b'_def by (rule reload_tail_rep [OF p b])+
  let ?q = "set_block q (q_frontBlock q) b'"
  have full: "0 < (0 :: nat) \<and> 0 < d \<longrightarrow> P" for P by simp
  have run: "try_dequeue q =
      (if its 0 \<noteq> [] then bindR (take_elem b') (\<lambda>(x, b). Inr (Some x, set_block q (q_frontBlock q) b)) else dequeue_next ?q)"
    using b'(2) unfolding try_dequeue_def b'_def [symmetric] Let_def by simp
  have tail: "concat (map its [0..<Suc d]) = its 0 @ concat (map its [1..<Suc d])" for its :: "nat \<Rightarrow> 'a list"
    by (simp add: upt_conv_Cons del: upt_Suc)
  show ?thesis
  proof (cases "its 0")
    case (Cons x ys)
    with b' obtain c where c: "take_elem b' = Inr (x, c)" "blk_rep n c (F 0 + 1) ys"
      using blk_take [OF p, of b' "F 0" x ys] by auto
    from rwq_listI [OF rwq_set_same [OF rep le0 c(2)]] have "rwq_list n (set_block q (q_frontBlock q) c) (ys @ concat (map its [1..<Suc d]))"
      unfolding tail f0 by (simp del: upt_Suc)
    with run Cons c(1) xs show ?thesis unfolding tail by simp
  next
    case Nil
    have rep': "rwq_rep n ?q d F its" using rwq_set_same [OF rep le0 b'(1)] f0 by simp
    show ?thesis
    proof (cases "d = 0")
      case True
      then have "dequeue_next ?q = Inr (None, ?q)" using tb f0 by (simp add: dequeue_next_def)
      moreover have "rwq_list n ?q []" using rwq_listI [OF rep'] True Nil by simp
      moreover have "xs = []" unfolding xs using True Nil by simp
      ultimately show ?thesis using run Nil by simp
    next
      case False
      then obtain x q' ys where "dequeue_next ?q = Inr (Some x, q')" "length (q_blocks q') = length (q_blocks ?q)"
        "concat (map its [0..<Suc d]) = x # ys" "rwq_list n q' ys"
        using dequeue_next_list [OF rep' Nil] by blast
      with run Nil xs show ?thesis by simp
    qed
  qed
qed

lemma blk_size:
  assumes p: "pow2 n" and b: "blk_rep n b F xs"
  shows "(b_tail b + (b_sizeMask b + 1) - b_front b) AND b_sizeMask b = length xs"
proof -
  have n: "0 < n" "length xs < n" using pow2_gt [OF p] b by (simp_all add: blk_rep_def)
  let ?f = "F mod n"
  have f: "?f < n" using n by simp
  have t: "(F + length xs) mod n = (?f + length xs) mod n" by (simp add: mod_simps)
  have "((?f + length xs) mod n + n - ?f) mod n = length xs"
  proof (cases "?f + length xs < n")
    case True
    then show ?thesis using n by simp
  next
    case False
    moreover have "?f + length xs - n < n" using f n by linarith
    ultimately have "(?f + length xs) mod n = ?f + length xs - n" by (simp add: le_mod_geq)
    then show ?thesis using False n by simp
  qed
  then show ?thesis using b n pow2_mask [OF p] t by (simp add: blk_rep_def)
qed

lemma size_approx_list:
  assumes q: "rwq_list n q xs"
  shows "size_approx q = length xs"
proof -
  obtain d F its where rep: "rwq_rep n q d F its" and xs: "xs = concat (map its [0..<Suc d])"
    using q by (auto simp: rwq_list_def)
  have d: "Suc d \<le> length (q_blocks q)" and p: "pow2 n" using rep by (simp_all add: rwq_rep_def)
  let ?size = "\<lambda>j. let block = q_blocks q ! ((q_frontBlock q + j) mod length (q_blocks q))
                       in (b_tail block + (b_sizeMask block + 1) - b_front block) AND b_sizeMask block"
  have "map ?size [0..<length (q_blocks q)] = map (\<lambda>j. length (its j)) [0..<length (q_blocks q)]"
  proof (rule map_cong [OF refl])
    fix j assume "j \<in> set [0..<length (q_blocks q)]"
    then have "blk_rep n (q_blocks q ! ((q_frontBlock q + j) mod length (q_blocks q))) (F j) (its j)"
      using rep by (simp add: rwq_rep_def ring_pos_def)
    from blk_size [OF p this] show "?size j = length (its j)" unfolding Let_def .
  qed
  moreover have "map (\<lambda>j. length (its j)) [Suc d..<length (q_blocks q)] = map (\<lambda>_. 0) [Suc d..<length (q_blocks q)]"
    using rep by (intro map_cong) (auto simp: rwq_rep_def)
  moreover have "[0..<length (q_blocks q)] = [0..<Suc d] @ [Suc d..<length (q_blocks q)]"
  proof -
    have "[0..<Suc d + (length (q_blocks q) - Suc d)] = [0..<Suc d] @ [Suc d..<Suc d + (length (q_blocks q) - Suc d)]"
      by (rule upt_add_eq_append) simp
    then show ?thesis using d by (simp only: le_add_diff_inverse)
  qed
  ultimately have "size_approx q = (\<Sum>j \<leftarrow> [0..<Suc d]. length (its j))"
    unfolding size_approx_def by (simp del: upt_Suc map_eq_conv add: sum_list_triv)
  then show ?thesis unfolding xs by (simp add: length_concat comp_def)
qed

subsection \<open>The queues of the program\<close>

text \<open>A queue made for \<open>m\<close> elements that now holds \<open>xs\<close>.\<close>

definition rwq_holds :: "nat \<Rightarrow> 'a rw_queue \<Rightarrow> 'a list \<Rightarrow> bool" where
  "rwq_holds m q xs \<longleftrightarrow> 0 < m \<and> (\<exists>n. rwq_list n q xs \<and> m \<le> max 1 (length (q_blocks q) - 1) * (n - 1))"

lemma new_ring_list:
  assumes "pow2 n" "0 < k"
  shows "rwq_list n \<lparr> q_blocks = replicate k (make_block n), q_frontBlock = 0, q_tailBlock = 0 \<rparr> []"
proof -
  have "rwq_rep n \<lparr> q_blocks = replicate k (make_block n), q_frontBlock = 0, q_tailBlock = 0 \<rparr> 0 (\<lambda>_. 0) (\<lambda>_. [])"
    using assms make_block_rep [OF assms(1)] by (auto simp: rwq_rep_def ring_pos_def)
  from rwq_listI [OF this] show ?thesis by simp
qed

lemma queue_size_4096: "ReaderWriterQueue (1024 * 4) = \<lparr> q_blocks = replicate 10 (make_block 512), q_frontBlock = 0, q_tailBlock = 0 \<rparr>"
  by (simp add: ReaderWriterQueue_def ceilToPow2_def MAX_BLOCK_SIZE_def)

lemma queue_size_32: "ReaderWriterQueue 32 = \<lparr> q_blocks = replicate 1 (make_block 64), q_frontBlock = 0, q_tailBlock = 0 \<rparr>"
  by (simp add: ReaderWriterQueue_def ceilToPow2_def MAX_BLOCK_SIZE_def)

lemma pow2_512: "pow2 512" and pow2_64: "pow2 64"
  by (auto simp: pow2_def intro: exI [of _ 9] exI [of _ 6])

lemma ReaderWriterQueue_holds:
  assumes "m \<in> {1024 * 4, 32}"
  shows "rwq_holds m (ReaderWriterQueue m) []"
proof -
  consider (a) "m = 1024 * 4" | (b) "m = 32" using assms by blast
  then show ?thesis
  proof cases
    case a
    from new_ring_list [OF pow2_512, of 10] show ?thesis
      unfolding a rwq_holds_def queue_size_4096 by (intro conjI exI [of _ 512]) simp_all
  next
    case b
    from new_ring_list [OF pow2_64, of 1] show ?thesis
      unfolding b rwq_holds_def queue_size_32 by (intro conjI exI [of _ 64]) simp_all
  qed
qed

lemma inner_enqueue_holds:
  assumes "rwq_holds m q xs"
  obtains q' where "inner_enqueue q x = (True, q')" "rwq_holds m q' (xs @ [x])"
  | q' where "inner_enqueue q x = (False, q')" "rwq_holds m q' xs" "m \<le> length xs"
proof -
  obtain n where n: "rwq_list n q xs" "m \<le> max 1 (length (q_blocks q) - 1) * (n - 1)" "0 < m"
    using assms by (auto simp: rwq_holds_def)
  obtain ok q' where e: "inner_enqueue q x = (ok, q')" by fastforce
  note E = inner_enqueue_list [OF n(1), of x, unfolded e prod.case]
  show thesis
  proof (cases ok)
    case True
    with E n e show thesis by (intro that(1) [of q']) (auto simp: rwq_holds_def)
  next
    case False
    with E n e show thesis by (intro that(2) [of q']) (auto simp: rwq_holds_def intro: order_trans)
  qed
qed

lemma try_dequeue_holds:
  assumes "rwq_holds m q xs"
  obtains q' where "xs = []" "try_dequeue q = Inr (None, q')" "rwq_holds m q' []"
  | x ys q' where "xs = x # ys" "try_dequeue q = Inr (Some x, q')" "rwq_holds m q' ys"
proof -
  obtain n where n: "rwq_list n q xs" "m \<le> max 1 (length (q_blocks q) - 1) * (n - 1)" "0 < m"
    using assms by (auto simp: rwq_holds_def)
  from try_dequeue_list [OF n(1)] obtain q' where q': "length (q_blocks q') = length (q_blocks q)"
    "case xs of [] \<Rightarrow> try_dequeue q = Inr (None, q') \<and> rwq_list n q' []
     | x # ys \<Rightarrow> try_dequeue q = Inr (Some x, q') \<and> rwq_list n q' ys" by blast
  show thesis
  proof (cases xs)
    case Nil
    with q' n show thesis by (intro that(1) [of q']) (auto simp: rwq_holds_def)
  next
    case (Cons x ys)
    with q' n show thesis by (intro that(2) [of x ys q']) (auto simp: rwq_holds_def)
  qed
qed

lemma size_approx_holds: "rwq_holds m q xs \<Longrightarrow> size_approx q = length xs"
  by (auto simp: rwq_holds_def intro: size_approx_list)

end
