(* ===== verification/Msg_Queue.thy ===== *)
theory Msg_Queue
  imports Data_Types Rw_Queue
begin

text \<open>
  The message queues between two threads: \<open>include/message_queue/abs_mq.h\<close>, \<open>lck_free_mq.h\<close>,
  \<open>blocked_mq.h\<close>, \<open>mq_factory.h\<close>, and the protocol by which every pair of threads hands over
  (\<open>output_MQ->_done = true\<close> at the end of one, \<open>if (input_MQ->_done && input_MQ->IsEmpty()) break;\<close>
  and \<open>Pop\<close> in the loop of the other). A step is one access to the queue or to the flag, so the two
  threads interleave between the test of the flag and the test for emptiness. What the protocol
  needs of a queue is the locale \<open>spsc_queue\<close>.
\<close>

subsection \<open>The queues\<close>

record 'a lck_free_mq =
  lf_queue :: "'a rw_queue"
  lf_max_queue_size :: nat

definition LckFreeMQ :: "nat \<Rightarrow> 'a lck_free_mq" where
  "LckFreeMQ max_queue_size = \<lparr> lf_queue = ReaderWriterQueue max_queue_size, lf_max_queue_size = max_queue_size \<rparr>"

definition LckFree_Push :: "'a lck_free_mq \<Rightarrow> 'a \<Rightarrow> bool \<times> 'a lck_free_mq" where
  \<comment> \<open>one round of the loop; the loop spins as long as the round fails\<close>
  "LckFree_Push q x = (case inner_enqueue (lf_queue q) x of (ok, rq) \<Rightarrow> (ok, q \<lparr> lf_queue := rq \<rparr>))"

definition LckFree_Pop :: "'a lck_free_mq \<Rightarrow> ('a option \<times> 'a lck_free_mq) result" where
  "LckFree_Pop q = bindR (try_dequeue (lf_queue q)) (\<lambda>(x, rq). Inr (x, q \<lparr> lf_queue := rq \<rparr>))"

definition LckFree_IsEmpty :: "'a lck_free_mq \<Rightarrow> bool" where
  "LckFree_IsEmpty q = (size_approx (lf_queue q) = 0)"

definition LckFree_delete :: "'a lck_free_mq \<Rightarrow> unit result" where
  "LckFree_delete q = (if LckFree_IsEmpty q then Inr () else Inl QueueNotEmpty)"

record 'a blocked_mq =
  bm_queue :: "'a list"
  bm_max_queue_size :: nat

definition BlockedMQ :: "nat \<Rightarrow> 'a blocked_mq" where
  "BlockedMQ max_queue_size = \<lparr> bm_queue = [], bm_max_queue_size = max_queue_size \<rparr>"

datatype 'a abs_mq = Blocked "'a blocked_mq" | LckFree "'a lck_free_mq"

definition CreateMQ :: "int \<Rightarrow> nat \<Rightarrow> 'a abs_mq result" where
  "CreateMQ type max_queue_size =
    (if type = 0 then Inr (Blocked (BlockedMQ max_queue_size))
     else if type = 1 then Inr (LckFree (LckFreeMQ max_queue_size))
     else Inl WrongConfig)"

subsection \<open>The interface the threads rely on\<close>

locale spsc_queue =
  fixes holds :: "'q \<Rightarrow> 'a list \<Rightarrow> bool"
    and capacity :: nat
    and push :: "'q \<Rightarrow> 'a \<Rightarrow> bool \<times> 'q"
    and pop :: "'q \<Rightarrow> ('a option \<times> 'q) result"
    and is_empty :: "'q \<Rightarrow> bool"
  assumes push_law: "holds q xs \<Longrightarrow> push q x = (ok, q') \<Longrightarrow>
      holds q' (if ok then xs @ [x] else xs) \<and> (ok \<or> capacity \<le> length xs \<and> xs \<noteq> [])"
    and pop_nil: "holds q [] \<Longrightarrow> \<exists>q'. pop q = Inr (None, q') \<and> holds q' []"
    and pop_cons: "holds q (x # xs) \<Longrightarrow> \<exists>q'. pop q = Inr (Some x, q') \<and> holds q' xs"
    and empty_law: "holds q xs \<Longrightarrow> is_empty q \<longleftrightarrow> xs = []"

subsection \<open>Producer and consumer\<close>

datatype consumer_pc = AtDone | AtEmpty | AtPop | Finished

record ('a, 'q) handover =
  ho_queue :: 'q
  ho_done :: bool
  ho_todo :: "'a list"             \<comment> \<open>what the producer has still to push\<close>
  ho_pc :: consumer_pc
  ho_got :: "'a list"              \<comment> \<open>what the consumer has popped\<close>

definition ho_start :: "'q \<Rightarrow> 'a list \<Rightarrow> ('a, 'q) handover" where
  "ho_start q xs = \<lparr> ho_queue = q, ho_done = False, ho_todo = xs, ho_pc = AtDone, ho_got = [] \<rparr>"

inductive ho_step ::
  "('q \<Rightarrow> 'a \<Rightarrow> bool \<times> 'q) \<Rightarrow> ('q \<Rightarrow> ('a option \<times> 'q) result) \<Rightarrow> ('q \<Rightarrow> bool) \<Rightarrow>
   ('a, 'q) handover \<Rightarrow> ('a, 'q) handover \<Rightarrow> bool"
  for push pop is_empty where
  ho_push: "ho_todo s = x # xs \<Longrightarrow> push (ho_queue s) x = (ok, q') \<Longrightarrow>
    ho_step push pop is_empty s (s \<lparr> ho_queue := q', ho_todo := (if ok then xs else x # xs) \<rparr>)"
| ho_finish: "ho_todo s = [] \<Longrightarrow> \<not> ho_done s \<Longrightarrow> ho_step push pop is_empty s (s \<lparr> ho_done := True \<rparr>)"
| ho_test_done: "ho_pc s = AtDone \<Longrightarrow>
    ho_step push pop is_empty s (s \<lparr> ho_pc := (if ho_done s then AtEmpty else AtPop) \<rparr>)"
| ho_test_empty: "ho_pc s = AtEmpty \<Longrightarrow>
    ho_step push pop is_empty s (s \<lparr> ho_pc := (if is_empty (ho_queue s) then Finished else AtPop) \<rparr>)"
| ho_pop: "ho_pc s = AtPop \<Longrightarrow> pop (ho_queue s) = Inr (r, q') \<Longrightarrow>
    ho_step push pop is_empty s
      (s \<lparr> ho_queue := q', ho_pc := AtDone, ho_got := ho_got s @ (case r of None \<Rightarrow> [] | Some x \<Rightarrow> [x]) \<rparr>)"

inductive_cases ho_stepE: "ho_step push pop is_empty s s'"

context spsc_queue
begin

definition ho_inv :: "'a list \<Rightarrow> ('a, 'q) handover \<Rightarrow> 'a list \<Rightarrow> bool" where
  "ho_inv all s xs \<longleftrightarrow>
     holds (ho_queue s) xs \<and> all = ho_got s @ xs @ ho_todo s \<and> (ho_done s \<longrightarrow> ho_todo s = []) \<and>
     (ho_pc s \<in> {AtEmpty, Finished} \<longrightarrow> ho_done s) \<and> (ho_pc s = Finished \<longrightarrow> xs = [])"

lemma ho_inv_start: "holds q [] \<Longrightarrow> ho_inv all (ho_start q all) []"
  by (simp add: ho_inv_def ho_start_def)

lemma ho_inv_step:
  assumes "ho_step push pop is_empty s s'" "ho_inv all s xs"
  shows "\<exists>xs'. ho_inv all s' xs'"
  using assms
proof (cases rule: ho_step.cases)
  case (ho_push x zs ok q')
  with assms(2) push_law [of "ho_queue s" xs x ok q'] show ?thesis
    by (intro exI [of _ "if ok then xs @ [x] else xs"]) (auto simp: ho_inv_def)
next
  case (ho_pop r q')
  show ?thesis
  proof (cases xs)
    case Nil
    with ho_pop assms(2) pop_nil [of "ho_queue s"] show ?thesis by (intro exI [of _ "[]"]) (auto simp: ho_inv_def)
  next
    case (Cons y ys)
    with ho_pop assms(2) pop_cons [of "ho_queue s" y ys] show ?thesis by (intro exI [of _ ys]) (auto simp: ho_inv_def)
  qed
qed (use assms(2) empty_law [of "ho_queue s" xs] in \<open>auto simp: ho_inv_def\<close>)

lemma ho_inv_run:
  assumes "(ho_step push pop is_empty)\<^sup>*\<^sup>* s s'" "ho_inv all s xs"
  shows "\<exists>xs'. ho_inv all s' xs'"
  using assms by (induction rule: rtranclp_induct) (blast intro: ho_inv_step)+

lemma ho_pop_no_exit: "ho_inv all s xs \<Longrightarrow> pop (ho_queue s) \<noteq> Inl e"
  by (cases xs) (auto simp: ho_inv_def dest: pop_nil pop_cons)

text \<open>Some thread can always make progress, so the end stays within reach.\<close>

definition ho_work :: "('a, 'q) handover \<Rightarrow> 'a list \<Rightarrow> nat" where
  "ho_work s xs = 2 * length (ho_todo s) + length xs + (if ho_done s then 0 else 1)"

abbreviation steps :: "('a, 'q) handover \<Rightarrow> ('a, 'q) handover \<Rightarrow> bool" where
  "steps \<equiv> (ho_step push pop is_empty)\<^sup>*\<^sup>*"

lemma step_pop: "ho_pc s = AtPop \<Longrightarrow> pop (ho_queue s) = Inr (r, q') \<Longrightarrow>
    steps (s \<lparr> ho_queue := q', ho_pc := AtDone, ho_got := ho_got s @ (case r of None \<Rightarrow> [] | Some x \<Rightarrow> [x]) \<rparr>) t \<Longrightarrow> steps s t"
  by (rule converse_rtranclp_into_rtranclp, rule ho_step.ho_pop)

lemma step_empty: "ho_pc s = AtEmpty \<Longrightarrow>
    steps (s \<lparr> ho_pc := (if is_empty (ho_queue s) then Finished else AtPop) \<rparr>) t \<Longrightarrow> steps s t"
  by (rule converse_rtranclp_into_rtranclp, rule ho_step.ho_test_empty)

lemma step_done: "ho_pc s = AtDone \<Longrightarrow>
    steps (s \<lparr> ho_pc := (if ho_done s then AtEmpty else AtPop) \<rparr>) t \<Longrightarrow> steps s t"
  by (rule converse_rtranclp_into_rtranclp, rule ho_step.ho_test_done)

lemma ho_invD:
  assumes "ho_inv all s xs"
  shows "holds (ho_queue s) xs" "is_empty (ho_queue s) \<longleftrightarrow> xs = []"
  using assms empty_law [of "ho_queue s" xs] by (simp_all add: ho_inv_def)

lemma consume:
  assumes I: "ho_inv all s (x # xs)"
  shows "\<exists>s'. steps s s' \<and> ho_inv all s' xs \<and> ho_work s' xs < ho_work s (x # xs)"
proof -
  obtain q' where q': "pop (ho_queue s) = Inr (Some x, q')" "holds q' xs"
    using pop_cons ho_invD(1) [OF I] by blast
  let ?s = "s \<lparr> ho_queue := q', ho_pc := AtDone, ho_got := ho_got s @ [x] \<rparr>"
  have pop: "steps (s \<lparr> ho_pc := AtPop \<rparr>) ?s"
    by (rule step_pop [where r = "Some x" and q' = q']) (simp_all add: q')
  have empty: "steps (s \<lparr> ho_pc := AtEmpty \<rparr>) ?s"
    by (rule step_empty) (use pop ho_invD(2) [OF I] in simp_all)
  have "steps s ?s"
  proof (cases "ho_pc s")
    case AtDone
    show ?thesis by (rule step_done [OF AtDone]) (use pop empty in simp)
  next
    case AtEmpty
    then have "s = s \<lparr> ho_pc := AtEmpty \<rparr>" by simp
    then show ?thesis using empty by simp
  next
    case AtPop
    then have "s = s \<lparr> ho_pc := AtPop \<rparr>" by simp
    then show ?thesis using pop by simp
  next
    case Finished
    then show ?thesis using I by (simp add: ho_inv_def)
  qed
  then show ?thesis using I q'(2) by (intro exI [of _ ?s]) (auto simp: ho_inv_def ho_work_def)
qed

lemma leave:
  assumes I: "ho_inv all s []" and d: "ho_done s"
  shows "\<exists>s'. steps s s' \<and> ho_pc s' = Finished"
proof -
  have top: "steps t (t \<lparr> ho_pc := Finished \<rparr>)" if "ho_inv all t []" "ho_done t" "ho_pc t = AtDone" for t
    by (rule step_done [OF that(3)], rule step_empty) (use that ho_invD(2) [OF that(1)] in simp_all)
  show ?thesis
  proof (cases "ho_pc s")
    case AtDone
    then show ?thesis using top [OF I d] by (intro exI [of _ "s \<lparr> ho_pc := Finished \<rparr>"]) simp
  next
    case AtEmpty
    have "steps s (s \<lparr> ho_pc := Finished \<rparr>)"
      by (rule step_empty [OF AtEmpty]) (use ho_invD(2) [OF I] in simp)
    then show ?thesis by (intro exI [of _ "s \<lparr> ho_pc := Finished \<rparr>"]) simp
  next
    case AtPop
    obtain q' where q': "pop (ho_queue s) = Inr (None, q')" "holds q' []" using pop_nil ho_invD(1) [OF I] by blast
    let ?s = "s \<lparr> ho_queue := q', ho_pc := AtDone \<rparr>"
    have "ho_inv all ?s []" using I q'(2) by (auto simp: ho_inv_def)
    then have t: "steps ?s (?s \<lparr> ho_pc := Finished \<rparr>)" using d by (intro top) simp_all
    have "steps s (?s \<lparr> ho_pc := Finished \<rparr>)" by (rule step_pop [OF AtPop q'(1)]) (use t in simp)
    then show ?thesis by (intro exI [of _ "?s \<lparr> ho_pc := Finished \<rparr>"]) simp
  next
    case Finished
    then show ?thesis by blast
  qed
qed

lemma ho_finishes:
  assumes "ho_inv all s xs"
  shows "\<exists>s'. steps s s' \<and> ho_pc s' = Finished"
  using assms
proof (induction "ho_work s xs" arbitrary: s xs rule: less_induct)
  case less
  have go: ?case if "steps s t" "ho_inv all t ys" "ho_work t ys < ho_work s xs" for t ys
    using less.hyps [OF that(3,2)] that(1) by (meson rtranclp_trans)
  show ?case
  proof (cases "ho_todo s")
    case (Cons x zs)
    obtain ok q' where p: "push (ho_queue s) x = (ok, q')" by fastforce
    have st: "steps s (s \<lparr> ho_queue := q', ho_todo := (if ok then zs else x # zs) \<rparr>)"
      by (rule r_into_rtranclp, rule ho_step.ho_push) (fact Cons, fact p)
    have law: "holds q' (if ok then xs @ [x] else xs)" "ok \<or> xs \<noteq> []"
      using push_law [OF _ p] less.prems by (auto simp: ho_inv_def)
    show ?thesis
    proof (cases ok)
      case True
      with st law less.prems Cons show ?thesis
        by (intro go [OF st, of "xs @ [x]"]) (auto simp: ho_inv_def ho_work_def)
    next
      case False
      then obtain y ys where "xs = y # ys" using law(2) by (cases xs) auto
      with consume less.prems go show ?thesis by blast
    qed
  next
    case Nil
    show ?thesis
    proof (cases "ho_done s")
      case False
      have st: "steps s (s \<lparr> ho_done := True \<rparr>)"
        by (rule r_into_rtranclp, rule ho_step.ho_finish) (fact Nil, fact False)
      from False less.prems Nil show ?thesis
        by (intro go [OF st, of xs]) (auto simp: ho_inv_def ho_work_def)
    next
      case True
      show ?thesis
      proof (cases xs)
        case Nil
        with leave less.prems True show ?thesis by blast
      next
        case (Cons y ys)
        with consume less.prems go show ?thesis by blast
      qed
    qed
  qed
qed

lemma handover:
  assumes "holds q []" "steps (ho_start q all) s"
  shows "(\<exists>rest. all = ho_got s @ rest) \<and> (\<forall>e. pop (ho_queue s) \<noteq> Inl e) \<and>
    (ho_pc s = Finished \<longrightarrow> ho_got s = all \<and> is_empty (ho_queue s)) \<and>
    (\<exists>s'. steps s s' \<and> ho_pc s' = Finished)"
proof -
  obtain xs where I: "ho_inv all s xs" using ho_inv_run [OF assms(2) ho_inv_start [OF assms(1)]] by blast
  moreover have "ho_got s = all \<and> is_empty (ho_queue s)" if "ho_pc s = Finished"
    using I that empty_law by (auto simp: ho_inv_def)
  moreover have "\<exists>rest. all = ho_got s @ rest" using I by (auto simp: ho_inv_def)
  ultimately show ?thesis using ho_pop_no_exit [OF I] ho_finishes [OF I] by blast
qed

end

subsection \<open>The lock-free queue implements the interface\<close>

interpretation lf: spsc_queue "\<lambda>q xs. rwq_holds m (lf_queue q) xs" m LckFree_Push LckFree_Pop LckFree_IsEmpty for m
proof unfold_locales
  fix q :: "'a lck_free_mq" and xs x ok q'
  assume h: "rwq_holds m (lf_queue q) xs" and p: "LckFree_Push q x = (ok, q')"
  have "0 < m" using h by (simp add: rwq_holds_def)
  with p show "rwq_holds m (lf_queue q') (if ok then xs @ [x] else xs) \<and> (ok \<or> m \<le> length xs \<and> xs \<noteq> [])"
    by (cases rule: inner_enqueue_holds [OF h, of x]) (auto simp: LckFree_Push_def)
next
  fix q :: "'a lck_free_mq"
  assume h: "rwq_holds m (lf_queue q) []"
  show "\<exists>q'. LckFree_Pop q = Inr (None, q') \<and> rwq_holds m (lf_queue q') []"
    by (cases rule: try_dequeue_holds [OF h]) (auto simp: LckFree_Pop_def)
next
  fix q :: "'a lck_free_mq" and x xs
  assume h: "rwq_holds m (lf_queue q) (x # xs)"
  show "\<exists>q'. LckFree_Pop q = Inr (Some x, q') \<and> rwq_holds m (lf_queue q') xs"
    by (cases rule: try_dequeue_holds [OF h]) (auto simp: LckFree_Pop_def)
next
  fix q :: "'a lck_free_mq" and xs
  assume h: "rwq_holds m (lf_queue q) xs"
  show "LckFree_IsEmpty q \<longleftrightarrow> xs = []" by (simp add: LckFree_IsEmpty_def size_approx_holds [OF h])
qed

lemma LckFreeMQ_empty: "m \<in> {1024 * 4, 32} \<Longrightarrow> rwq_holds m (lf_queue (LckFreeMQ m)) []"
  by (simp only: LckFreeMQ_def lck_free_mq.simps ReaderWriterQueue_holds)

text \<open>C16. For the two sizes the program uses, the lock-free queue, a ring of blocks that are rings of
  slots, implements a first-in first-out list: a new queue holds nothing; \<open>Push\<close> appends or, only when
  at least as many elements as the requested size are held, refuses and keeps them; \<open>Pop\<close> takes the
  first element and fails only on the empty queue, and reads no slot that has no element; \<open>IsEmpty\<close>
  answers exactly.\<close>

theorem LckFreeMQ_refines:
  assumes m: "m \<in> {1024 * 4, 32}"
  shows "rwq_holds m (lf_queue (LckFreeMQ m :: 'a lck_free_mq)) [] \<and>
    (\<forall>(q :: 'a lck_free_mq) xs. rwq_holds m (lf_queue q) xs \<longrightarrow>
      (\<forall>x. case LckFree_Push q x of (ok, q') \<Rightarrow>
         rwq_holds m (lf_queue q') (if ok then xs @ [x] else xs) \<and> (ok \<or> m \<le> length xs)) \<and>
      (case LckFree_Pop q of Inl e \<Rightarrow> False | Inr (r, q') \<Rightarrow>
         r = (case xs of [] \<Rightarrow> None | x # ys \<Rightarrow> Some x) \<and> rwq_holds m (lf_queue q') (tl xs)) \<and>
      (LckFree_IsEmpty q \<longleftrightarrow> xs = []))"
proof (intro conjI allI impI)
  show "rwq_holds m (lf_queue (LckFreeMQ m :: 'a lck_free_mq)) []" using m by (rule LckFreeMQ_empty)
next
  fix q :: "'a lck_free_mq" and xs x
  assume "rwq_holds m (lf_queue q) xs"
  from lf.push_law [OF this, of x] show "case LckFree_Push q x of (ok, q') \<Rightarrow>
     rwq_holds m (lf_queue q') (if ok then xs @ [x] else xs) \<and> (ok \<or> m \<le> length xs)" by (auto split: prod.splits)
next
  fix q :: "'a lck_free_mq" and xs
  assume h: "rwq_holds m (lf_queue q) xs"
  show "case LckFree_Pop q of Inl e \<Rightarrow> False | Inr (r, q') \<Rightarrow>
     r = (case xs of [] \<Rightarrow> None | x # ys \<Rightarrow> Some x) \<and> rwq_holds m (lf_queue q') (tl xs)"
    using h lf.pop_nil [of m q] lf.pop_cons [of m q] by (cases xs) fastforce+
  from lf.empty_law [OF h] show "LckFree_IsEmpty q = (xs = [])" .
qed

lemma LckFreeMQ_refines_witness:
  "case LckFree_Push (LckFreeMQ 32) (7 :: nat) of (ok, q') \<Rightarrow> ok \<and> rwq_holds 32 (lf_queue q') [7]"
proof -
  have q: "rwq_holds 32 (lf_queue (LckFreeMQ 32 :: nat lck_free_mq)) []"
    using LckFreeMQ_refines [of 32, where 'a = nat] by simp
  have m: "(32 :: nat) \<in> {1024 * 4, 32}" by simp
  from LckFreeMQ_refines [OF m, THEN conjunct2, THEN spec, THEN spec, THEN mp, OF q, THEN conjunct1, THEN spec, of 7]
  show ?thesis by (auto split: prod.splits)
qed

text \<open>C17. Two threads that hand a list over through a lock-free queue of one of the program's sizes,
  interleaved at every access to the queue and to the flag of the end: what has been popped is always
  a prefix of what is pushed, popping never fails on the slots, the consumer leaves its loop only when
  it has all elements and then the destructor does not exit, and from every reachable state the
  consumer can still be driven to its end.\<close>

theorem Queue_handover:
  assumes m: "m \<in> {1024 * 4, 32}"
    and run: "(ho_step LckFree_Push LckFree_Pop LckFree_IsEmpty)\<^sup>*\<^sup>* (ho_start (LckFreeMQ m) all) s"
  shows "(\<exists>rest. all = ho_got s @ rest) \<and> (\<forall>e. LckFree_Pop (ho_queue s) \<noteq> Inl e) \<and>
    (ho_pc s = Finished \<longrightarrow> ho_got s = all \<and> LckFree_delete (ho_queue s) = Inr ()) \<and>
    (\<exists>s'. (ho_step LckFree_Push LckFree_Pop LckFree_IsEmpty)\<^sup>*\<^sup>* s s' \<and> ho_pc s' = Finished)"
  using lf.handover [OF LckFreeMQ_empty [OF m] run] by (auto simp: LckFree_delete_def)

lemma Queue_handover_witness:
  "\<exists>s :: (nat, nat lck_free_mq) handover.
     (ho_step LckFree_Push LckFree_Pop LckFree_IsEmpty)\<^sup>*\<^sup>* (ho_start (LckFreeMQ 32) [1, 2, 3]) s \<and>
     ho_got s = [1, 2, 3]"
proof -
  have "\<exists>s'. (ho_step LckFree_Push LckFree_Pop LckFree_IsEmpty)\<^sup>*\<^sup>* (ho_start (LckFreeMQ 32) [1, 2, 3 :: nat]) s' \<and> ho_pc s' = Finished"
    using Queue_handover [of 32 "[1, 2, 3 :: nat]", OF _ rtranclp.rtrancl_refl] by simp
  then obtain s' where s': "(ho_step LckFree_Push LckFree_Pop LckFree_IsEmpty)\<^sup>*\<^sup>* (ho_start (LckFreeMQ 32) [1, 2, 3 :: nat]) s'"
    "ho_pc s' = Finished" by blast
  with Queue_handover [OF _ s'(1)] show ?thesis by auto
qed

subsection \<open>The blocking queue\<close>

text \<open>One step is a critical section of the mutex, from entering or being woken up to leaving or
  waiting. A waiting thread goes on only when its condition variable is notified (a spurious wake-up,
  which the C++ standard allows but does not promise, is left out).\<close>

datatype blk_pc = BAtDone | BAtEmpty | BAtPop | BWaitEmpty | BFinished

record 'a blk_handover =
  bk_mq :: "'a blocked_mq"
  bk_done :: bool
  bk_todo :: "'a list"
  bk_wait_full :: bool              \<comment> \<open>the producer waits on \<open>full_sign_\<close>\<close>
  bk_pc :: blk_pc                   \<comment> \<open>the consumer; \<open>BWaitEmpty\<close>: it waits on \<open>empty_sign_\<close>\<close>
  bk_got :: "'a list"

definition Blocked_IsEmpty :: "'a blocked_mq \<Rightarrow> bool" where
  "Blocked_IsEmpty q = (bm_queue q = [])"

definition Blocked_delete :: "'a blocked_mq \<Rightarrow> unit result" where
  "Blocked_delete q = (if Blocked_IsEmpty q then Inr () else Inl QueueNotEmpty)"

definition Blocked_Push :: "'a blk_handover \<Rightarrow> 'a \<Rightarrow> 'a list \<Rightarrow> 'a blk_handover" where
  "Blocked_Push s x xs =
    (if length (bm_queue (bk_mq s)) = bm_max_queue_size (bk_mq s) then s \<lparr> bk_wait_full := True \<rparr>
     else s \<lparr> bk_mq := bk_mq s \<lparr> bm_queue := bm_queue (bk_mq s) @ [x] \<rparr>, bk_todo := xs,
            bk_pc := (if bk_pc s = BWaitEmpty then BAtPop else bk_pc s) \<rparr>)"

definition Blocked_Pop :: "'a blk_handover \<Rightarrow> 'a blk_handover" where
  "Blocked_Pop s =
    (case bm_queue (bk_mq s) of
       [] \<Rightarrow> if \<not> bk_done s then s \<lparr> bk_pc := BWaitEmpty \<rparr> else s \<lparr> bk_pc := BAtDone \<rparr>
     | x # xs \<Rightarrow> s \<lparr> bk_mq := bk_mq s \<lparr> bm_queue := xs \<rparr>, bk_wait_full := False, bk_pc := BAtDone,
                   bk_got := bk_got s @ [x] \<rparr>)"

definition blk_start :: "nat \<Rightarrow> 'a list \<Rightarrow> 'a blk_handover" where
  "blk_start m xs = \<lparr> bk_mq = BlockedMQ m, bk_done = False, bk_todo = xs, bk_wait_full = False,
     bk_pc = BAtDone, bk_got = [] \<rparr>"

inductive blk_step :: "'a blk_handover \<Rightarrow> 'a blk_handover \<Rightarrow> bool" where
  blk_push: "bk_todo s = x # xs \<Longrightarrow> \<not> bk_wait_full s \<Longrightarrow> blk_step s (Blocked_Push s x xs)"
| blk_finish: "bk_todo s = [] \<Longrightarrow> \<not> bk_done s \<Longrightarrow> blk_step s (s \<lparr> bk_done := True \<rparr>)"
| blk_test_done: "bk_pc s = BAtDone \<Longrightarrow> blk_step s (s \<lparr> bk_pc := (if bk_done s then BAtEmpty else BAtPop) \<rparr>)"
| blk_test_empty: "bk_pc s = BAtEmpty \<Longrightarrow>
    blk_step s (s \<lparr> bk_pc := (if Blocked_IsEmpty (bk_mq s) then BFinished else BAtPop) \<rparr>)"
| blk_pop: "bk_pc s = BAtPop \<Longrightarrow> blk_step s (Blocked_Pop s)"

inductive_cases blk_stepE: "blk_step s s'"

definition blk_inv :: "nat \<Rightarrow> 'a list \<Rightarrow> 'a blk_handover \<Rightarrow> bool" where
  "blk_inv m all s \<longleftrightarrow>
     all = bk_got s @ bm_queue (bk_mq s) @ bk_todo s \<and> bm_max_queue_size (bk_mq s) = m \<and>
     length (bm_queue (bk_mq s)) \<le> m \<and> (bk_done s \<longrightarrow> bk_todo s = []) \<and>
     (bk_pc s \<in> {BAtEmpty, BFinished} \<longrightarrow> bk_done s) \<and> (bk_pc s = BFinished \<longrightarrow> bm_queue (bk_mq s) = [])"

lemma blk_inv_run:
  assumes "blk_step\<^sup>*\<^sup>* (blk_start m all) s"
  shows "blk_inv m all s"
  using assms
proof (induction rule: rtranclp_induct)
  case base
  show ?case by (simp add: blk_inv_def blk_start_def BlockedMQ_def)
next
  case (step s s')
  from step.hyps(2) step.IH show ?case
    by (cases rule: blk_step.cases)
      (auto simp: blk_inv_def Blocked_Push_def Blocked_Pop_def Blocked_IsEmpty_def split: list.splits)
qed

lemma blk_alternate:
  assumes "0 < m" "bk_mq s = BlockedMQ m" "\<not> bk_wait_full s" "bk_pc s = BAtDone" "\<not> bk_done s"
  shows "blk_step\<^sup>*\<^sup>* s (s \<lparr> bk_todo := [], bk_pc := BAtDone, bk_got := bk_got s @ bk_todo s \<rparr>)"
  using assms
proof (induction "bk_todo s" arbitrary: s)
  case Nil
  then have "s \<lparr> bk_todo := [], bk_pc := BAtDone, bk_got := bk_got s @ bk_todo s \<rparr> = s" by simp
  then show ?case by simp
next
  case (Cons x xs)
  let ?q = "BlockedMQ m \<lparr> bm_queue := [x] \<rparr>"
  let ?a = "s \<lparr> bk_mq := ?q, bk_todo := xs \<rparr>"
  let ?t = "s \<lparr> bk_todo := xs, bk_got := bk_got s @ [x] \<rparr>"
  have "Blocked_Push s x xs = ?a" using Cons.prems by (cases s) (simp add: Blocked_Push_def BlockedMQ_def)
  with blk_push [OF Cons.hyps(2) [symmetric]] Cons.prems have "blk_step\<^sup>*\<^sup>* s ?a" by (auto intro: r_into_rtranclp)
  also have "blk_step ?a (?a \<lparr> bk_pc := BAtPop \<rparr>)" using blk_test_done [of ?a] Cons.prems by simp
  also have "blk_step (?a \<lparr> bk_pc := BAtPop \<rparr>) ?t"
  proof -
    have "Blocked_Pop (?a \<lparr> bk_pc := BAtPop \<rparr>) = ?t"
      using Cons.prems by (cases s) (simp add: Blocked_Pop_def BlockedMQ_def)
    with blk_pop [of "?a \<lparr> bk_pc := BAtPop \<rparr>"] show ?thesis by simp
  qed
  finally have "blk_step\<^sup>*\<^sup>* s ?t" .
  moreover have "blk_step\<^sup>*\<^sup>* ?t (?t \<lparr> bk_todo := [], bk_pc := BAtDone, bk_got := bk_got ?t @ bk_todo ?t \<rparr>)"
    by (rule Cons.hyps(1)) (use Cons.prems in simp_all)
  ultimately show ?case using Cons.hyps(2) [symmetric] by simp
qed

text \<open>C40. The blocking queue also hands over in order and within its size, but the end of the producer
  notifies nobody: for every list there is an interleaving after which all elements are handed over,
  the producer has set its flag, and the consumer waits in \<open>Pop\<close> with no step left.\<close>

theorem BlockedMQ_lost_wakeup:
  assumes "0 < m"
  shows "(\<forall>s. blk_step\<^sup>*\<^sup>* (blk_start m all) s \<longrightarrow>
      all = bk_got s @ bm_queue (bk_mq s) @ bk_todo s \<and> length (bm_queue (bk_mq s)) \<le> m \<and>
      (bk_pc s = BFinished \<longrightarrow> bk_got s = all \<and> Blocked_delete (bk_mq s) = Inr ())) \<and>
    (\<exists>s. blk_step\<^sup>*\<^sup>* (blk_start m all) s \<and> bk_got s = all \<and> bk_done s \<and> bk_pc s = BWaitEmpty \<and>
      (\<forall>s'. \<not> blk_step s s'))"
proof (rule conjI)
  show "\<forall>s. blk_step\<^sup>*\<^sup>* (blk_start m all) s \<longrightarrow>
      all = bk_got s @ bm_queue (bk_mq s) @ bk_todo s \<and> length (bm_queue (bk_mq s)) \<le> m \<and>
      (bk_pc s = BFinished \<longrightarrow> bk_got s = all \<and> Blocked_delete (bk_mq s) = Inr ())"
    by (auto dest!: blk_inv_run simp: blk_inv_def Blocked_delete_def Blocked_IsEmpty_def)
next
  let ?s = "blk_start m all \<lparr> bk_todo := [], bk_pc := BAtDone, bk_got := all \<rparr>"
  have "blk_step\<^sup>*\<^sup>* (blk_start m all) ?s"
    using blk_alternate [OF assms, of "blk_start m all"] by (simp add: blk_start_def)
  also have "blk_step ?s (?s \<lparr> bk_pc := BAtPop \<rparr>)"
    using blk_test_done [of ?s] by (simp add: blk_start_def)
  also have "blk_step (?s \<lparr> bk_pc := BAtPop \<rparr>) (?s \<lparr> bk_pc := BWaitEmpty \<rparr>)"
    using blk_pop [of "?s \<lparr> bk_pc := BAtPop \<rparr>"] by (simp add: blk_start_def Blocked_Pop_def BlockedMQ_def)
  also have "blk_step (?s \<lparr> bk_pc := BWaitEmpty \<rparr>) (?s \<lparr> bk_pc := BWaitEmpty, bk_done := True \<rparr>)"
    using blk_finish [of "?s \<lparr> bk_pc := BWaitEmpty \<rparr>"] by (simp add: blk_start_def)
  finally have run: "blk_step\<^sup>*\<^sup>* (blk_start m all) (?s \<lparr> bk_pc := BWaitEmpty, bk_done := True \<rparr>)" .
  have "\<not> blk_step (?s \<lparr> bk_pc := BWaitEmpty, bk_done := True \<rparr>) s'" for s'
    by (auto simp: blk_start_def elim: blk_stepE)
  with run show "\<exists>s. blk_step\<^sup>*\<^sup>* (blk_start m all) s \<and> bk_got s = all \<and> bk_done s \<and> bk_pc s = BWaitEmpty \<and>
      (\<forall>s'. \<not> blk_step s s')"
    by (intro exI [of _ "?s \<lparr> bk_pc := BWaitEmpty, bk_done := True \<rparr>"]) simp
qed

lemma BlockedMQ_lost_wakeup_witness:
  "\<exists>s. blk_step\<^sup>*\<^sup>* (blk_start 4 [1, 2 :: nat]) s \<and> bk_got s = [1, 2] \<and> (\<forall>s'. \<not> blk_step s s')"
  using BlockedMQ_lost_wakeup [of 4 "[1, 2 :: nat]"] by auto

end
