(* ===== verification/Ssl_Conn.thy ===== *)
theory Ssl_Conn
  imports Kv_Store
begin

text \<open>
  Messages over a TLS connection: \<open>SendData\<close> and \<open>ReceiveData\<close> of \<open>src/network/ssl_conn.cc\<close>. A
  message is its length in four bytes and then its data. OpenSSL is a parameter: the record \<open>tls\<close>
  holds the functions the code calls on a connection \<open>SSL*\<close> of type \<open>'s\<close>, and \<open>tls_ok\<close> states what
  its manual promises of a connection that stays up, with \<open>wire\<close> the TLS records under way. Setting
  up and closing a connection is not modelled.
\<close>

subsection \<open>The code\<close>

record 's tls =
  SSL_write :: "'s \<Rightarrow> bytes \<Rightarrow> nat \<times> 's"          \<comment> \<open>0: the result is not positive\<close>
  SSL_read :: "'s \<Rightarrow> nat \<Rightarrow> bytes \<times> 's"           \<comment> \<open>the bytes read, none: the result is not positive\<close>
  SSL_peer_closed :: "'s \<Rightarrow> bool"                    \<comment> \<open>\<open>SSL_get_error\<close> is \<open>SSL_ERROR_ZERO_RETURN\<close>\<close>
  SSL_shutdown :: "'s \<Rightarrow> 's"

function ssl_send_loop :: "'s tls \<Rightarrow> 's \<Rightarrow> bytes \<Rightarrow> nat \<Rightarrow> bool \<times> 's" where
  "ssl_send_loop tls ssl_conn data current_send_size =
    (if current_send_size < length data then
       (case SSL_write tls ssl_conn (drop current_send_size data) of (write_stat, ssl_conn) \<Rightarrow>
          if write_stat = 0 then (False, ssl_conn)
          else ssl_send_loop tls ssl_conn data (current_send_size + write_stat))
     else (True, ssl_conn))"
  by pat_completeness auto
termination by (relation "measure (\<lambda>(_, _, data, n). length data - n)") auto

declare ssl_send_loop.simps [simp del]

definition SendData :: "'s tls \<Rightarrow> 's \<Rightarrow> bytes \<Rightarrow> bool \<times> 's" where
  "SendData tls ssl_conn data =
    (case SSL_write tls ssl_conn (u32_le (of_nat (length data))) of (write_stat, ssl_conn) \<Rightarrow>
       if write_stat = 0 then (False, ssl_conn) else ssl_send_loop tls ssl_conn data 0)"

function ssl_recv_loop :: "'s tls \<Rightarrow> 's \<Rightarrow> bytes \<Rightarrow> nat \<Rightarrow> nat \<Rightarrow> (bool \<times> bytes \<times> 's) result" where
  "ssl_recv_loop tls ssl_conn data current_recv_size msg_size =
    (if current_recv_size < msg_size then
       (case SSL_read tls ssl_conn (msg_size - current_recv_size) of (got, ssl_conn) \<Rightarrow>
          if got = [] then Inr (False, data, ssl_conn)
          else (case mem_write data current_recv_size got of
                  Inl e \<Rightarrow> Inl e
                | Inr data \<Rightarrow> ssl_recv_loop tls ssl_conn data (current_recv_size + length got) msg_size))
     else Inr (True, data, ssl_conn))"
  by pat_completeness auto
termination
proof (relation "measure (\<lambda>(_, _, _, n, m). m - n)", goal_cases)
  case 2
  then show ?case by (simp add: diff_less_mono2 flip: length_greater_0_conv)
qed simp

declare ssl_recv_loop.simps [simp del]

definition ReceiveData :: "'s tls \<Rightarrow> 's \<Rightarrow> bytes \<Rightarrow> nat \<Rightarrow> (bool \<times> bytes \<times> nat \<times> 's) result" where
  \<comment> \<open>the length is read by one call into a variable that is 0; \<open>data\<close> is the whole buffer of the caller\<close>
  "ReceiveData tls ssl_conn data recv_size =
    (case SSL_read tls ssl_conn 4 of (got, ssl_conn) \<Rightarrow>
       if got = [] then
         Inr (False, data, recv_size, if SSL_peer_closed tls ssl_conn then SSL_shutdown tls ssl_conn else ssl_conn)
       else let msg_size = le_nat (overlay got (nat_le 4 0))
            in bindR (ssl_recv_loop tls ssl_conn data 0 msg_size) (\<lambda>(ok, data, ssl_conn).
                 Inr (ok, data, if ok then msg_size else recv_size, ssl_conn)))"

text \<open>Sending a sequence of messages, and receiving into a sequence of buffers.\<close>

fun send_all :: "'s tls \<Rightarrow> 's \<Rightarrow> bytes list \<Rightarrow> bool \<times> 's" where
  "send_all tls c [] = (True, c)"
| "send_all tls c (m # ms) = (case SendData tls c m of (ok, c) \<Rightarrow> if ok then send_all tls c ms else (False, c))"

fun receive_all :: "'s tls \<Rightarrow> 's \<Rightarrow> bytes list \<Rightarrow> ((bool \<times> bytes \<times> nat) list \<times> 's) result" where
  "receive_all tls c [] = Inr ([], c)"
| "receive_all tls c (b # bs) =
     bindR (ReceiveData tls c b 0) (\<lambda>(ok, b, n, c).
       bindR (receive_all tls c bs) (\<lambda>(rs, c). Inr ((ok, b, n) # rs, c)))"

subsection \<open>What the TLS library promises\<close>

text \<open>
  A write succeeds for at least one byte and sends one record for up to \<open>2 ^ 14\<close> bytes; a read
  delivers bytes of the first record only, as many as are asked for and left in it.
\<close>

definition tls_ok :: "'s tls \<Rightarrow> ('s \<Rightarrow> bytes list) \<Rightarrow> bool" where
  "tls_ok tls wire \<longleftrightarrow>
    (\<forall>c data. data \<noteq> [] \<longrightarrow>
      (case SSL_write tls c data of (n, c') \<Rightarrow> 0 < n \<and> n \<le> length data \<and>
         (\<exists>rs. wire c' = wire c @ rs \<and> [] \<notin> set rs \<and> concat rs = take n data \<and>
           (length data \<le> 2 ^ 14 \<longrightarrow> rs = [data])))) \<and>
    (\<forall>c r rs n. wire c = r # rs \<longrightarrow> r \<noteq> [] \<longrightarrow> 0 < n \<longrightarrow>
      (case SSL_read tls c n of (got, c') \<Rightarrow>
         got = take n r \<and> wire c' = (if length r \<le> n then rs else drop n r # rs)))"

lemma tls_write:
  assumes "tls_ok tls wire" "data \<noteq> []"
  obtains n c' rs where "SSL_write tls c data = (n, c')" "0 < n" "n \<le> length data" "wire c' = wire c @ rs"
    "[] \<notin> set rs" "concat rs = take n data" "length data \<le> 2 ^ 14 \<Longrightarrow> rs = [data]"
proof -
  obtain n c' where w: "SSL_write tls c data = (n, c')" by fastforce
  from assms(1) [unfolded tls_ok_def, THEN conjunct1, THEN spec, THEN spec, THEN mp, OF assms(2), of c, unfolded w]
  show thesis using that [OF w] by auto
qed

lemma tls_read_record:
  assumes "tls_ok tls wire" "wire c = r # rs" "r \<noteq> []" "length r \<le> n"
  obtains c' where "SSL_read tls c n = (r, c')" "wire c' = rs"
proof -
  have n: "0 < n" using assms by (cases r) auto
  obtain got c' where w: "SSL_read tls c n = (got, c')" by fastforce
  from assms(1) [unfolded tls_ok_def, THEN conjunct2, rule_format, OF assms(2,3) n, unfolded w]
  show thesis using that [of c'] w assms(4) by auto
qed

subsection \<open>One message\<close>

lemma ssl_send_records:
  assumes "tls_ok tls wire" "n \<le> length data"
  shows "\<exists>c' rs. ssl_send_loop tls c data n = (True, c') \<and> wire c' = wire c @ rs \<and> [] \<notin> set rs \<and> concat rs = drop n data"
  using assms(2)
proof (induction "length data - n" arbitrary: c n rule: less_induct)
  case less
  show ?case
  proof (cases "n < length data")
    case False
    with less.prems show ?thesis by (intro exI [of _ c] exI [of _ "[]"]) (simp add: ssl_send_loop.simps)
  next
    case True
    then have "drop n data \<noteq> []" by simp
    from tls_write [OF assms(1) this, of c] obtain k c1 rs1 where 1: "SSL_write tls c (drop n data) = (k, c1)" "0 < k" "k \<le> length (drop n data)"
      "wire c1 = wire c @ rs1" "[] \<notin> set rs1" "concat rs1 = take k (drop n data)"
      by metis
    with True have "length data - (n + k) < length data - n" "n + k \<le> length data" by auto
    from less.hyps [OF this, of c1] obtain c' rs2 where 2: "ssl_send_loop tls c1 data (n + k) = (True, c')"
      "wire c' = wire c1 @ rs2" "[] \<notin> set rs2" "concat rs2 = drop (n + k) data" by blast
    have "drop n data = take k (drop n data) @ drop (n + k) data"
      by (metis add.commute append_take_drop_id drop_drop)
    with True 1 2 show ?thesis
      by (intro exI [of _ c'] exI [of _ "rs1 @ rs2"]) (simp add: ssl_send_loop.simps)
  qed
qed

lemma ssl_recv_records:
  assumes "tls_ok tls wire" "wire c = rs @ rest" "[] \<notin> set rs" "concat rs = m" "n \<le> length data"
  shows "if n + length m \<le> length data
    then \<exists>c'. ssl_recv_loop tls c data n (n + length m) = Inr (True, take n data @ m @ drop (n + length m) data, c') \<and> wire c' = rest
    else ssl_recv_loop tls c data n (n + length m) = Inl OutOfBounds"
  using assms(2-)
proof (induction rs arbitrary: c data n m)
  case Nil
  then show ?case by (simp add: ssl_recv_loop.simps)
next
  case (Cons r rs)
  let ?m = "concat rs"
  have r: "r \<noteq> []" "m = r @ ?m" using Cons.prems by auto
  then have "wire c = r # (rs @ rest)" "length r \<le> n + length m - n" using Cons.prems(1) by simp_all
  then obtain c1 where c1: "SSL_read tls c (n + length m - n) = (r, c1)" "wire c1 = rs @ rest"
    using tls_read_record [OF assms(1), of c r "rs @ rest" "n + length m - n"] r(1) by blast
  have step: "ssl_recv_loop tls c data n (n + length m) =
    (case mem_write data n r of Inl e \<Rightarrow> Inl e | Inr d \<Rightarrow> ssl_recv_loop tls c1 d (n + length r) (n + length r + length ?m))"
    using c1(1) r by (simp add: ssl_recv_loop.simps [of tls c] add.assoc [symmetric])
  show ?case
  proof (cases "n + length r \<le> length data")
    case False
    with step r(2) show ?thesis by (simp add: mem_write_def)
  next
    case True
    let ?d = "take n data @ r @ drop (n + length r) data"
    have d: "mem_write data n r = Inr ?d" using True by (simp add: mem_write_def)
    have l: "length ?d = length data" "n + length r \<le> length ?d" using True by auto
    have e: "take (n + length r) ?d @ ?m @ drop (n + length r + length ?m) ?d = take n data @ m @ drop (n + length m) data"
      using True r(2) by (simp add: add.assoc add.commute add.left_commute)
    have nil: "[] \<notin> set rs" using Cons.prems(2) by simp
    from Cons.IH [OF c1(2) nil refl l(2)] show ?thesis
      unfolding step d l(1) e using r(2) by (simp only: sum.case length_append add.assoc)
  qed
qed

text \<open>A sequence of messages as TLS records: each has a record for its length and then its data.\<close>

fun framed :: "bytes list \<Rightarrow> bytes list \<Rightarrow> bool" where
  "framed rs [] \<longleftrightarrow> rs = []"
| "framed rs (m # ms) \<longleftrightarrow>
     (\<exists>fs rs'. rs = u32_le (of_nat (length m)) # fs @ rs' \<and> [] \<notin> set fs \<and> concat fs = m \<and> framed rs' ms)"

lemma framed_append: "framed rs ms \<Longrightarrow> framed rs' ms' \<Longrightarrow> framed (rs @ rs') (ms @ ms')"
proof (induction ms arbitrary: rs)
  case (Cons m ms)
  then obtain fs rs1 where "rs = u32_le (of_nat (length m)) # fs @ rs1" "[] \<notin> set fs" "concat fs = m" "framed rs1 ms"
    by auto
  moreover from Cons.IH [OF this(4) Cons.prems(2)] have "framed (rs1 @ rs') (ms @ ms')" .
  ultimately show ?case by (simp, intro exI [of _ fs] exI [of _ "rs1 @ rs'"]) simp
qed simp

lemma SendData_framed:
  assumes "tls_ok tls wire"
  shows "\<exists>c' rs. SendData tls c m = (True, c') \<and> wire c' = wire c @ rs \<and> framed rs [m]"
proof -
  let ?h = "u32_le (of_nat (length m))"
  have l: "length ?h \<le> 2 ^ 14" "?h \<noteq> []" by (simp, metis length_u32_le list.size(3) zero_neq_numeral)
  obtain n c1 rs where 1: "SSL_write tls c ?h = (n, c1)" "0 < n" "wire c1 = wire c @ rs" "length ?h \<le> 2 ^ 14 \<Longrightarrow> rs = [?h]"
    using tls_write [OF assms l(2), of c] by metis
  obtain c' fs where 2: "ssl_send_loop tls c1 m 0 = (True, c')" "wire c' = wire c1 @ fs" "[] \<notin> set fs" "concat fs = m"
    using ssl_send_records [OF assms, of 0 m c1] by auto
  from 1 2 l(1) show ?thesis by (intro exI [of _ c'] exI [of _ "?h # fs"]) (simp add: SendData_def)
qed

lemma ReceiveData_framed:
  assumes "tls_ok tls wire" "wire c = rs @ rest" "framed rs [m]" "length m < 2 ^ 32"
  shows "if length m \<le> length data
    then \<exists>c'. ReceiveData tls c data n = Inr (True, overlay m data, length m, c') \<and> wire c' = rest
    else ReceiveData tls c data n = Inl OutOfBounds"
proof -
  let ?h = "u32_le (of_nat (length m))"
  obtain fs where fs: "rs = ?h # fs" "[] \<notin> set fs" "concat fs = m" using assms(3) by auto
  have "?h \<noteq> []" "length ?h \<le> 4" by (metis length_u32_le list.size(3) zero_neq_numeral) simp
  then obtain c1 where c1: "SSL_read tls c 4 = (?h, c1)" "wire c1 = fs @ rest"
    using tls_read_record [OF assms(1), of c ?h "fs @ rest" 4] assms(2) fs(1) by auto
  have size: "le_nat (overlay ?h (nat_le 4 0)) = length m"
    using assms(4) by (simp add: u32_le_def le_nat_nat_le unat_of_nat)
  have "ReceiveData tls c data n = bindR (ssl_recv_loop tls c1 data 0 (length m)) (\<lambda>(ok, data, ssl_conn).
      Inr (ok, data, if ok then length m else n, ssl_conn))"
    using c1(1) \<open>?h \<noteq> []\<close> size by (simp add: ReceiveData_def Let_def)
  then show ?thesis
    using ssl_recv_records [OF assms(1) c1(2) fs(2,3), of 0 data] by (auto simp: overlay_def split: if_splits)
qed

subsection \<open>A sequence of messages\<close>

lemma send_all_framed:
  assumes "tls_ok tls wire"
  shows "\<exists>c' rs. send_all tls c ms = (True, c') \<and> wire c' = wire c @ rs \<and> framed rs ms"
proof (induction ms arbitrary: c)
  case Nil
  show ?case by simp
next
  case (Cons m ms)
  obtain c1 rs1 where 1: "SendData tls c m = (True, c1)" "wire c1 = wire c @ rs1" "framed rs1 [m]"
    using SendData_framed [OF assms] by blast
  obtain c' rs2 where 2: "send_all tls c1 ms = (True, c')" "wire c' = wire c1 @ rs2" "framed rs2 ms"
    using Cons.IH by blast
  have "framed (rs1 @ rs2) (m # ms)" using framed_append [OF 1(3) 2(3)] by (simp del: framed.simps)
  with 1 2 show ?case by (intro exI [of _ c'] exI [of _ "rs1 @ rs2"]) (simp del: framed.simps)
qed

lemma receive_all_framed:
  assumes "tls_ok tls wire" "wire c = rs @ rest" "framed rs ms" "\<forall>m \<in> set ms. length m < 2 ^ 32"
    "list_all2 (\<lambda>m b. length m \<le> length b) ms bs"
  shows "\<exists>c'. receive_all tls c bs = Inr (map2 (\<lambda>m b. (True, overlay m b, length m)) ms bs, c') \<and> wire c' = rest"
  using assms(2-)
proof (induction ms arbitrary: c rs bs)
  case Nil
  then show ?case by simp
next
  case (Cons m ms)
  obtain b bs' where b: "bs = b # bs'" "length m \<le> length b" "list_all2 (\<lambda>m b. length m \<le> length b) ms bs'"
    using Cons.prems(4) by (cases bs) auto
  obtain fs rs' where f: "rs = (u32_le (of_nat (length m)) # fs) @ rs'" "[] \<notin> set fs" "concat fs = m" "framed rs' ms"
    using Cons.prems(2) by auto
  have "wire c = (u32_le (of_nat (length m)) # fs) @ (rs' @ rest)" "framed (u32_le (of_nat (length m)) # fs) [m]" "length m < 2 ^ 32"
    using Cons.prems(1,3) f by simp_all
  from ReceiveData_framed [OF assms(1) this, of b 0] b(2) obtain c1 where
    1: "ReceiveData tls c b 0 = Inr (True, overlay m b, length m, c1)" "wire c1 = rs' @ rest" by auto
  from Cons.IH [OF 1(2) f(4) _ b(3)] Cons.prems(3) obtain c' where
    "receive_all tls c1 bs' = Inr (map2 (\<lambda>m b. (True, overlay m b, length m)) ms bs', c')" "wire c' = rest" by auto
  with 1 b show ?case by simp
qed


text \<open>A connection whose state is the list of records: it writes at most one record at a time.\<close>

definition demo_tls :: "bytes list tls" where
  "demo_tls =
    \<lparr> SSL_write = (\<lambda>c data. (min (2 ^ 14) (length data), if data = [] then c else c @ [take (2 ^ 14) data])),
      SSL_read = (\<lambda>c n. case c of [] \<Rightarrow> ([], []) | r # rs \<Rightarrow> (take n r, if length r \<le> n then rs else drop n r # rs)),
      SSL_peer_closed = (\<lambda>c. c = []), SSL_shutdown = (\<lambda>c. c) \<rparr>"

lemma demo_tls_ok: "tls_ok demo_tls (\<lambda>c. c)"
  by (auto simp: tls_ok_def demo_tls_def min_def)




end
