(* ===== verification/Login.thy ===== *)
theory Login
  imports Ssl_Conn Retriever
begin

text \<open>
  The login exchange that opens every session: \<open>SenderThd::UploadLogin\<close>,
  \<open>DataRetrieverThd::DownloadLogin\<close> and the first half of \<open>ServerOptThd::Run\<close> with
  \<open>CheckFileStat\<close>, byte by byte over the two directions of a TLS connection. What malloc leaves in
  a buffer is the argument \<open>junk\<close>; the recipe files of the server are a map from paths to contents.
\<close>

subsection \<open>The network header\<close>

definition protocol_code :: "network_protocol \<Rightarrow> u32" where
  "protocol_code t = (case t of
     CLIENT_LOGIN_UPLOAD \<Rightarrow> 0 | CLIENT_LOGIN_DOWNLOAD \<Rightarrow> 1 | SERVER_LOGIN_RESPONSE \<Rightarrow> 2 | CLIENT_UPLOAD_CHUNK \<Rightarrow> 3
   | CLIENT_UPLOAD_RECIPE \<Rightarrow> 4 | CLIENT_UPLOAD_RECIPE_END \<Rightarrow> 5 | SERVER_FILE_NON_EXIST \<Rightarrow> 6 | SERVER_RESTORE_RECIPE \<Rightarrow> 7
   | CLIENT_RESTORE_READY \<Rightarrow> 8 | CLIENT_KEY_GEN \<Rightarrow> 9 | KEY_MANAGER_KEY_GEN_REPLY \<Rightarrow> 10
   | CLIENT_RESTORE_RECIPE_REPLY \<Rightarrow> 11 | SERVER_RESTORE_CHUNK \<Rightarrow> 12 | SERVER_RESTORE_FINAL \<Rightarrow> 13
   | CLIENT_UPLOAD_FEATURE \<Rightarrow> 14)"

definition code_protocol :: "u32 \<Rightarrow> network_protocol option" where
  "code_protocol w = List.find (\<lambda>t. protocol_code t = w)
     [CLIENT_LOGIN_UPLOAD, CLIENT_LOGIN_DOWNLOAD, SERVER_LOGIN_RESPONSE, CLIENT_UPLOAD_CHUNK, CLIENT_UPLOAD_RECIPE,
      CLIENT_UPLOAD_RECIPE_END, SERVER_FILE_NON_EXIST, SERVER_RESTORE_RECIPE, CLIENT_RESTORE_READY, CLIENT_KEY_GEN,
      KEY_MANAGER_KEY_GEN_REPLY, CLIENT_RESTORE_RECIPE_REPLY, SERVER_RESTORE_CHUNK, SERVER_RESTORE_FINAL,
      CLIENT_UPLOAD_FEATURE]"

lemma code_protocol_code [simp]: "code_protocol (protocol_code t) = Some t"
  by (cases t) (simp_all add: code_protocol_def protocol_code_def)

record network_head =
  nh_client_id :: u32
  nh_msg_type :: u32
  nh_cur_item_num :: u32
  nh_size :: u32

definition NETWORK_HEAD_SIZE :: nat where "NETWORK_HEAD_SIZE = 16"

definition head_bytes :: "network_head \<Rightarrow> bytes" where
  "head_bytes h = u32_le (nh_client_id h) @ u32_le (nh_msg_type h) @ u32_le (nh_cur_item_num h) @ u32_le (nh_size h)"

definition head_of :: "bytes \<Rightarrow> network_head" where
  \<comment> \<open>the header a buffer starts with\<close>
  "head_of buf = \<lparr> nh_client_id = le_u32 (take 4 buf), nh_msg_type = le_u32 (take 4 (drop 4 buf)),
     nh_cur_item_num = le_u32 (take 4 (drop 8 buf)), nh_size = le_u32 (take 4 (drop 12 buf)) \<rparr>"

lemma length_head_bytes [simp]: "length (head_bytes h) = 16"
  by (simp add: head_bytes_def)

lemma head_of_bytes [simp]: "head_of (head_bytes h @ data) = h"
  by (simp add: head_of_def head_bytes_def)

definition set_msg_type :: "network_protocol \<Rightarrow> bytes \<Rightarrow> bytes" where
  "set_msg_type t buf = head_bytes (head_of buf \<lparr> nh_msg_type := protocol_code t \<rparr>) @ drop NETWORK_HEAD_SIZE buf"

lemma set_msg_type_bytes [simp]:
  "set_msg_type t (head_bytes h @ data) = head_bytes (h \<lparr> nh_msg_type := protocol_code t \<rparr>) @ data"
  by (simp add: set_msg_type_def NETWORK_HEAD_SIZE_def)

subsection \<open>The client\<close>

definition login_request :: "(nat \<Rightarrow> bytes) \<Rightarrow> u32 \<Rightarrow> network_protocol \<Rightarrow> bytes \<Rightarrow> bytes" where
  \<comment> \<open>\<open>cur_item_num\<close> is not set\<close>
  "login_request junk client_id msg_type file_name_hash =
     head_bytes (head_of (junk (NETWORK_HEAD_SIZE + CHUNK_HASH_SIZE))
       \<lparr> nh_client_id := client_id, nh_msg_type := protocol_code msg_type, nh_size := of_nat CHUNK_HASH_SIZE \<rparr>) @
     take CHUNK_HASH_SIZE file_name_hash"

definition send_login :: "'s tls \<Rightarrow> 's \<Rightarrow> bytes \<Rightarrow> 's result" where
  "send_login tls up login_buf =
     (case SendData tls up login_buf of (ok, up) \<Rightarrow> if ok then Inr up else Inl NetworkError)"

definition UploadLogin_response :: "'s tls \<Rightarrow> 's \<Rightarrow> bytes \<Rightarrow> 's result" where
  "UploadLogin_response tls down login_buf =
    bindR (ReceiveData tls down login_buf 0) (\<lambda>(ok, login_buf, recv_size, down).
      if \<not> ok then Inl NetworkError
      else if nh_msg_type (head_of login_buf) = protocol_code SERVER_LOGIN_RESPONSE then Inr down
      else Inl LoginError)"

definition DownloadLogin_response :: "'s tls \<Rightarrow> 's \<Rightarrow> bytes \<Rightarrow> data_retriever \<Rightarrow> (data_retriever \<times> 's) result" where
  "DownloadLogin_response tls down login_buf rt =
    bindR (ReceiveData tls down login_buf 0) (\<lambda>(ok, login_buf, recv_size, down).
      if \<not> ok then Inl NetworkError
      else (case code_protocol (nh_msg_type (head_of login_buf)) of
              None \<Rightarrow> Inl LoginError
            | Some t \<Rightarrow> bindR (DownloadLogin rt (t, unat (nh_cur_item_num (head_of login_buf)), drop NETWORK_HEAD_SIZE login_buf))
                (\<lambda>rt. Inr (rt, down))))"

subsection \<open>The server\<close>

definition hex_digit :: "nat \<Rightarrow> byte" where
  "hex_digit d = (if d < 10 then of_nat (48 + d) else of_nat (87 + d))"

definition hex_byte :: "byte \<Rightarrow> bytes" where
  \<comment> \<open>\<open>sprintf\<close> with \<open>%02x\<close>\<close>
  "hex_byte b = [hex_digit (unat b div 16), hex_digit (unat b mod 16)]"

definition recipe_path :: "bytes \<Rightarrow> bytes \<Rightarrow> bytes \<Rightarrow> bytes" where
  "recipe_path root suffix file_name_hash = root @ concat (map hex_byte file_name_hash) @ suffix"

definition CheckFileStat :: "(bytes, bytes) umap \<Rightarrow> bytes \<Rightarrow> client_opt_type \<Rightarrow> bool" where
  "CheckFileStat files path opt_type =
     (case map_of files path of Some _ \<Rightarrow> True | None \<Rightarrow> (case opt_type of UPLOAD_OPT \<Rightarrow> True | DOWNLOAD_OPT \<Rightarrow> False))"

datatype session = Rejected | Uploading bytes | Downloading istream

definition login_opt :: "bytes \<Rightarrow> client_opt_type result" where
  "login_opt buf =
    (case code_protocol (nh_msg_type (head_of buf)) of
       Some CLIENT_LOGIN_UPLOAD \<Rightarrow> Inr UPLOAD_OPT
     | Some CLIENT_LOGIN_DOWNLOAD \<Rightarrow> Inr DOWNLOAD_OPT
     | _ \<Rightarrow> Inl WrongMsgType)"

definition send_reply :: "'s tls \<Rightarrow> 's \<Rightarrow> bytes \<Rightarrow> 's result" where
  "send_reply tls down msg = (case SendData tls down msg of (ok, down) \<Rightarrow> if ok then Inr down else Inl NetworkError)"

definition reject_login :: "'s tls \<Rightarrow> bytes \<Rightarrow> 's \<Rightarrow> 's \<Rightarrow> ('s \<times> 's) result" where
  \<comment> \<open>then the server waits until the client has closed the connection\<close>
  "reject_login tls buf up down =
    bindR (send_reply tls down (take NETWORK_HEAD_SIZE (set_msg_type SERVER_FILE_NON_EXIST buf))) (\<lambda>down.
    bindR (ReceiveData tls up (set_msg_type SERVER_FILE_NON_EXIST buf) 0) (\<lambda>(ok, _, _, up).
      if ok then Inl NetworkError else Inr (up, down)))"

definition accept_upload ::
  "'s tls \<Rightarrow> (nat \<Rightarrow> bytes) \<Rightarrow> bytes \<Rightarrow> bytes \<Rightarrow> (bytes, bytes) umap \<Rightarrow> 's \<Rightarrow> (session \<times> (bytes, bytes) umap \<times> 's) result" where
  \<comment> \<open>\<open>InitUploadBuffer\<close> truncates the recipe and reserves the place of its head\<close>
  "accept_upload tls junk buf path files down =
    bindR (send_reply tls down (take NETWORK_HEAD_SIZE (set_msg_type SERVER_LOGIN_RESPONSE buf))) (\<lambda>down.
      Inr (Uploading path, AList.update path (junk RECIPE_HEAD_SIZE) files, down))"

definition accept_download ::
  "'s tls \<Rightarrow> bytes \<Rightarrow> bytes \<Rightarrow> (bytes, bytes) umap \<Rightarrow> 's \<Rightarrow> (session \<times> (bytes, bytes) umap \<times> 's) result" where
  "accept_download tls buf path files down =
    (case istream_read RECIPE_HEAD_SIZE (the (map_of files path), False) of (got, recipe_read_hdl) \<Rightarrow>
     bindR (mem_write (set_msg_type SERVER_LOGIN_RESPONSE buf) NETWORK_HEAD_SIZE got) (\<lambda>buf.
     bindR (send_reply tls down (take (NETWORK_HEAD_SIZE + RECIPE_HEAD_SIZE) buf)) (\<lambda>down.
       Inr (Downloading recipe_read_hdl, files, down))))"

definition session_login ::
  "bytes \<Rightarrow> bytes \<Rightarrow> 's tls \<Rightarrow> (nat \<Rightarrow> bytes) \<Rightarrow> (bytes, bytes) umap \<Rightarrow> 's \<Rightarrow> 's \<Rightarrow>
   (u32 \<times> session \<times> (bytes, bytes) umap \<times> 's \<times> 's) result" where
  "session_login root suffix tls junk files up down =
    bindR (ReceiveData tls up (junk (NETWORK_HEAD_SIZE + CHUNK_HASH_SIZE)) 0) (\<lambda>(ok, buf, recv_size, up).
      if \<not> ok then Inl NetworkError
      else bindR (login_opt buf) (\<lambda>opt_type.
        let client_id = nh_client_id (head_of buf);
            path = recipe_path root suffix (take CHUNK_HASH_SIZE (drop NETWORK_HEAD_SIZE buf))
        in if \<not> CheckFileStat files path opt_type then
             bindR (reject_login tls buf up down) (\<lambda>(up, down). Inr (client_id, Rejected, files, up, down))
           else bindR (case opt_type of
                  UPLOAD_OPT \<Rightarrow> accept_upload tls junk buf path files down
                | DOWNLOAD_OPT \<Rightarrow> accept_download tls buf path files down)
             (\<lambda>(session, files, down). Inr (client_id, session, files, up, down))))"

subsection \<open>Paths of recipes\<close>

lemma hex_digit_inj: "d < 16 \<Longrightarrow> e < 16 \<Longrightarrow> hex_digit d = hex_digit e \<longleftrightarrow> d = e"
proof -
  have "unat (hex_digit x) = (if x < 10 then 48 + x else 87 + x)" if "x < 16" for x
    using that by (simp add: hex_digit_def unat_of_nat del: of_nat_add)
  then show "d < 16 \<Longrightarrow> e < 16 \<Longrightarrow> hex_digit d = hex_digit e \<longleftrightarrow> d = e"
    by (simp add: word_unat_eq_iff)
qed

lemma hex_byte_inj: "hex_byte a = hex_byte b \<longleftrightarrow> a = b"
proof
  assume h: "hex_byte a = hex_byte b"
  have lt: "unat x div 16 < 16" "unat x mod 16 < 16" for x :: byte
    using unat_byte_lt [of x] by (simp_all add: less_mult_imp_div_less)
  from h have "unat a div 16 = unat b div 16" "unat a mod 16 = unat b mod 16"
    using hex_digit_inj [OF lt(1) lt(1)] hex_digit_inj [OF lt(2) lt(2)] by (auto simp: hex_byte_def)
  then have "unat a = unat b" by (metis div_mult_mod_eq)
  then show "a = b" by (simp add: word_unat_eq_iff)
qed simp

lemma recipe_path_inj:
  assumes "length a = length b" "recipe_path root suffix a = recipe_path root suffix b"
  shows "a = b"
proof -
  have "concat (map hex_byte a) = concat (map hex_byte b)" using assms(2) by (simp add: recipe_path_def)
  with assms(1) show ?thesis
  proof (induction a b rule: list_induct2)
    case (Cons x xs y ys)
    then have "hex_byte x = hex_byte y" "concat (map hex_byte xs) = concat (map hex_byte ys)"
      by (simp_all add: hex_byte_def)
    with Cons.IH hex_byte_inj show ?case by simp
  qed simp
qed

subsection \<open>One message in a direction that carries nothing else\<close>

lemma send_one:
  assumes "tls_ok tls wire" "wire c = []"
  obtains c' where "SendData tls c m = (True, c')" "framed (wire c') [m]"
  using SendData_framed [OF assms(1), of c m] assms(2) by (auto simp del: framed.simps)

lemma receive_one:
  assumes "tls_ok tls wire" "framed (wire c) [m]" "length m < 2 ^ 32" "length m \<le> length buf"
  obtains c' where "ReceiveData tls c buf n = Inr (True, overlay m buf, length m, c')" "wire c' = []"
  using ReceiveData_framed [OF assms(1) _ assms(2,3), of c "[]" buf n] assms(4) by auto

text \<open>A read of a direction on which nothing is left returns only when the peer has gone.\<close>

definition tls_eof :: "'s tls \<Rightarrow> ('s \<Rightarrow> bytes list) \<Rightarrow> bool" where
  "tls_eof tls wire \<longleftrightarrow> (\<forall>c n. wire c = [] \<longrightarrow> fst (SSL_read tls c n) = [])"

lemma receive_eof:
  assumes "tls_eof tls wire" "wire c = []"
  shows "\<exists>c'. ReceiveData tls c buf n = Inr (False, buf, n, c')"
proof -
  have "fst (SSL_read tls c 4) = []" using assms by (simp add: tls_eof_def)
  then show ?thesis by (cases "SSL_read tls c 4") (simp add: ReceiveData_def)
qed

subsection \<open>The exchange\<close>

lemma login_request_form:
  "\<exists>items. login_request junk client_id t hash =
     head_bytes \<lparr> nh_client_id = client_id, nh_msg_type = protocol_code t, nh_cur_item_num = items,
       nh_size = of_nat CHUNK_HASH_SIZE \<rparr> @ take CHUNK_HASH_SIZE hash"
  by (cases "head_of (junk (NETWORK_HEAD_SIZE + CHUNK_HASH_SIZE))") (auto simp: login_request_def)

lemma login_opt_request [simp]:
  "login_opt (head_bytes h @ data) =
    (case code_protocol (nh_msg_type h) of Some CLIENT_LOGIN_UPLOAD \<Rightarrow> Inr UPLOAD_OPT
       | Some CLIENT_LOGIN_DOWNLOAD \<Rightarrow> Inr DOWNLOAD_OPT | _ \<Rightarrow> Inl WrongMsgType)"
  by (simp add: login_opt_def)

text \<open>The client's request arrives in the buffer of the server as it was sent.\<close>

lemma request_received:
  assumes "tls_ok tls wire" "wire up = []" "length hash = CHUNK_HASH_SIZE" "\<And>n. length (junk' n) = n"
  obtains h up1 up2 where
    "login_request junk client_id t hash = head_bytes h @ hash" "nh_client_id h = client_id" "nh_msg_type h = protocol_code t"
    "send_login tls up (login_request junk client_id t hash) = Inr up1"
    "ReceiveData tls up1 (junk' (NETWORK_HEAD_SIZE + CHUNK_HASH_SIZE)) 0 = Inr (True, head_bytes h @ hash, 48, up2)" "wire up2 = []"
proof -
  obtain items where req: "login_request junk client_id t hash = head_bytes \<lparr> nh_client_id = client_id,
      nh_msg_type = protocol_code t, nh_cur_item_num = items, nh_size = of_nat CHUNK_HASH_SIZE \<rparr> @ hash" (is "_ = head_bytes ?h @ hash")
    using login_request_form [of junk client_id t hash] assms(3) by auto
  obtain up1 where 1: "SendData tls up (head_bytes ?h @ hash) = (True, up1)" "framed (wire up1) [head_bytes ?h @ hash]"
    using send_one [OF assms(1,2)] by blast
  have len: "length (head_bytes ?h @ hash) = 48" using assms(3) by (simp add: CHUNK_HASH_SIZE_def)
  obtain up2 where 2: "ReceiveData tls up1 (junk' (NETWORK_HEAD_SIZE + CHUNK_HASH_SIZE)) 0 =
      Inr (True, overlay (head_bytes ?h @ hash) (junk' (NETWORK_HEAD_SIZE + CHUNK_HASH_SIZE)), 48, up2)" "wire up2 = []"
    using receive_one [OF assms(1) 1(2), of "junk' (NETWORK_HEAD_SIZE + CHUNK_HASH_SIZE)" 0] len assms(4)
    by (auto simp: CHUNK_HASH_SIZE_def NETWORK_HEAD_SIZE_def)
  have "overlay (head_bytes ?h @ hash) (junk' (NETWORK_HEAD_SIZE + CHUNK_HASH_SIZE)) = head_bytes ?h @ hash"
    by (rule overlay_full) (use len assms(4) in \<open>simp add: CHUNK_HASH_SIZE_def NETWORK_HEAD_SIZE_def\<close>)
  with 2 show thesis using 1(1) req by (intro that [of ?h up1 up2]) (simp_all add: send_login_def)
qed

text \<open>A reply that is not longer than the request overlays the start of the client's buffer.\<close>

lemma reply_received:
  assumes "tls_ok tls wire" "wire down = []" "length reply \<le> length login_buf" "length reply < 2 ^ 32"
  obtains down1 down2 where "send_reply tls down reply = Inr down1"
    "ReceiveData tls down1 login_buf 0 = Inr (True, overlay reply login_buf, length reply, down2)" "wire down2 = []"
proof -
  obtain down1 where 1: "SendData tls down reply = (True, down1)" "framed (wire down1) [reply]"
    using send_one [OF assms(1,2)] by blast
  obtain down2 where "ReceiveData tls down1 login_buf 0 = Inr (True, overlay reply login_buf, length reply, down2)" "wire down2 = []"
    using receive_one [OF assms(1) 1(2) assms(4,3)] by blast
  with 1 show thesis by (intro that [of down1 down2]) (simp_all add: send_reply_def)
qed

lemma CheckFileStat_upload: "CheckFileStat files path UPLOAD_OPT"
  by (simp add: CheckFileStat_def split: option.split)

lemma upload_exchange:
  assumes "tls_ok tls wire" "wire up = []" "wire down = []" "length hash = CHUNK_HASH_SIZE" "\<And>n. length (junk' n) = n"
  shows "\<exists>up1 up2 down1 down2.
    send_login tls up (login_request junk client_id CLIENT_LOGIN_UPLOAD hash) = Inr up1 \<and>
    session_login root suffix tls junk' files up1 down = Inr (client_id, Uploading (recipe_path root suffix hash),
      AList.update (recipe_path root suffix hash) (junk' RECIPE_HEAD_SIZE) files, up2, down1) \<and>
    UploadLogin_response tls down1 (login_request junk client_id CLIENT_LOGIN_UPLOAD hash) = Inr down2 \<and>
    wire up2 = [] \<and> wire down2 = []"
proof -
  obtain h up1 up2 where r: "login_request junk client_id CLIENT_LOGIN_UPLOAD hash = head_bytes h @ hash"
    "nh_client_id h = client_id" "nh_msg_type h = protocol_code CLIENT_LOGIN_UPLOAD"
    "send_login tls up (login_request junk client_id CLIENT_LOGIN_UPLOAD hash) = Inr up1"
    "ReceiveData tls up1 (junk' (NETWORK_HEAD_SIZE + CHUNK_HASH_SIZE)) 0 = Inr (True, head_bytes h @ hash, 48, up2)" "wire up2 = []"
    using request_received [OF assms(1,2,4,5)] by metis
  let ?reply = "head_bytes (h \<lparr> nh_msg_type := protocol_code SERVER_LOGIN_RESPONSE \<rparr>)"
  obtain down1 down2 where d: "send_reply tls down ?reply = Inr down1"
    "ReceiveData tls down1 (head_bytes h @ hash) 0 = Inr (True, overlay ?reply (head_bytes h @ hash), length ?reply, down2)" "wire down2 = []"
    using reply_received [OF assms(1,3), of ?reply "head_bytes h @ hash"] by auto
  have "session_login root suffix tls junk' files up1 down = Inr (client_id, Uploading (recipe_path root suffix hash),
      AList.update (recipe_path root suffix hash) (junk' RECIPE_HEAD_SIZE) files, up2, down1)"
    using r d(1) assms(4) by (simp add: session_login_def accept_upload_def NETWORK_HEAD_SIZE_def CheckFileStat_upload Let_def)
  moreover have "UploadLogin_response tls down1 (head_bytes h @ hash) = Inr down2"
    using d(2) by (simp add: UploadLogin_response_def overlay_def)
  ultimately show ?thesis using r d(3) by auto
qed

lemma download_exchange:
  assumes "tls_ok tls wire" "wire up = []" "wire down = []" "length hash = CHUNK_HASH_SIZE" "\<And>n. length (junk' n) = n"
    and f: "map_of files (recipe_path root suffix hash) = Some (recipe_head_bytes head @ recipe)"
    and head: "rh_size head < 2 ^ 64" "rh_chunk_num head < 2 ^ 64"
  shows "\<exists>up1 up2 down1 down2.
    send_login tls up (login_request junk client_id CLIENT_LOGIN_DOWNLOAD hash) = Inr up1 \<and>
    session_login root suffix tls junk' files up1 down =
      Inr (client_id, Downloading (recipe, False), files, up2, down1) \<and>
    DownloadLogin_response tls down1 (login_request junk client_id CLIENT_LOGIN_DOWNLOAD hash) rt =
      Inr (rt \<lparr> rt_head := head \<rparr>, down2) \<and> wire up2 = [] \<and> wire down2 = []"
proof -
  obtain h up1 up2 where r: "login_request junk client_id CLIENT_LOGIN_DOWNLOAD hash = head_bytes h @ hash"
    "nh_client_id h = client_id" "nh_msg_type h = protocol_code CLIENT_LOGIN_DOWNLOAD"
    "send_login tls up (login_request junk client_id CLIENT_LOGIN_DOWNLOAD hash) = Inr up1"
    "ReceiveData tls up1 (junk' (NETWORK_HEAD_SIZE + CHUNK_HASH_SIZE)) 0 = Inr (True, head_bytes h @ hash, 48, up2)" "wire up2 = []"
    using request_received [OF assms(1,2,4,5)] by metis
  let ?h = "head_bytes (h \<lparr> nh_msg_type := protocol_code SERVER_LOGIN_RESPONSE \<rparr>)"
  let ?reply = "?h @ recipe_head_bytes head"
  have lr: "length (recipe_head_bytes head) = 16" by (simp add: recipe_head_bytes_def)
  have lh: "length hash = 32" using assms(4) by (simp add: CHUNK_HASH_SIZE_def)
  obtain down1 down2 where d: "send_reply tls down ?reply = Inr down1"
    "ReceiveData tls down1 (head_bytes h @ hash) 0 = Inr (True, overlay ?reply (head_bytes h @ hash), length ?reply, down2)" "wire down2 = []"
    using reply_received [OF assms(1,3), of ?reply "head_bytes h @ hash"] lr lh by auto
  have wr: "mem_write (?h @ hash) NETWORK_HEAD_SIZE (recipe_head_bytes head) = Inr (?reply @ drop 16 hash)"
    using lr lh by (simp add: mem_write_def NETWORK_HEAD_SIZE_def)
  have "accept_download tls (head_bytes h @ hash) (recipe_path root suffix hash) files down =
      Inr (Downloading (recipe, False), files, down1)"
    using wr d(1) lr f by (simp add: accept_download_def RECIPE_HEAD_SIZE_def NETWORK_HEAD_SIZE_def)
  then have "session_login root suffix tls junk' files up1 down = Inr (client_id, Downloading (recipe, False), files, up2, down1)"
    using r f assms(4) by (simp add: session_login_def NETWORK_HEAD_SIZE_def CheckFileStat_def Let_def)
  moreover have "DownloadLogin_response tls down1 (head_bytes h @ hash) rt = Inr (rt \<lparr> rt_head := head \<rparr>, down2)"
  proof -
    have "overlay ?reply (head_bytes h @ hash) = ?h @ (recipe_head_bytes head @ drop 16 hash)"
      using lr by (simp add: overlay_def)
    moreover have "DownloadLogin rt (SERVER_LOGIN_RESPONSE, n, recipe_head_bytes head @ xs) = Inr (rt \<lparr> rt_head := head \<rparr>)" for n xs
      using login_head [OF head, of rt n] mem_read_prefix [of "recipe_head_bytes head" 0 RECIPE_HEAD_SIZE _ xs]
      by (auto simp: DownloadLogin_def bindR_eq_Inr)
    ultimately show ?thesis using d(2) by (simp add: DownloadLogin_response_def NETWORK_HEAD_SIZE_def)
  qed
  ultimately show ?thesis using r d(3) by auto
qed

lemma reject_exchange:
  assumes "tls_ok tls wire" "tls_eof tls wire" "wire up = []" "wire down = []" "length hash = CHUNK_HASH_SIZE"
    and "\<And>n. length (junk' n) = n" "map_of files (recipe_path root suffix hash) = None"
  shows "\<exists>up1 up2 down1.
    send_login tls up (login_request junk client_id CLIENT_LOGIN_DOWNLOAD hash) = Inr up1 \<and>
    session_login root suffix tls junk' files up1 down = Inr (client_id, Rejected, files, up2, down1) \<and>
    DownloadLogin_response tls down1 (login_request junk client_id CLIENT_LOGIN_DOWNLOAD hash) rt = Inl FileError"
proof -
  obtain h up1 up2 where r: "login_request junk client_id CLIENT_LOGIN_DOWNLOAD hash = head_bytes h @ hash"
    "nh_client_id h = client_id" "nh_msg_type h = protocol_code CLIENT_LOGIN_DOWNLOAD"
    "send_login tls up (login_request junk client_id CLIENT_LOGIN_DOWNLOAD hash) = Inr up1"
    "ReceiveData tls up1 (junk' (NETWORK_HEAD_SIZE + CHUNK_HASH_SIZE)) 0 = Inr (True, head_bytes h @ hash, 48, up2)" "wire up2 = []"
    using request_received [OF assms(1,3,5,6)] by metis
  let ?reply = "head_bytes (h \<lparr> nh_msg_type := protocol_code SERVER_FILE_NON_EXIST \<rparr>)"
  obtain down1 down2 where d: "send_reply tls down ?reply = Inr down1"
    "ReceiveData tls down1 (head_bytes h @ hash) 0 = Inr (True, overlay ?reply (head_bytes h @ hash), length ?reply, down2)" "wire down2 = []"
    using reply_received [OF assms(1,4), of ?reply "head_bytes h @ hash"] by auto
  obtain up3 where eof: "ReceiveData tls up2 (?reply @ hash) 0 = Inr (False, ?reply @ hash, 0, up3)"
    using receive_eof [OF assms(2) r(6)] by blast
  have "session_login root suffix tls junk' files up1 down = Inr (client_id, Rejected, files, up3, down1)"
    using r d(1) eof assms(5,7) by (simp add: session_login_def reject_login_def NETWORK_HEAD_SIZE_def CheckFileStat_def Let_def)
  moreover have "DownloadLogin_response tls down1 (head_bytes h @ hash) rt = Inl FileError"
    using d(2) by (simp add: DownloadLogin_response_def overlay_def DownloadLogin_def)
  ultimately show ?thesis using r by auto
qed

text \<open>C20. The login exchange, over a connection that stays up, whatever the buffers held before: an
  upload is accepted, the server truncates the recipe of the file of this name hash and no other
  recipe changes; a download of a file with a recipe is accepted, the client gets the head of the
  recipe and the server's reader stands behind it; a download of a file without a recipe is
  rejected, the client exits, and nothing changes on the server. In each case the server knows the
  id of the client, and no byte is left on the connection.\<close>

theorem Login_exchange:
  assumes "tls_ok tls wire" "tls_eof tls wire" "wire up = []" "wire down = []" "length hash = CHUNK_HASH_SIZE"
    and "\<And>n. length (junk' n) = n"
    and head: "rh_size head < 2 ^ 64" "rh_chunk_num head < 2 ^ 64"
  shows "(\<exists>up1 up2 down1 down2 files'.
      send_login tls up (login_request junk client_id CLIENT_LOGIN_UPLOAD hash) = Inr up1 \<and>
      session_login root suffix tls junk' files up1 down = Inr (client_id, Uploading (recipe_path root suffix hash), files', up2, down1) \<and>
      UploadLogin_response tls down1 (login_request junk client_id CLIENT_LOGIN_UPLOAD hash) = Inr down2 \<and>
      wire up2 = [] \<and> wire down2 = [] \<and>
      map_of files' (recipe_path root suffix hash) = Some (junk' RECIPE_HEAD_SIZE) \<and>
      (\<forall>other. length other = CHUNK_HASH_SIZE \<longrightarrow> other \<noteq> hash \<longrightarrow>
        map_of files' (recipe_path root suffix other) = map_of files (recipe_path root suffix other))) \<and>
    (map_of files (recipe_path root suffix hash) = Some (recipe_head_bytes head @ recipe) \<longrightarrow>
      (\<exists>up1 up2 down1 down2.
        send_login tls up (login_request junk client_id CLIENT_LOGIN_DOWNLOAD hash) = Inr up1 \<and>
        session_login root suffix tls junk' files up1 down = Inr (client_id, Downloading (recipe, False), files, up2, down1) \<and>
        DownloadLogin_response tls down1 (login_request junk client_id CLIENT_LOGIN_DOWNLOAD hash) rt =
          Inr (rt \<lparr> rt_head := head \<rparr>, down2) \<and> wire up2 = [] \<and> wire down2 = [])) \<and>
    (map_of files (recipe_path root suffix hash) = None \<longrightarrow>
      (\<exists>up1 up2 down1.
        send_login tls up (login_request junk client_id CLIENT_LOGIN_DOWNLOAD hash) = Inr up1 \<and>
        session_login root suffix tls junk' files up1 down = Inr (client_id, Rejected, files, up2, down1) \<and>
        DownloadLogin_response tls down1 (login_request junk client_id CLIENT_LOGIN_DOWNLOAD hash) rt = Inl FileError))"
proof (intro conjI impI)
  let ?p = "recipe_path root suffix"
  obtain up1 up2 down1 down2 where u:
    "send_login tls up (login_request junk client_id CLIENT_LOGIN_UPLOAD hash) = Inr up1"
    "session_login root suffix tls junk' files up1 down =
       Inr (client_id, Uploading (?p hash), AList.update (?p hash) (junk' RECIPE_HEAD_SIZE) files, up2, down1)"
    "UploadLogin_response tls down1 (login_request junk client_id CLIENT_LOGIN_UPLOAD hash) = Inr down2"
    "wire up2 = []" "wire down2 = []"
    using upload_exchange [OF assms(1,3-6)] by metis
  moreover have "map_of (AList.update (?p hash) d files) (?p other) = map_of files (?p other)"
    if "length other = CHUNK_HASH_SIZE" "other \<noteq> hash" for other d
    using that recipe_path_inj [of other hash root suffix] assms(5) by auto
  ultimately show "\<exists>up1 up2 down1 down2 files'.
      send_login tls up (login_request junk client_id CLIENT_LOGIN_UPLOAD hash) = Inr up1 \<and>
      session_login root suffix tls junk' files up1 down = Inr (client_id, Uploading (?p hash), files', up2, down1) \<and>
      UploadLogin_response tls down1 (login_request junk client_id CLIENT_LOGIN_UPLOAD hash) = Inr down2 \<and>
      wire up2 = [] \<and> wire down2 = [] \<and> map_of files' (?p hash) = Some (junk' RECIPE_HEAD_SIZE) \<and>
      (\<forall>other. length other = CHUNK_HASH_SIZE \<longrightarrow> other \<noteq> hash \<longrightarrow> map_of files' (?p other) = map_of files (?p other))"
    by (intro exI [of _ up1] exI [of _ up2] exI [of _ down1] exI [of _ down2]
      exI [of _ "AList.update (?p hash) (junk' RECIPE_HEAD_SIZE) files"]) simp
qed (fact download_exchange [OF assms(1,3-6) _ head], fact reject_exchange [OF assms(1-6)])

lemma demo_tls_eof: "tls_eof demo_tls (\<lambda>c. c)"
  by (simp add: tls_eof_def demo_tls_def)

lemma Login_exchange_witness:
  "\<exists>up1 up2 down1.
    send_login demo_tls [] (login_request (\<lambda>n. replicate n 9) 7 CLIENT_LOGIN_DOWNLOAD (replicate 32 171)) = Inr up1 \<and>
    session_login [47] [46, 114] demo_tls (\<lambda>n. replicate n 5) [] up1 [] = Inr (7, Rejected, [], up2, down1) \<and>
    DownloadLogin_response demo_tls down1 (login_request (\<lambda>n. replicate n 9) 7 CLIENT_LOGIN_DOWNLOAD (replicate 32 171))
      (data_retriever_new FULL_EDR 4 4 [] (\<lambda>n. replicate n 0)) = Inl FileError"
  using Login_exchange [OF demo_tls_ok demo_tls_eof, of "[]" "[]" "replicate 32 171" "\<lambda>n. replicate n 5" "\<lparr> rh_size = 0, rh_chunk_num = 0 \<rparr>"
    "\<lambda>n. replicate n 9" 7 "[47]" "[46, 114]" "[]" "[]" "data_retriever_new FULL_EDR 4 4 [] (\<lambda>n. replicate n 0)"]
  by (simp add: CHUNK_HASH_SIZE_def)

end
