(* ===== verification/Disk_Db.thy ===== *)
theory Disk_Db
  imports Kv_Store
begin

text \<open>
  The disk databases behind \<open>AbsDatabase\<close>: \<open>src/database/rocksdb_db.cc\<close>,
  \<open>src/database/leveldb_db.cc\<close> and the choice between them and the in-memory database in
  \<open>src/database/db_factory.cc\<close>. RocksDB and LevelDB are arguments: a library is the record of
  what the wrappers call. A library call that fails has the status \<open>False\<close>.
\<close>

subsection \<open>The libraries\<close>

record ('d) disk_lib =
  lib_open :: "string \<Rightarrow> 'd option"                 \<comment> \<open>\<open>DB::Open\<close> with \<open>create_if_missing\<close>\<close>
  lib_get :: "'d \<Rightarrow> bytes \<Rightarrow> bytes option"            \<comment> \<open>\<open>Get\<close>: the value if the status is ok\<close>
  lib_put :: "'d \<Rightarrow> bytes \<Rightarrow> bytes \<Rightarrow> bool \<times> 'd"
  lib_delete :: "'d \<Rightarrow> bytes \<Rightarrow> 'd"

text \<open>
  What the wrappers rely on, as long as the disk does: a database that was opened stays usable,
  a write succeeds, and a read gives the last value written under the key.
\<close>

definition disk_lib_ok :: "'d disk_lib \<Rightarrow> ('d \<Rightarrow> bool) \<Rightarrow> bool" where
  "disk_lib_ok lib ok \<longleftrightarrow>
     (\<forall>name. \<exists>d. lib_open lib name = Some d \<and> ok d) \<and>
     (\<forall>d k v. ok d \<longrightarrow> (\<exists>d'. lib_put lib d k v = (True, d') \<and> ok d' \<and> lib_get lib d' = (lib_get lib d)(k \<mapsto> v))) \<and>
     (\<forall>d k. ok d \<longrightarrow> ok (lib_delete lib d k) \<and> lib_get lib (lib_delete lib d k) = (lib_get lib d)(k := None))"

subsection \<open>RocksDB\<close>

record ('d) rocksdb_database =
  rk_db_name :: string
  rocks_db_obj :: 'd

definition RocksdbDatabase :: "'d disk_lib \<Rightarrow> string \<Rightarrow> 'd rocksdb_database result" where
  \<comment> \<open>the constructor with \<open>OpenDB\<close>; \<open>assert(status.ok())\<close>\<close>
  "RocksdbDatabase lib db_name =
    (case lib_open lib db_name of
       None \<Rightarrow> Inl FileError
     | Some d \<Rightarrow> Inr \<lparr> rk_db_name = db_name, rocks_db_obj = d \<rparr>)"

definition Rocksdb_Query :: "'d disk_lib \<Rightarrow> 'd rocksdb_database \<Rightarrow> bytes \<Rightarrow> bytes option" where
  "Rocksdb_Query lib db key = lib_get lib (rocks_db_obj db) key"

definition Rocksdb_Insert :: "'d disk_lib \<Rightarrow> 'd rocksdb_database \<Rightarrow> bytes \<Rightarrow> bytes \<Rightarrow> bool \<times> 'd rocksdb_database" where
  "Rocksdb_Insert lib db key v =
    (case lib_put lib (rocks_db_obj db) key v of (ret, d) \<Rightarrow> (ret, db \<lparr> rocks_db_obj := d \<rparr>))"

definition Rocksdb_InsertBuffer ::
  "'d disk_lib \<Rightarrow> 'd rocksdb_database \<Rightarrow> bytes \<Rightarrow> bytes \<Rightarrow> nat \<Rightarrow> bool \<times> 'd rocksdb_database" where
  "Rocksdb_InsertBuffer lib db key buf buf_size =
    (case lib_put lib (rocks_db_obj db) key (take buf_size buf) of (ret, d) \<Rightarrow> (ret, db \<lparr> rocks_db_obj := d \<rparr>))"

definition Rocksdb_InsertBothBuffer ::
  "'d disk_lib \<Rightarrow> 'd rocksdb_database \<Rightarrow> bytes \<Rightarrow> nat \<Rightarrow> bytes \<Rightarrow> nat \<Rightarrow> bool \<times> 'd rocksdb_database" where
  "Rocksdb_InsertBothBuffer lib db key key_size buf buf_size =
    (case lib_put lib (rocks_db_obj db) (take key_size key) (take buf_size buf) of
       (ret, d) \<Rightarrow> (ret, db \<lparr> rocks_db_obj := d \<rparr>))"

definition Rocksdb_QueryBuffer :: "'d disk_lib \<Rightarrow> 'd rocksdb_database \<Rightarrow> bytes \<Rightarrow> nat \<Rightarrow> bytes option" where
  "Rocksdb_QueryBuffer lib db key key_size = lib_get lib (rocks_db_obj db) (take key_size key)"

definition Rocksdb_DeleteBuffer :: "'d disk_lib \<Rightarrow> 'd rocksdb_database \<Rightarrow> bytes \<Rightarrow> nat \<Rightarrow> 'd rocksdb_database" where
  "Rocksdb_DeleteBuffer lib db key key_size = db \<lparr> rocks_db_obj := lib_delete lib (rocks_db_obj db) (take key_size key) \<rparr>"

definition Rocksdb_Delete :: "'d disk_lib \<Rightarrow> 'd rocksdb_database \<Rightarrow> bytes \<Rightarrow> 'd rocksdb_database" where
  "Rocksdb_Delete lib db key = db \<lparr> rocks_db_obj := lib_delete lib (rocks_db_obj db) key \<rparr>"

subsection \<open>LevelDB\<close>

record ('d) leveldb_database =
  lv_db_name :: string
  level_db_obj :: "'d option"       \<comment> \<open>a null pointer until \<open>OpenDB\<close> has succeeded\<close>

definition lock_name :: "string \<Rightarrow> string" where
  "lock_name db_name = ''.'' @ db_name @ ''.lock''"

definition Leveldb_OpenDB ::
  "'d disk_lib \<Rightarrow> (string \<Rightarrow> bool) \<Rightarrow> 'd leveldb_database \<Rightarrow> string \<Rightarrow> (bool \<times> 'd leveldb_database) result" where
  \<comment> \<open>\<open>exist\<close> tells which files are there; nothing ever creates the lock file\<close>
  "Leveldb_OpenDB lib exist db db_name =
    (if exist (lock_name db_name) then Inr (False, db)
     else case lib_open lib db_name of
       None \<Rightarrow> Inl FileError
     | Some d \<Rightarrow> Inr (True, db \<lparr> lv_db_name := db_name, level_db_obj := Some d \<rparr>))"

definition LeveldbDatabase :: "'d disk_lib \<Rightarrow> (string \<Rightarrow> bool) \<Rightarrow> string \<Rightarrow> 'd leveldb_database result" where
  \<comment> \<open>the constructor does not look at the result of \<open>OpenDB\<close>\<close>
  "LeveldbDatabase lib exist db_name =
     bindR (Leveldb_OpenDB lib exist \<lparr> lv_db_name = [], level_db_obj = None \<rparr> db_name) (\<lambda>(_, db). Inr db)"

definition level_obj :: "'d leveldb_database \<Rightarrow> 'd result" where
  "level_obj db = (case level_db_obj db of None \<Rightarrow> Inl NullPointer | Some d \<Rightarrow> Inr d)"

definition Leveldb_Query :: "'d disk_lib \<Rightarrow> 'd leveldb_database \<Rightarrow> bytes \<Rightarrow> bytes option result" where
  "Leveldb_Query lib db key = bindR (level_obj db) (\<lambda>d. Inr (lib_get lib d key))"

definition Leveldb_Insert ::
  "'d disk_lib \<Rightarrow> 'd leveldb_database \<Rightarrow> bytes \<Rightarrow> bytes \<Rightarrow> (bool \<times> 'd leveldb_database) result" where
  "Leveldb_Insert lib db key v =
     bindR (level_obj db) (\<lambda>d. case lib_put lib d key v of (ret, d) \<Rightarrow> Inr (ret, db \<lparr> level_db_obj := Some d \<rparr>))"

definition Leveldb_InsertBuffer ::
  "'d disk_lib \<Rightarrow> 'd leveldb_database \<Rightarrow> bytes \<Rightarrow> bytes \<Rightarrow> nat \<Rightarrow> (bool \<times> 'd leveldb_database) result" where
  "Leveldb_InsertBuffer lib db key buf buf_size =
     bindR (level_obj db) (\<lambda>d. case lib_put lib d key (take buf_size buf) of
       (ret, d) \<Rightarrow> Inr (ret, db \<lparr> level_db_obj := Some d \<rparr>))"

definition Leveldb_InsertBothBuffer ::
  "'d disk_lib \<Rightarrow> 'd leveldb_database \<Rightarrow> bytes \<Rightarrow> nat \<Rightarrow> bytes \<Rightarrow> nat \<Rightarrow> (bool \<times> 'd leveldb_database) result" where
  "Leveldb_InsertBothBuffer lib db key key_size buf buf_size =
     bindR (level_obj db) (\<lambda>d. case lib_put lib d (take key_size key) (take buf_size buf) of
       (ret, d) \<Rightarrow> Inr (ret, db \<lparr> level_db_obj := Some d \<rparr>))"

definition Leveldb_QueryBuffer :: "'d disk_lib \<Rightarrow> 'd leveldb_database \<Rightarrow> bytes \<Rightarrow> nat \<Rightarrow> bytes option result" where
  "Leveldb_QueryBuffer lib db key key_size = bindR (level_obj db) (\<lambda>d. Inr (lib_get lib d (take key_size key)))"

definition Leveldb_DeleteBuffer :: "'d disk_lib \<Rightarrow> 'd leveldb_database \<Rightarrow> bytes \<Rightarrow> nat \<Rightarrow> 'd leveldb_database result" where
  "Leveldb_DeleteBuffer lib db key key_size =
     bindR (level_obj db) (\<lambda>d. Inr (db \<lparr> level_db_obj := Some (lib_delete lib d (take key_size key)) \<rparr>))"

definition Leveldb_Delete :: "'d disk_lib \<Rightarrow> 'd leveldb_database \<Rightarrow> bytes \<Rightarrow> 'd leveldb_database result" where
  "Leveldb_Delete lib db key = bindR (level_obj db) (\<lambda>d. Inr (db \<lparr> level_db_obj := Some (lib_delete lib d key) \<rparr>))"

definition Leveldb_close :: "'d leveldb_database \<Rightarrow> string" where
  \<comment> \<open>the file that the destructor removes\<close>
  "Leveldb_close db = lock_name (lv_db_name db)"

subsection \<open>The factory\<close>

datatype db_type_set = IN_MEMORY_DB | LEVELDB_DB | ROCKSDB_DB

datatype ('l, 'r) abs_database =
    Leveldb "'l leveldb_database" | InMemory "(bytes, bytes) in_memory_db" | Rocksdb "'r rocksdb_database"

record ('l, 'r) db_env =
  env_level :: "'l disk_lib"
  env_rocks :: "'r disk_lib"
  env_exist :: "string \<Rightarrow> bool"
  env_file :: "string \<Rightarrow> bytes option"

definition CreateDatabase ::
  "('l, 'r) db_env \<Rightarrow> db_type_set option \<Rightarrow> string \<Rightarrow> ('l, 'r) abs_database result" where
  \<comment> \<open>\<open>None\<close> is a number outside of the enum\<close>
  "CreateDatabase env type path =
    (case type of
       Some LEVELDB_DB \<Rightarrow> bindR (LeveldbDatabase (env_level env) (env_exist env) path) (\<lambda>db. Inr (Leveldb db))
     | Some IN_MEMORY_DB \<Rightarrow> Inr (InMemory (InMem_OpenDB (env_file env path)))
     | Some ROCKSDB_DB \<Rightarrow> bindR (RocksdbDatabase (env_rocks env) path) (\<lambda>db. Inr (Rocksdb db))
     | None \<Rightarrow> Inl WrongConfig)"

text \<open>A call of one of the virtual functions, and what it returns.\<close>

datatype db_call =
    CallQuery bytes | CallInsert bytes bytes | CallInsertBuffer bytes bytes nat
  | CallInsertBothBuffer bytes nat bytes nat | CallQueryBuffer bytes nat | CallDeleteBuffer bytes nat | CallDelete bytes

datatype db_return = RetValue "bytes option" | RetFlag bool | RetVoid

definition level_ret :: "(bool \<times> 'l leveldb_database) result \<Rightarrow> (db_return \<times> ('l, 'r) abs_database) result" where
  "level_ret r = bindR r (\<lambda>(ret, db). Inr (RetFlag ret, Leveldb db))"

definition rocks_ret :: "bool \<times> 'r rocksdb_database \<Rightarrow> (db_return \<times> ('l, 'r) abs_database) result" where
  "rocks_ret r = (case r of (ret, db) \<Rightarrow> Inr (RetFlag ret, Rocksdb db))"

fun db_dispatch ::
  "('l, 'r) db_env \<Rightarrow> ('l, 'r) abs_database \<Rightarrow> db_call \<Rightarrow> (db_return \<times> ('l, 'r) abs_database) result" where
  "db_dispatch env (Leveldb db) c =
    (let lib = env_level env
     in case c of
       CallQuery k \<Rightarrow> bindR (Leveldb_Query lib db k) (\<lambda>v. Inr (RetValue v, Leveldb db))
     | CallInsert k v \<Rightarrow> level_ret (Leveldb_Insert lib db k v)
     | CallInsertBuffer k b n \<Rightarrow> level_ret (Leveldb_InsertBuffer lib db k b n)
     | CallInsertBothBuffer k kn b n \<Rightarrow> level_ret (Leveldb_InsertBothBuffer lib db k kn b n)
     | CallQueryBuffer k n \<Rightarrow> bindR (Leveldb_QueryBuffer lib db k n) (\<lambda>v. Inr (RetValue v, Leveldb db))
     | CallDeleteBuffer k n \<Rightarrow> bindR (Leveldb_DeleteBuffer lib db k n) (\<lambda>db. Inr (RetVoid, Leveldb db))
     | CallDelete k \<Rightarrow> bindR (Leveldb_Delete lib db k) (\<lambda>db. Inr (RetVoid, Leveldb db)))"
| "db_dispatch env (InMemory db) c =
    (case c of
       CallQuery k \<Rightarrow> Inr (RetValue (InMem_Query db k), InMemory db)
     | CallInsert k v \<Rightarrow> Inr (RetFlag True, InMemory (InMem_Insert db k v))
     | CallInsertBuffer k b n \<Rightarrow> Inr (RetFlag True, InMemory (InMem_InsertBuffer db k b n))
     | CallInsertBothBuffer k kn b n \<Rightarrow> Inr (RetFlag True, InMemory (InMem_InsertBothBuffer db k kn b n))
     | CallQueryBuffer k n \<Rightarrow> Inr (RetValue (InMem_QueryBuffer db k n), InMemory db)
     | CallDeleteBuffer k n \<Rightarrow> Inr (RetVoid, InMemory (InMem_DeleteBuffer db k n))
     | CallDelete k \<Rightarrow> Inr (RetVoid, InMemory (InMem_Delete db k)))"
| "db_dispatch env (Rocksdb db) c =
    (let lib = env_rocks env
     in case c of
       CallQuery k \<Rightarrow> Inr (RetValue (Rocksdb_Query lib db k), Rocksdb db)
     | CallInsert k v \<Rightarrow> rocks_ret (Rocksdb_Insert lib db k v)
     | CallInsertBuffer k b n \<Rightarrow> rocks_ret (Rocksdb_InsertBuffer lib db k b n)
     | CallInsertBothBuffer k kn b n \<Rightarrow> rocks_ret (Rocksdb_InsertBothBuffer lib db k kn b n)
     | CallQueryBuffer k n \<Rightarrow> Inr (RetValue (Rocksdb_QueryBuffer lib db k n), Rocksdb db)
     | CallDeleteBuffer k n \<Rightarrow> Inr (RetVoid, Rocksdb (Rocksdb_DeleteBuffer lib db k n))
     | CallDelete k \<Rightarrow> Inr (RetVoid, Rocksdb (Rocksdb_Delete lib db k)))"

fun db_calls ::
  "('l, 'r) db_env \<Rightarrow> ('l, 'r) abs_database \<Rightarrow> db_call list \<Rightarrow> (db_return list \<times> ('l, 'r) abs_database) result" where
  "db_calls env db [] = Inr ([], db)"
| "db_calls env db (c # cs) =
     bindR (db_dispatch env db c) (\<lambda>(r, db). bindR (db_calls env db cs) (\<lambda>(rs, db). Inr (r # rs, db)))"

subsection \<open>Reference: a partial map\<close>

fun map_call :: "(bytes \<Rightarrow> bytes option) \<Rightarrow> db_call \<Rightarrow> db_return \<times> (bytes \<Rightarrow> bytes option)" where
  "map_call m (CallQuery k) = (RetValue (m k), m)"
| "map_call m (CallInsert k v) = (RetFlag True, m(k \<mapsto> v))"
| "map_call m (CallInsertBuffer k b n) = (RetFlag True, m(k \<mapsto> take n b))"
| "map_call m (CallInsertBothBuffer k kn b n) = (RetFlag True, m(take kn k \<mapsto> take n b))"
| "map_call m (CallQueryBuffer k n) = (RetValue (m (take n k)), m)"
| "map_call m (CallDeleteBuffer k n) = (RetVoid, m(take n k := None))"
| "map_call m (CallDelete k) = (RetVoid, m(k := None))"

fun map_calls :: "(bytes \<Rightarrow> bytes option) \<Rightarrow> db_call list \<Rightarrow> db_return list \<times> (bytes \<Rightarrow> bytes option)" where
  "map_calls m [] = ([], m)"
| "map_calls m (c # cs) = (case map_call m c of (r, m) \<Rightarrow> case map_calls m cs of (rs, m) \<Rightarrow> (r # rs, m))"

definition env_ok :: "('l, 'r) db_env \<Rightarrow> ('l \<Rightarrow> bool) \<Rightarrow> ('r \<Rightarrow> bool) \<Rightarrow> bool" where
  "env_ok env lok rok \<longleftrightarrow> disk_lib_ok (env_level env) lok \<and> disk_lib_ok (env_rocks env) rok"

fun db_holds :: "('l, 'r) db_env \<Rightarrow> ('l \<Rightarrow> bool) \<Rightarrow> ('r \<Rightarrow> bool) \<Rightarrow> ('l, 'r) abs_database \<Rightarrow> (bytes \<Rightarrow> bytes option) \<Rightarrow> bool" where
  \<comment> \<open>the database is usable and its contents are the map\<close>
  "db_holds env lok rok (Leveldb db) m \<longleftrightarrow>
     (case level_db_obj db of None \<Rightarrow> False | Some d \<Rightarrow> lok d \<and> lib_get (env_level env) d = m)"
| "db_holds env lok rok (InMemory db) m \<longleftrightarrow> db_ok db \<and> InMem_Query db = m"
| "db_holds env lok rok (Rocksdb db) m \<longleftrightarrow> rok (rocks_db_obj db) \<and> lib_get (env_rocks env) (rocks_db_obj db) = m"

lemma lib_put_ok:
  "disk_lib_ok lib ok \<Longrightarrow> ok d \<Longrightarrow> \<exists>d'. lib_put lib d k v = (True, d') \<and> ok d' \<and> lib_get lib d' = (lib_get lib d)(k \<mapsto> v)"
  by (simp add: disk_lib_ok_def)

lemma lib_delete_ok:
  "disk_lib_ok lib ok \<Longrightarrow> ok d \<Longrightarrow> ok (lib_delete lib d k) \<and> lib_get lib (lib_delete lib d k) = (lib_get lib d)(k := None)"
  by (simp add: disk_lib_ok_def)

lemmas leveldb_defs = level_ret_def Leveldb_Query_def Leveldb_Insert_def Leveldb_InsertBuffer_def
  Leveldb_InsertBothBuffer_def Leveldb_QueryBuffer_def Leveldb_DeleteBuffer_def Leveldb_Delete_def level_obj_def

lemmas rocksdb_defs = rocks_ret_def Rocksdb_Query_def Rocksdb_Insert_def Rocksdb_InsertBuffer_def
  Rocksdb_InsertBothBuffer_def Rocksdb_QueryBuffer_def Rocksdb_DeleteBuffer_def Rocksdb_Delete_def

lemmas inmem_defs = InMem_Query_def InMem_Insert_def InMem_InsertBuffer_def InMem_InsertBothBuffer_def
  InMem_QueryBuffer_def InMem_DeleteBuffer_def InMem_Delete_def db_ok_def

lemma dispatch_refines:
  assumes env: "env_ok env lok rok" and h: "db_holds env lok rok db m"
  obtains db' where "db_dispatch env db c = Inr (fst (map_call m c), db')" "db_holds env lok rok db' (snd (map_call m c))"
proof -
  have lev: "disk_lib_ok (env_level env) lok" and rok: "disk_lib_ok (env_rocks env) rok" using env by (simp_all add: env_ok_def)
  have "\<exists>db'. db_dispatch env db c = Inr (fst (map_call m c), db') \<and> db_holds env lok rok db' (snd (map_call m c))"
  proof (cases db)
    case (Leveldb x)
    then obtain d where d: "level_db_obj x = Some d" "lok d" "lib_get (env_level env) d = m"
      using h by (auto split: option.splits)
    note p = lib_put_ok [OF lev d(2)] and e = lib_delete_ok [OF lev d(2)]
    show ?thesis
    proof (cases c)
      case (CallInsert k v)
      with p [of k v] d Leveldb show ?thesis by (auto simp: leveldb_defs)
    next
      case (CallInsertBuffer k b n)
      with p [of k "take n b"] d Leveldb show ?thesis by (auto simp: leveldb_defs)
    next
      case (CallInsertBothBuffer k kn b n)
      with p [of "take kn k" "take n b"] d Leveldb show ?thesis by (auto simp: leveldb_defs)
    qed (use d e Leveldb in \<open>simp_all add: leveldb_defs Let_def\<close>)
  next
    case (InMemory x)
    then show ?thesis using h by (cases c) (auto simp: inmem_defs fun_eq_iff)
  next
    case (Rocksdb x)
    then have d: "rok (rocks_db_obj x)" "lib_get (env_rocks env) (rocks_db_obj x) = m" using h by auto
    note p = lib_put_ok [OF rok d(1)] and e = lib_delete_ok [OF rok d(1)]
    show ?thesis
    proof (cases c)
      case (CallInsert k v)
      with p [of k v] d Rocksdb show ?thesis by (auto simp: rocksdb_defs)
    next
      case (CallInsertBuffer k b n)
      with p [of k "take n b"] d Rocksdb show ?thesis by (auto simp: rocksdb_defs)
    next
      case (CallInsertBothBuffer k kn b n)
      with p [of "take kn k" "take n b"] d Rocksdb show ?thesis by (auto simp: rocksdb_defs)
    qed (use d e Rocksdb in \<open>simp_all add: rocksdb_defs Let_def\<close>)
  qed
  then show thesis using that by blast
qed

lemma calls_refine:
  "env_ok env lok rok \<Longrightarrow> db_holds env lok rok db m \<Longrightarrow>
   \<exists>db'. db_calls env db cs = Inr (fst (map_calls m cs), db') \<and> db_holds env lok rok db' (snd (map_calls m cs))"
proof (induction cs arbitrary: db m)
  case Nil
  then show ?case by simp
next
  case (Cons c cs)
  obtain db1 where 1: "db_dispatch env db c = Inr (fst (map_call m c), db1)" "db_holds env lok rok db1 (snd (map_call m c))"
    by (rule dispatch_refines [OF Cons.prems])
  from Cons.IH [OF Cons.prems(1) 1(2)] 1(1) show ?case by (auto split: prod.splits)
qed


definition map_lib :: "(bytes \<Rightarrow> bytes option) disk_lib" where
  \<comment> \<open>a library that keeps a map in memory\<close>
  "map_lib = \<lparr> lib_open = \<lambda>_. Some Map.empty, lib_get = \<lambda>d. d, lib_put = \<lambda>d k v. (True, d(k \<mapsto> v)), lib_delete = \<lambda>d k. d(k := None) \<rparr>"

definition env_demo :: "(bytes \<Rightarrow> bytes option, bytes \<Rightarrow> bytes option) db_env" where
  "env_demo = \<lparr> env_level = map_lib, env_rocks = map_lib, env_exist = \<lambda>_. False, env_file = \<lambda>_. None \<rparr>"


text \<open>
  A LevelDB database whose lock file exists is not opened, but the constructor returns, and the first
  call follows a null pointer.
\<close>

lemma Leveldb_locked:
  assumes "env_exist env (lock_name path)"
  shows "\<exists>db. CreateDatabase env (Some LEVELDB_DB) path = Inr db \<and> db_calls env db (c # cs) = Inl NullPointer"
  using assms
  by (cases c) (simp_all add: CreateDatabase_def LeveldbDatabase_def Leveldb_OpenDB_def leveldb_defs Let_def)

end
