(* ===== verification/Programs.thy ===== *)
theory Programs
  imports Login Disk_Db Chunker
begin

text \<open>
  The frame of the three programs: \<open>Configure::ReadConfig\<close> of \<open>src/util/configure.cc\<close>, the command
  line, the name of a file and the totals of \<open>src/app/client_main.cc\<close>, and the start and the end of
  \<open>src/app/server_main.cc\<close> and \<open>src/app/km_main.cc\<close>. The property tree that boost has read from
  \<open>config.json\<close> is a record of its typed lookups. Strings of the programs are HOL strings.
\<close>

subsection \<open>Configuration\<close>

record ptree =
  \<comment> \<open>\<open>root.get<T>(path)\<close>; \<open>None\<close> is the exception for a missing or malformed value\<close>
  pt_u64 :: "string \<Rightarrow> u64 option"
  pt_u32 :: "string \<Rightarrow> u32 option"
  pt_int :: "string \<Rightarrow> int option"
  pt_string :: "string \<Rightarrow> string option"

record configure =
  cg_chunking_type :: u64
  cg_max_chunk_size :: u64
  cg_min_chunk_size :: u64
  cg_avg_chunk_size :: u64
  cg_chunker_sliding_win_size :: u64
  cg_read_size :: u64
  cg_similar_sliding_win_size :: u64
  cg_storage_server_ip :: string
  cg_storage_server_port :: int
  cg_recipe_root_path :: string
  cg_container_root_path :: string
  cg_cache_root_path :: string
  cg_fp_2_chunk_db :: string
  cg_feature_2_fp_db :: string
  cg_container_cache_size :: u64
  cg_km_ip :: string
  cg_km_port :: int
  cg_feature_2_key_db :: string
  cg_client_id :: u32
  cg_send_chunk_batch_size :: u64
  cg_send_recipe_batch_size :: u64
  cg_user_key :: string

definition pt_get :: "(string \<Rightarrow> 'a option) \<Rightarrow> string \<Rightarrow> 'a result" where
  \<comment> \<open>nobody catches the exception, the program ends\<close>
  "pt_get get path = (case get path of None \<Rightarrow> Inl WrongConfig | Some v \<Rightarrow> Inr v)"

definition check_batches :: "configure \<Rightarrow> configure result" where
  \<comment> \<open>the remainder by 0 is a trap of the processor\<close>
  "check_batches c =
    (if cg_send_chunk_batch_size c = 0 then Inl DivByZero
     else if cg_send_recipe_batch_size c mod cg_send_chunk_batch_size c \<noteq> 0 then Inl WrongConfig
     else Inr c)"

definition ReadConfig :: "ptree \<Rightarrow> configure result" where
  "ReadConfig root =
    bindR (pt_get (pt_u64 root) ''Chunker.chunking_type'') (\<lambda>ty.
    bindR (pt_get (pt_u64 root) ''Chunker.max_chunk_size'') (\<lambda>mx.
    bindR (pt_get (pt_u64 root) ''Chunker.min_chunk_size'') (\<lambda>mn.
    bindR (pt_get (pt_u64 root) ''Chunker.avg_chunk_size'') (\<lambda>avg.
    bindR (pt_get (pt_u64 root) ''Chunker.sliding_win_size'') (\<lambda>win.
    bindR (pt_get (pt_u64 root) ''Chunker.read_size'') (\<lambda>read.
    bindR (pt_get (pt_u64 root) ''Similar.sliding_win_size'') (\<lambda>swin.
    bindR (pt_get (pt_string root) ''StorageServer.ip'') (\<lambda>ip.
    bindR (pt_get (pt_int root) ''StorageServer.port'') (\<lambda>port.
    bindR (pt_get (pt_string root) ''StorageServer.recipe_root_path'') (\<lambda>recipe.
    bindR (pt_get (pt_string root) ''StorageServer.container_root_path'') (\<lambda>container.
    bindR (pt_get (pt_string root) ''StorageServer.cache_root_path'') (\<lambda>cache.
    bindR (pt_get (pt_string root) ''StorageServer.fp_2_chunk_db'') (\<lambda>fp_db.
    bindR (pt_get (pt_string root) ''StorageServer.feature_2_fp_db'') (\<lambda>feature_db.
    bindR (pt_get (pt_u64 root) ''StorageServer.container_cache_size'') (\<lambda>cache_size.
    bindR (pt_get (pt_string root) ''KeyServer.ip'') (\<lambda>km_ip.
    bindR (pt_get (pt_int root) ''KeyServer.port'') (\<lambda>km_port.
    bindR (pt_get (pt_string root) ''KeyServer.feature_2_key_db'') (\<lambda>key_db.
    bindR (pt_get (pt_u32 root) ''Client.id'') (\<lambda>client_id.
    bindR (pt_get (pt_u64 root) ''Client.send_chunk_batch_size'') (\<lambda>batch.
    bindR (pt_get (pt_u64 root) ''Client.send_recipe_batch_size'') (\<lambda>recipe_batch.
    bindR (pt_get (pt_string root) ''Client.user_key'') (\<lambda>user_key.
    check_batches
      \<lparr> cg_chunking_type = ty, cg_max_chunk_size = mx, cg_min_chunk_size = mn, cg_avg_chunk_size = avg,
        cg_chunker_sliding_win_size = win, cg_read_size = read, cg_similar_sliding_win_size = swin,
        cg_storage_server_ip = ip, cg_storage_server_port = port, cg_recipe_root_path = recipe,
        cg_container_root_path = container, cg_cache_root_path = cache, cg_fp_2_chunk_db = fp_db,
        cg_feature_2_fp_db = feature_db, cg_container_cache_size = cache_size, cg_km_ip = km_ip,
        cg_km_port = km_port, cg_feature_2_key_db = key_db, cg_client_id = client_id,
        cg_send_chunk_batch_size = batch, cg_send_recipe_batch_size = recipe_batch,
        cg_user_key = user_key \<rparr>))))))))))))))))))))))"

lemma pt_get_Inr [simp]: "pt_get get path = Inr v \<longleftrightarrow> get path = Some v"
  by (simp add: pt_get_def split: option.splits)

lemma check_batches_Inr:
  "check_batches c = Inr c' \<longleftrightarrow> c' = c \<and> 0 < unat (cg_send_chunk_batch_size c) \<and>
     unat (cg_send_chunk_batch_size c) dvd unat (cg_send_recipe_batch_size c)"
proof -
  have "a mod b = 0 \<longleftrightarrow> unat b dvd unat a" for a b :: u64
    by (simp add: dvd_eq_mod_eq_0 flip: unat_mod unat_eq_0)
  then show ?thesis by (auto simp: check_batches_def unat_gt_0)
qed

lemma ReadConfig_accepts:
  \<comment> \<open>what the other theories assume of the batch sizes, up to a recipe batch of 0\<close>
  assumes "ReadConfig root = Inr c"
  shows "0 < unat (cg_send_chunk_batch_size c)" "unat (cg_send_chunk_batch_size c) dvd unat (cg_send_recipe_batch_size c)"
    "pt_u32 root ''Client.id'' = Some (cg_client_id c)"
    "pt_u64 root ''Client.send_recipe_batch_size'' = Some (cg_send_recipe_batch_size c)"
  using assms unfolding ReadConfig_def bindR_eq_Inr pt_get_Inr check_batches_Inr
  by (elim exE conjE; simp only: configure.select_convs)+

definition Configure_AbsChunker :: "configure \<Rightarrow> abs_chunker" where
  \<comment> \<open>the constructor of \<open>AbsChunker\<close> reads its sizes from the configuration; the product wraps\<close>
  "Configure_AbsChunker c = AbsChunker (unat (cg_avg_chunk_size c)) (unat (cg_min_chunk_size c))
     (unat (cg_max_chunk_size c)) (unat (cg_read_size c))
     \<lparr> read_size := unat (cg_read_size c * 2 ^ 20) \<rparr>"

lemma Configure_AbsChunker_exact:
  assumes "unat (cg_read_size c) < 2 ^ 44"
  shows "Configure_AbsChunker c = AbsChunker (unat (cg_avg_chunk_size c)) (unat (cg_min_chunk_size c))
     (unat (cg_max_chunk_size c)) (unat (cg_read_size c))"
proof -
  have "unat (cg_read_size c * 2 ^ 20) = unat (cg_read_size c) * 2 ^ 20"
    using assms by (subst unat_mult_lem [THEN iffD1]) simp_all
  then show ?thesis by (simp add: Configure_AbsChunker_def AbsChunker_def)
qed

definition config_json :: ptree where
  \<comment> \<open>the file \<open>config.json\<close> of the repository\<close>
  "config_json = \<lparr>
     pt_u64 = map_of [(''Chunker.chunking_type'', 1), (''Chunker.max_chunk_size'', 16384),
       (''Chunker.avg_chunk_size'', 8192), (''Chunker.min_chunk_size'', 4096), (''Chunker.sliding_win_size'', 128),
       (''Chunker.read_size'', 128), (''Similar.sliding_win_size'', 48), (''StorageServer.container_cache_size'', 512),
       (''Client.send_chunk_batch_size'', 512), (''Client.send_recipe_batch_size'', 1024)],
     pt_u32 = map_of [(''Client.id'', 1)],
     pt_int = map_of [(''StorageServer.port'', 16666), (''KeyServer.port'', 16667)],
     pt_string = map_of [(''StorageServer.ip'', ''127.0.0.1''), (''StorageServer.recipe_root_path'', ''Recipes/''),
       (''StorageServer.container_root_path'', ''Containers/''), (''StorageServer.cache_root_path'', ''Cache/''),
       (''StorageServer.fp_2_chunk_db'', ''fp_chunk_db''), (''StorageServer.feature_2_fp_db'', ''feature_fp_db''),
       (''KeyServer.ip'', ''127.0.0.1''), (''KeyServer.feature_2_key_db'', ''feature_key_db''),
       (''Client.user_key'', ''0123456789'')] \<rparr>"

definition config_default :: configure where
  "config_default =
     \<lparr> cg_chunking_type = 1, cg_max_chunk_size = 16384, cg_min_chunk_size = 4096, cg_avg_chunk_size = 8192,
       cg_chunker_sliding_win_size = 128, cg_read_size = 128, cg_similar_sliding_win_size = 48,
       cg_storage_server_ip = ''127.0.0.1'', cg_storage_server_port = 16666, cg_recipe_root_path = ''Recipes/'',
       cg_container_root_path = ''Containers/'', cg_cache_root_path = ''Cache/'', cg_fp_2_chunk_db = ''fp_chunk_db'',
       cg_feature_2_fp_db = ''feature_fp_db'', cg_container_cache_size = 512, cg_km_ip = ''127.0.0.1'',
       cg_km_port = 16667, cg_feature_2_key_db = ''feature_key_db'', cg_client_id = 1,
       cg_send_chunk_batch_size = 512, cg_send_recipe_batch_size = 1024, cg_user_key = ''0123456789'' \<rparr>"

lemma config_json_read: "ReadConfig config_json = Inr config_default"
  by code_simp

subsection \<open>The command line of the client\<close>

fun getopt :: "char set \<Rightarrow> string list \<Rightarrow> (char \<times> string) option list" where
  \<comment> \<open>\<open>getopt\<close> for options that all take an argument, what its calls return until -1; words that are no
    options are skipped; \<open>None\<close> is the \<open>?\<close> for an unknown option or a missing argument, at which
    the program exits\<close>
  "getopt opts [] = []"
| "getopt opts (w # ws) =
    (if w = ''--'' then []
     else if length w < 2 \<or> hd w \<noteq> CHR ''-'' then getopt opts ws
     else if w ! 1 \<notin> opts then [None]
     else if drop 2 w \<noteq> [] then Some (w ! 1, drop 2 w) # getopt opts ws
     else (case ws of [] \<Rightarrow> [None] | v # vs \<Rightarrow> Some (w ! 1, v) # getopt opts vs))"

definition is_digit :: "char \<Rightarrow> bool" where
  "is_digit c \<longleftrightarrow> (48 :: nat) \<le> of_char c \<and> (of_char c :: nat) \<le> 57"

definition dec_value :: "string \<Rightarrow> nat" where
  "dec_value ds = foldl (\<lambda>n c. 10 * n + (of_char c - 48)) 0 ds"

definition is_space :: "char \<Rightarrow> bool" where
  "is_space c \<longleftrightarrow> (of_char c :: nat) = 32 \<or> (9 \<le> (of_char c :: nat) \<and> (of_char c :: nat) \<le> 13)"

definition atoi :: "string \<Rightarrow> int" where
  \<comment> \<open>as in the C library of the platform: \<open>strtol\<close>, which stops at its bounds, cut to \<open>int\<close>\<close>
  "atoi s =
    (let s = dropWhile is_space s;
         neg = (s \<noteq> [] \<and> hd s = CHR ''-'');
         s = (if s \<noteq> [] \<and> hd s \<in> {CHR ''-'', CHR ''+''} then tl s else s);
         v = int (dec_value (takeWhile is_digit s))
     in sint (word_of_int (max (- (2 ^ 63)) (min (2 ^ 63 - 1) (if neg then - v else v))) :: 32 word))"

record client_args =
  \<comment> \<open>\<open>None\<close> while the variable is not initialised\<close>
  ca_opt_type :: "client_opt_type option"
  ca_input_file_path :: string
  ca_method_type :: "edr_design option"

definition client_option :: "client_args \<Rightarrow> (char \<times> string) option \<Rightarrow> client_args result" where
  \<comment> \<open>the \<open>switch\<close> of the loop; \<open>Inl\<close> is \<open>Usage\<close> and the exit\<close>
  "client_option a r =
    (case r of
       None \<Rightarrow> Inl WrongConfig
     | Some (opt, optarg) \<Rightarrow>
         if opt = CHR ''t'' then
           (if optarg = ''u'' then Inr (a \<lparr> ca_opt_type := Some UPLOAD_OPT \<rparr>)
            else if optarg = ''d'' then Inr (a \<lparr> ca_opt_type := Some DOWNLOAD_OPT \<rparr>)
            else Inl WrongConfig)
         else if opt = CHR ''i'' then Inr (a \<lparr> ca_input_file_path := optarg \<rparr>)
         else if opt = CHR ''m'' then
           (if atoi optarg = 0 then Inr (a \<lparr> ca_method_type := Some ONLY_SIMILAR_ENC \<rparr>)
            else if atoi optarg = 1 then Inr (a \<lparr> ca_method_type := Some SIMILAR_ENC_COMP \<rparr>)
            else if atoi optarg = 2 then Inr (a \<lparr> ca_method_type := Some FULL_EDR \<rparr>)
            else Inl WrongMethodType)
         else Inr a)"

definition client_arguments :: "string list \<Rightarrow> client_args result" where
  \<comment> \<open>\<open>sizeof(opt_str)\<close> is 7\<close>
  "client_arguments argv =
    (if length argv < 7 then Inl WrongConfig
     else foldR client_option \<lparr> ca_opt_type = None, ca_input_file_path = [], ca_method_type = None \<rparr>
            (getopt {CHR ''t'', CHR ''i'', CHR ''m''} (tl argv)))"

definition opt_word :: "client_opt_type \<Rightarrow> string" where
  "opt_word t = (case t of UPLOAD_OPT \<Rightarrow> ''u'' | DOWNLOAD_OPT \<Rightarrow> ''d'')"

definition method_word :: "edr_design \<Rightarrow> string" where
  "method_word m = (case m of ONLY_SIMILAR_ENC \<Rightarrow> ''0'' | SIMILAR_ENC_COMP \<Rightarrow> ''1'' | FULL_EDR \<Rightarrow> ''2'')"

definition usage_option :: "client_opt_type \<Rightarrow> string \<Rightarrow> edr_design \<Rightarrow> char \<Rightarrow> string" where
  "usage_option t path m c = (if c = CHR ''t'' then opt_word t else if c = CHR ''i'' then path else method_word m)"

lemma getopt_separate:
  assumes "set cs \<subseteq> opts" "CHR ''-'' \<notin> opts"
  shows "getopt opts (concat (map (\<lambda>c. [[CHR ''-'', c], arg c]) cs)) = map (\<lambda>c. Some (c, arg c)) cs"
  using assms by (induction cs) auto

lemma atoi_method: "atoi (method_word m) = (case m of ONLY_SIMILAR_ENC \<Rightarrow> 0 | SIMILAR_ENC_COMP \<Rightarrow> 1 | FULL_EDR \<Rightarrow> 2)"
proof -
  have "atoi ''0'' = 0" "atoi ''1'' = 1" "atoi ''2'' = 2" by code_simp+
  then show ?thesis by (cases m) (simp_all add: method_word_def)
qed

lemma mset_three:
  assumes "mset cs = {#x, y, z#}"
  shows "cs = [x, y, z] \<or> cs = [x, z, y] \<or> cs = [y, x, z] \<or> cs = [y, z, x] \<or> cs = [z, x, y] \<or> cs = [z, y, x]"
proof -
  have "length cs = 3" using arg_cong [OF assms, of size] by simp
  then obtain a b c where cs: "cs = [a, b, c]" by (auto simp: numeral_3_eq_3 length_Suc_conv)
  with assms show ?thesis by (auto simp: add_eq_conv_ex)
qed

lemma client_usage:
  \<comment> \<open>the three options as the usage shows them, in every order\<close>
  assumes "mset cs = {#CHR ''t'', CHR ''i'', CHR ''m''#}"
  shows "client_arguments (prog # concat (map (\<lambda>c. [[CHR ''-'', c], usage_option t path m c]) cs)) =
    Inr \<lparr> ca_opt_type = Some t, ca_input_file_path = path, ca_method_type = Some m \<rparr>"
proof -
  let ?arg = "usage_option t path m" and ?opts = "{CHR ''t'', CHR ''i'', CHR ''m''}"
  let ?start = "\<lparr> ca_opt_type = None, ca_input_file_path = [], ca_method_type = None \<rparr>"
  have "length (concat (map (\<lambda>c. [[CHR ''-'', c], ?arg c]) cs)) = 2 * size (mset cs)" by (induction cs) auto
  then have l: "length (concat (map (\<lambda>c. [[CHR ''-'', c], ?arg c]) cs)) = 6" by (simp add: assms)
  have "set cs \<subseteq> ?opts" using arg_cong [OF assms, of set_mset] by simp
  then have g: "getopt ?opts (concat (map (\<lambda>c. [[CHR ''-'', c], ?arg c]) cs)) = map (\<lambda>c. Some (c, ?arg c)) cs"
    by (rule getopt_separate) simp
  have o: "client_option a (Some (CHR ''t'', ?arg CHR ''t'')) = Inr (a \<lparr> ca_opt_type := Some t \<rparr>)"
    "client_option a (Some (CHR ''i'', ?arg CHR ''i'')) = Inr (a \<lparr> ca_input_file_path := path \<rparr>)"
    "client_option a (Some (CHR ''m'', ?arg CHR ''m'')) = Inr (a \<lparr> ca_method_type := Some m \<rparr>)" for a
    by (cases t; simp add: client_option_def usage_option_def opt_word_def)
      (simp_all add: client_option_def usage_option_def atoi_method split: edr_design.splits)
  have "foldR client_option ?start (map (\<lambda>c. Some (c, ?arg c)) cs) =
    Inr \<lparr> ca_opt_type = Some t, ca_input_file_path = path, ca_method_type = Some m \<rparr>"
    using mset_three [OF assms] by (elim disjE) (simp_all add: o)
  with g l show ?thesis by (simp add: client_arguments_def)
qed

lemma client_arguments_gaps:
  \<comment> \<open>the count of the words is no check of the options: one may be missing, and joined ones are
    refused; a method that is no number is method 0\<close>
  "client_arguments [prog, ''-t'', ''u'', ''-i'', ''f'', ''-i'', ''f''] =
     Inr \<lparr> ca_opt_type = Some UPLOAD_OPT, ca_input_file_path = ''f'', ca_method_type = None \<rparr>"
  "client_arguments [prog, ''-tu'', ''-if'', ''-m2''] = Inl WrongConfig"
  "client_arguments [prog, ''-t'', ''d'', ''-i'', ''f'', ''-m'', ''full''] =
     Inr \<lparr> ca_opt_type = Some DOWNLOAD_OPT, ca_input_file_path = ''f'', ca_method_type = Some ONLY_SIMILAR_ENC \<rparr>"
  by code_simp+

subsection \<open>The name of a file\<close>

fun dec_digits :: "nat \<Rightarrow> nat list" where
  \<comment> \<open>the last digit first\<close>
  "dec_digits n = n mod 10 # (if n < 10 then [] else dec_digits (n div 10))"

declare dec_digits.simps [simp del]

definition to_string :: "nat \<Rightarrow> string" where
  "to_string n = map (\<lambda>d. char_of (48 + d)) (rev (dec_digits n))"

definition bytes_of :: "string \<Rightarrow> bytes" where
  "bytes_of s = map of_char s"

definition full_name :: "string \<Rightarrow> u32 \<Rightarrow> string" where
  "full_name input_file_path client_id = input_file_path @ to_string (unat client_id)"

definition file_name_hash :: "(bytes \<Rightarrow> bytes) \<Rightarrow> string \<Rightarrow> u32 \<Rightarrow> bytes" where
  "file_name_hash hash input_file_path client_id = hash (bytes_of (full_name input_file_path client_id))"

lemma dec_digits_value: "foldr (\<lambda>d n. d + 10 * n) (dec_digits n) 0 = n"
proof (induction n rule: dec_digits.induct)
  case (1 n)
  then show ?case by (subst dec_digits.simps) auto
qed

lemma dec_digits_lt: "d \<in> set (dec_digits n) \<Longrightarrow> d < 10"
proof (induction n rule: dec_digits.induct)
  case (1 n)
  from 1(2) have "d = n mod 10 \<or> \<not> n < 10 \<and> d \<in> set (dec_digits (n div 10))"
    by (subst (asm) dec_digits.simps) (auto split: if_splits)
  with 1(1) show ?case by auto
qed

lemma digit_char_inj: "d < 10 \<Longrightarrow> e < 10 \<Longrightarrow> char_of (48 + d :: nat) = (char_of (48 + e) :: char) \<Longrightarrow> d = e"
  by (drule arg_cong [of _ _ "of_char :: char \<Rightarrow> nat"]) (simp add: of_char_of)

lemma to_string_inj: "to_string m = to_string n \<longleftrightarrow> m = n"
proof
  assume "to_string m = to_string n"
  then have "map (\<lambda>d. char_of (48 + d) :: char) (dec_digits m) = map (\<lambda>d. char_of (48 + d)) (dec_digits n)"
    unfolding to_string_def by (metis rev_map rev_rev_ident)
  moreover have "inj_on (\<lambda>d. char_of (48 + d) :: char) (set (dec_digits m) \<union> set (dec_digits n))"
    using dec_digits_lt digit_char_inj by (intro inj_onI) blast
  ultimately have "dec_digits m = dec_digits n" using inj_on_map_eq_map by blast
  then show "m = n" using dec_digits_value by metis
qed simp

lemma full_name_eq:
  "full_name p a = full_name q b \<longleftrightarrow>
    (\<exists>d. (p = q @ d \<and> to_string (unat b) = d @ to_string (unat a)) \<or> (q = p @ d \<and> to_string (unat a) = d @ to_string (unat b)))"
  by (auto simp: full_name_def append_eq_append_conv2)

lemma full_name_same_length:
  assumes "length (to_string (unat a)) = length (to_string (unat b))" "full_name p a = full_name q b"
  shows "p = q" "a = b"
  using assms by (auto simp: full_name_def to_string_inj word_unat_eq_iff)

lemma bytes_of_inj: "bytes_of s = bytes_of t \<longleftrightarrow> s = t"
proof -
  have "inj (of_char :: char \<Rightarrow> byte)"
  proof (rule injI)
    fix c d :: char
    assume "(of_char c :: byte) = of_char d"
    then have "unat (of_char c :: byte) = unat (of_char d :: byte)" by simp
    moreover have "unat (of_char e :: byte) = of_char e" for e
    proof -
      have "(of_char e :: byte) = of_nat (of_char e)" by (rule of_nat_of_char [symmetric])
      then show ?thesis using nat_of_char_less_256 [of e] by (simp add: unat_of_nat del: of_nat_of_char)
    qed
    ultimately show "c = d" by simp
  qed
  then show ?thesis by (simp add: bytes_of_def inj_map_eq_map)
qed

subsection \<open>The files of several clients on one server\<close>

definition names_clash :: "string \<Rightarrow> u32 \<Rightarrow> string \<Rightarrow> u32 \<Rightarrow> bool" where
  \<comment> \<open>the same file of the same client, or the id of one client continues the path of the other\<close>
  "names_clash p a q b \<longleftrightarrow>
    (\<exists>d. (p = q @ d \<and> to_string (unat b) = d @ to_string (unat a)) \<or> (q = p @ d \<and> to_string (unat a) = d @ to_string (unat b)))"

lemma file_name_hash_eq:
  assumes "hash (bytes_of (full_name p a)) = hash (bytes_of (full_name q b)) \<Longrightarrow> bytes_of (full_name p a) = bytes_of (full_name q b)"
  shows "file_name_hash hash p a = file_name_hash hash q b \<longleftrightarrow> names_clash p a q b"
proof -
  have "file_name_hash hash p a = file_name_hash hash q b \<longleftrightarrow> bytes_of (full_name p a) = bytes_of (full_name q b)"
    using assms by (auto simp: file_name_hash_def)
  then show ?thesis by (simp add: bytes_of_inj full_name_eq names_clash_def)
qed

lemma names_clash_same_length:
  assumes "length (to_string (unat a)) = length (to_string (unat b))"
  shows "names_clash p a q b \<longleftrightarrow> p = q \<and> a = b"
  using assms full_name_same_length [of a b p q] by (auto simp: names_clash_def simp flip: full_name_eq)

text \<open>C33. Whose recipe a login reaches. The client \<open>b\<close> asks to upload its file \<open>q\<close>: of the file
  \<open>p\<close> of the client \<open>a\<close> the server truncates the recipe exactly if the two names clash, that is if they are
  the same file of the same client, or if one id continues the path of the other, as client 12 with the
  file \<open>x\<close> and client 2 with the file \<open>x1\<close>. In that case a download of \<open>b\<close> is served from the recipe
  of \<open>a\<close>. Clients whose ids have the same number of digits never clash.\<close>

theorem Client_recipes:
  assumes "tls_ok tls wire" "wire up = []" "wire down = []" "\<And>s. length (hash s) = CHUNK_HASH_SIZE"
    and "\<And>n. length (junk' n) = n" and head: "rh_size head < 2 ^ 64" "rh_chunk_num head < 2 ^ 64"
    and digest: "hash (bytes_of (full_name p a)) = hash (bytes_of (full_name q b)) \<Longrightarrow>
      bytes_of (full_name p a) = bytes_of (full_name q b)"
  shows "(\<exists>up1 up2 down1 files'.
      send_login tls up (login_request junk b CLIENT_LOGIN_UPLOAD (file_name_hash hash q b)) = Inr up1 \<and>
      session_login root suffix tls junk' files up1 down =
        Inr (b, Uploading (recipe_path root suffix (file_name_hash hash q b)), files', up2, down1) \<and>
      map_of files' (recipe_path root suffix (file_name_hash hash p a)) =
        (if names_clash p a q b then Some (junk' RECIPE_HEAD_SIZE)
         else map_of files (recipe_path root suffix (file_name_hash hash p a)))) \<and>
    (names_clash p a q b \<longrightarrow>
      map_of files (recipe_path root suffix (file_name_hash hash p a)) = Some (recipe_head_bytes head @ recipe) \<longrightarrow>
      (\<exists>up1 up2 down1. send_login tls up (login_request junk b CLIENT_LOGIN_DOWNLOAD (file_name_hash hash q b)) = Inr up1 \<and>
        session_login root suffix tls junk' files up1 down = Inr (b, Downloading (recipe, False), files, up2, down1))) \<and>
    (length (to_string (unat a)) = length (to_string (unat b)) \<longrightarrow> (names_clash p a q b \<longleftrightarrow> p = q \<and> a = b))"
proof (intro conjI impI)
  let ?R = "\<lambda>p a. recipe_path root suffix (file_name_hash hash p a)"
  have len: "length (file_name_hash hash q b) = CHUNK_HASH_SIZE" "length (file_name_hash hash p a) = CHUNK_HASH_SIZE"
    by (simp_all add: file_name_hash_def assms(4))
  have clash: "?R p a = ?R q b \<longleftrightarrow> names_clash p a q b"
    using recipe_path_inj [of "file_name_hash hash p a" "file_name_hash hash q b"] len file_name_hash_eq [OF digest] by metis
  obtain up1 up2 down1 where u:
    "send_login tls up (login_request junk b CLIENT_LOGIN_UPLOAD (file_name_hash hash q b)) = Inr up1"
    "session_login root suffix tls junk' files up1 down =
       Inr (b, Uploading (?R q b), AList.update (?R q b) (junk' RECIPE_HEAD_SIZE) files, up2, down1)"
    using upload_exchange [OF assms(1-3) len(1) assms(5)] by metis
  have "map_of (AList.update (?R q b) (junk' RECIPE_HEAD_SIZE) files) (?R p a) =
      (if names_clash p a q b then Some (junk' RECIPE_HEAD_SIZE) else map_of files (?R p a))"
    by (simp add: clash)
  with u show "\<exists>up1 up2 down1 files'.
      send_login tls up (login_request junk b CLIENT_LOGIN_UPLOAD (file_name_hash hash q b)) = Inr up1 \<and>
      session_login root suffix tls junk' files up1 down = Inr (b, Uploading (?R q b), files', up2, down1) \<and>
      map_of files' (?R p a) = (if names_clash p a q b then Some (junk' RECIPE_HEAD_SIZE) else map_of files (?R p a))"
    by blast
  assume "names_clash p a q b" "map_of files (?R p a) = Some (recipe_head_bytes head @ recipe)"
  then have "map_of files (?R q b) = Some (recipe_head_bytes head @ recipe)" using clash by simp
  from download_exchange [OF assms(1-3) len(1) assms(5) this head]
  show "\<exists>up1 up2 down1. send_login tls up (login_request junk b CLIENT_LOGIN_DOWNLOAD (file_name_hash hash q b)) = Inr up1 \<and>
      session_login root suffix tls junk' files up1 down = Inr (b, Downloading (recipe, False), files, up2, down1)"
    by metis
qed (rule names_clash_same_length)

lemma Client_recipes_witness:
  "\<exists>up1 up2 down1 files'.
    send_login demo_tls [] (login_request (\<lambda>n. replicate n 9) 12 CLIENT_LOGIN_UPLOAD
      (file_name_hash (\<lambda>s. take 32 (s @ replicate 32 0)) ''x'' 12)) = Inr up1 \<and>
    session_login [47] [46, 114] demo_tls (\<lambda>n. replicate n 5)
        [(recipe_path [47] [46, 114] (file_name_hash (\<lambda>s. take 32 (s @ replicate 32 0)) ''x1'' 2), [8])] up1 [] =
      Inr (12, Uploading (recipe_path [47] [46, 114] (file_name_hash (\<lambda>s. take 32 (s @ replicate 32 0)) ''x'' 12)), files', up2, down1) \<and>
    map_of files' (recipe_path [47] [46, 114] (file_name_hash (\<lambda>s. take 32 (s @ replicate 32 0)) ''x1'' 2)) =
      Some (replicate RECIPE_HEAD_SIZE 5)"
proof -
  have f: "full_name ''x1'' 2 = full_name ''x'' 12" by code_simp
  then have c: "names_clash ''x1'' 2 ''x'' 12" unfolding names_clash_def by (simp only: full_name_eq [symmetric])
  show ?thesis
    using Client_recipes [OF demo_tls_ok, of "[]" "[]" "\<lambda>s. take 32 (s @ replicate 32 0)" "\<lambda>n. replicate n 5"
      "\<lparr> rh_size = 0, rh_chunk_num = 0 \<rparr>" "''x1''" 2 "''x''" 12 "\<lambda>n. replicate n 9" "[47]" "[46, 114]"
      "[(recipe_path [47] [46, 114] (file_name_hash (\<lambda>s. take 32 (s @ replicate 32 0)) ''x1'' 2), [8])]"] c f
    by (simp add: CHUNK_HASH_SIZE_def)
qed

subsection \<open>The totals of the client\<close>

definition load_client_stat :: "bool \<Rightarrow> bytes option \<Rightarrow> u64 \<times> u64" where
  \<comment> \<open>number and size of the chunks uploaded so far: read only if there is a log file; a stream that is not
    open leaves the zeros of the global variables\<close>
  "load_client_stat log_exists stat_file =
    (if log_exists then
       (case stat_file of
          None \<Rightarrow> (0, 0)
        | Some f \<Rightarrow>
            (case read_field 8 (f, False) (u64_le 0) of (chunk_num, st) \<Rightarrow>
             case read_field 8 st (u64_le 0) of (data_size, st) \<Rightarrow> (le_u64 chunk_num, le_u64 data_size)))
     else (0, 0))"

definition store_client_stat :: "u64 \<times> u64 \<Rightarrow> bytes" where
  "store_client_stat totals = u64_le (fst totals) @ u64_le (snd totals)"

definition client_upload_stat :: "bool \<times> bytes option \<Rightarrow> u64 \<times> u64 \<Rightarrow> bool \<times> bytes option" where
  \<comment> \<open>a run of the client that uploads a file with these many chunks and bytes: the log exists then\<close>
  "client_upload_stat fs file =
    (case load_client_stat (fst fs) (snd fs) of (chunk_num, data_size) \<Rightarrow>
       (True, Some (store_client_stat (chunk_num + fst file, data_size + snd file))))"

definition client_download_stat :: "bool \<times> bytes option \<Rightarrow> bool \<times> bytes option" where
  \<comment> \<open>a download writes the log only\<close>
  "client_download_stat fs = (True, snd fs)"

lemma load_store_client_stat [simp]: "load_client_stat True (Some (store_client_stat totals)) = totals"
  by (simp add: load_client_stat_def store_client_stat_def read_field_def)

lemma client_stat_sums:
  \<comment> \<open>over any runs the totals are the sums of the uploads, as 64-bit numbers\<close>
  "load_client_stat True (snd (foldl client_upload_stat (True, Some (store_client_stat (n, s))) files)) =
    (n + sum_list (map fst files), s + sum_list (map snd files))"
proof (induction files arbitrary: n s)
  case (Cons f files)
  have "client_upload_stat (True, Some (store_client_stat (n, s))) f = (True, Some (store_client_stat (n + fst f, s + snd f)))"
    by (simp add: client_upload_stat_def)
  then show ?case using Cons [of "n + fst f" "s + snd f"] by (simp add: add.assoc)
qed simp

subsection \<open>Start and end of the servers\<close>

definition server_main_init ::
  "('l, 'r) db_env \<Rightarrow> configure \<Rightarrow> (('l, 'r) abs_database \<times> ('l, 'r) abs_database) result" where
  \<comment> \<open>\<open>fp_2_addr_db\<close> and \<open>feature_2_fp_db\<close>\<close>
  "server_main_init env c =
    bindR (CreateDatabase env (Some IN_MEMORY_DB) (cg_fp_2_chunk_db c)) (\<lambda>fp_2_addr_db.
    bindR (CreateDatabase env (Some IN_MEMORY_DB) (cg_feature_2_fp_db c)) (\<lambda>feature_2_fp_db.
      Inr (fp_2_addr_db, feature_2_fp_db)))"

definition km_main_init :: "('l, 'r) db_env \<Rightarrow> configure \<Rightarrow> ('l, 'r) abs_database result" where
  "km_main_init env c = CreateDatabase env (Some IN_MEMORY_DB) (cg_feature_2_key_db c)"

definition delete_db :: "string \<Rightarrow> ('l, 'r) abs_database \<Rightarrow> (string \<Rightarrow> bytes option) \<Rightarrow> string \<Rightarrow> bytes option" where
  \<comment> \<open>the destructor of the in-memory database writes its file; the others keep their own files\<close>
  "delete_db name db files = (case db of InMemory m \<Rightarrow> files(name \<mapsto> InMem_Close m) | _ \<Rightarrow> files)"

definition server_CTRLC ::
  "configure \<Rightarrow> ('l, 'r) abs_database \<times> ('l, 'r) abs_database \<Rightarrow> (string \<Rightarrow> bytes option) \<Rightarrow> string \<Rightarrow> bytes option" where
  \<comment> \<open>the handler of the interrupt, after the sessions have been joined\<close>
  "server_CTRLC c dbs files =
    delete_db (cg_feature_2_fp_db c) (snd dbs) (delete_db (cg_fp_2_chunk_db c) (fst dbs) files)"

definition km_CTRLC :: "configure \<Rightarrow> ('l, 'r) abs_database \<Rightarrow> (string \<Rightarrow> bytes option) \<Rightarrow> string \<Rightarrow> bytes option" where
  "km_CTRLC c db files = delete_db (cg_feature_2_key_db c) db files"

lemma server_restart:
  \<comment> \<open>an interrupted server finds its indexes again, if the configuration names two different files\<close>
  assumes "cg_fp_2_chunk_db c \<noteq> cg_feature_2_fp_db c" "db_keys_ok (index_obj m)" "db_keys_ok (index_obj f)"
  shows "server_main_init (env \<lparr> env_file := server_CTRLC c (InMemory m, InMemory f) files \<rparr>) c = Inr (InMemory m, InMemory f)"
  using assms by (simp add: server_main_init_def server_CTRLC_def delete_db_def CreateDatabase_def InMem_reopen)

lemma server_restart_one_file:
  \<comment> \<open>with one name for both, the index of the chunks is lost: the features are loaded in its place\<close>
  assumes "cg_fp_2_chunk_db c = cg_feature_2_fp_db c" "db_keys_ok (index_obj f)"
  shows "server_main_init (env \<lparr> env_file := server_CTRLC c (InMemory m, InMemory f) files \<rparr>) c = Inr (InMemory f, InMemory f)"
  using assms by (simp add: server_main_init_def server_CTRLC_def delete_db_def CreateDatabase_def InMem_reopen)

lemma km_restart:
  assumes "db_keys_ok (index_obj m)"
  shows "km_main_init (env \<lparr> env_file := km_CTRLC c (InMemory m) files \<rparr>) c = Inr (InMemory m)"
  using assms by (simp add: km_main_init_def km_CTRLC_def delete_db_def CreateDatabase_def InMem_reopen)

end
