(* ===== verification/Client_Lock.thy ===== *)
theory Client_Lock
  imports Prelude
begin

text \<open>
  The locks of \<open>ServerOptThd\<close> that admit one session per client id: \<open>LockClientID\<close> and
  \<open>UnlockClientID\<close> of \<open>src/server/server_opt_thd.cc\<close>. Any number of session threads run; a step is a
  critical section of \<open>client_idx_lck_\<close>, an acquisition or a release of a client's mutex. A mutex is
  named by a number, \<open>new boost::mutex\<close> takes the next one.
\<close>

subsection \<open>The code\<close>

datatype session_pc = BeforeLock | AtLock nat | InSession | AtUnlock nat | SessionDone

record client_locks =
  cl_lck_idx :: "(u32, nat) umap"           \<comment> \<open>\<open>client_lck_idx_\<close>\<close>
  cl_next :: nat                            \<comment> \<open>the mutex allocated next\<close>
  cl_owner :: "nat \<Rightarrow> nat option"           \<comment> \<open>the session that holds a mutex\<close>
  cl_pc :: "nat \<Rightarrow> session_pc"              \<comment> \<open>where each session is\<close>

definition client_locks_new :: client_locks where
  "client_locks_new = \<lparr> cl_lck_idx = [], cl_next = 0, cl_owner = (\<lambda>_. None), cl_pc = (\<lambda>_. BeforeLock) \<rparr>"

definition LockClientID_find :: "client_locks \<Rightarrow> u32 \<Rightarrow> nat \<times> client_locks" where
  "LockClientID_find s client_id =
    (case map_of (cl_lck_idx s) client_id of
       Some tmp_lck \<Rightarrow> (tmp_lck, s)
     | None \<Rightarrow> (cl_next s, s \<lparr> cl_lck_idx := AList.update client_id (cl_next s) (cl_lck_idx s), cl_next := cl_next s + 1 \<rparr>))"

definition at_pc :: "nat \<Rightarrow> session_pc \<Rightarrow> client_locks \<Rightarrow> client_locks" where
  "at_pc t p s = s \<lparr> cl_pc := (cl_pc s)(t := p) \<rparr>"

inductive lock_step :: "(nat \<Rightarrow> u32) \<Rightarrow> nat \<Rightarrow> client_locks \<Rightarrow> client_locks \<Rightarrow> bool" for client_id where
  lock_find: "cl_pc s t = BeforeLock \<Longrightarrow> LockClientID_find s (client_id t) = (tmp_lck, s') \<Longrightarrow>
    lock_step client_id t s (at_pc t (AtLock tmp_lck) s')"
| lock_acquire: "cl_pc s t = AtLock tmp_lck \<Longrightarrow> cl_owner s tmp_lck = None \<Longrightarrow>
    lock_step client_id t s (at_pc t InSession (s \<lparr> cl_owner := (cl_owner s)(tmp_lck \<mapsto> t) \<rparr>))"
| unlock_find: "cl_pc s t = InSession \<Longrightarrow> map_of (cl_lck_idx s) (client_id t) = Some tmp_lck \<Longrightarrow>
    lock_step client_id t s (at_pc t (AtUnlock tmp_lck) s)"
| unlock_release: "cl_pc s t = AtUnlock tmp_lck \<Longrightarrow>
    lock_step client_id t s (at_pc t SessionDone (s \<lparr> cl_owner := (cl_owner s)(tmp_lck := None) \<rparr>))"

inductive_cases lock_stepE: "lock_step client_id t s s'"

abbreviation lock_run :: "(nat \<Rightarrow> u32) \<Rightarrow> client_locks \<Rightarrow> client_locks \<Rightarrow> bool" where
  "lock_run client_id \<equiv> (\<lambda>s s'. \<exists>t. lock_step client_id t s s')\<^sup>*\<^sup>*"

subsection \<open>The invariant\<close>

definition idx_inj :: "client_locks \<Rightarrow> bool" where
  "idx_inj s \<longleftrightarrow> (\<forall>i m. map_of (cl_lck_idx s) i = Some m \<longrightarrow> m < cl_next s \<and>
     (\<forall>j. map_of (cl_lck_idx s) j = Some m \<longrightarrow> i = j))"

definition holds_lock :: "(nat \<Rightarrow> u32) \<Rightarrow> client_locks \<Rightarrow> nat \<Rightarrow> nat \<Rightarrow> bool" where
  "holds_lock client_id s t m \<longleftrightarrow> map_of (cl_lck_idx s) (client_id t) = Some m \<and> cl_owner s m = Some t"

definition session_ok :: "(nat \<Rightarrow> u32) \<Rightarrow> client_locks \<Rightarrow> nat \<Rightarrow> bool" where
  "session_ok client_id s t \<longleftrightarrow>
     (case cl_pc s t of
        AtLock m \<Rightarrow> map_of (cl_lck_idx s) (client_id t) = Some m
      | InSession \<Rightarrow> \<exists>m. holds_lock client_id s t m
      | AtUnlock m \<Rightarrow> holds_lock client_id s t m
      | _ \<Rightarrow> True)"

definition owner_ok :: "(nat \<Rightarrow> u32) \<Rightarrow> client_locks \<Rightarrow> bool" where
  "owner_ok client_id s \<longleftrightarrow> (\<forall>m t. cl_owner s m = Some t \<longrightarrow>
     map_of (cl_lck_idx s) (client_id t) = Some m \<and> (cl_pc s t = InSession \<or> cl_pc s t = AtUnlock m))"

definition locks_inv :: "(nat \<Rightarrow> u32) \<Rightarrow> client_locks \<Rightarrow> bool" where
  "locks_inv client_id s \<longleftrightarrow> idx_inj s \<and> (\<forall>t. session_ok client_id s t) \<and> owner_ok client_id s"

lemma at_pc_simps [simp]:
  "cl_lck_idx (at_pc t p s) = cl_lck_idx s" "cl_next (at_pc t p s) = cl_next s"
  "cl_owner (at_pc t p s) = cl_owner s" "cl_pc (at_pc t p s) = (cl_pc s)(t := p)"
  by (simp_all add: at_pc_def)

lemma locks_inv_new: "locks_inv client_id client_locks_new"
  by (simp add: locks_inv_def idx_inj_def session_ok_def owner_ok_def client_locks_new_def)

lemma locks_invD:
  assumes "locks_inv client_id s"
  shows "session_ok client_id s t" "idx_inj s" "owner_ok client_id s"
  using assms by (simp_all add: locks_inv_def)

lemma owner_okD:
  assumes "owner_ok client_id s" "cl_owner s m = Some t"
  shows "map_of (cl_lck_idx s) (client_id t) = Some m" "cl_pc s t = InSession \<or> cl_pc s t = AtUnlock m"
  using assms by (simp_all add: owner_ok_def)

lemma find_keeps:
  assumes "LockClientID_find s i = (m, s')" "idx_inj s"
  shows "idx_inj s'" "map_of (cl_lck_idx s') i = Some m" "cl_owner s' = cl_owner s" "cl_pc s' = cl_pc s"
    "map_of (cl_lck_idx s) j = Some n \<Longrightarrow> map_of (cl_lck_idx s') j = Some n"
  using assms by (force simp: LockClientID_find_def idx_inj_def less_Suc_eq split: option.splits if_splits)+

lemma locks_inv_find:
  assumes I: "locks_inv client_id s" and pc: "cl_pc s t = BeforeLock" and f: "LockClientID_find s (client_id t) = (m, s')"
  shows "locks_inv client_id (at_pc t (AtLock m) s')"
proof -
  note k = find_keeps [OF f]
  have inj: "idx_inj s" using I by (simp add: locks_inv_def)
  have "session_ok client_id (at_pc t (AtLock m) s') u" for u
  proof (cases "u = t")
    case True
    then show ?thesis using k(2) inj by (simp add: session_ok_def)
  next
    case False
    moreover have "session_ok client_id s u" using I by (simp add: locks_inv_def)
    ultimately show ?thesis
      using k(3-5) inj by (fastforce simp: session_ok_def holds_lock_def split: session_pc.splits)
  qed
  moreover have "owner_ok client_id (at_pc t (AtLock m) s')"
    using I pc k(3-5) inj by (fastforce simp: locks_inv_def owner_ok_def)
  ultimately show ?thesis using k(1) inj by (simp add: locks_inv_def idx_inj_def)
qed

lemma locks_inv_acquire:
  assumes I: "locks_inv client_id s" and pc: "cl_pc s t = AtLock m" and free: "cl_owner s m = None"
  shows "locks_inv client_id (at_pc t InSession (s \<lparr> cl_owner := (cl_owner s)(m \<mapsto> t) \<rparr>))"
proof -
  have idx: "map_of (cl_lck_idx s) (client_id t) = Some m"
    using locks_invD(1) [OF I, of t] pc by (simp add: session_ok_def)
  have "session_ok client_id (at_pc t InSession (s \<lparr> cl_owner := (cl_owner s)(m \<mapsto> t) \<rparr>)) u" for u
  proof -
    have "session_ok client_id s u" using I by (simp add: locks_inv_def)
    then show ?thesis using idx free
      by (cases "u = t") (auto simp: session_ok_def holds_lock_def split: session_pc.splits, metis option.distinct(1))
  qed
  moreover have "owner_ok client_id (at_pc t InSession (s \<lparr> cl_owner := (cl_owner s)(m \<mapsto> t) \<rparr>))"
    using I idx pc by (fastforce simp: locks_inv_def owner_ok_def)
  ultimately show ?thesis using I by (simp add: locks_inv_def idx_inj_def)
qed

lemma locks_inv_unlock_find:
  assumes I: "locks_inv client_id s" and pc: "cl_pc s t = InSession" and m: "map_of (cl_lck_idx s) (client_id t) = Some m"
  shows "locks_inv client_id (at_pc t (AtUnlock m) s)"
proof -
  have own: "cl_owner s m = Some t"
  proof -
    from locks_invD(1) [OF I, of t] pc m show ?thesis by (auto simp: session_ok_def holds_lock_def)
  qed
  have "session_ok client_id (at_pc t (AtUnlock m) s) u" for u
  proof -
    have "session_ok client_id s u" using I by (simp add: locks_inv_def)
    then show ?thesis using m own
      by (cases "u = t") (auto simp: session_ok_def holds_lock_def split: session_pc.splits)
  qed
  moreover have "owner_ok client_id (at_pc t (AtUnlock m) s)"
    unfolding owner_ok_def
  proof (intro allI impI)
    fix n u
    assume "cl_owner (at_pc t (AtUnlock m) s) n = Some u"
    then have "cl_owner s n = Some u" by simp
    with owner_okD [OF locks_invD(3) [OF I] this] m
    show "map_of (cl_lck_idx (at_pc t (AtUnlock m) s)) (client_id u) = Some n \<and>
      (cl_pc (at_pc t (AtUnlock m) s) u = InSession \<or> cl_pc (at_pc t (AtUnlock m) s) u = AtUnlock n)"
      by (cases "u = t") auto
  qed
  ultimately show ?thesis using I by (simp add: locks_inv_def idx_inj_def)
qed

lemma locks_inv_release:
  assumes I: "locks_inv client_id s" and pc: "cl_pc s t = AtUnlock m"
  shows "locks_inv client_id (at_pc t SessionDone (s \<lparr> cl_owner := (cl_owner s)(m := None) \<rparr>))"
proof -
  have h: "holds_lock client_id s t m" using locks_invD(1) [OF I, of t] pc by (simp add: session_ok_def)
  have "session_ok client_id (at_pc t SessionDone (s \<lparr> cl_owner := (cl_owner s)(m := None) \<rparr>)) u" for u
  proof -
    have "session_ok client_id s u" using I by (simp add: locks_inv_def)
    then show ?thesis using h
      by (cases "u = t") (auto simp: session_ok_def holds_lock_def split: session_pc.splits, metis option.inject)
  qed
  moreover have "owner_ok client_id (at_pc t SessionDone (s \<lparr> cl_owner := (cl_owner s)(m := None) \<rparr>))"
    using I h pc by (fastforce simp: locks_inv_def owner_ok_def holds_lock_def)
  ultimately show ?thesis using I by (simp add: locks_inv_def idx_inj_def)
qed

lemma locks_inv_run:
  assumes "lock_run client_id client_locks_new s"
  shows "locks_inv client_id s"
  using assms
proof (induction rule: rtranclp_induct)
  case base
  show ?case by (rule locks_inv_new)
next
  case (step s s')
  then obtain t where "lock_step client_id t s s'" by blast
  then show ?case using step.IH
    by (cases rule: lock_step.cases)
      (auto intro: locks_inv_find locks_inv_acquire locks_inv_unlock_find locks_inv_release)
qed

text \<open>A session that cannot go on waits for a session of the same client.\<close>

lemma session_waits:
  assumes I: "locks_inv client_id s" and pc: "cl_pc s t \<noteq> SessionDone" and stuck: "\<nexists>s'. lock_step client_id t s s'"
  shows "\<exists>u. u \<noteq> t \<and> client_id u = client_id t \<and> (cl_pc s u = InSession \<or> (\<exists>m. cl_pc s u = AtUnlock m))"
proof (cases "cl_pc s t")
  case BeforeLock
  obtain m s' where "LockClientID_find s (client_id t) = (m, s')" by fastforce
  with lock_find [where client_id = client_id, OF BeforeLock this] stuck show ?thesis by blast
next
  case (AtLock m)
  with stuck obtain u where u: "cl_owner s m = Some u" using lock_acquire [of s t m client_id] by (cases "cl_owner s m") auto
  have idx: "map_of (cl_lck_idx s) (client_id t) = Some m"
    using locks_invD(1) [OF I, of t] AtLock by (simp add: session_ok_def)
  have "map_of (cl_lck_idx s) (client_id u) = Some m" "cl_pc s u = InSession \<or> cl_pc s u = AtUnlock m"
    using I u by (auto simp: locks_inv_def owner_ok_def)
  moreover from this(1) idx I have "client_id u = client_id t" by (auto simp: locks_inv_def idx_inj_def)
  ultimately show ?thesis using AtLock by (intro exI [of _ u]) auto
next
  case InSession
  then obtain m where "map_of (cl_lck_idx s) (client_id t) = Some m"
    using locks_invD(1) [OF I, of t] by (auto simp: session_ok_def holds_lock_def)
  with unlock_find [where client_id = client_id, OF InSession this] stuck show ?thesis by blast
next
  case (AtUnlock m)
  with unlock_release [OF AtUnlock, of client_id] stuck show ?thesis by blast
qed (use pc in simp)

text \<open>C21. Under every interleaving of any number of sessions on the server, two sessions of the same
  client id are never served at the same time, a session releases only a mutex it holds and finds
  its client id in the index, and a session that cannot go on waits for a session of the same client
  that is being served, never for another client.\<close>

theorem Client_sessions_exclusive:
  assumes "lock_run client_id client_locks_new s"
  shows "(\<forall>t u. cl_pc s t = InSession \<and> cl_pc s u = InSession \<and> client_id t = client_id u \<longrightarrow> t = u) \<and>
    (\<forall>t m. cl_pc s t = AtUnlock m \<longrightarrow> cl_owner s m = Some t) \<and>
    (\<forall>t. cl_pc s t = InSession \<longrightarrow> map_of (cl_lck_idx s) (client_id t) \<noteq> None) \<and>
    (\<forall>t. cl_pc s t \<noteq> SessionDone \<longrightarrow> (\<exists>s'. lock_step client_id t s s') \<or>
      (\<exists>u. u \<noteq> t \<and> client_id u = client_id t \<and> (cl_pc s u = InSession \<or> (\<exists>m. cl_pc s u = AtUnlock m))))"
proof (intro conjI)
  have I: "locks_inv client_id s" by (rule locks_inv_run [OF assms])
  have ok: "session_ok client_id s t" for t using I by (simp add: locks_inv_def)
  show "\<forall>t u. cl_pc s t = InSession \<and> cl_pc s u = InSession \<and> client_id t = client_id u \<longrightarrow> t = u"
  proof (intro allI impI)
    fix t u
    assume h: "cl_pc s t = InSession \<and> cl_pc s u = InSession \<and> client_id t = client_id u"
    then show "t = u" using ok [of t] ok [of u] by (auto simp: session_ok_def holds_lock_def)
  qed
  show "\<forall>t m. cl_pc s t = AtUnlock m \<longrightarrow> cl_owner s m = Some t"
  proof (intro allI impI)
    fix t m
    assume "cl_pc s t = AtUnlock m"
    then show "cl_owner s m = Some t" using ok [of t] by (simp add: session_ok_def holds_lock_def)
  qed
  show "\<forall>t. cl_pc s t = InSession \<longrightarrow> map_of (cl_lck_idx s) (client_id t) \<noteq> None"
  proof (intro allI impI)
    fix t
    assume "cl_pc s t = InSession"
    then show "map_of (cl_lck_idx s) (client_id t) \<noteq> None" using ok [of t] by (auto simp: session_ok_def holds_lock_def)
  qed
  show "\<forall>t. cl_pc s t \<noteq> SessionDone \<longrightarrow> (\<exists>s'. lock_step client_id t s s') \<or>
      (\<exists>u. u \<noteq> t \<and> client_id u = client_id t \<and> (cl_pc s u = InSession \<or> (\<exists>m. cl_pc s u = AtUnlock m)))"
    using session_waits [OF I] by blast
qed

text \<open>Two sessions of one client: the first is served, the second has found the mutex and waits.\<close>

lemma two_sessions:
  "\<exists>s. lock_run (\<lambda>_. 5) client_locks_new s \<and> cl_pc s 0 = InSession \<and> cl_pc s 1 = AtLock 0"
proof -
  let ?a = "at_pc 0 (AtLock 0) (client_locks_new \<lparr> cl_lck_idx := [(5, 0)], cl_next := 1 \<rparr>)"
  let ?b = "at_pc 0 InSession (?a \<lparr> cl_owner := (cl_owner ?a)(0 \<mapsto> 0) \<rparr>)"
  let ?c = "at_pc 1 (AtLock 0) ?b"
  have "lock_step (\<lambda>_. 5) 0 client_locks_new ?a"
    by (rule lock_find) (simp_all add: client_locks_new_def LockClientID_find_def)
  moreover have "lock_step (\<lambda>_. 5) 0 ?a ?b"
    by (rule lock_acquire) (simp_all add: client_locks_new_def)
  moreover have "lock_step (\<lambda>_. 5) 1 ?b ?c"
    by (rule lock_find) (simp_all add: client_locks_new_def LockClientID_find_def at_pc_def)
  ultimately have "lock_run (\<lambda>_. 5) client_locks_new ?c"
    by (intro converse_rtranclp_into_rtranclp [of _ client_locks_new ?a] converse_rtranclp_into_rtranclp [of _ ?a ?b]
      converse_rtranclp_into_rtranclp [of _ ?b ?c]) blast+
  then show ?thesis by (intro exI [of _ ?c]) simp
qed

lemma Client_sessions_exclusive_witness:
  "\<exists>s. lock_run (\<lambda>_. 5) client_locks_new s \<and> cl_pc s 1 \<noteq> InSession \<and> cl_pc s 0 = InSession"
proof -
  obtain s where s: "lock_run (\<lambda>_. 5) client_locks_new s" "cl_pc s 0 = InSession" using two_sessions by blast
  with Client_sessions_exclusive [OF s(1)] show ?thesis by (intro exI [of _ s]) auto
qed

end
