(* ===== verification/Queue_Types.thy ===== *)
theory Queue_Types
  imports Pipeline
begin

text \<open>
  The statuses of the chunks in the queues of an upload, \<open>CHUNK_STATUS_SET\<close> of \<open>const_var.h\<close>. Each
  thread of \<open>dual_dedup_thd.cc\<close>, \<open>cache_comp_thd.cc\<close> and \<open>data_writer_thd.cc\<close> switches on the status of
  a chunk and exits on one it does not know. A queue is well typed when it holds only statuses that
  its consumer knows; steps keep the queues well typed, and from well-typed queues no thread takes
  that exit, whatever the caches, indexes and containers hold.
\<close>

subsection \<open>Well-typed queues\<close>

definition comp_input :: "wrapped_chunk \<Rightarrow> bool" where
  "comp_input w \<longleftrightarrow> ci_stat (w_info w) \<in> {UNIQUE_CHUNK, UNIQUE_CHUNK_AFTER_CACHE, CACHE_INSERT_CHUNK, CACHE_EVICT_CHUNK}"

definition writer_input :: "wrapped_chunk \<Rightarrow> bool" where
  "writer_input w \<longleftrightarrow> ci_stat (w_info w) \<in> {UNIQUE_CHUNK, CACHE_DELTA_CHUNK}"

definition pipe_typed :: "pipeline \<Rightarrow> bool" where
  "pipe_typed s \<longleftrightarrow> (\<forall>w \<in> set (pp_recv_2_dual s). dual_input w) \<and> (\<forall>w \<in> set (pp_dual_2_comp s). comp_input w) \<and>
     (\<forall>w \<in> set (pp_comp_2_writer s). writer_input w)"

subsection \<open>Which functions can report a wrong chunk type\<close>

text \<open>A computation whose error is never the exit on an unknown status.\<close>

definition typed :: "'a result \<Rightarrow> bool" where
  "typed r \<longleftrightarrow> r \<noteq> Inl WrongChunkType"

named_theorems typed_intros \<open>results that are not the exit on an unknown status\<close>

lemma typed_Inr [typed_intros]: "typed (Inr a)"
  by (simp add: typed_def)

lemma typed_Inl: "typed (Inl e) \<longleftrightarrow> e \<noteq> WrongChunkType"
  by (simp add: typed_def)

lemma typed_bind [typed_intros]: "typed r \<Longrightarrow> (\<And>a. r = Inr a \<Longrightarrow> typed (f a)) \<Longrightarrow> typed (bindR r f)"
  by (cases r) (auto simp: typed_def)

lemma typed_mem [typed_intros]: "typed (mem_read buf off n)" "typed (mem_write buf off d)"
  by (simp_all add: mem_read_def mem_write_def typed_def)

lemma typed_cache [typed_intros]: "typed (ReadCache_Read c k)" "typed (ReadCache_Insert c k d)"
  by (auto simp: ReadCache_Read_def ReadCache_Insert_def lru_get_def lru_pruneValue_def pool_write_def typed_def bindR_def Let_def
    split: sum.splits if_splits prod.splits option.splits)

lemma typed_ReadChunk [typed_intros]: "typed (ReadChunk sc cl a)"
  unfolding ReadChunk_def Let_def
  by (auto simp: typed_Inl intro!: typed_intros split: option.split)

lemma typed_WriteChunk [typed_intros]: "typed (WriteChunk rand sc cl a d)"
  unfolding WriteChunk_def Let_def by (auto simp: split_def intro!: typed_intros)

lemma typed_dw [typed_intros]: "typed (dw_write rand dw w d)" "typed (DataWriter_FetchBaseChunk dw b)"
  unfolding dw_write_def DataWriter_FetchBaseChunk_def
  by (auto simp: typed_Inl Let_def intro!: typed_intros split: option.split)

lemma typed_Proc [typed_intros]:
  "typed (ProcSimilarChunk denc rand dw w)" "typed (ProcNonSimilarChunk rand dw w)" "typed (ProcCacheDeltaChunk rand dw w)"
  unfolding ProcSimilarChunk_def ProcNonSimilarChunk_def ProcCacheDeltaChunk_def DeltaEncode_def
  by (auto simp: typed_Inl intro!: typed_intros split: option.split)

lemma typed_foldR: "(\<And>s x. typed (f s x)) \<Longrightarrow> typed (foldR f s xs)"
  by (induction xs arbitrary: s) (auto intro!: typed_intros)

lemma typed_Evict [typed_intros]: "typed (EvictCacheChunk ic w)"
proof -
  have "typed (evict_feature ic f)" for ic f
    by (auto simp: evict_feature_def typed_def split: option.split prod.split)
  then show ?thesis by (simp add: EvictCacheChunk_def Let_def typed_foldR)
qed

lemma FindBaseChunk_stat: "ci_stat (FindBaseChunk iter q ci) \<in> {SIMILAR_CHUNK, NON_SIMILAR_CHUNK}"
  by (auto simp: FindBaseChunk_def Let_def split: prod.split option.split)

lemma typed_ProcessNormalChunk [typed_intros]: "typed (ProcessNormalChunk denc iter ic w out)"
  using FindBaseChunk_stat [of iter "map_of (ic_feature_2_fp ic)" "w_info w"]
  by (auto simp: ProcessNormalChunk_def Let_def typed_def split: option.split)

subsection \<open>The threads\<close>

lemma Dual_typed:
  assumes "dual_input w"
  shows "typed (DualDedupThd_step feat dd w)"
    and "DualDedupThd_step feat dd w = Inr (dd', os) \<Longrightarrow> \<forall>o1 \<in> set os. comp_input o1"
  using assms
  by (auto simp: DualDedupThd_step_def dual_input_def comp_input_def typed_def Let_def split: prod.splits if_splits)

lemma Comp_typed:
  assumes "comp_input w"
  shows "typed (CacheCompThd_step denc iter cc w)"
  using assms
  by (auto simp: CacheCompThd_step_def comp_input_def typed_Inl Let_def intro!: typed_intros)

lemma Comp_typed_out:
  assumes "CacheCompThd_step denc iter cc w = Inr (cc', os)"
  shows "\<forall>o1 \<in> set os. writer_input o1"
  using CacheComp_shape [OF assms] by (auto simp: comp_of_def writer_input_def split: if_splits)

lemma Writer_typed:
  assumes "writer_input w"
  shows "typed (DataWriterThd_step denc iter rand dw w)"
proof -
  have s: "ci_stat (FindBaseChunk_db iter db ci) \<in> {SIMILAR_CHUNK, NON_SIMILAR_CHUNK}" for db ci
    unfolding FindBaseChunk_db_def by (rule FindBaseChunk_stat)
  show ?thesis
    using assms s [of "dw_feature_2_fp dw" "w_info w"]
    by (auto simp: DataWriterThd_step_def writer_input_def Let_def intro!: typed_intros)
qed

lemma pipe_step_typed: "pipe_step feat denc iter s s' \<Longrightarrow> pipe_typed s \<Longrightarrow> pipe_typed s'"
  by (erule pipe_stepE) (auto simp: pipe_typed_def dest: Dual_typed(2) Comp_typed_out)

lemma pipe_steps_typed: "(pipe_step feat denc iter)\<^sup>*\<^sup>* s s' \<Longrightarrow> pipe_typed s \<Longrightarrow> pipe_typed s'"
  by (induction rule: rtranclp_induct) (auto dest: pipe_step_typed)

text \<open>What the receiver makes of the messages of a client is well typed.\<close>

lemma unit_view_stat: "v \<in> set (unit_view hash evp_enc u) \<Longrightarrow> fst v \<in> {CACHE_INSERT_CHUNK, CHUNK_PAIR, SINGLE_CHUNK}"
  by (cases u; cases "tl u"; cases "tl (tl u)") (auto simp: unit_view_def)

lemma recv_typed:
  assumes "evp_ok evp_enc evp_dec" "\<forall>u \<in> set g. edr_unit u"
    and "DataRecvThd_step hash feat dr (group_msg evp_enc g) = Inr (dr', ws)" "w \<in> set ws"
  shows "dual_input w"
proof -
  obtain dr1 ws1 where 1: "recv_loop hash feat ([] @ concat (map (unit_bytes evp_enc) g)) (length g)
      (dr \<lparr> dr_chunk_batch_num := dr_chunk_batch_num dr + 1 \<rparr>, chunk_info_init, length ([] :: bytes)) = Inr (dr1, ws1)"
    "map view ws1 = concat (map (unit_view hash evp_enc) g)"
    using recv_group [OF assms(1,2), of hash feat "[]"] by blast
  have "ws = ws1" using 1(1) assms(3) by (simp add: DataRecvThd_step_def group_msg_def ProcessChunks_def)
  moreover have "fst v \<in> {CACHE_INSERT_CHUNK, CHUNK_PAIR, SINGLE_CHUNK}"
    if "v \<in> set (concat (map (unit_view hash evp_enc) g))" for v
    using that unit_view_stat by fastforce
  moreover have "view w \<in> set (map view ws)" using assms(4) by simp
  ultimately have "fst (view w) \<in> {CACHE_INSERT_CHUNK, CHUNK_PAIR, SINGLE_CHUNK}" using 1(2) by metis
  then show ?thesis by (auto simp: view_def dual_input_def)
qed



end
