(* ===== verification/Baseline_Client.thy ===== *)
theory Baseline_Client
  imports Sender Chunker
begin

text \<open>
  The client of the baseline system under \<open>src/Baseline\<close>, which stores the same chunks with
  conventional encryption: \<open>src/client/mle.cc\<close>, \<open>key_gen_thd.cc\<close>, \<open>select_comp_thd.cc\<close>, \<open>comp_pad.cc\<close>,
  \<open>sender_thd.cc\<close> and the key manager \<open>src/key_manager/basic_km.cc\<close>. Chunking and feature extraction
  are the same files as in \<open>src/EDRStore\<close>; what is identical is not modelled again. The records of
  the other system are used, of which the baseline has fewer fields: a chunk to send has no
  \<open>compressed_fp\<close>, the sender no cache table and no byte count.
\<close>

subsection \<open>Message-locked encryption\<close>

datatype client_enc_type = PLAIN | SERVER_AIDED_MLE | ENC_COMP_MLE

definition CIPHER_TYPE :: encrypt_set where "CIPHER_TYPE = AES_256_CTR"

definition mle_iv :: bytes where "mle_iv = replicate CHUNK_HASH_SIZE 0"

definition EncChunk :: "(evp_setup \<Rightarrow> bytes \<Rightarrow> bytes) \<Rightarrow> bytes \<Rightarrow> bytes \<Rightarrow> bytes" where
  "EncChunk evp_enc plain_chunk key = EncryptWithKeyIV evp_enc CIPHER_TYPE plain_chunk key mle_iv"

definition DecChunk :: "(evp_setup \<Rightarrow> bytes \<Rightarrow> bytes) \<Rightarrow> bytes \<Rightarrow> bytes \<Rightarrow> bytes" where
  "DecChunk evp_dec enc_chunk key = DecryptWithKeyIV evp_dec CIPHER_TYPE enc_chunk key mle_iv"

lemma DecChunk_EncChunk: "evp_ok evp_enc evp_dec \<Longrightarrow> DecChunk evp_dec (EncChunk evp_enc d key) key = d"
  by (simp add: DecChunk_def EncChunk_def DecryptWithKeyIV_def EncryptWithKeyIV_def decrypt_setup_eq evp_ok_def
    encrypt_setup_def CIPHER_TYPE_def)

lemma length_EncChunk: "evp_ok evp_enc evp_dec \<Longrightarrow> length (EncChunk evp_enc d key) = length d"
  by (simp add: EncChunk_def EncryptWithKeyIV_def evp_ok_def encrypt_setup_def CIPHER_TYPE_def)

subsection \<open>The key manager\<close>

type_synonym key_gen_req = "bytes \<times> u64 list"    \<comment> \<open>fingerprint and features\<close>
type_synonym key_gen_ret = "bytes \<times> u64"         \<comment> \<open>key and seed\<close>

definition Baseline_km_handle ::
  "(bytes \<Rightarrow> bytes) \<Rightarrow> u64 \<Rightarrow> network_protocol \<times> key_gen_req list \<Rightarrow>
   (u64 \<times> (network_protocol \<times> key_gen_ret list) list) result" where
  \<comment> \<open>the state is \<open>_total_key_gen_num\<close>; the feature index is passed to the class and not used\<close>
  "Baseline_km_handle hash key_gen_num msg =
    (case msg of (msg_type, reqs) \<Rightarrow>
       if msg_type \<noteq> CLIENT_KEY_GEN then Inl WrongMsgType
       else Inr (key_gen_num + of_nat (length reqs),
                 [(KEY_MANAGER_KEY_GEN_REPLY, map (\<lambda>(fp, _). (hash (global_secret @ take CHUNK_HASH_SIZE fp), 0)) reqs)]))"

subsection \<open>Key generation\<close>

record ('k) base_key_gen =
  bk_chunk_buf :: "chunk_t list"        \<comment> \<open>\<open>chunk_buf_\<close>\<close>
  bk_send_buf :: "key_gen_req list"     \<comment> \<open>the requests in \<open>send_buf_\<close>\<close>
  bk_batch :: nat                       \<comment> \<open>\<open>send_chunk_batch_size_\<close>\<close>
  bk_method :: client_enc_type          \<comment> \<open>\<open>method_type_\<close>\<close>
  bk_km :: 'k                           \<comment> \<open>the key manager behind the connection\<close>
  bk_finished :: bool

type_synonym 'k base_km_conn =
  "'k \<Rightarrow> network_protocol \<times> key_gen_req list \<Rightarrow> ('k \<times> (network_protocol \<times> key_gen_ret list) list) result"

definition base_enc_chunk :: "chunk_t \<Rightarrow> bytes \<Rightarrow> bytes \<Rightarrow> enc_feature_chunk" where
  \<comment> \<open>\<open>tmp_enc_chunk\<close> as it is pushed; features and seed are not set\<close>
  "base_enc_chunk ch key enc =
     \<lparr> c_raw = c_raw ch, c_head = c_head ch, c_type = NORMAL_CHUNK, c_features = [], c_enc_data = enc, c_key = key, c_seed = 0 \<rparr>"

fun base_enc_batch ::
  "(evp_setup \<Rightarrow> bytes \<Rightarrow> bytes) \<Rightarrow> chunk_t list \<Rightarrow> key_gen_ret list \<Rightarrow> enc_feature_chunk list result" where
  "base_enc_batch evp_enc [] keys = Inr []"
| "base_enc_batch evp_enc (ch # chs) [] = Inl OutOfBounds"
| "base_enc_batch evp_enc (ch # chs) ((key, seed) # keys) =
     bindR (base_enc_batch evp_enc chs keys) (\<lambda>cs.
       Inr (base_enc_chunk ch key (EncChunk evp_enc (raw_data (c_raw ch)) key) # cs))"

definition Baseline_ProcessBatch ::
  "'k base_km_conn \<Rightarrow> (evp_setup \<Rightarrow> bytes \<Rightarrow> bytes) \<Rightarrow> 'k base_key_gen \<Rightarrow> ('k base_key_gen \<times> enc_feature_chunk list) result" where
  "Baseline_ProcessBatch ask evp_enc kg =
    (if bk_chunk_buf kg = [] then Inr (kg, [])
     else bindR
       (case bk_method kg of
          PLAIN \<Rightarrow>
            Inr (kg, map (\<lambda>ch. base_enc_chunk ch (replicate CHUNK_HASH_SIZE 0) (raw_data (c_raw ch))) (bk_chunk_buf kg))
        | _ \<Rightarrow>
            if bk_finished kg then Inl NetworkError
            else bindR (ask (bk_km kg) (CLIENT_KEY_GEN, bk_send_buf kg)) (\<lambda>(km, reply).
              case reply of
                [] \<Rightarrow> Inl NetworkError
              | (msg_type, keys) # _ \<Rightarrow>
                  bindR (base_enc_batch evp_enc (bk_chunk_buf kg) keys) (\<lambda>out. Inr (kg \<lparr> bk_km := km \<rparr>, out))))
       (\<lambda>(kg, out). Inr (kg \<lparr> bk_send_buf := [], bk_chunk_buf := [] \<rparr>, out)))"

definition Baseline_AddChunkToBuf ::
  "'k base_km_conn \<Rightarrow> (evp_setup \<Rightarrow> bytes \<Rightarrow> bytes) \<Rightarrow> 'k base_key_gen \<Rightarrow> chunk_t \<Rightarrow>
   ('k base_key_gen \<times> enc_feature_chunk list) result" where
  "Baseline_AddChunkToBuf ask evp_enc kg ch =
    (let kg = kg \<lparr> bk_chunk_buf := bk_chunk_buf kg @ [ch],
                   bk_send_buf := bk_send_buf kg @ [(take CHUNK_HASH_SIZE (raw_fp (c_raw ch)), replicate SUPER_FEATURE_PER_CHUNK 0)] \<rparr>
     in if length (bk_chunk_buf kg) mod bk_batch kg = 0 then Baseline_ProcessBatch ask evp_enc kg else Inr (kg, []))"

definition Baseline_KeyGenThd_step ::
  "'k base_km_conn \<Rightarrow> (evp_setup \<Rightarrow> bytes \<Rightarrow> bytes) \<Rightarrow> 'k base_key_gen \<Rightarrow> feature_chunk \<Rightarrow>
   ('k base_key_gen \<times> enc_feature_chunk list) result" where
  "Baseline_KeyGenThd_step ask evp_enc kg ch =
    (case c_type ch of
       NORMAL_CHUNK \<Rightarrow> Baseline_AddChunkToBuf ask evp_enc kg (chunk_t.truncate ch)
     | RECIPE_CHUNK \<Rightarrow>
         bindR (Baseline_ProcessBatch ask evp_enc kg) (\<lambda>(kg, out).
           Inr (if bk_method kg \<in> {SERVER_AIDED_MLE, ENC_COMP_MLE} then kg \<lparr> bk_finished := True \<rparr> else kg, out @ [enc_of ch]))
     | _ \<Rightarrow> Inl WrongChunkType)"

subsection \<open>Compression\<close>

definition Baseline_CompressWithPad :: "codec \<Rightarrow> (nat \<Rightarrow> u32) \<Rightarrow> bytes \<Rightarrow> u64 \<Rightarrow> bytes" where
  \<comment> \<open>the padding may fill the chunk up to \<open>MAX_CHUNK_SIZE\<close>; its words come from an engine of its own\<close>
  "Baseline_CompressWithPad cmp rng input_data padding_seed =
     PaddingWithSeed (\<lambda>_. rng) padding_seed MAX_CHUNK_SIZE (snd (CompressOneChunk cmp COMPRESSION_TYPE input_data))"

record base_select =
  bs_rand :: nat                     \<comment> \<open>the calls of \<open>rand()\<close> so far\<close>
  bs_send :: select_comp_2_sender    \<comment> \<open>\<open>tmp_send_chunk\<close>, reused for every chunk\<close>

definition seeded_key :: "bytes \<Rightarrow> u64 \<Rightarrow> bytes" where
  \<comment> \<open>the last four bytes of the key are overwritten with the seed\<close>
  "seeded_key key seed = take (CHUNK_HASH_SIZE - 4) key @ take 4 (u64_le seed)"

definition Baseline_SelectCompThd_step ::
  "(evp_setup \<Rightarrow> bytes \<Rightarrow> bytes) \<Rightarrow> codec \<Rightarrow> (nat \<Rightarrow> nat \<Rightarrow> u32) \<Rightarrow> (nat \<Rightarrow> nat) \<Rightarrow> client_enc_type \<Rightarrow>
   base_select \<Rightarrow> enc_feature_chunk \<Rightarrow> (base_select \<times> select_comp_2_sender list) result" where
  "Baseline_SelectCompThd_step evp_enc cmp rng rand method_type bs ch =
    (case c_type ch of
       NORMAL_CHUNK \<Rightarrow>
         (case method_type of
            ENC_COMP_MLE \<Rightarrow>
              (let seed = of_nat (rand (bs_rand bs));
                   packed = Baseline_CompressWithPad cmp (rng (bs_rand bs)) (raw_data (c_raw ch)) seed;
                   key = seeded_key (c_key ch) seed;
                   o_chunk = (put_chunk (bs_send bs) NORMAL_CHUNK (EncChunk evp_enc packed key)) \<lparr> s2_key := key \<rparr>
               in Inr (\<lparr> bs_rand = bs_rand bs + 1, bs_send = o_chunk \<rparr>, [o_chunk]))
          | _ \<Rightarrow>
              (let o_chunk = (put_chunk (bs_send bs) NORMAL_CHUNK (c_enc_data ch)) \<lparr> s2_key := take CHUNK_HASH_SIZE (c_key ch) \<rparr>
               in Inr (bs \<lparr> bs_send := o_chunk \<rparr>, [o_chunk])))
     | RECIPE_CHUNK \<Rightarrow>
         (let o_chunk = put_chunk (bs_send bs) RECIPE_CHUNK (recipe_head_bytes (c_head ch))
          in Inr (bs \<lparr> bs_send := o_chunk \<rparr>, [o_chunk]))
     | _ \<Rightarrow> Inl WrongChunkType)"

subsection \<open>The sender\<close>

definition BASE_HEADER_SIZE :: nat where
  \<comment> \<open>\<open>sizeof(SendChunkHeader_t)\<close> of the baseline\<close>
  "BASE_HEADER_SIZE = 32"

definition BASE_SEND_CHUNK_SIZE :: nat where
  \<comment> \<open>\<open>sizeof(SendChunk_t)\<close> of the baseline\<close>
  "BASE_SEND_CHUNK_SIZE = 16440"

definition base_header :: "send_chunk \<Rightarrow> bytes" where
  "base_header c = u32_le (of_nat (length (sc_data c))) @ [type_code (sc_type c), 0, 0, 0] @ feature_bytes (sc_features c)"

definition base_frame :: "send_chunk \<Rightarrow> bytes" where
  "base_frame c = base_header c @ sc_data c"

definition base_read_header :: "bytes \<Rightarrow> nat \<Rightarrow> (nat \<times> data_type option) result" where
  "base_read_header buf off =
    bindR (mem_read buf off BASE_HEADER_SIZE) (\<lambda>h. Inr (le_nat (take 4 h), code_type (h ! 4)))"

definition base_buf_append :: "sender \<Rightarrow> bytes \<Rightarrow> sender result" where
  "base_buf_append sd d =
    (if length (sd_data sd) + length d \<le> 2 * sd_batch sd * BASE_SEND_CHUNK_SIZE
     then Inr (sd \<lparr> sd_data := sd_data sd @ d \<rparr>) else Inl OutOfBounds)"

definition Baseline_SenderThd_step :: "sender \<Rightarrow> select_comp_2_sender \<Rightarrow> (sender \<times> net_msg list) result" where
  "Baseline_SenderThd_step sd x =
    (if sd_finished sd then Inl NetworkError
     else case sc_type (s2_chunk x) of
       NORMAL_CHUNK \<Rightarrow>
         bindR (base_buf_append sd (base_header (s2_chunk x))) (\<lambda>sd.
         bindR (base_buf_append sd (sc_data (s2_chunk x))) (\<lambda>sd.
           case count_item sd of (sd, msgs) \<Rightarrow> Inr (StoreKeyRecipe sd (s2_key x), msgs)))
     | RECIPE_CHUNK \<Rightarrow>
         (let (sd, m1) = (if sd_item_num sd \<noteq> 0 then (case SendChunks sd of (sd, msg) \<Rightarrow> (sd, [msg])) else (sd, []));
              sd = (if sd_key_cnt sd \<noteq> 0
                    then sd \<lparr> sd_key_file := sd_key_file sd @ sd_key_buf sd, sd_key_buf := [], sd_key_cnt := 0 \<rparr> else sd)
          in bindR (base_buf_append sd (sc_data (s2_chunk x))) (\<lambda>sd.
               Inr (sd \<lparr> sd_finished := True \<rparr>, m1 @ [(CLIENT_UPLOAD_RECIPE_END, sd_item_num sd, sd_data sd)])))
     | _ \<Rightarrow> Inl WrongChunkType)"

subsection \<open>Keys and ciphertexts\<close>

definition mle_key :: "(bytes \<Rightarrow> bytes) \<Rightarrow> client_enc_type \<Rightarrow> bytes \<Rightarrow> bytes" where
  \<comment> \<open>the key for a fingerprint\<close>
  "mle_key hash method_type fp =
     (if method_type = PLAIN then replicate CHUNK_HASH_SIZE 0 else hash (global_secret @ fp))"

definition key_gen_out :: "(bytes \<Rightarrow> bytes) \<Rightarrow> (evp_setup \<Rightarrow> bytes \<Rightarrow> bytes) \<Rightarrow> client_enc_type \<Rightarrow> chunk_t \<Rightarrow> enc_feature_chunk" where
  "key_gen_out hash evp_enc method_type ch =
    (let key = mle_key hash method_type (raw_fp (c_raw ch)); d = raw_data (c_raw ch)
     in base_enc_chunk ch key (if method_type = PLAIN then d else EncChunk evp_enc d key))"

definition bkg_wf :: "'k base_key_gen \<Rightarrow> bool" where
  "bkg_wf kg \<longleftrightarrow> 0 < bk_batch kg \<and> length (bk_chunk_buf kg) < bk_batch kg \<and> \<not> bk_finished kg \<and>
     bk_send_buf kg = map (\<lambda>ch. (raw_fp (c_raw ch), replicate SUPER_FEATURE_PER_CHUNK 0)) (bk_chunk_buf kg) \<and>
     (\<forall>ch \<in> set (bk_chunk_buf kg). length (raw_fp (c_raw ch)) = CHUNK_HASH_SIZE)"

lemma base_enc_batch_all:
  "base_enc_batch evp_enc chs (map f chs) =
     Inr (map (\<lambda>ch. base_enc_chunk ch (fst (f ch)) (EncChunk evp_enc (raw_data (c_raw ch)) (fst (f ch)))) chs)"
proof (induction chs)
  case Nil
  then show ?case by simp
next
  case (Cons ch chs)
  then show ?case by (cases "f ch") simp
qed

text \<open>What a batch gives, whether or not it is complete.\<close>

lemma ProcessBatch_all:
  assumes "\<not> bk_finished kg" "\<forall>ch \<in> set (bk_chunk_buf kg). length (raw_fp (c_raw ch)) = CHUNK_HASH_SIZE"
    and "bk_send_buf kg = map (\<lambda>ch. (raw_fp (c_raw ch), replicate SUPER_FEATURE_PER_CHUNK 0)) (bk_chunk_buf kg)"
  shows "\<exists>kg'. Baseline_ProcessBatch (Baseline_km_handle hash) evp_enc kg =
      Inr (kg', map (key_gen_out hash evp_enc (bk_method kg)) (bk_chunk_buf kg)) \<and> bk_chunk_buf kg' = [] \<and> bk_send_buf kg' = [] \<and>
    bk_batch kg' = bk_batch kg \<and> bk_method kg' = bk_method kg \<and> bk_finished kg' = bk_finished kg"
proof (cases "bk_chunk_buf kg = []")
  case True
  then show ?thesis using assms(3) by (simp add: Baseline_ProcessBatch_def)
next
  case ne: False
  show ?thesis
  proof (cases "bk_method kg = PLAIN")
    case True
    with ne show ?thesis by (simp add: Baseline_ProcessBatch_def key_gen_out_def mle_key_def Let_def)
  next
    case False
    let ?keys = "map (\<lambda>(fp, _). (hash (global_secret @ take CHUNK_HASH_SIZE fp), 0 :: u64)) (bk_send_buf kg)"
    have "?keys = map (\<lambda>ch. (mle_key hash (bk_method kg) (raw_fp (c_raw ch)), 0)) (bk_chunk_buf kg)"
      using assms(2,3) False by (simp add: mle_key_def)
    then have "base_enc_batch evp_enc (bk_chunk_buf kg) ?keys =
        Inr (map (key_gen_out hash evp_enc (bk_method kg)) (bk_chunk_buf kg))"
      using False by (simp add: base_enc_batch_all key_gen_out_def Let_def)
    then show ?thesis
      using ne False assms(1) by (cases "bk_method kg") (simp_all add: Baseline_ProcessBatch_def Baseline_km_handle_def)
  qed
qed

lemma KeyGen_add:
  assumes wf: "bkg_wf kg" and fp: "length (raw_fp (c_raw ch)) = CHUNK_HASH_SIZE"
  obtains kg' out where "Baseline_AddChunkToBuf (Baseline_km_handle hash) evp_enc kg ch = Inr (kg', out)" "bkg_wf kg'"
    "bk_method kg' = bk_method kg"
    "map (key_gen_out hash evp_enc (bk_method kg)) (bk_chunk_buf kg @ [ch]) =
       out @ map (key_gen_out hash evp_enc (bk_method kg)) (bk_chunk_buf kg')"
proof -
  let ?kg = "kg \<lparr> bk_chunk_buf := bk_chunk_buf kg @ [ch],
                  bk_send_buf := bk_send_buf kg @ [(raw_fp (c_raw ch), replicate SUPER_FEATURE_PER_CHUNK 0)] \<rparr>"
  have add: "Baseline_AddChunkToBuf (Baseline_km_handle hash) evp_enc kg ch =
      (if (length (bk_chunk_buf kg) + 1) mod bk_batch kg = 0
       then Baseline_ProcessBatch (Baseline_km_handle hash) evp_enc ?kg else Inr (?kg, []))"
    using fp by (simp add: Baseline_AddChunkToBuf_def)
  show thesis
  proof (cases "length (bk_chunk_buf kg) + 1 = bk_batch kg")
    case True
    have "\<not> bk_finished ?kg" "\<forall>c \<in> set (bk_chunk_buf ?kg). length (raw_fp (c_raw c)) = CHUNK_HASH_SIZE"
      "bk_send_buf ?kg = map (\<lambda>ch. (raw_fp (c_raw ch), replicate SUPER_FEATURE_PER_CHUNK 0)) (bk_chunk_buf ?kg)"
      using wf fp by (auto simp: bkg_wf_def)
    from ProcessBatch_all [OF this, of hash evp_enc] obtain kg' where
      "Baseline_ProcessBatch (Baseline_km_handle hash) evp_enc ?kg =
        Inr (kg', map (key_gen_out hash evp_enc (bk_method ?kg)) (bk_chunk_buf ?kg))"
      "bk_chunk_buf kg' = []" "bk_send_buf kg' = []" "bk_batch kg' = bk_batch ?kg" "bk_method kg' = bk_method ?kg"
      "bk_finished kg' = bk_finished ?kg" by blast
    with True add wf show thesis
      by (intro that [of kg' "map (key_gen_out hash evp_enc (bk_method kg)) (bk_chunk_buf ?kg)"]) (simp_all add: bkg_wf_def)
  next
    case False
    with wf have "length (bk_chunk_buf kg) + 1 < bk_batch kg" by (simp add: bkg_wf_def)
    with add wf fp show thesis by (intro that [of ?kg "[]"]) (simp_all add: bkg_wf_def)
  qed
qed

text \<open>Batching is transparent: the chunks come out in order, each with the key of its fingerprint.\<close>

lemma KeyGen_run:
  assumes "bkg_wf kg" "\<forall>ch \<in> set chs. c_type ch = NORMAL_CHUNK \<and> length (raw_fp (c_raw ch)) = CHUNK_HASH_SIZE"
    and "c_type rc = RECIPE_CHUNK"
  shows "\<exists>kg'. run_thd (Baseline_KeyGenThd_step (Baseline_km_handle hash) evp_enc) kg (chs @ [rc]) =
    Inr (kg', map (key_gen_out hash evp_enc (bk_method kg)) (bk_chunk_buf kg @ map chunk_t.truncate chs) @ [enc_of rc])"
  using assms(1,2)
proof (induction chs arbitrary: kg)
  case Nil
  from ProcessBatch_all [of kg hash evp_enc] Nil(1) obtain kg' where
    "Baseline_ProcessBatch (Baseline_km_handle hash) evp_enc kg =
       Inr (kg', map (key_gen_out hash evp_enc (bk_method kg)) (bk_chunk_buf kg))" by (auto simp: bkg_wf_def)
  then show ?case using assms(3) by (simp add: Baseline_KeyGenThd_step_def)
next
  case (Cons ch chs)
  have "length (raw_fp (c_raw (chunk_t.truncate ch))) = CHUNK_HASH_SIZE" using Cons.prems(2) by (simp add: chunk_t.defs)
  then obtain kg1 out where 1: "Baseline_AddChunkToBuf (Baseline_km_handle hash) evp_enc kg (chunk_t.truncate ch) = Inr (kg1, out)"
    "bkg_wf kg1" "bk_method kg1 = bk_method kg"
    "map (key_gen_out hash evp_enc (bk_method kg)) (bk_chunk_buf kg @ [chunk_t.truncate ch]) =
       out @ map (key_gen_out hash evp_enc (bk_method kg)) (bk_chunk_buf kg1)"
    by (rule KeyGen_add [OF Cons.prems(1)])
  from Cons.IH [OF 1(2)] Cons.prems(2) obtain kg2 where
    2: "run_thd (Baseline_KeyGenThd_step (Baseline_km_handle hash) evp_enc) kg1 (chs @ [rc]) =
      Inr (kg2, map (key_gen_out hash evp_enc (bk_method kg1)) (bk_chunk_buf kg1 @ map chunk_t.truncate chs) @ [enc_of rc])"
    by auto
  have "Baseline_KeyGenThd_step (Baseline_km_handle hash) evp_enc kg ch = Inr (kg1, out)"
    using 1(1) Cons.prems(2) by (simp add: Baseline_KeyGenThd_step_def)
  with 2 1(3,4) show ?case by simp
qed

subsection \<open>What goes over the wire\<close>

text \<open>The key and the data that the \<open>i\<close>-th chunk is sent with.\<close>

definition base_key :: "(bytes \<Rightarrow> bytes) \<Rightarrow> (nat \<Rightarrow> nat) \<Rightarrow> client_enc_type \<Rightarrow> nat \<Rightarrow> bytes \<Rightarrow> bytes" where
  "base_key hash rand method_type i p =
    (let key = mle_key hash method_type (hash p)
     in if method_type = ENC_COMP_MLE then seeded_key key (of_nat (rand i)) else key)"

definition base_cipher ::
  "(bytes \<Rightarrow> bytes) \<Rightarrow> (evp_setup \<Rightarrow> bytes \<Rightarrow> bytes) \<Rightarrow> codec \<Rightarrow> (nat \<Rightarrow> nat \<Rightarrow> u32) \<Rightarrow> (nat \<Rightarrow> nat) \<Rightarrow>
   client_enc_type \<Rightarrow> nat \<Rightarrow> bytes \<Rightarrow> bytes" where
  "base_cipher hash evp_enc cmp rng rand method_type i p =
    (let key = base_key hash rand method_type i p
     in case method_type of
          PLAIN \<Rightarrow> p
        | SERVER_AIDED_MLE \<Rightarrow> EncChunk evp_enc p key
        | ENC_COMP_MLE \<Rightarrow> EncChunk evp_enc (Baseline_CompressWithPad cmp (rng i) p (of_nat (rand i))) key)"

definition base_out :: "bytes \<Rightarrow> bytes \<Rightarrow> select_comp_2_sender \<Rightarrow> bool" where
  "base_out key d x \<longleftrightarrow> sc_type (s2_chunk x) = NORMAL_CHUNK \<and> sc_data (s2_chunk x) = d \<and> s2_key x = key \<and>
     length (sc_features (s2_chunk x)) = SUPER_FEATURE_PER_CHUNK"

lemma Baseline_CompressWithPad_bound:
  assumes "codec_ok cmp dcmp" "length d \<le> MAX_CHUNK_SIZE"
  shows "length (Baseline_CompressWithPad cmp rng d seed) \<le> MAX_CHUNK_SIZE + 4"
proof -
  let ?c = "snd (CompressOneChunk cmp COMPRESSION_TYPE d)"
  have "length ?c \<le> MAX_CHUNK_SIZE" using CompressOneChunk_size [OF assms(1), of COMPRESSION_TYPE d] assms(2) by simp
  with padding_blk_num_bound [of "length ?c" MAX_CHUNK_SIZE seed] show ?thesis
    by (simp add: Baseline_CompressWithPad_def length_PaddingWithSeed size_consts)
qed

lemma Decompress_Baseline_CompressWithPad:
  assumes "codec_ok cmp dcmp" "length d \<le> MAX_CHUNK_SIZE" "raw_safe cmp dcmp d"
  shows "DecompressWithPad dcmp (Baseline_CompressWithPad cmp rng d seed) = Inr d"
proof -
  have "length (snd (CompressOneChunk cmp COMPRESSION_TYPE d)) < 2 ^ 32"
    using CompressOneChunk_size [OF assms(1), of COMPRESSION_TYPE d] assms(2) by (simp add: size_consts)
  from DecompressWithPad_padded [OF this] Decompress_Compress [OF assms(1,2)] assms(3)
  show ?thesis by (simp add: Baseline_CompressWithPad_def)
qed

lemma length_mle_key: "(\<And>x. length (hash x) = CHUNK_HASH_SIZE) \<Longrightarrow> length (mle_key hash m fp) = CHUNK_HASH_SIZE"
  by (simp add: mle_key_def)

lemma length_base_key:
  assumes "\<And>x. length (hash x) = CHUNK_HASH_SIZE"
  shows "length (base_key hash rand m i p) = CHUNK_HASH_SIZE"
proof -
  have "length (mle_key hash m (hash p)) = CHUNK_HASH_SIZE" by (rule length_mle_key) (rule assms)
  then show ?thesis by (auto simp: base_key_def seeded_key_def Let_def size_consts)
qed

lemma length_base_cipher:
  assumes "evp_ok evp_enc evp_dec" "codec_ok cmp dcmp" "length p \<le> MAX_CHUNK_SIZE"
  shows "length (base_cipher hash evp_enc cmp rng rand m i p) \<le> MAX_CHUNK_SIZE + 4"
  using assms Baseline_CompressWithPad_bound [OF assms(2,3)] length_EncChunk [OF assms(1)]
  by (cases m) (simp_all add: base_cipher_def Let_def)

lemma Select_run:
  assumes "\<And>x. length (hash x) = CHUNK_HASH_SIZE" and "length (sc_features (s2_chunk (bs_send bs))) = SUPER_FEATURE_PER_CHUNK"
    and r: "c_type r = RECIPE_CHUNK" and m: "m = ENC_COMP_MLE \<longrightarrow> bs_rand bs = i"
  shows "\<exists>bs' os ro. run_thd (Baseline_SelectCompThd_step evp_enc cmp rng rand m) bs
      (map (\<lambda>p. key_gen_out hash evp_enc m (chunk_t.truncate (normal_chunk_msg hash p))) ps @ [r]) = Inr (bs', os @ [ro]) \<and>
    list_all2 (\<lambda>(i, p) x. base_out (base_key hash rand m i p) (base_cipher hash evp_enc cmp rng rand m i p) x)
      (zip [i..<i + length ps] ps) os \<and>
    sc_type (s2_chunk ro) = RECIPE_CHUNK \<and> sc_data (s2_chunk ro) = recipe_head_bytes (c_head r)"
  using assms(2) m
proof (induction ps arbitrary: bs i)
  case Nil
  then show ?case using r by (simp add: Baseline_SelectCompThd_step_def put_chunk_def Let_def)
next
  case (Cons p ps)
  let ?ch = "key_gen_out hash evp_enc m (chunk_t.truncate (normal_chunk_msg hash p))"
  have kl: "length (mle_key hash m (hash p)) = CHUNK_HASH_SIZE" by (rule length_mle_key) (rule assms(1))
  have ch: "c_type ?ch = NORMAL_CHUNK" "c_key ?ch = mle_key hash m (hash p)" "raw_data (c_raw ?ch) = p"
    "c_enc_data ?ch = (if m = PLAIN then p else EncChunk evp_enc p (mle_key hash m (hash p)))"
    by (simp_all add: key_gen_out_def base_enc_chunk_def normal_chunk_msg_def chunk_t.defs Let_def)
  obtain bs1 x where 1: "Baseline_SelectCompThd_step evp_enc cmp rng rand m bs ?ch = Inr (bs1, [x])"
    "base_out (base_key hash rand m i p) (base_cipher hash evp_enc cmp rng rand m i p) x"
    "length (sc_features (s2_chunk (bs_send bs1))) = SUPER_FEATURE_PER_CHUNK" "m = ENC_COMP_MLE \<longrightarrow> bs_rand bs1 = Suc i"
    using Cons.prems ch kl
    by (cases m) (simp_all add: Baseline_SelectCompThd_step_def base_out_def base_key_def base_cipher_def put_chunk_def Let_def)
  from Cons.IH [OF 1(3,4)] obtain bs2 os ro where
    2: "run_thd (Baseline_SelectCompThd_step evp_enc cmp rng rand m) bs1
      (map (\<lambda>p. key_gen_out hash evp_enc m (chunk_t.truncate (normal_chunk_msg hash p))) ps @ [r]) = Inr (bs2, os @ [ro])"
    "list_all2 (\<lambda>(i, p) x. base_out (base_key hash rand m i p) (base_cipher hash evp_enc cmp rng rand m i p) x)
      (zip [Suc i..<Suc i + length ps] ps) os"
    "sc_type (s2_chunk ro) = RECIPE_CHUNK \<and> sc_data (s2_chunk ro) = recipe_head_bytes (c_head r)" by blast
  have z: "zip [i..<i + length (p # ps)] (p # ps) = (i, p) # zip [Suc i..<Suc i + length ps] ps"
    by (simp add: upt_conv_Cons del: upt_Suc)
  show ?case
    unfolding z using 1(1,2) 2 by (intro exI [of _ bs2] exI [of _ "x # os"] exI [of _ ro]) simp
qed

subsection \<open>Framing\<close>

definition base_wf :: "send_chunk \<Rightarrow> bool" where
  "base_wf c \<longleftrightarrow> sc_type c = NORMAL_CHUNK \<and> length (sc_features c) = SUPER_FEATURE_PER_CHUNK \<and>
     length (sc_data c) \<le> ENC_MAX_CHUNK_SIZE"

lemma length_base_header: "length (sc_features c) = SUPER_FEATURE_PER_CHUNK \<Longrightarrow> length (base_header c) = BASE_HEADER_SIZE"
  by (simp add: base_header_def BASE_HEADER_SIZE_def size_consts)

lemma length_base_frame: "base_wf c \<Longrightarrow> length (base_frame c) = BASE_HEADER_SIZE + length (sc_data c)"
  by (simp add: base_frame_def base_wf_def length_base_header)

lemma base_frame_fits: "base_wf c \<Longrightarrow> length (base_frame c) \<le> BASE_SEND_CHUNK_SIZE"
  using length_base_frame [of c] by (simp add: base_wf_def BASE_HEADER_SIZE_def BASE_SEND_CHUNK_SIZE_def size_consts)

lemma base_read_header_frame:
  assumes wf: "base_wf c"
  shows "base_read_header (pre @ base_frame c @ post) (length pre) = Inr (length (sc_data c), Some (sc_type c))"
proof -
  have len: "length (base_header c) = BASE_HEADER_SIZE" using wf by (simp add: base_wf_def length_base_header)
  have "mem_read (pre @ base_header c @ (sc_data c @ post)) (length pre) BASE_HEADER_SIZE = Inr (base_header c)"
    unfolding len [symmetric] by (rule mem_read_append)
  moreover have "take 4 (base_header c) = u32_le (of_nat (length (sc_data c)))" by (simp add: base_header_def)
  moreover have "base_header c ! 4 = type_code (sc_type c)" by (simp add: base_header_def nth_append)
  moreover have "length (sc_data c) < 2 ^ 32" using wf by (simp add: base_wf_def size_consts)
  ultimately show ?thesis by (simp add: base_read_header_def base_frame_def le_nat_u32_le)
qed

lemma base_mem_read_data:
  assumes "base_wf c"
  shows "mem_read (pre @ base_frame c @ post) (length pre + BASE_HEADER_SIZE) (length (sc_data c)) = Inr (sc_data c)"
proof -
  have "length (pre @ base_header c) = length pre + BASE_HEADER_SIZE"
    using assms by (simp add: base_wf_def length_base_header)
  then show ?thesis using mem_read_append [of "pre @ base_header c" "sc_data c" post] by (simp add: base_frame_def)
qed

definition base_group_msg :: "send_chunk list \<Rightarrow> net_msg" where
  "base_group_msg g = (CLIENT_UPLOAD_CHUNK, length g, concat (map base_frame g))"

definition base_sender_inv :: "sender \<Rightarrow> send_chunk list \<Rightarrow> bytes list \<Rightarrow> bool" where
  "base_sender_inv sd pend keys \<longleftrightarrow>
     \<not> sd_finished sd \<and> 0 < sd_key_batch sd \<and> sd_item_num sd = length pend \<and> length pend < sd_batch sd \<and>
     (\<forall>c \<in> set pend. base_wf c) \<and> sd_data sd = concat (map base_frame pend) \<and>
     sd_key_file sd @ sd_key_buf sd = concat keys \<and> length (sd_key_buf sd) = CHUNK_HASH_SIZE * sd_key_cnt sd"

lemma base_frames_size:
  "\<forall>c \<in> set cs. base_wf c \<Longrightarrow> length (concat (map base_frame cs)) \<le> length cs * BASE_SEND_CHUNK_SIZE"
proof (induction cs)
  case Nil
  then show ?case by simp
next
  case (Cons c cs)
  with base_frame_fits [of c] show ?case by simp
qed

lemma base_sender_chunk:
  assumes inv: "base_sender_inv sd pend keys" and x: "base_wf (s2_chunk x)" "length (s2_key x) = CHUNK_HASH_SIZE"
  obtains sd' where "sd_batch sd' = sd_batch sd"
    "length pend + 1 = sd_batch sd \<Longrightarrow> base_sender_inv sd' [] (keys @ [s2_key x])"
    "length pend + 1 \<noteq> sd_batch sd \<Longrightarrow> base_sender_inv sd' (pend @ [s2_chunk x]) (keys @ [s2_key x])"
    "Baseline_SenderThd_step sd x =
       Inr (sd', if length pend + 1 = sd_batch sd then [base_group_msg (pend @ [s2_chunk x])] else [])"
proof -
  have i: "\<not> sd_finished sd" "0 < sd_key_batch sd" "sd_item_num sd = length pend" "length pend < sd_batch sd"
      "\<forall>c \<in> set pend. base_wf c" "sd_data sd = concat (map base_frame pend)"
      "sd_key_file sd @ sd_key_buf sd = concat keys" "length (sd_key_buf sd) = CHUNK_HASH_SIZE * sd_key_cnt sd"
    using inv by (simp_all add: base_sender_inv_def)
  let ?f = "base_frame (s2_chunk x)"
  have "length (sd_data sd) + length ?f \<le> (length pend + 1) * BASE_SEND_CHUNK_SIZE"
    using base_frames_size [OF i(5)] base_frame_fits [OF x(1)] i(6) by simp
  also have "\<dots> \<le> 2 * sd_batch sd * BASE_SEND_CHUNK_SIZE" using i(4) by (intro mult_right_mono) simp_all
  finally have room: "length (sd_data sd) + length ?f \<le> 2 * sd_batch sd * BASE_SEND_CHUNK_SIZE" .
  let ?a = "sd \<lparr> sd_data := sd_data sd @ ?f \<rparr>"
  have run: "Baseline_SenderThd_step sd x =
      (case count_item ?a of (sd, msgs) \<Rightarrow> Inr (StoreKeyRecipe sd (s2_key x), msgs))"
    using i(1) room x(1) by (simp add: Baseline_SenderThd_step_def base_buf_append_def base_frame_def base_wf_def)
  note kf = StoreKeyRecipe_file [OF x(2)]
  show thesis
  proof (cases "length pend + 1 = sd_batch sd")
    case True
    let ?s = "StoreKeyRecipe (?a \<lparr> sd_item_num := 0, sd_data := [] \<rparr>) (s2_key x)"
    have "count_item ?a = (?a \<lparr> sd_item_num := 0, sd_data := [] \<rparr>, [base_group_msg (pend @ [s2_chunk x])])"
      using True i(3,6) by (simp add: count_item_def SendChunks_def base_group_msg_def)
    moreover have "base_sender_inv ?s [] (keys @ [s2_key x])"
      using i True kf [of "?a \<lparr> sd_item_num := 0, sd_data := [] \<rparr>"] by (simp add: base_sender_inv_def)
    ultimately show thesis using True run by (intro that [of ?s]) simp_all
  next
    case False
    let ?s = "StoreKeyRecipe (?a \<lparr> sd_item_num := length pend + 1 \<rparr>) (s2_key x)"
    have "(length pend + 1) mod sd_batch sd \<noteq> 0" using False i(4) by simp
    then have "count_item ?a = (?a \<lparr> sd_item_num := length pend + 1 \<rparr>, [])" using i(3) by (simp add: count_item_def)
    moreover have "base_sender_inv ?s (pend @ [s2_chunk x]) (keys @ [s2_key x])"
      using i False x(1) kf [of "?a \<lparr> sd_item_num := length pend + 1 \<rparr>"] by (simp add: base_sender_inv_def)
    ultimately show thesis using False run by (intro that [of ?s]) simp_all
  qed
qed

lemma base_sender_chunks:
  assumes "base_sender_inv sd pend keys" "\<forall>x \<in> set xs. base_wf (s2_chunk x) \<and> length (s2_key x) = CHUNK_HASH_SIZE"
  shows "\<exists>sd' gs pend'. run_thd Baseline_SenderThd_step sd xs = Inr (sd', map base_group_msg gs) \<and>
    base_sender_inv sd' pend' (keys @ map s2_key xs) \<and> concat gs @ pend' = pend @ map s2_chunk xs \<and>
    (\<forall>g \<in> set gs. length g = sd_batch sd) \<and> sd_batch sd' = sd_batch sd"
  using assms
proof (induction xs arbitrary: sd pend keys)
  case Nil
  then show ?case by (intro exI [of _ sd] exI [of _ "[]"] exI [of _ pend]) simp
next
  case (Cons x xs)
  have x: "base_wf (s2_chunk x)" "length (s2_key x) = CHUNK_HASH_SIZE"
    and xs: "\<forall>x \<in> set xs. base_wf (s2_chunk x) \<and> length (s2_key x) = CHUNK_HASH_SIZE" using Cons.prems(2) by simp_all
  obtain s1 where 1: "sd_batch s1 = sd_batch sd"
    "length pend + 1 = sd_batch sd \<Longrightarrow> base_sender_inv s1 [] (keys @ [s2_key x])"
    "length pend + 1 \<noteq> sd_batch sd \<Longrightarrow> base_sender_inv s1 (pend @ [s2_chunk x]) (keys @ [s2_key x])"
    "Baseline_SenderThd_step sd x =
       Inr (s1, if length pend + 1 = sd_batch sd then [base_group_msg (pend @ [s2_chunk x])] else [])"
    by (rule base_sender_chunk [OF Cons.prems(1) x]) blast
  show ?case
  proof (cases "length pend + 1 = sd_batch sd")
    case True
    from Cons.IH [OF 1(2) [OF True] xs] obtain sd' gs pend' where
      "run_thd Baseline_SenderThd_step s1 xs = Inr (sd', map base_group_msg gs)"
      "base_sender_inv sd' pend' ((keys @ [s2_key x]) @ map s2_key xs)" "concat gs @ pend' = [] @ map s2_chunk xs"
      "\<forall>g \<in> set gs. length g = sd_batch s1" "sd_batch sd' = sd_batch s1"
      by blast
    with True 1 show ?thesis
      by (intro exI [of _ sd'] exI [of _ "(pend @ [s2_chunk x]) # gs"] exI [of _ pend']) simp
  next
    case False
    from Cons.IH [OF 1(3) [OF False] xs] obtain sd' gs pend' where
      "run_thd Baseline_SenderThd_step s1 xs = Inr (sd', map base_group_msg gs)"
      "base_sender_inv sd' pend' ((keys @ [s2_key x]) @ map s2_key xs)"
      "concat gs @ pend' = (pend @ [s2_chunk x]) @ map s2_chunk xs"
      "\<forall>g \<in> set gs. length g = sd_batch s1" "sd_batch sd' = sd_batch s1"
      by blast
    with False 1 show ?thesis
      by (intro exI [of _ sd'] exI [of _ gs] exI [of _ pend']) simp
  qed
qed

lemma base_sender_recipe:
  assumes inv: "base_sender_inv sd pend keys" and r: "sc_type (s2_chunk r) = RECIPE_CHUNK"
    and len: "length (sc_data (s2_chunk r)) \<le> BASE_SEND_CHUNK_SIZE"
  shows "\<exists>sd'. Baseline_SenderThd_step sd r = Inr (sd', map base_group_msg (if pend = [] then [] else [pend]) @
      [(CLIENT_UPLOAD_RECIPE_END, 0, sc_data (s2_chunk r))]) \<and> sd_key_file sd' = concat keys"
proof -
  have i: "\<not> sd_finished sd" "sd_item_num sd = length pend" "length pend < sd_batch sd"
      "sd_data sd = concat (map base_frame pend)" "sd_key_file sd @ sd_key_buf sd = concat keys"
      "length (sd_key_buf sd) = CHUNK_HASH_SIZE * sd_key_cnt sd"
    using inv by (simp_all add: base_sender_inv_def)
  have "1 * BASE_SEND_CHUNK_SIZE \<le> 2 * sd_batch sd * BASE_SEND_CHUNK_SIZE"
    using i(3) by (intro mult_right_mono) simp_all
  with len have room: "length (sc_data (s2_chunk r)) \<le> 2 * sd_batch sd * BASE_SEND_CHUNK_SIZE"
    unfolding mult_1 by (rule le_trans)
  have d: "sd_data sd = []" if "pend = []" using that i(4) by simp
  have k: "sd_key_buf sd = []" if "sd_key_cnt sd = 0" using that i(6) by simp
  show ?thesis
    using i r room d k
    by (cases "pend = []"; cases "sd_key_cnt sd = 0")
      (simp_all add: Baseline_SenderThd_step_def SendChunks_def base_buf_append_def base_group_msg_def Let_def)
qed

subsection \<open>The client as a whole\<close>

definition Baseline_client ::
  "(bytes \<Rightarrow> bytes) \<Rightarrow> (bytes \<Rightarrow> u64 list) \<Rightarrow> (evp_setup \<Rightarrow> bytes \<Rightarrow> bytes) \<Rightarrow> codec \<Rightarrow> (nat \<Rightarrow> nat \<Rightarrow> u32) \<Rightarrow> (nat \<Rightarrow> nat) \<Rightarrow>
   client_enc_type \<Rightarrow> nat \<Rightarrow> nat \<Rightarrow> u64 list \<Rightarrow> base_select \<Rightarrow> cache_meta \<Rightarrow> chunk_t list \<Rightarrow> (sender \<times> net_msg list) result" where
  \<comment> \<open>the threads that \<open>client_main.cc\<close> starts, each on what the one before it hands on\<close>
  "Baseline_client hash feat evp_enc cmp rng rand method_type batch key_batch feature_junk bs cm msgs =
    bindR (run_thd (PlainSimilarThd_step feat) feature_junk msgs) (\<lambda>(_, ps).
    bindR (run_thd (Baseline_KeyGenThd_step (Baseline_km_handle hash) evp_enc)
             \<lparr> bk_chunk_buf = [], bk_send_buf = [], bk_batch = batch, bk_method = method_type, bk_km = 0, bk_finished = False \<rparr> ps)
      (\<lambda>(_, ks).
    bindR (run_thd (Baseline_SelectCompThd_step evp_enc cmp rng rand method_type) (bs \<lparr> bs_rand := 0 \<rparr>) ks) (\<lambda>(_, os).
      run_thd Baseline_SenderThd_step (sender_new batch key_batch cm) os)))"

end
