(* ===== verification/Baseline_Server.thy ===== *)
theory Baseline_Server
  imports Baseline_Client Server_Write
begin

text \<open>
  The server of the baseline system: \<open>src/Baseline/src/server/data_recv_thd.cc\<close>, which parses and
  deduplicates, and \<open>data_writer_thd.cc\<close>, which finds a base, delta-encodes, compresses and stores.
  The statuses of the index say whether a chunk is a base or a delta and whether it was compressed.
  The container store, the similarity policy and the recipe are the same code as in
  \<open>src/EDRStore\<close>, except that a container that cannot be found ends the program.
\<close>

subsection \<open>Receiving\<close>

definition base_recv_chunk ::
  "(bytes \<Rightarrow> bytes) \<Rightarrow> (bytes \<Rightarrow> u64 list) \<Rightarrow> bytes \<Rightarrow> data_recv \<times> chunk_info \<times> nat \<Rightarrow>
   ((data_recv \<times> chunk_info \<times> nat) \<times> wrapped_chunk list) result" where
  \<comment> \<open>the body of the loop of \<open>ProcessChunks\<close>; \<open>tmp_chunk\<close> is reused\<close>
  "base_recv_chunk hash feat buf st =
    (case st of (dr, info, off) \<Rightarrow>
     bindR (base_read_header buf off) (\<lambda>(sz, _).
       let off = off + BASE_HEADER_SIZE
       in bindR (mem_read buf off sz) (\<lambda>chunk_data.
            let (info, idx) = DetectDuplicate (info \<lparr> ci_fp := hash chunk_data \<rparr>) (dr_fp_2_addr dr);
                dr = ProcessRecipe (dr \<lparr> dr_fp_2_addr := idx \<rparr>) (ci_fp info)
            in bindR
              (if ci_stat info = UNIQUE_CHUNK then
                 bindR (read_data buf off sz) (\<lambda>data.
                   let info = info \<lparr> ci_addr := (ci_addr info) \<lparr> a_len := sz \<rparr>, ci_features := feat data \<rparr>
                   in Inr (dr \<lparr> dr_unique_chunk_num := dr_unique_chunk_num dr + 1,
                                dr_unique_data_size := dr_unique_data_size dr + sz \<rparr>,
                           info, [\<lparr> w_info = info, w_data = data \<rparr>]))
               else Inr (dr, info, []))
              (\<lambda>(dr, info, os). Inr ((count_logical dr sz, info, off + sz), os)))))"

definition base_ProcessChunks ::
  "(bytes \<Rightarrow> bytes) \<Rightarrow> (bytes \<Rightarrow> u64 list) \<Rightarrow> data_recv \<Rightarrow> nat \<Rightarrow> bytes \<Rightarrow> (data_recv \<times> wrapped_chunk list) result" where
  "base_ProcessChunks hash feat dr chunk_num buf =
    bindR (run_thd (\<lambda>st _. base_recv_chunk hash feat buf st) (dr, chunk_info_init, 0) [0..<chunk_num])
      (\<lambda>((dr, _), os). Inr (dr, os))"

definition Baseline_DataRecvThd_step ::
  "(bytes \<Rightarrow> bytes) \<Rightarrow> (bytes \<Rightarrow> u64 list) \<Rightarrow> data_recv \<Rightarrow> net_msg \<Rightarrow> (data_recv \<times> wrapped_chunk list) result" where
  "Baseline_DataRecvThd_step hash feat dr msg =
    (case msg of (msg_type, item_num, data_buf) \<Rightarrow>
       (case msg_type of
          CLIENT_UPLOAD_CHUNK \<Rightarrow>
            base_ProcessChunks hash feat (dr \<lparr> dr_chunk_batch_num := dr_chunk_batch_num dr + 1 \<rparr>) item_num data_buf
        | CLIENT_UPLOAD_RECIPE_END \<Rightarrow> Inr (ProcessRecipeEnd dr data_buf, [])
        | _ \<Rightarrow> Inl WrongMsgType))"

subsection \<open>Writing\<close>

definition Baseline_ReadChunk ::
  "storage_core \<Rightarrow> client_store \<Rightarrow> key_for_chunk \<Rightarrow> (storage_core \<times> client_store \<times> bytes) result" where
  \<comment> \<open>a container that is neither on disk nor current ends the program\<close>
  "Baseline_ReadChunk sc cl addr =
    bindR (ReadChunk sc cl addr) (\<lambda>(sc, cl, r). case r of None \<Rightarrow> Inl FileError | Some d \<Rightarrow> Inr (sc, cl, d))"

definition Baseline_FetchBaseChunk :: "codec \<Rightarrow> data_writer \<Rightarrow> bytes \<Rightarrow> (data_writer \<times> bytes) result" where
  "Baseline_FetchBaseChunk dcmp dw fp =
    (case map_of (dw_fp_2_addr dw) fp of
       None \<Rightarrow> Inl BaseNotFound
     | Some base_addr \<Rightarrow>
         if ENC_MAX_CHUNK_SIZE < a_len base_addr then Inl OutOfBounds
         else bindR (Baseline_ReadChunk (dw_store dw) (dw_client dw) base_addr) (\<lambda>(sc, cl, raw_base_chunk).
           let dw = dw \<lparr> dw_store := sc, dw_client := cl \<rparr>
           in case a_stat base_addr of
                COMP_BASE_CHUNK \<Rightarrow> Inr (dw, DecompressOneChunk dcmp COMPRESSION_TYPE raw_base_chunk)
              | UNCOMP_BASE_CHUNK \<Rightarrow> Inr (dw, raw_base_chunk)
              | _ \<Rightarrow> Inl WrongChunkType))"

definition compress_write ::
  "codec \<Rightarrow> (nat \<Rightarrow> nat) \<Rightarrow> data_writer \<Rightarrow> wrapped_chunk \<Rightarrow> bytes \<Rightarrow> chunk_status \<Rightarrow> chunk_status \<Rightarrow>
   (data_writer \<times> wrapped_chunk) result" where
  \<comment> \<open>compress, write, and set the status of the address, the end of both functions below\<close>
  "compress_write cmp rand dw w data comp_stat uncomp_stat =
    (case CompressOneChunk cmp COMPRESSION_TYPE data of (can_compress, out) \<Rightarrow>
       bindR (dw_write rand dw w out) (\<lambda>(dw, w). Inr (dw, set_addr_stat w (if can_compress then comp_stat else uncomp_stat))))"

definition Baseline_ProcSimilarChunk ::
  "(bytes \<Rightarrow> bytes \<Rightarrow> nat \<Rightarrow> bytes option) \<Rightarrow> codec \<Rightarrow> codec \<Rightarrow> (nat \<Rightarrow> nat) \<Rightarrow> data_writer \<Rightarrow> wrapped_chunk \<Rightarrow>
   (data_writer \<times> wrapped_chunk) result" where
  "Baseline_ProcSimilarChunk denc cmp dcmp rand dw w =
    bindR (Baseline_FetchBaseChunk dcmp dw (a_base_fp (ci_addr (w_info w)))) (\<lambda>(dw, base_chunk).
    bindR (DeltaEncode denc base_chunk (w_data w)) (\<lambda>delta_chunk.
      compress_write cmp rand (dw \<lparr> dw_delta_size := dw_delta_size dw + length delta_chunk \<rparr>) w delta_chunk
        COMP_DELTA_CHUNK UNCOMP_DELTA_CHUNK))"

definition Baseline_ProcNonSimilarChunk ::
  "codec \<Rightarrow> (nat \<Rightarrow> nat) \<Rightarrow> data_writer \<Rightarrow> wrapped_chunk \<Rightarrow> (data_writer \<times> wrapped_chunk) result" where
  "Baseline_ProcNonSimilarChunk cmp rand dw w = compress_write cmp rand dw w (w_data w) COMP_BASE_CHUNK UNCOMP_BASE_CHUNK"

definition Baseline_DataWriterThd_step ::
  "(bytes \<Rightarrow> bytes \<Rightarrow> nat \<Rightarrow> bytes option) \<Rightarrow> codec \<Rightarrow> codec \<Rightarrow> ((bytes, nat) umap \<Rightarrow> (bytes, nat) umap) \<Rightarrow>
   (nat \<Rightarrow> nat) \<Rightarrow> data_writer \<Rightarrow> wrapped_chunk \<Rightarrow> data_writer result" where
  "Baseline_DataWriterThd_step denc cmp dcmp iter rand dw w =
    (let w = w \<lparr> w_info := FindBaseChunk_db iter (dw_feature_2_fp dw) (w_info w) \<rparr>
     in bindR
      (case ci_stat (w_info w) of
         SIMILAR_CHUNK \<Rightarrow>
           Baseline_ProcSimilarChunk denc cmp dcmp rand
             (dw \<lparr> dw_similar_chunk_num := dw_similar_chunk_num dw + 1,
                   dw_similar_data_size := dw_similar_data_size dw + a_len (ci_addr (w_info w)) \<rparr>) w
       | NON_SIMILAR_CHUNK \<Rightarrow>
           bindR (Baseline_ProcNonSimilarChunk cmp rand dw w) (\<lambda>(dw, w).
             Inr (dw \<lparr> dw_feature_2_fp :=
                         UpdateFeatureIndex_db (dw_feature_2_fp dw) (ci_features (w_info w)) (ci_fp (w_info w)) \<rparr>, w))
       | _ \<Rightarrow> Inl WrongChunkType)
      (\<lambda>(dw, w). Inr (dw \<lparr> dw_fp_2_addr := AList.update (ci_fp (w_info w)) (ci_addr (w_info w)) (dw_fp_2_addr dw) \<rparr>)))"

subsection \<open>What is stored\<close>

definition base_stats :: "chunk_status set" where
  "base_stats = {COMP_BASE_CHUNK, UNCOMP_BASE_CHUNK}"

definition delta_stats :: "chunk_status set" where
  "delta_stats = {COMP_DELTA_CHUNK, UNCOMP_DELTA_CHUNK}"

definition unpack :: "codec \<Rightarrow> key_for_chunk \<Rightarrow> bytes \<Rightarrow> bytes" where
  \<comment> \<open>the chunk or delta behind what the container holds\<close>
  "unpack dcmp a d =
    (if a_stat a \<in> {COMP_BASE_CHUNK, COMP_DELTA_CHUNK} then DecompressOneChunk dcmp COMPRESSION_TYPE d else d)"

definition base_stored :: "codec \<Rightarrow> (bytes \<Rightarrow> bytes \<Rightarrow> nat \<Rightarrow> bytes option) \<Rightarrow> data_writer \<Rightarrow> bytes \<Rightarrow> bytes option" where
  \<comment> \<open>the abstract content of the store: what a fingerprint denotes\<close>
  "base_stored dcmp ddec dw fp =
    (case map_of (dw_fp_2_addr dw) fp of
       None \<Rightarrow> None
     | Some a \<Rightarrow>
         (case dw_chunk dw a of
            None \<Rightarrow> None
          | Some d \<Rightarrow>
              if a_stat a \<in> base_stats then Some (unpack dcmp a d)
              else if a_stat a \<in> delta_stats then
                (case map_of (dw_fp_2_addr dw) (a_base_fp a) of
                   None \<Rightarrow> None
                 | Some b \<Rightarrow>
                     (case dw_chunk dw b of
                        None \<Rightarrow> None
                      | Some e \<Rightarrow> ddec (unpack dcmp b e) (unpack dcmp a d) ENC_MAX_CHUNK_SIZE))
              else None))"

definition base_whole :: "data_writer \<Rightarrow> bytes \<Rightarrow> bool" where
  "base_whole dw fp \<longleftrightarrow> (\<exists>a. map_of (dw_fp_2_addr dw) fp = Some a \<and> a_stat a \<in> base_stats)"

definition base_entry_ok :: "bytes set \<Rightarrow> data_writer \<Rightarrow> key_for_chunk \<Rightarrow> bool" where
  "base_entry_ok S dw a \<longleftrightarrow>
     (\<exists>d. dw_chunk dw a = Some d \<and> d \<noteq> [] \<and> length d \<le> ENC_MAX_CHUNK_SIZE) \<and>
     (a_stat a \<in> base_stats \<or> a_stat a \<in> delta_stats \<and> a_base_fp a \<in> S \<and> base_whole dw (a_base_fp a))"

text \<open>The invariant of the writer over the set of fingerprints whose chunks have been written.\<close>

definition base_inv :: "bytes set \<Rightarrow> data_writer \<Rightarrow> bool" where
  "base_inv S dw \<longleftrightarrow>
     store_ok (dw_store dw) (dw_client dw) \<and> db_ok (dw_feature_2_fp dw) \<and>
     (\<forall>fp \<in> S. length fp = CHUNK_HASH_SIZE \<and> (\<exists>a. map_of (dw_fp_2_addr dw) fp = Some a \<and> base_entry_ok S dw a)) \<and>
     (\<forall>f b. InMem_QueryBuffer (dw_feature_2_fp dw) (u64_le f) 8 = Some b \<longrightarrow> b \<in> S \<and> base_whole dw b)"

text \<open>A later state of the store that still has what was written.\<close>

definition base_later :: "bytes set \<Rightarrow> data_writer \<Rightarrow> data_writer \<Rightarrow> bool" where
  "base_later S dw dw' \<longleftrightarrow> store_ok (dw_store dw') (dw_client dw') \<and>
     (\<forall>a d. dw_chunk dw a = Some d \<longrightarrow> d \<noteq> [] \<longrightarrow> dw_chunk dw' a = Some d) \<and>
     (\<forall>fp \<in> S. map_of (dw_fp_2_addr dw') fp = map_of (dw_fp_2_addr dw) fp)"

lemma base_inv_entry:
  assumes "base_inv S dw" "fp \<in> S"
  obtains a d where "map_of (dw_fp_2_addr dw) fp = Some a" "dw_chunk dw a = Some d" "d \<noteq> []" "length d \<le> ENC_MAX_CHUNK_SIZE"
    "a_stat a \<in> base_stats \<or> a_stat a \<in> delta_stats \<and> a_base_fp a \<in> S \<and> base_whole dw (a_base_fp a)"
  using assms by (auto simp: base_inv_def base_entry_ok_def)

lemma base_stats_disjoint: "s \<in> base_stats \<Longrightarrow> s \<notin> delta_stats"
  by (auto simp: base_stats_def delta_stats_def)

lemma base_inv_base:
  assumes "base_inv S dw" "b \<in> S" "base_whole dw b"
  obtains a d where "map_of (dw_fp_2_addr dw) b = Some a" "dw_chunk dw a = Some d" "d \<noteq> []" "length d \<le> ENC_MAX_CHUNK_SIZE"
    "a_stat a \<in> base_stats"
  using assms by (auto elim!: base_inv_entry simp: base_whole_def)

lemma base_later_stored:
  assumes inv: "base_inv S dw" and l: "base_later S dw dw'" and g: "g \<in> S"
  shows "base_stored dcmp ddec dw' g = base_stored dcmp ddec dw g"
proof -
  obtain a d where a: "map_of (dw_fp_2_addr dw) g = Some a" "dw_chunk dw a = Some d" "d \<noteq> []"
    "a_stat a \<in> base_stats \<or> a_stat a \<in> delta_stats \<and> a_base_fp a \<in> S \<and> base_whole dw (a_base_fp a)"
    by (rule base_inv_entry [OF inv g])
  have a': "map_of (dw_fp_2_addr dw') g = Some a" "dw_chunk dw' a = Some d" using l a g by (simp_all add: base_later_def)
  show ?thesis
  proof (cases "a_stat a \<in> base_stats")
    case True
    with a a' show ?thesis by (simp add: base_stored_def)
  next
    case False
    with a(4) have b: "a_base_fp a \<in> S" "base_whole dw (a_base_fp a)" by simp_all
    obtain x e where x: "map_of (dw_fp_2_addr dw) (a_base_fp a) = Some x" "dw_chunk dw x = Some e" "e \<noteq> []"
      by (rule base_inv_base [OF inv b])
    have "map_of (dw_fp_2_addr dw') (a_base_fp a) = Some x" "dw_chunk dw' x = Some e"
      using l x b(1) by (simp_all add: base_later_def)
    with a a' x show ?thesis by (simp add: base_stored_def)
  qed
qed

lemma base_later_whole: "base_later S dw dw' \<Longrightarrow> b \<in> S \<Longrightarrow> base_whole dw b \<Longrightarrow> base_whole dw' b"
  by (auto simp: base_later_def base_whole_def)

lemma base_later_entry:
  assumes l: "base_later S dw dw'" and "base_entry_ok S dw a" "S \<subseteq> S'"
  shows "base_entry_ok S' dw' a"
  using assms base_later_whole [OF l, of "a_base_fp a"] by (auto simp: base_entry_ok_def base_later_def)

text \<open>The index may get other entries, and a new chunk may become part of what is written.\<close>

lemma base_inv_later:
  assumes inv: "base_inv S dw" and l: "base_later S dw dw'" and f: "dw_feature_2_fp dw' = dw_feature_2_fp dw"
  shows "base_inv S dw'"
proof -
  have "length g = CHUNK_HASH_SIZE \<and> (\<exists>a. map_of (dw_fp_2_addr dw') g = Some a \<and> base_entry_ok S dw' a)" if "g \<in> S" for g
    using inv that l base_later_entry [OF l _ order_refl] by (auto simp: base_inv_def base_later_def)
  moreover have "b \<in> S \<and> base_whole dw' b" if "InMem_QueryBuffer (dw_feature_2_fp dw) (u64_le x) 8 = Some b" for x b
    using inv that base_later_whole [OF l] by (auto simp: base_inv_def)
  ultimately show ?thesis using inv l unfolding base_inv_def f by (simp add: base_later_def)
qed

lemma base_inv_insert:
  assumes inv: "base_inv S dw" and l: "base_later S dw dw'" and fp: "length fp = CHUNK_HASH_SIZE"
    and a: "map_of (dw_fp_2_addr dw') fp = Some a" "dw_chunk dw' a = Some d" "d \<noteq> []" "length d \<le> ENC_MAX_CHUNK_SIZE"
    and stat: "a_stat a \<in> base_stats \<or> a_stat a \<in> delta_stats \<and> a_base_fp a \<in> S \<and> base_whole dw (a_base_fp a)"
    and feat: "dw_feature_2_fp dw' = dw_feature_2_fp dw \<or>
      a_stat a \<in> base_stats \<and> dw_feature_2_fp dw' = UpdateFeatureIndex_db (dw_feature_2_fp dw) fs fp"
  shows "base_inv (insert fp S) dw'"
proof -
  note w = base_later_whole [OF l]
  have dbok: "db_ok (dw_feature_2_fp dw)" using inv by (simp add: base_inv_def)
  have F: "b \<in> S \<and> base_whole dw b" if "InMem_QueryBuffer (dw_feature_2_fp dw) (u64_le x) 8 = Some b" for x b
    using inv that by (simp add: base_inv_def)
  have upd: "UpdateFeatureIndex_db (dw_feature_2_fp dw) fs fp =
      feature_db.insert_all (dw_feature_2_fp dw) (take SUPER_FEATURE_PER_CHUNK fs) fp"
    by (rule UpdateFeatureIndex_db_insert_all [OF fp])
  have F': "b \<in> insert fp S \<and> base_whole dw' b" if q: "InMem_QueryBuffer (dw_feature_2_fp dw') (u64_le x) 8 = Some b" for x b
  proof (cases "dw_feature_2_fp dw' = dw_feature_2_fp dw")
    case True
    with q have "InMem_QueryBuffer (dw_feature_2_fp dw) (u64_le x) 8 = Some b" by simp
    from F [OF this] w show ?thesis by blast
  next
    case False
    then have f: "dw_feature_2_fp dw' = feature_db.insert_all (dw_feature_2_fp dw) (take SUPER_FEATURE_PER_CHUNK fs) fp"
      and "base_whole dw' fp" using feat upd a(1) by (auto simp: base_whole_def)
    then show ?thesis
      using q F w by (auto simp: f feature_db.query_insert_all [OF dbok] split: if_splits)
  qed
  have new: "base_entry_ok (insert fp S) dw' a"
    using a(2,3,4) stat w by (auto simp: base_entry_ok_def)
  have "length g = CHUNK_HASH_SIZE \<and> (\<exists>x. map_of (dw_fp_2_addr dw') g = Some x \<and> base_entry_ok (insert fp S) dw' x)"
    if g: "g \<in> insert fp S" for g
  proof (cases "g = fp")
    case True
    then show ?thesis using fp new a(1) by blast
  next
    case False
    then have "g \<in> S" using g by simp
    then show ?thesis
      using inv l base_later_entry [OF l, of _ "insert fp S"] by (fastforce simp: base_inv_def base_later_def)
  qed
  moreover have "db_ok (dw_feature_2_fp dw')" using feat dbok by (auto simp: upd intro: feature_db.insert_all_ok)
  moreover have "store_ok (dw_store dw') (dw_client dw')" using l by (simp add: base_later_def)
  ultimately show ?thesis using F' unfolding base_inv_def by blast
qed

subsection \<open>One chunk through the writer\<close>

text \<open>
  Decompression has room for \<open>MAX_CHUNK_SIZE\<close> bytes, but chunks and deltas may be a little longer:
  a chunk can be stored when the codec does not shrink it, or its delta, while it is longer.
\<close>

definition fits_codec :: "codec \<Rightarrow> bytes \<Rightarrow> bool" where
  "fits_codec cmp d \<longleftrightarrow> (fst (CompressOneChunk cmp COMPRESSION_TYPE d) \<longrightarrow> length d \<le> MAX_CHUNK_SIZE)"

definition base_storable :: "(bytes \<Rightarrow> bytes \<Rightarrow> nat \<Rightarrow> bytes option) \<Rightarrow> codec \<Rightarrow> bytes \<Rightarrow> bool" where
  "base_storable denc cmp d \<longleftrightarrow> d \<noteq> [] \<and> length d \<le> ENC_MAX_CHUNK_SIZE \<and> fits_codec cmp d \<and>
     (\<forall>b. \<exists>delta. denc b d ENC_MAX_CHUNK_SIZE = Some delta \<and> fits_codec cmp delta)"

lemma CompressOneChunk_unpack:
  assumes ok: "codec_ok cmp dcmp" and fits: "fits_codec cmp d" and d: "d \<noteq> []"
  shows "snd (CompressOneChunk cmp COMPRESSION_TYPE d) \<noteq> []"
    and "if fst (CompressOneChunk cmp COMPRESSION_TYPE d)
         then DecompressOneChunk dcmp COMPRESSION_TYPE (snd (CompressOneChunk cmp COMPRESSION_TYPE d)) = d
         else snd (CompressOneChunk cmp COMPRESSION_TYPE d) = d"
proof -
  show "snd (CompressOneChunk cmp COMPRESSION_TYPE d) \<noteq> []"
    using ok d by (auto simp: CompressOneChunk_def COMPRESSION_TYPE_def codec_ok_def split: option.splits)
  show "if fst (CompressOneChunk cmp COMPRESSION_TYPE d)
         then DecompressOneChunk dcmp COMPRESSION_TYPE (snd (CompressOneChunk cmp COMPRESSION_TYPE d)) = d
         else snd (CompressOneChunk cmp COMPRESSION_TYPE d) = d"
  proof (cases "cmp ZSTD_COMPRESS_TYPE d (length d)")
    case None
    then show ?thesis by (simp add: CompressOneChunk_def COMPRESSION_TYPE_def)
  next
    case (Some out)
    then have "length d \<le> MAX_CHUNK_SIZE" using fits by (simp add: fits_codec_def CompressOneChunk_def COMPRESSION_TYPE_def)
    then have "dcmp ZSTD_COMPRESS_TYPE out MAX_CHUNK_SIZE = Some d" using ok Some unfolding codec_ok_def by blast
    with Some show ?thesis by (simp add: CompressOneChunk_def DecompressOneChunk_def COMPRESSION_TYPE_def)
  qed
qed

lemma compress_write_ok:
  assumes store: "store_ok (dw_store dw) (dw_client dw)" "fresh_id (dw_store dw) (dw_client dw) rand"
    and codec: "codec_ok cmp dcmp" "fits_codec cmp d" and d: "d \<noteq> []" "length d \<le> ENC_MAX_CHUNK_SIZE"
  obtains dw1 a c where "compress_write cmp rand dw w d cs us = Inr (dw1, w \<lparr> w_info := (w_info w) \<lparr> ci_addr := a \<rparr> \<rparr>)"
    "dw_keeps dw dw1" "dw_chunk dw1 a = Some c" "c \<noteq> []" "length c \<le> ENC_MAX_CHUNK_SIZE"
    "a_base_fp a = a_base_fp (ci_addr (w_info w))"
    "a_stat a = cs \<and> DecompressOneChunk dcmp COMPRESSION_TYPE c = d \<or> a_stat a = us \<and> c = d"
proof -
  obtain f c where fc: "CompressOneChunk cmp COMPRESSION_TYPE d = (f, c)" by fastforce
  note u = CompressOneChunk_unpack [OF codec d(1), unfolded fc fst_conv snd_conv]
  have len: "length c \<le> ENC_MAX_CHUNK_SIZE"
    using CompressOneChunk_size [OF codec(1), of COMPRESSION_TYPE d] d(2) by (simp add: fc)
  obtain dw1 a where 1: "dw_write rand dw w c = Inr (dw1, w \<lparr> w_info := (w_info w) \<lparr> ci_addr := a \<rparr> \<rparr>)"
      "dw_keeps dw dw1" "dw_chunk dw1 a = Some c" "a_base_fp a = a_base_fp (ci_addr (w_info w))"
    by (rule dw_write_ok [OF store len])
  show thesis
    by (rule that [of dw1 "a \<lparr> a_stat := if f then cs else us \<rparr>" c])
      (use 1 fc u len in \<open>auto simp: compress_write_def set_addr_stat_def split: if_splits\<close>)
qed

lemma base_fetch_ok:
  assumes inv: "base_inv S dw" and b: "b \<in> S" "base_whole dw b"
  obtains dw1 ba e where "Baseline_FetchBaseChunk dcmp dw b = Inr (dw1, unpack dcmp ba e)" "map_of (dw_fp_2_addr dw) b = Some ba"
    "dw_chunk dw ba = Some e" "dw_keeps dw dw1"
    "fresh_id (dw_store dw1) (dw_client dw1) = fresh_id (dw_store dw) (dw_client dw)"
proof -
  have ok: "store_ok (dw_store dw) (dw_client dw)" using inv by (simp add: base_inv_def)
  obtain ba e where ba: "map_of (dw_fp_2_addr dw) b = Some ba" "dw_chunk dw ba = Some e" "e \<noteq> []"
      "length e \<le> ENC_MAX_CHUNK_SIZE" "a_stat ba \<in> base_stats" by (rule base_inv_base [OF inv b])
  have len: "a_len ba \<le> ENC_MAX_CHUNK_SIZE"
    using chunk_at_length [OF ok, of ba e] ba by (simp add: dw_chunk_def)
  obtain sc cl where rd: "ReadChunk (dw_store dw) (dw_client dw) ba = Inr (sc, cl, Some e)"
    using ReadChunk_returns [OF ok] ba(2) unfolding dw_chunk_def by blast
  note k = ReadChunk_keeps [OF ok rd]
  let ?dw = "dw \<lparr> dw_store := sc, dw_client := cl \<rparr>"
  show thesis
  proof (rule that [of ?dw ba e])
    show "Baseline_FetchBaseChunk dcmp dw b = Inr (?dw, unpack dcmp ba e)"
      using ba len rd by (auto simp: Baseline_FetchBaseChunk_def Baseline_ReadChunk_def base_stats_def unpack_def)
    show "dw_keeps dw ?dw" using k by (simp add: dw_keeps_def dw_chunk_def)
    show "fresh_id (dw_store ?dw) (dw_client ?dw) = fresh_id (dw_store dw) (dw_client dw)"
      using k by (simp add: fresh_id_def fun_eq_iff)
  qed (fact ba(1,2))+
qed

lemma base_find_cases:
  assumes iter: "\<And>m. mset (iter m) = mset m" and inv: "base_inv S dw"
  obtains "FindBaseChunk_db iter (dw_feature_2_fp dw) ci = ci \<lparr> ci_stat := NON_SIMILAR_CHUNK \<rparr>"
  | b where "FindBaseChunk_db iter (dw_feature_2_fp dw) ci =
        ci \<lparr> ci_addr := (ci_addr ci) \<lparr> a_base_fp := b \<rparr>, ci_stat := SIMILAR_CHUNK \<rparr>"
      "b \<in> S" "base_whole dw b"
proof -
  let ?q = "\<lambda>f. InMem_QueryBuffer (dw_feature_2_fp dw) (u64_le f) 8"
  note F = FindBaseChunk_choose [OF iter refl, of ?q ci, folded FindBaseChunk_db_def]
  show thesis
  proof (cases "choose_base (hits ?q (take SUPER_FEATURE_PER_CHUNK (ci_features ci)))")
    case None
    with F show thesis by (intro that(1)) simp
  next
    case (Some b)
    then have "b \<in> set (hits ?q (take SUPER_FEATURE_PER_CHUNK (ci_features ci)))" by (rule choose_base_in)
    then obtain f where "?q f = Some b" by (auto simp: hits_def List.map_filter_def)
    then have b: "b \<in> S" "base_whole dw b" using inv by (auto simp: base_inv_def)
    then have "take CHUNK_HASH_SIZE b = b" using inv by (simp add: base_inv_def)
    with Some F b show thesis by (intro that(2) [of b]) simp_all
  qed
qed

lemma base_counters [simp]:
  "base_inv S (dw \<lparr> dw_similar_chunk_num := n, dw_similar_data_size := m \<rparr>) = base_inv S dw"
  "base_whole (dw \<lparr> dw_similar_chunk_num := n, dw_similar_data_size := m \<rparr>) fp = base_whole dw fp"
  "base_later S dw (dw' \<lparr> dw_delta_size := k \<rparr>) = base_later S dw dw'"
  by (simp_all add: base_inv_def base_entry_ok_def base_whole_def base_later_def dw_chunk_def)

lemma dw_keeps_later:
  "dw_keeps dw dw' \<Longrightarrow> fp \<notin> S \<Longrightarrow> base_later S dw (dw' \<lparr> dw_fp_2_addr := AList.update fp a (dw_fp_2_addr dw') \<rparr>)"
  by (auto simp: dw_keeps_def base_later_def dw_chunk_def)

text \<open>Both ways to store a chunk end with a new entry.\<close>

lemma base_step_done:
  assumes inv: "base_inv S dw" and fp: "fp \<notin> S" "length fp = CHUNK_HASH_SIZE" and k: "dw_keeps dw dw1"
    and c: "dw_chunk dw1 a = Some c" "c \<noteq> []" "length c \<le> ENC_MAX_CHUNK_SIZE"
    and stat: "a_stat a \<in> base_stats \<and> unpack dcmp a c = d \<or>
      a_stat a \<in> delta_stats \<and> a_base_fp a \<in> S \<and> base_whole dw (a_base_fp a) \<and>
        (\<exists>ba e. map_of (dw_fp_2_addr dw) (a_base_fp a) = Some ba \<and> dw_chunk dw ba = Some e \<and>
           ddec (unpack dcmp ba e) (unpack dcmp a c) ENC_MAX_CHUNK_SIZE = Some d)"
    and feat: "feat' = dw_feature_2_fp dw1 \<or>
      a_stat a \<in> base_stats \<and> feat' = UpdateFeatureIndex_db (dw_feature_2_fp dw1) fs fp"
  defines "dw' \<equiv> dw1 \<lparr> dw_feature_2_fp := feat', dw_fp_2_addr := AList.update fp a (dw_fp_2_addr dw1) \<rparr>"
  shows "base_inv (insert fp S) dw' \<and> (\<forall>g \<in> S. base_stored dcmp ddec dw' g = base_stored dcmp ddec dw g) \<and>
    base_stored dcmp ddec dw' fp = Some d \<and> map_of (dw_fp_2_addr dw') = (map_of (dw_fp_2_addr dw))(fp \<mapsto> a)"
proof -
  have k': "store_ok (dw_store dw1) (dw_client dw1)" "\<And>a d. dw_chunk dw a = Some d \<Longrightarrow> dw_chunk dw1 a = Some d"
    "dw_fp_2_addr dw1 = dw_fp_2_addr dw" "dw_feature_2_fp dw1 = dw_feature_2_fp dw" using k by (simp_all add: dw_keeps_def)
  have ch: "dw_chunk dw' = dw_chunk dw1" by (simp add: dw'_def dw_chunk_def)
  have m: "map_of (dw_fp_2_addr dw') = (map_of (dw_fp_2_addr dw))(fp \<mapsto> a)" by (simp add: dw'_def k'(3))
  have l: "base_later S dw dw'" using k' fp(1) by (auto simp: base_later_def ch m) (simp add: dw'_def)
  have f: "dw_feature_2_fp dw' = dw_feature_2_fp dw \<or>
      a_stat a \<in> base_stats \<and> dw_feature_2_fp dw' = UpdateFeatureIndex_db (dw_feature_2_fp dw) fs fp"
    using feat k'(4) by (simp add: dw'_def)
  have i: "base_inv (insert fp S) dw'"
    by (rule base_inv_insert [OF inv l fp(2) _ _ c(2,3) _ f]) (use stat c(1) in \<open>auto simp: m ch\<close>)
  have "base_stored dcmp ddec dw' fp = Some d"
  proof (cases "a_stat a \<in> base_stats")
    case True
    with stat c(1) base_stats_disjoint [OF True] show ?thesis by (simp add: base_stored_def m ch)
  next
    case False
    then obtain ba e where b: "a_stat a \<in> delta_stats" "a_base_fp a \<in> S" "map_of (dw_fp_2_addr dw) (a_base_fp a) = Some ba"
      "dw_chunk dw ba = Some e" "ddec (unpack dcmp ba e) (unpack dcmp a c) ENC_MAX_CHUNK_SIZE = Some d" using stat by blast
    then have "a_base_fp a \<noteq> fp" using fp(1) by blast
    with False b c(1) k'(2) [OF b(4)] show ?thesis by (simp add: base_stored_def m ch)
  qed
  with i m base_later_stored [OF inv l] show ?thesis by blast
qed

lemma base_writer_step:
  assumes inv: "base_inv S dw" and fp: "ci_fp (w_info w) \<notin> S" "length (ci_fp (w_info w)) = CHUNK_HASH_SIZE"
    and st: "base_storable denc cmp (w_data w)" and iter: "\<And>m. mset (iter m) = mset m"
    and delta: "delta_ok denc ddec" and codec: "codec_ok cmp dcmp"
    and fresh: "fresh_id (dw_store dw) (dw_client dw) rand"
  shows "\<exists>dw' a. Baseline_DataWriterThd_step denc cmp dcmp iter rand dw w = Inr dw' \<and>
    base_inv (insert (ci_fp (w_info w)) S) dw' \<and> (\<forall>g \<in> S. base_stored dcmp ddec dw' g = base_stored dcmp ddec dw g) \<and>
    base_stored dcmp ddec dw' (ci_fp (w_info w)) = Some (w_data w) \<and>
    map_of (dw_fp_2_addr dw') = (map_of (dw_fp_2_addr dw))(ci_fp (w_info w) \<mapsto> a)"
proof -
  let ?fp = "ci_fp (w_info w)"
  have d: "w_data w \<noteq> []" "length (w_data w) \<le> ENC_MAX_CHUNK_SIZE" "fits_codec cmp (w_data w)"
    using st by (simp_all add: base_storable_def)
  show ?thesis
  proof (rule base_find_cases [OF iter inv, of "w_info w"])
    assume find: "FindBaseChunk_db iter (dw_feature_2_fp dw) (w_info w) = (w_info w) \<lparr> ci_stat := NON_SIMILAR_CHUNK \<rparr>"
    let ?w = "w \<lparr> w_info := (w_info w) \<lparr> ci_stat := NON_SIMILAR_CHUNK \<rparr> \<rparr>"
    have ok: "store_ok (dw_store dw) (dw_client dw)" using inv by (simp add: base_inv_def)
    obtain dw1 a c where 1: "compress_write cmp rand dw ?w (w_data w) COMP_BASE_CHUNK UNCOMP_BASE_CHUNK =
        Inr (dw1, ?w \<lparr> w_info := (w_info ?w) \<lparr> ci_addr := a \<rparr> \<rparr>)"
      "dw_keeps dw dw1" "dw_chunk dw1 a = Some c" "c \<noteq> []" "length c \<le> ENC_MAX_CHUNK_SIZE"
      "a_stat a = COMP_BASE_CHUNK \<and> DecompressOneChunk dcmp COMPRESSION_TYPE c = w_data w \<or>
       a_stat a = UNCOMP_BASE_CHUNK \<and> c = w_data w"
      by (rule compress_write_ok [OF ok fresh codec d(3,1,2), of ?w COMP_BASE_CHUNK UNCOMP_BASE_CHUNK]) blast
    have s: "a_stat a \<in> base_stats" "unpack dcmp a c = w_data w" using 1(6) by (auto simp: base_stats_def unpack_def)
    let ?f = "UpdateFeatureIndex_db (dw_feature_2_fp dw1) (ci_features (w_info w)) ?fp"
    have "Baseline_DataWriterThd_step denc cmp dcmp iter rand dw w =
        Inr (dw1 \<lparr> dw_feature_2_fp := ?f, dw_fp_2_addr := AList.update ?fp a (dw_fp_2_addr dw1) \<rparr>)"
      using 1(1) find by (simp add: Baseline_DataWriterThd_step_def Baseline_ProcNonSimilarChunk_def Let_def)
    moreover note base_step_done [OF inv fp 1(2-5), of dcmp "w_data w" ddec ?f "ci_features (w_info w)"] s
    ultimately show ?thesis by blast
  next
    fix b
    assume find: "FindBaseChunk_db iter (dw_feature_2_fp dw) (w_info w) =
        (w_info w) \<lparr> ci_addr := (ci_addr (w_info w)) \<lparr> a_base_fp := b \<rparr>, ci_stat := SIMILAR_CHUNK \<rparr>"
      and b: "b \<in> S" "base_whole dw b"
    let ?w = "w \<lparr> w_info := (w_info w) \<lparr> ci_addr := (ci_addr (w_info w)) \<lparr> a_base_fp := b \<rparr>, ci_stat := SIMILAR_CHUNK \<rparr> \<rparr>"
    let ?dw0 = "dw \<lparr> dw_similar_chunk_num := dw_similar_chunk_num dw + 1,
                     dw_similar_data_size := dw_similar_data_size dw + a_len (ci_addr (w_info w)) \<rparr>"
    have inv0: "base_inv S ?dw0" and b0: "base_whole ?dw0 b" using inv b by simp_all
    obtain dw1 ba e where 1: "Baseline_FetchBaseChunk dcmp ?dw0 b = Inr (dw1, unpack dcmp ba e)"
      "map_of (dw_fp_2_addr dw) b = Some ba" "dw_chunk dw ba = Some e" "dw_keeps dw dw1" "fresh_id (dw_store dw1) (dw_client dw1) rand"
      by (rule base_fetch_ok [OF inv0 b(1) b0, of dcmp]) (use fresh in simp)
    obtain dl where dl: "DeltaEncode denc (unpack dcmp ba e) (w_data w) = Inr dl" "fits_codec cmp dl" "dl \<noteq> []"
        "length dl \<le> ENC_MAX_CHUNK_SIZE" "ddec (unpack dcmp ba e) dl ENC_MAX_CHUNK_SIZE = Some (w_data w)"
    proof -
      obtain dl where "denc (unpack dcmp ba e) (w_data w) ENC_MAX_CHUNK_SIZE = Some dl" "fits_codec cmp dl"
        using st by (auto simp: base_storable_def)
      with delta d show thesis by (intro that [of dl]) (auto simp: DeltaEncode_def delta_ok_def)
    qed
    let ?dw1 = "dw1 \<lparr> dw_delta_size := dw_delta_size dw1 + length dl \<rparr>"
    have ok1: "store_ok (dw_store ?dw1) (dw_client ?dw1)" "fresh_id (dw_store ?dw1) (dw_client ?dw1) rand"
      using 1(4,5) by (simp_all add: dw_keeps_def)
    obtain dw2 a c where 2: "compress_write cmp rand ?dw1 ?w dl COMP_DELTA_CHUNK UNCOMP_DELTA_CHUNK =
        Inr (dw2, ?w \<lparr> w_info := (w_info ?w) \<lparr> ci_addr := a \<rparr> \<rparr>)"
      "dw_keeps ?dw1 dw2" "dw_chunk dw2 a = Some c" "c \<noteq> []" "length c \<le> ENC_MAX_CHUNK_SIZE" "a_base_fp a = b"
      "a_stat a = COMP_DELTA_CHUNK \<and> DecompressOneChunk dcmp COMPRESSION_TYPE c = dl \<or> a_stat a = UNCOMP_DELTA_CHUNK \<and> c = dl"
      by (rule compress_write_ok [OF ok1 codec dl(2,3,4), of ?w COMP_DELTA_CHUNK UNCOMP_DELTA_CHUNK]) simp
    have k: "dw_keeps dw dw2" using 1(4) 2(2) by (simp add: dw_keeps_def dw_chunk_def)
    have s: "a_stat a \<in> delta_stats" "unpack dcmp a c = dl" using 2(7) by (auto simp: delta_stats_def unpack_def)
    have "Baseline_DataWriterThd_step denc cmp dcmp iter rand dw w =
        Inr (dw2 \<lparr> dw_feature_2_fp := dw_feature_2_fp dw2, dw_fp_2_addr := AList.update ?fp a (dw_fp_2_addr dw2) \<rparr>)"
      using 1(1) 2(1) dl(1) find by (simp add: Baseline_DataWriterThd_step_def Baseline_ProcSimilarChunk_def Let_def)
    moreover note base_step_done [OF inv fp k 2(3-5), of dcmp "w_data w" ddec "dw_feature_2_fp dw2"] s b 2(6) 1(2,3) dl(5)
    ultimately show ?thesis by blast
  qed
qed

end
