(* ===== verification/Baseline_Upload.thy ===== *)
theory Baseline_Upload
  imports Baseline_Server Upload_Run
begin

text \<open>
  An upload on the server of the baseline system: the receiver and the writer run concurrently on one
  queue and share the fingerprint index (\<open>src/Baseline/src/server/server_opt_thd.cc\<close> starts them). The
  receiver takes a message at a time; in between it only asks which fingerprints the index has,
  and the writer never adds one.
\<close>

subsection \<open>A message of the client\<close>

definition keeps_entries :: "data_recv \<Rightarrow> data_recv \<Rightarrow> bool" where
  "keeps_entries dr dr' \<longleftrightarrow> (\<forall>fp a. map_of (dr_fp_2_addr dr) fp = Some a \<longrightarrow> map_of (dr_fp_2_addr dr') fp = Some a)"

abbreviation recv_dom :: "data_recv \<Rightarrow> bytes set" where
  "recv_dom dr \<equiv> dom (map_of (dr_fp_2_addr dr))"

lemma base_recv_one:
  assumes wf: "base_wf c" and hash: "\<And>x. length (hash x) = CHUNK_HASH_SIZE"
  obtains dr' info' ws where
    "base_recv_chunk hash feat (pre @ base_frame c @ post) (dr, info, length pre) =
       Inr ((dr', info', length pre + length (base_frame c)), ws)"
    "recipe_stream dr' = recipe_stream dr @ hash (sc_data c)" "recipe_ok dr'" "keeps_entries dr dr'"
    "map fp_data ws = (if hash (sc_data c) \<in> recv_dom dr then [] else [(hash (sc_data c), sc_data c)])"
    "recv_dom dr' = insert (hash (sc_data c)) (recv_dom dr)"
proof -
  let ?d = "sc_data c" and ?buf = "pre @ base_frame c @ post"
  let ?off = "length pre + BASE_HEADER_SIZE"
  have h: "base_read_header ?buf (length pre) = Inr (length ?d, Some (sc_type c))" by (rule base_read_header_frame [OF wf])
  have m: "mem_read ?buf ?off (length ?d) = Inr ?d" by (rule base_mem_read_data [OF wf])
  have r: "read_data ?buf ?off (length ?d) = Inr ?d" using m wf by (simp add: read_data_def base_wf_def)
  have t: "take CHUNK_HASH_SIZE (hash ?d) = hash ?d" using hash by simp
  note defs = base_recv_chunk_def h m r length_base_frame [OF wf] Let_def add.assoc
  show thesis
  proof (cases "map_of (dr_fp_2_addr dr) (hash ?d)")
    case None
    let ?i = "info \<lparr> ci_fp := hash ?d, ci_stat := UNIQUE_CHUNK \<rparr>"
    let ?idx = "AList.update (hash ?d) (ci_addr info) (dr_fp_2_addr dr)"
    let ?dr = "ProcessRecipe (dr \<lparr> dr_fp_2_addr := ?idx \<rparr>) (hash ?d)"
    let ?dr' = "?dr \<lparr> dr_unique_chunk_num := dr_unique_chunk_num ?dr + 1, dr_unique_data_size := dr_unique_data_size ?dr + length ?d \<rparr>"
    let ?i' = "?i \<lparr> ci_addr := (ci_addr info) \<lparr> a_len := length ?d \<rparr>, ci_features := feat ?d \<rparr>"
    have u: "DetectDuplicate (info \<lparr> ci_fp := hash ?d \<rparr>) (dr_fp_2_addr dr) = (?i, ?idx)"
      using None by (simp add: DetectDuplicate_def)
    have "base_recv_chunk hash feat ?buf (dr, info, length pre) =
        Inr ((count_logical ?dr' (length ?d), ?i', length pre + length (base_frame c)), [\<lparr> w_info = ?i', w_data = ?d \<rparr>])"
      by (simp add: defs u)
    moreover have "keeps_entries dr (count_logical ?dr' (length ?d))" using None by (auto simp: keeps_entries_def)
    moreover have "recipe_ok (count_logical ?dr' (length ?d))" using recipe_ok_simps(1) [of "dr \<lparr> dr_fp_2_addr := ?idx \<rparr>" "hash ?d"]
      by (simp add: recipe_ok_def)
    moreover have "recipe_stream (count_logical ?dr' (length ?d)) = recipe_stream dr @ hash ?d"
      using recipe_stream_ProcessRecipe [of "dr \<lparr> dr_fp_2_addr := ?idx \<rparr>" "hash ?d"] t by (simp add: recipe_stream_def)
    moreover have "recv_dom (count_logical ?dr' (length ?d)) = insert (hash ?d) (recv_dom dr)" by simp
    moreover have "map fp_data [\<lparr> w_info = ?i', w_data = ?d \<rparr>] = (if hash ?d \<in> recv_dom dr then [] else [(hash ?d, ?d)])"
      using None by (auto simp: fp_data_def)
    ultimately show thesis by (metis that)
  next
    case (Some a)
    let ?i = "info \<lparr> ci_fp := hash ?d, ci_stat := DUPLICATE_CHUNK \<rparr>"
    let ?dr = "ProcessRecipe dr (hash ?d)"
    have u: "DetectDuplicate (info \<lparr> ci_fp := hash ?d \<rparr>) (dr_fp_2_addr dr) = (?i, dr_fp_2_addr dr)"
      using Some by (simp add: DetectDuplicate_def)
    have "base_recv_chunk hash feat ?buf (dr, info, length pre) =
        Inr ((count_logical ?dr (length ?d), ?i, length pre + length (base_frame c)), [])"
      by (simp add: defs u)
    moreover have "keeps_entries dr (count_logical ?dr (length ?d))" by (simp add: keeps_entries_def)
    moreover have "recv_dom (count_logical ?dr (length ?d)) = insert (hash ?d) (recv_dom dr)" using Some by auto
    moreover have "map fp_data [] = (if hash ?d \<in> recv_dom dr then [] else [(hash ?d, ?d)])" using Some by auto
    moreover have "recipe_stream (count_logical ?dr (length ?d)) = recipe_stream dr @ hash ?d" using t by simp
    moreover have "recipe_ok (count_logical ?dr (length ?d))" by simp
    ultimately show thesis by (metis that)
  qed
qed

text \<open>The chunks that a message adds to the queue.\<close>

abbreviation fp_of :: "(bytes \<Rightarrow> bytes) \<Rightarrow> bytes \<Rightarrow> bytes \<times> bytes" where
  "fp_of hash d \<equiv> (hash d, d)"

definition received :: "(bytes \<Rightarrow> bytes) \<Rightarrow> data_recv \<Rightarrow> bytes list \<Rightarrow> data_recv \<Rightarrow> wrapped_chunk list \<Rightarrow> bool" where
  "received hash dr ds dr' ws \<longleftrightarrow>
     recipe_stream dr' = recipe_stream dr @ concat (map hash ds) \<and> keeps_entries dr dr' \<and>
     map fp_data ws = first_of (recv_dom dr) (map (fp_of hash) ds) \<and> recv_dom dr' = recv_dom dr \<union> hash ` set ds"

lemma base_recv_loop:
  assumes hash: "\<And>x. length (hash x) = CHUNK_HASH_SIZE" and "\<forall>c \<in> set g. base_wf c" "length xs = length g" "recipe_ok dr"
  shows "\<exists>dr' info' off' ws. run_thd (\<lambda>st _. base_recv_chunk hash feat (pre @ concat (map base_frame g)) st) (dr, info, length pre) xs =
      Inr ((dr', info', off'), ws) \<and> recipe_ok dr' \<and> received hash dr (map sc_data g) dr' ws"
  using assms(2-4)
proof (induction g arbitrary: pre xs dr info)
  case Nil
  then show ?case by (simp add: received_def keeps_entries_def)
next
  case (Cons c g)
  obtain y ys where xs: "xs = y # ys" "length ys = length g" using Cons.prems(2) by (cases xs) auto
  have c: "base_wf c" and g: "\<forall>c \<in> set g. base_wf c" using Cons.prems(1) by simp_all
  obtain dr1 info1 w1 where 1: "base_recv_chunk hash feat (pre @ base_frame c @ concat (map base_frame g)) (dr, info, length pre) =
       Inr ((dr1, info1, length pre + length (base_frame c)), w1)"
    "recipe_stream dr1 = recipe_stream dr @ hash (sc_data c)" "recipe_ok dr1" "keeps_entries dr dr1"
    "map fp_data w1 = (if hash (sc_data c) \<in> recv_dom dr then [] else [(hash (sc_data c), sc_data c)])"
    "recv_dom dr1 = insert (hash (sc_data c)) (recv_dom dr)"
    by (rule base_recv_one [where hash = hash and feat = feat and pre = pre and post = "concat (map base_frame g)" and dr = dr and info = info,
          OF c hash])
  from Cons.IH [OF g xs(2) 1(3), of "pre @ base_frame c" info1] obtain dr2 info2 off2 w2 where
    2: "run_thd (\<lambda>st _. base_recv_chunk hash feat ((pre @ base_frame c) @ concat (map base_frame g)) st)
         (dr1, info1, length (pre @ base_frame c)) ys = Inr ((dr2, info2, off2), w2)" "recipe_ok dr2"
    "received hash dr1 (map sc_data g) dr2 w2" by blast
  have "received hash dr (map sc_data (c # g)) dr2 (w1 @ w2)"
    using 1(2,4,5,6) 2(3) by (auto simp: received_def keeps_entries_def insert_absorb)
  with 1(1) 2(1,2) show ?case by (simp add: xs(1))
qed

lemma base_recv_msg:
  assumes hash: "\<And>x. length (hash x) = CHUNK_HASH_SIZE" and g: "\<forall>c \<in> set g. base_wf c" and ok: "recipe_ok dr"
  obtains dr' ws where "Baseline_DataRecvThd_step hash feat dr (base_group_msg g) = Inr (dr', ws)" "recipe_ok dr'"
    "received hash dr (map sc_data g) dr' ws"
proof -
  let ?dr = "dr \<lparr> dr_chunk_batch_num := dr_chunk_batch_num dr + 1 \<rparr>"
  have "recipe_ok ?dr" using ok by simp
  from base_recv_loop [where hash = hash and feat = feat and xs = "[0..<length g]" and pre = "[]" and info = chunk_info_init, OF hash g _ this]
  obtain dr' info' off' ws where
    "run_thd (\<lambda>st _. base_recv_chunk hash feat (concat (map base_frame g)) st) (?dr, chunk_info_init, 0) [0..<length g] =
      Inr ((dr', info', off'), ws)" "recipe_ok dr'" "received hash ?dr (map sc_data g) dr' ws" by auto
  then show thesis
    by (intro that [of dr' ws])
      (simp_all add: Baseline_DataRecvThd_step_def base_ProcessChunks_def base_group_msg_def received_def keeps_entries_def recipe_stream_def)
qed

subsection \<open>The threads together\<close>

record base_server =
  bsv_msgs :: "net_msg list"                        \<comment> \<open>what the client has sent\<close>
  bsv_queue :: "wrapped_chunk list"                 \<comment> \<open>\<open>_recv_2_writer_mq\<close>\<close>
  bsv_fp_2_addr :: "(bytes, key_for_chunk) umap"    \<comment> \<open>the database shared by the two threads\<close>
  bsv_recv :: data_recv
  bsv_writer :: data_writer

definition base_recv_here :: "base_server \<Rightarrow> data_recv" where
  "base_recv_here s = (bsv_recv s) \<lparr> dr_fp_2_addr := bsv_fp_2_addr s \<rparr>"

definition base_writer_here :: "base_server \<Rightarrow> data_writer" where
  "base_writer_here s = (bsv_writer s) \<lparr> dw_fp_2_addr := bsv_fp_2_addr s \<rparr>"

inductive base_step ::
  "(bytes \<Rightarrow> bytes) \<Rightarrow> (bytes \<Rightarrow> u64 list) \<Rightarrow> (bytes \<Rightarrow> bytes \<Rightarrow> nat \<Rightarrow> bytes option) \<Rightarrow> codec \<Rightarrow> codec \<Rightarrow>
   ((bytes, nat) umap \<Rightarrow> (bytes, nat) umap) \<Rightarrow> base_server \<Rightarrow> base_server \<Rightarrow> bool"
  for hash feat denc cmp dcmp iter where
  base_recv: "bsv_msgs s = m # ms \<Longrightarrow> Baseline_DataRecvThd_step hash feat (base_recv_here s) m = Inr (dr, ws) \<Longrightarrow>
    base_step hash feat denc cmp dcmp iter s
      (s \<lparr> bsv_msgs := ms, bsv_queue := bsv_queue s @ ws, bsv_recv := dr, bsv_fp_2_addr := dr_fp_2_addr dr \<rparr>)"
| base_write: "bsv_queue s = w # ws \<Longrightarrow> fresh_id (dw_store (bsv_writer s)) (dw_client (bsv_writer s)) rand \<Longrightarrow>
    Baseline_DataWriterThd_step denc cmp dcmp iter rand (base_writer_here s) w = Inr dw \<Longrightarrow>
    base_step hash feat denc cmp dcmp iter s
      (s \<lparr> bsv_queue := ws, bsv_writer := dw, bsv_fp_2_addr := dw_fp_2_addr dw \<rparr>)"

definition base_exits ::
  "(bytes \<Rightarrow> bytes) \<Rightarrow> (bytes \<Rightarrow> u64 list) \<Rightarrow> (bytes \<Rightarrow> bytes \<Rightarrow> nat \<Rightarrow> bytes option) \<Rightarrow> codec \<Rightarrow> codec \<Rightarrow>
   ((bytes, nat) umap \<Rightarrow> (bytes, nat) umap) \<Rightarrow> base_server \<Rightarrow> bool" where
  \<comment> \<open>some thread would leave its next message by \<open>exit\<close>\<close>
  "base_exits hash feat denc cmp dcmp iter s \<longleftrightarrow>
     (\<exists>m ms e. bsv_msgs s = m # ms \<and> Baseline_DataRecvThd_step hash feat (base_recv_here s) m = Inl e) \<or>
     (\<exists>w ws e rand. bsv_queue s = w # ws \<and> fresh_id (dw_store (bsv_writer s)) (dw_client (bsv_writer s)) rand \<and>
        Baseline_DataWriterThd_step denc cmp dcmp iter rand (base_writer_here s) w = Inl e)"

definition base_start :: "net_msg list \<Rightarrow> nat \<Rightarrow> data_writer \<Rightarrow> base_server" where
  "base_start msgs recipe_batch dw =
     \<lparr> bsv_msgs = msgs, bsv_queue = [], bsv_fp_2_addr = dw_fp_2_addr dw,
       bsv_recv = data_recv_new recipe_batch (dw_fp_2_addr dw), bsv_writer = dw \<rparr>"

definition base_idle :: "base_server \<Rightarrow> bool" where
  "base_idle s \<longleftrightarrow> bsv_msgs s = [] \<and> bsv_queue s = []"

subsection \<open>The invariant of an upload\<close>

text \<open>
  \<open>S\<close> are the fingerprints stored before the upload, \<open>ds\<close> the chunks of the file as they are sent,
  \<open>T\<close> the fingerprints stored so far, \<open>seen\<close> the chunks received so far.
\<close>

definition base_wire :: "(bytes \<Rightarrow> bytes) \<Rightarrow> bytes list \<Rightarrow> bytes \<Rightarrow> bytes list \<Rightarrow> base_server \<Rightarrow> bool" where
  "base_wire hash ds h seen s \<longleftrightarrow>
     (\<exists>gs. bsv_msgs s = map base_group_msg gs @ [(CLIENT_UPLOAD_RECIPE_END, 0, h)] \<and> (\<forall>c \<in> set (concat gs). base_wf c) \<and>
        seen @ map sc_data (concat gs) = ds \<and> recipe_ok (bsv_recv s) \<and>
        recipe_stream (bsv_recv s) = replicate RECIPE_HEAD_SIZE 0 @ concat (map hash seen)) \<or>
     bsv_msgs s = [] \<and> seen = ds \<and> dr_recipe_file (bsv_recv s) = h @ concat (map hash ds)"

definition base_content ::
  "(bytes \<Rightarrow> bytes) \<Rightarrow> codec \<Rightarrow> (bytes \<Rightarrow> bytes \<Rightarrow> nat \<Rightarrow> bytes option) \<Rightarrow> bytes set \<Rightarrow> (bytes \<Rightarrow> bytes option) \<Rightarrow> bytes list \<Rightarrow>
   bytes set \<Rightarrow> bytes list \<Rightarrow> base_server \<Rightarrow> bool" where
  "base_content hash dcmp ddec S old ds T seen s \<longleftrightarrow>
     S \<subseteq> T \<and> base_inv T (base_writer_here s) \<and>
     dom (map_of (bsv_fp_2_addr s)) = T \<union> set (map (\<lambda>w. ci_fp (w_info w)) (bsv_queue s)) \<and>
     distinct (map (\<lambda>w. ci_fp (w_info w)) (bsv_queue s)) \<and>
     (\<forall>w \<in> set (bsv_queue s). ci_fp (w_info w) \<notin> T \<and> ci_fp (w_info w) = hash (w_data w) \<and> w_data w \<in> set ds) \<and>
     (\<forall>g \<in> S. base_stored dcmp ddec (base_writer_here s) g = old g) \<and>
     (\<forall>g \<in> T - S. \<exists>d \<in> set ds. base_stored dcmp ddec (base_writer_here s) g = Some d \<and> g = hash d) \<and>
     hash ` set seen \<subseteq> dom (map_of (bsv_fp_2_addr s))"

lemma received_queue:
  assumes "received hash dr ds dr' ws"
  shows "distinct (map (\<lambda>w. ci_fp (w_info w)) ws)"
    and "set (map (\<lambda>w. ci_fp (w_info w)) ws) = hash ` set ds - recv_dom dr"
    and "\<forall>w \<in> set ws. ci_fp (w_info w) = hash (w_data w) \<and> w_data w \<in> set ds"
proof -
  have m: "map fp_data ws = first_of (recv_dom dr) (map (fp_of hash) ds)" using assms by (simp add: received_def)
  have f: "map (\<lambda>w. ci_fp (w_info w)) ws = map fst (map fp_data ws)" by simp
  show "distinct (map (\<lambda>w. ci_fp (w_info w)) ws)" unfolding f m by (rule first_of_distinct)
  show "set (map (\<lambda>w. ci_fp (w_info w)) ws) = hash ` set ds - recv_dom dr"
    unfolding f m first_of_fst by (simp add: image_image)
  show "\<forall>w \<in> set ws. ci_fp (w_info w) = hash (w_data w) \<and> w_data w \<in> set ds"
  proof
    fix w assume "w \<in> set ws"
    then have "fp_data w \<in> set (first_of (recv_dom dr) (map (fp_of hash) ds))" unfolding m [symmetric] by simp
    then have "fp_data w \<in> set (map (fp_of hash) ds)" using first_of_subset by blast
    then show "ci_fp (w_info w) = hash (w_data w) \<and> w_data w \<in> set ds" by (auto simp: fp_data_def)
  qed
qed

lemma base_content_recv:
  assumes c: "base_content hash dcmp ddec S old ds T seen s" and r: "received hash (base_recv_here s) new dr ws"
    and new: "set new \<subseteq> set ds"
  shows "base_content hash dcmp ddec S old ds T (seen @ new)
    (s \<lparr> bsv_msgs := ms, bsv_queue := bsv_queue s @ ws, bsv_recv := dr, bsv_fp_2_addr := dr_fp_2_addr dr \<rparr>)"
    (is "base_content hash dcmp ddec S old ds T _ ?s")
proof -
  note q = received_queue [OF r]
  have dom: "recv_dom dr = dom (map_of (bsv_fp_2_addr s)) \<union> hash ` set new"
    using r by (simp add: received_def base_recv_here_def)
  have inv: "base_inv T (base_writer_here s)" using c by (simp add: base_content_def)
  have T: "T \<subseteq> dom (map_of (bsv_fp_2_addr s))" using c by (simp add: base_content_def)
  have l: "base_later T (base_writer_here s) (base_writer_here ?s)"
  proof -
    have "store_ok (dw_store (bsv_writer s)) (dw_client (bsv_writer s))" using inv by (simp add: base_inv_def base_writer_here_def)
    moreover have "map_of (dr_fp_2_addr dr) fp = map_of (bsv_fp_2_addr s) fp" if fp: "fp \<in> T" for fp
    proof -
      obtain a where "map_of (bsv_fp_2_addr s) fp = Some a" using T fp by blast
      with r show ?thesis by (simp add: received_def keeps_entries_def base_recv_here_def)
    qed
    ultimately show ?thesis by (simp add: base_later_def base_writer_here_def dw_chunk_def)
  qed
  have f: "dw_feature_2_fp (base_writer_here ?s) = dw_feature_2_fp (base_writer_here s)" by (simp add: base_writer_here_def)
  note inv' = base_inv_later [OF inv l f] and st = base_later_stored [OF inv l]
  have dq: "distinct (map (\<lambda>w. ci_fp (w_info w)) (bsv_queue s @ ws))"
    using c q(1,2) by (auto simp: base_content_def base_recv_here_def)
  have ws: "ci_fp (w_info w) \<notin> T" if "w \<in> set ws" for w
  proof -
    have "ci_fp (w_info w) \<in> hash ` set new - recv_dom (base_recv_here s)" unfolding q(2) [symmetric] using that by simp
    then show ?thesis using T by (auto simp: base_recv_here_def)
  qed
  have d: "dom (map_of (dr_fp_2_addr dr)) = T \<union> set (map (\<lambda>w. ci_fp (w_info w)) (bsv_queue s @ ws))"
  proof -
    have "recv_dom (base_recv_here s) = dom (map_of (bsv_fp_2_addr s))" by (simp add: base_recv_here_def)
    then show ?thesis unfolding dom set_map set_append image_Un using c q(2) by (auto simp: base_content_def)
  qed
  have S: "S \<subseteq> T" using c by (simp add: base_content_def)
  have old: "\<forall>g \<in> S. base_stored dcmp ddec (base_writer_here ?s) g = old g"
    using c st S by (auto simp: base_content_def)
  have newc: "\<forall>g \<in> T - S. \<exists>d \<in> set ds. base_stored dcmp ddec (base_writer_here ?s) g = Some d \<and> g = hash d"
    using c st by (auto simp: base_content_def)
  have qs: "\<forall>w \<in> set (bsv_queue s @ ws). ci_fp (w_info w) \<notin> T \<and> ci_fp (w_info w) = hash (w_data w) \<and> w_data w \<in> set ds"
    using c q(3) ws new by (auto simp: base_content_def)
  have "hash ` set seen \<subseteq> dom (map_of (bsv_fp_2_addr s))" using c unfolding base_content_def by blast
  then have seen: "hash ` set (seen @ new) \<subseteq> dom (map_of (dr_fp_2_addr dr))"
    unfolding dom set_append image_Un by blast
  have fields: "bsv_queue ?s = bsv_queue s @ ws" "bsv_fp_2_addr ?s = dr_fp_2_addr dr" by simp_all
  show ?thesis unfolding base_content_def fields
    by (rule conjI [OF S conjI [OF inv' conjI [OF d conjI [OF dq conjI [OF qs conjI [OF old conjI [OF newc seen]]]]]]])
qed

lemma base_content_write:
  assumes c: "base_content hash dcmp ddec S old ds T seen s" and q: "bsv_queue s = w # ws"
    and hash: "\<And>x. length (hash x) = CHUNK_HASH_SIZE" and ds: "\<forall>d \<in> set ds. base_storable denc cmp d"
    and iter: "\<And>m. mset (iter m) = mset m" and env: "delta_ok denc ddec" "codec_ok cmp dcmp"
    and fresh: "fresh_id (dw_store (bsv_writer s)) (dw_client (bsv_writer s)) rand"
  obtains dw where "Baseline_DataWriterThd_step denc cmp dcmp iter rand (base_writer_here s) w = Inr dw"
    "base_content hash dcmp ddec S old ds (insert (ci_fp (w_info w)) T) seen
       (s \<lparr> bsv_queue := ws, bsv_writer := dw, bsv_fp_2_addr := dw_fp_2_addr dw \<rparr>)"
proof -
  let ?fp = "ci_fp (w_info w)"
  have qq: "\<forall>w \<in> set (bsv_queue s). ci_fp (w_info w) \<notin> T \<and> ci_fp (w_info w) = hash (w_data w) \<and> w_data w \<in> set ds"
    using c unfolding base_content_def by blast
  from qq have w: "?fp \<notin> T" "?fp = hash (w_data w)" "w_data w \<in> set ds" by (auto dest: bspec [where x = w] simp: q)
  have len: "length ?fp = CHUNK_HASH_SIZE" unfolding w(2) by (rule hash)
  have inv: "base_inv T (base_writer_here s)" using c by (simp add: base_content_def)
  have fr: "fresh_id (dw_store (base_writer_here s)) (dw_client (base_writer_here s)) rand" using fresh by (simp add: base_writer_here_def)
  have st: "base_storable denc cmp (w_data w)" using ds w(3) by blast
  obtain dw a where 1: "Baseline_DataWriterThd_step denc cmp dcmp iter rand (base_writer_here s) w = Inr dw"
    "base_inv (insert ?fp T) dw" "\<forall>g \<in> T. base_stored dcmp ddec dw g = base_stored dcmp ddec (base_writer_here s) g"
    "base_stored dcmp ddec dw ?fp = Some (w_data w)"
    "map_of (dw_fp_2_addr dw) = (map_of (dw_fp_2_addr (base_writer_here s)))(?fp \<mapsto> a)"
    using base_writer_step [where iter = iter and ddec = ddec, OF inv w(1) len st iter env fr] by blast
  let ?s = "s \<lparr> bsv_queue := ws, bsv_writer := dw, bsv_fp_2_addr := dw_fp_2_addr dw \<rparr>"
  have h: "base_writer_here ?s = dw" by (simp add: base_writer_here_def)
  have dom: "dom (map_of (dw_fp_2_addr dw)) = insert ?fp (dom (map_of (bsv_fp_2_addr s)))"
    unfolding 1(5) by (simp add: base_writer_here_def)
  have S: "S \<subseteq> T" using c by (simp add: base_content_def)
  have old: "\<forall>g \<in> S. base_stored dcmp ddec dw g = old g" using c 1(3) S by (auto simp: base_content_def)
  have newc: "\<forall>g \<in> insert ?fp T - S. \<exists>d \<in> set ds. base_stored dcmp ddec dw g = Some d \<and> g = hash d"
    using c 1(3,4) w(2,3) by (auto simp: base_content_def)
  have "distinct (map (\<lambda>w. ci_fp (w_info w)) (bsv_queue s))" using c unfolding base_content_def by blast
  then have "?fp \<notin> set (map (\<lambda>w. ci_fp (w_info w)) ws)" by (simp add: q)
  then have "ci_fp (w_info v) \<noteq> ?fp" if "v \<in> set ws" for v using that by (metis (no_types, lifting) image_eqI set_map)
  with qq have qs: "\<forall>v \<in> set ws. ci_fp (w_info v) \<notin> insert ?fp T \<and> ci_fp (w_info v) = hash (w_data v) \<and> w_data v \<in> set ds"
    unfolding q by auto
  have d: "dom (map_of (dw_fp_2_addr dw)) = insert ?fp T \<union> set (map (\<lambda>w. ci_fp (w_info w)) ws)"
    using c q unfolding dom by (auto simp: base_content_def)
  have dq: "distinct (map (\<lambda>w. ci_fp (w_info w)) ws)"
    using c q unfolding base_content_def by simp
  have "hash ` set seen \<subseteq> dom (map_of (bsv_fp_2_addr s))" using c unfolding base_content_def by blast
  then have seen: "hash ` set seen \<subseteq> dom (map_of (dw_fp_2_addr dw))" unfolding dom by blast
  have fields: "bsv_queue ?s = ws" "bsv_fp_2_addr ?s = dw_fp_2_addr dw" by simp_all
  have S': "S \<subseteq> insert ?fp T" using S by blast
  have "base_content hash dcmp ddec S old ds (insert ?fp T) seen ?s"
    unfolding base_content_def h fields
    by (rule conjI [OF S' conjI [OF 1(2) conjI [OF d conjI [OF dq conjI [OF qs conjI [OF old conjI [OF newc seen]]]]]]])
  with 1(1) show thesis by (rule that)
qed

text \<open>The receiver's next message is accepted, whatever it is.\<close>

lemma recv_here_recipe [simp]: "recipe_ok (base_recv_here s) = recipe_ok (bsv_recv s)" "recipe_stream (base_recv_here s) = recipe_stream (bsv_recv s)"
  by (simp_all add: base_recv_here_def recipe_ok_def recipe_stream_def)

lemma base_recv_step:
  assumes w: "base_wire hash ds h seen s" and c: "base_content hash dcmp ddec S old ds T seen s" and m: "bsv_msgs s = m # ms"
    and hash: "\<And>x. length (hash x) = CHUNK_HASH_SIZE" and h: "length h = RECIPE_HEAD_SIZE"
  obtains dr ws new where "Baseline_DataRecvThd_step hash feat (base_recv_here s) m = Inr (dr, ws)"
    "base_wire hash ds h (seen @ new)
      (s \<lparr> bsv_msgs := ms, bsv_queue := bsv_queue s @ ws, bsv_recv := dr, bsv_fp_2_addr := dr_fp_2_addr dr \<rparr>)"
    "base_content hash dcmp ddec S old ds T (seen @ new)
      (s \<lparr> bsv_msgs := ms, bsv_queue := bsv_queue s @ ws, bsv_recv := dr, bsv_fp_2_addr := dr_fp_2_addr dr \<rparr>)"
proof -
  obtain gs where gs: "bsv_msgs s = map base_group_msg gs @ [(CLIENT_UPLOAD_RECIPE_END, 0, h)]" "\<forall>c \<in> set (concat gs). base_wf c"
      "seen @ map sc_data (concat gs) = ds" "recipe_ok (bsv_recv s)"
      "recipe_stream (bsv_recv s) = replicate RECIPE_HEAD_SIZE 0 @ concat (map hash seen)"
    using w m by (auto simp: base_wire_def)
  show thesis
  proof (cases gs)
    case Nil
    let ?dr = "ProcessRecipeEnd (base_recv_here s) h"
    have f: "dr_recipe_file ?dr = h @ concat (map hash seen)" by (rule recipe_file_end) (use gs h in simp_all)
    have fp: "dr_fp_2_addr ?dr = bsv_fp_2_addr s" by (simp add: ProcessRecipeEnd_def base_recv_here_def)
    let ?s = "s \<lparr> bsv_msgs := ms, bsv_queue := bsv_queue s @ [], bsv_recv := ?dr, bsv_fp_2_addr := dr_fp_2_addr ?dr \<rparr>"
    have m': "m = (CLIENT_UPLOAD_RECIPE_END, 0, h)" "ms = []" using m gs(1) Nil by simp_all
    have "Baseline_DataRecvThd_step hash feat (base_recv_here s) m = Inr (?dr, [])" by (simp add: m' Baseline_DataRecvThd_step_def)
    moreover have "base_wire hash ds h (seen @ []) ?s" using gs(3) Nil by (simp add: base_wire_def m' f)
    moreover have "base_content hash dcmp ddec S old ds T (seen @ []) ?s"
    proof -
      have "base_writer_here ?s = base_writer_here s" by (simp add: base_writer_here_def fp)
      moreover have "bsv_queue ?s = bsv_queue s" "bsv_fp_2_addr ?s = bsv_fp_2_addr s" by (simp_all add: fp)
      ultimately show ?thesis using c unfolding base_content_def append_Nil2 by metis
    qed
    ultimately show thesis by (rule that)
  next
    case (Cons g gs')
    have wf: "\<forall>c \<in> set g. base_wf c" and ok: "recipe_ok (base_recv_here s)" using gs(2,4) Cons by simp_all
    have m': "m = base_group_msg g" "ms = map base_group_msg gs' @ [(CLIENT_UPLOAD_RECIPE_END, 0, h)]" using m gs(1) Cons by simp_all
    obtain dr ws where 1: "Baseline_DataRecvThd_step hash feat (base_recv_here s) (base_group_msg g) = Inr (dr, ws)" "recipe_ok dr"
        "received hash (base_recv_here s) (map sc_data g) dr ws"
      by (rule base_recv_msg [where hash = hash and feat = feat, OF hash wf ok])
    let ?s = "s \<lparr> bsv_msgs := ms, bsv_queue := bsv_queue s @ ws, bsv_recv := dr, bsv_fp_2_addr := dr_fp_2_addr dr \<rparr>"
    have new: "set (map sc_data g) \<subseteq> set ds" unfolding gs(3) [symmetric] Cons by auto
    have st: "recipe_stream dr = replicate RECIPE_HEAD_SIZE 0 @ concat (map hash (seen @ map sc_data g))"
      using 1(3) gs(5) by (simp add: received_def)
    have 2: "base_wire hash ds h (seen @ map sc_data g) ?s"
      unfolding base_wire_def using gs(2,3) Cons 1(2) st by (intro disjI1 exI [of _ gs']) (simp add: m'(2))
    show thesis by (rule that [OF 1(1) [folded m'(1)] 2 base_content_recv [OF c 1(3) new]])
  qed
qed

subsection \<open>An upload under every schedule\<close>

definition base_files :: "bytes list \<Rightarrow> bytes \<Rightarrow> send_chunk list list \<Rightarrow> bool" where
  \<comment> \<open>the batches of a client whose ciphertexts are \<open>ds\<close>\<close>
  "base_files ds h gs \<longleftrightarrow> (\<forall>c \<in> set (concat gs). base_wf c) \<and> map sc_data (concat gs) = ds \<and> length h = RECIPE_HEAD_SIZE"

definition base_env ::
  "(bytes \<Rightarrow> bytes) \<Rightarrow> (bytes \<Rightarrow> bytes \<Rightarrow> nat \<Rightarrow> bytes option) \<Rightarrow> (bytes \<Rightarrow> bytes \<Rightarrow> nat \<Rightarrow> bytes option) \<Rightarrow> codec \<Rightarrow> codec \<Rightarrow>
   ((bytes, nat) umap \<Rightarrow> (bytes, nat) umap) \<Rightarrow> bool" where
  "base_env hash denc ddec cmp dcmp iter \<longleftrightarrow> (\<forall>x. length (hash x) = CHUNK_HASH_SIZE) \<and> delta_ok denc ddec \<and> codec_ok cmp dcmp \<and>
     (\<forall>m. mset (iter m) = mset m)"

lemma base_run:
  assumes env: "base_env hash denc ddec cmp dcmp iter" and gs: "base_files ds h gs" and ds: "\<forall>d \<in> set ds. base_storable denc cmp d"
    and S: "base_inv S dw" "dom (map_of (dw_fp_2_addr dw)) = S"
    and run: "(base_step hash feat denc cmp dcmp iter)\<^sup>*\<^sup>*
      (base_start (map base_group_msg gs @ [(CLIENT_UPLOAD_RECIPE_END, 0, h)]) recipe_batch dw) s"
  shows "\<exists>T seen. base_wire hash ds h seen s \<and> base_content hash dcmp ddec S (base_stored dcmp ddec dw) ds T seen s"
  using run
proof (induction rule: rtranclp_induct)
  case base
  let ?s = "base_start (map base_group_msg gs @ [(CLIENT_UPLOAD_RECIPE_END, 0, h)]) recipe_batch dw"
  have w: "base_writer_here ?s = dw" by (simp add: base_writer_here_def base_start_def)
  have "base_wire hash ds h [] ?s" using gs
    by (auto simp: base_wire_def base_files_def base_start_def recipe_ok_def recipe_stream_def data_recv_new_def)
  moreover have "base_content hash dcmp ddec S (base_stored dcmp ddec dw) ds S [] ?s"
    unfolding base_content_def w using S by (simp add: base_start_def)
  ultimately show ?case by blast
next
  case (step s s')
  then obtain T seen where i: "base_wire hash ds h seen s" "base_content hash dcmp ddec S (base_stored dcmp ddec dw) ds T seen s" by blast
  have hash: "\<And>x. length (hash x) = CHUNK_HASH_SIZE" and iter: "\<And>m. mset (iter m) = mset m"
    and dc: "delta_ok denc ddec" "codec_ok cmp dcmp" using env by (simp_all add: base_env_def)
  have h: "length h = RECIPE_HEAD_SIZE" using gs by (simp add: base_files_def)
  from step.hyps(2) show ?case
  proof cases
    case (base_recv m ms dr ws)
    obtain dr' ws' new where "Baseline_DataRecvThd_step hash feat (base_recv_here s) m = Inr (dr', ws')"
      "base_wire hash ds h (seen @ new)
        (s \<lparr> bsv_msgs := ms, bsv_queue := bsv_queue s @ ws', bsv_recv := dr', bsv_fp_2_addr := dr_fp_2_addr dr' \<rparr>)"
      "base_content hash dcmp ddec S (base_stored dcmp ddec dw) ds T (seen @ new)
        (s \<lparr> bsv_msgs := ms, bsv_queue := bsv_queue s @ ws', bsv_recv := dr', bsv_fp_2_addr := dr_fp_2_addr dr' \<rparr>)"
      by (rule base_recv_step [where hash = hash and feat = feat, OF i base_recv(2) hash h])
    with base_recv show ?thesis by auto
  next
    case (base_write w ws rand dw1)
    obtain dw' where wr: "Baseline_DataWriterThd_step denc cmp dcmp iter rand (base_writer_here s) w = Inr dw'"
      "base_content hash dcmp ddec S (base_stored dcmp ddec dw) ds (insert (ci_fp (w_info w)) T) seen
         (s \<lparr> bsv_queue := ws, bsv_writer := dw', bsv_fp_2_addr := dw_fp_2_addr dw' \<rparr>)"
      by (rule base_content_write [where hash = hash and iter = iter, OF i(2) base_write(2) hash ds iter dc base_write(3)])
    have "base_wire hash ds h seen s'" using i(1) base_write(1) by (simp add: base_wire_def)
    with wr base_write show ?thesis by auto
  qed
qed

lemma base_no_exit:
  assumes env: "base_env hash denc ddec cmp dcmp iter" and h: "length h = RECIPE_HEAD_SIZE" and ds: "\<forall>d \<in> set ds. base_storable denc cmp d"
    and w: "base_wire hash ds h seen s" and c: "base_content hash dcmp ddec S old ds T seen s"
  shows "\<not> base_exits hash feat denc cmp dcmp iter s"
proof -
  have hash: "\<And>x. length (hash x) = CHUNK_HASH_SIZE" and iter: "\<And>m. mset (iter m) = mset m"
    and dc: "delta_ok denc ddec" "codec_ok cmp dcmp" using env by (simp_all add: base_env_def)
  have "\<exists>r. Baseline_DataRecvThd_step hash feat (base_recv_here s) m = Inr r" if m: "bsv_msgs s = m # ms" for m ms
    by (rule base_recv_step [where hash = hash and feat = feat, OF w c m hash h]) blast
  moreover have "\<exists>r. Baseline_DataWriterThd_step denc cmp dcmp iter rand (base_writer_here s) v = Inr r"
    if v: "bsv_queue s = v # vs" "fresh_id (dw_store (bsv_writer s)) (dw_client (bsv_writer s)) rand" for v vs rand
    by (rule base_content_write [where hash = hash and iter = iter, OF c v(1) hash ds iter dc v(2)]) blast
  ultimately show ?thesis unfolding base_exits_def by (metis sum.distinct(1))
qed

text \<open>When both threads have done their work, the store has every chunk and the recipe names them.\<close>

definition base_fresh :: "(bytes \<Rightarrow> bytes) \<Rightarrow> bytes set \<Rightarrow> (bytes \<Rightarrow> bytes option) \<Rightarrow> bytes list \<Rightarrow> bool" where
  \<comment> \<open>no two contents with one fingerprint, neither among the new chunks nor with a stored one\<close>
  "base_fresh hash S old ds \<longleftrightarrow> inj_on hash (set ds) \<and> (\<forall>d \<in> set ds. hash d \<in> S \<longrightarrow> old (hash d) = Some d)"

lemma base_idle_content:
  assumes w: "base_wire hash ds h seen s" and c: "base_content hash dcmp ddec S old ds T seen s" and idle: "base_idle s"
    and f: "base_fresh hash S old ds"
  shows "dr_recipe_file (bsv_recv s) = h @ concat (map hash ds)" "base_inv T (base_writer_here s)"
    "dom (map_of (dw_fp_2_addr (base_writer_here s))) = T" "S \<subseteq> T" "\<forall>g \<in> S. base_stored dcmp ddec (base_writer_here s) g = old g"
    "\<forall>d \<in> set ds. hash d \<in> T \<and> base_stored dcmp ddec (base_writer_here s) (hash d) = Some d"
proof -
  have seen: "seen = ds" "dr_recipe_file (bsv_recv s) = h @ concat (map hash ds)"
    using w idle by (auto simp: base_wire_def base_idle_def)
  show "dr_recipe_file (bsv_recv s) = h @ concat (map hash ds)" by (rule seen(2))
  show "base_inv T (base_writer_here s)" and S: "S \<subseteq> T"
    and old: "\<forall>g \<in> S. base_stored dcmp ddec (base_writer_here s) g = old g" using c unfolding base_content_def by blast+
  have q: "bsv_queue s = []" using idle by (simp add: base_idle_def)
  have d: "dom (map_of (bsv_fp_2_addr s)) = T" using c by (simp add: base_content_def q)
  then show "dom (map_of (dw_fp_2_addr (base_writer_here s))) = T" by (simp add: base_writer_here_def)
  have new: "\<forall>g \<in> T - S. \<exists>d \<in> set ds. base_stored dcmp ddec (base_writer_here s) g = Some d \<and> g = hash d"
    using c unfolding base_content_def by blast
  have "hash ` set seen \<subseteq> dom (map_of (bsv_fp_2_addr s))" using c unfolding base_content_def by blast
  then have all: "hash ` set ds \<subseteq> T" unfolding seen(1) d .
  show "\<forall>d \<in> set ds. hash d \<in> T \<and> base_stored dcmp ddec (base_writer_here s) (hash d) = Some d"
  proof
    fix d assume d: "d \<in> set ds"
    then have T: "hash d \<in> T" using all by blast
    show "hash d \<in> T \<and> base_stored dcmp ddec (base_writer_here s) (hash d) = Some d"
    proof (cases "hash d \<in> S")
      case True
      with old f d T show ?thesis by (simp add: base_fresh_def)
    next
      case False
      with T new obtain e where e: "e \<in> set ds" "base_stored dcmp ddec (base_writer_here s) (hash d) = Some e" "hash d = hash e" by blast
      have "e = d" using f d e(1,3) unfolding base_fresh_def by (metis inj_onD)
      with e(2) T show ?thesis by blast
    qed
  qed
qed

end
