(* ===== verification/Baseline_Restore.thy ===== *)
theory Baseline_Restore
  imports Baseline_Upload Backup
begin

text \<open>
  A restore of the baseline system: \<open>src/Baseline/src/server/data_reader_thd.cc\<close> reads a chunk and, for
  a delta, its base; \<open>data_decoder_thd.cc\<close> undoes compression and delta and sends the ciphertext;
  \<open>src/client/data_retriever_thd.cc\<close> decrypts. Then the whole way of a file, from the chunker through
  both programs and back.
\<close>

subsection \<open>The reader and the decoder\<close>

definition Baseline_reader_read :: "data_reader \<Rightarrow> key_for_chunk \<Rightarrow> (data_reader \<times> bytes) result" where
  "Baseline_reader_read re addr =
    (if ENC_MAX_CHUNK_SIZE < a_len addr then Inl OutOfBounds
     else bindR (Baseline_ReadChunk (re_store re) (re_client re) addr) (\<lambda>(sc, cl, d).
       Inr (re \<lparr> re_store := sc, re_client := cl \<rparr>, d)))"

definition Baseline_FetchChunk :: "data_reader \<Rightarrow> bytes \<Rightarrow> (data_reader \<times> reader_2_decoder) result" where
  "Baseline_FetchChunk re fp =
    (case map_of (re_fp_2_addr re) fp of
       None \<Rightarrow> Inl AddrNotFound
     | Some addr \<Rightarrow>
         bindR (Baseline_reader_read re addr) (\<lambda>(re, d).
           let raw = \<lparr> rd_type = a_stat addr, rd_data = d, rd_base_type = UNIQUE_CHUNK, rd_base_data = [] \<rparr>
           in if a_stat addr \<in> {UNCOMP_DELTA_CHUNK, COMP_DELTA_CHUNK} then
                (case map_of (re_fp_2_addr re) (a_base_fp addr) of
                   None \<Rightarrow> Inl AddrNotFound
                 | Some base_addr \<Rightarrow>
                     bindR (Baseline_reader_read re base_addr) (\<lambda>(re, d).
                       Inr (re, raw \<lparr> rd_base_data := d, rd_base_type := a_stat base_addr \<rparr>)))
              else Inr (re, raw)))"

fun base_fetch_all :: "data_reader \<Rightarrow> bytes list \<Rightarrow> (data_reader \<times> reader_2_decoder list) result" where
  "base_fetch_all re [] = Inr (re, [])"
| "base_fetch_all re (fp # fps) =
    bindR (Baseline_FetchChunk re fp) (\<lambda>(re, raw). bindR (base_fetch_all re fps) (\<lambda>(re, raws). Inr (re, raw # raws)))"

definition Baseline_DataReaderThd_Run :: "nat \<Rightarrow> data_reader \<Rightarrow> bytes \<Rightarrow> (data_reader \<times> reader_2_decoder list) result" where
  "Baseline_DataReaderThd_Run batch re recipe_file =
     base_fetch_all re (read_recipe batch (drop RECIPE_HEAD_SIZE recipe_file, False))"

definition base_restore_frame :: "bytes \<Rightarrow> send_chunk" where
  \<comment> \<open>the features of the header are not set\<close>
  "base_restore_frame d = \<lparr> sc_type = NORMAL_CHUNK, sc_features = [0, 0, 0], sc_compressed_fp = [], sc_data = d \<rparr>"

definition base_de_put :: "data_decoder \<Rightarrow> bytes \<Rightarrow> data_decoder result" where
  \<comment> \<open>header and data into a buffer of \<open>2 * batch * sizeof(SendChunk_t)\<close> bytes\<close>
  "base_de_put de d =
    (if length (de_data de) + length (base_frame (base_restore_frame d)) \<le> 2 * de_batch de * BASE_SEND_CHUNK_SIZE
     then Inr (de_count (de \<lparr> de_data := de_data de @ base_frame (base_restore_frame d) \<rparr>)) else Inl OutOfBounds)"

definition Baseline_DecodeChunk ::
  "(bytes \<Rightarrow> bytes \<Rightarrow> nat \<Rightarrow> bytes option) \<Rightarrow> codec \<Rightarrow> data_decoder \<Rightarrow> reader_2_decoder \<Rightarrow> data_decoder result" where
  "Baseline_DecodeChunk ddec dcmp de raw =
    (let real_input_chunk =
           (if rd_type raw \<in> {COMP_BASE_CHUNK, COMP_DELTA_CHUNK} then DecompressOneChunk dcmp COMPRESSION_TYPE (rd_data raw)
            else rd_data raw)
     in if rd_type raw \<in> {COMP_DELTA_CHUNK, UNCOMP_DELTA_CHUNK} then
          bindR (case rd_base_type raw of
                   COMP_BASE_CHUNK \<Rightarrow> Inr (DecompressOneChunk dcmp COMPRESSION_TYPE (rd_base_data raw))
                 | UNCOMP_BASE_CHUNK \<Rightarrow> Inr (rd_base_data raw)
                 | _ \<Rightarrow> Inl MultiLevelDelta) (\<lambda>real_base_chunk.
          bindR (DeltaDecode ddec real_base_chunk real_input_chunk) (base_de_put de))
        else base_de_put de real_input_chunk)"

definition Baseline_DataDecoderThd_step ::
  "(bytes \<Rightarrow> bytes \<Rightarrow> nat \<Rightarrow> bytes option) \<Rightarrow> codec \<Rightarrow> data_decoder \<Rightarrow> reader_2_decoder \<Rightarrow>
   (data_decoder \<times> net_msg list) result" where
  "Baseline_DataDecoderThd_step ddec dcmp de raw =
    bindR (Baseline_DecodeChunk ddec dcmp de raw) (\<lambda>de.
      if de_item_num de mod de_batch de = 0 then (case Decoder_SendChunks de of (de, msg) \<Rightarrow> Inr (de, [msg]))
      else Inr (de, []))"

definition Baseline_DataDecoderThd_Run ::
  "(bytes \<Rightarrow> bytes \<Rightarrow> nat \<Rightarrow> bytes option) \<Rightarrow> codec \<Rightarrow> nat \<Rightarrow> reader_2_decoder list \<Rightarrow> net_msg list result" where
  "Baseline_DataDecoderThd_Run ddec dcmp batch raws =
    bindR (run_thd (Baseline_DataDecoderThd_step ddec dcmp) \<lparr> de_item_num = 0, de_data = [], de_batch = batch \<rparr> raws)
      (\<lambda>(de, msgs). Inr (msgs @ DataDecoderThd_end de))"

subsection \<open>The retriever\<close>

text \<open>
  The state is the record of the other client, whose method is of another type and stays unused;
  \<open>method_type\<close> is an argument. Login, key recipe and counters are the same code.
\<close>

definition Baseline_open_chunk ::
  "(evp_setup \<Rightarrow> bytes \<Rightarrow> bytes) \<Rightarrow> codec \<Rightarrow> client_enc_type \<Rightarrow> bytes \<Rightarrow> bytes \<Rightarrow> bytes result" where
  \<comment> \<open>the chunk behind the received bytes, in each mode\<close>
  "Baseline_open_chunk evp_dec dcmp method_type key c =
    (case method_type of
       PLAIN \<Rightarrow> Inr c
     | SERVER_AIDED_MLE \<Rightarrow> Inr (DecChunk evp_dec c key)
     | ENC_COMP_MLE \<Rightarrow> DecompressWithPad dcmp (DecChunk evp_dec c key))"

fun base_restore_loop ::
  "(evp_setup \<Rightarrow> bytes \<Rightarrow> bytes) \<Rightarrow> codec \<Rightarrow> client_enc_type \<Rightarrow> bytes \<Rightarrow> nat \<Rightarrow>
   data_retriever \<times> nat \<Rightarrow> (data_retriever \<times> bytes list) result" where
  \<comment> \<open>the loop of \<open>ProcessBatchChunks\<close> with \<open>ProcessChunk\<close>; the output of a copy or a decryption has
      room for \<open>ENC_MAX_CHUNK_SIZE\<close> bytes\<close>
  "base_restore_loop evp_dec dcmp method_type buf 0 (rt, off) = Inr (rt, [])"
| "base_restore_loop evp_dec dcmp method_type buf (Suc n) (rt, off) =
     bindR (base_read_header buf off) (\<lambda>(sz, _).
     bindR (next_key rt) (\<lambda>(rt, key).
     bindR (read_data buf (off + BASE_HEADER_SIZE) sz) (\<lambda>c.
     bindR (Baseline_open_chunk evp_dec dcmp method_type key c) (\<lambda>d.
     bindR (base_restore_loop evp_dec dcmp method_type buf n (count_restored rt d, off + BASE_HEADER_SIZE + sz))
       (\<lambda>(rt, ds). Inr (rt, d # ds))))))"

fun Baseline_DataRetrieverThd_Run ::
  "(evp_setup \<Rightarrow> bytes \<Rightarrow> bytes) \<Rightarrow> codec \<Rightarrow> client_enc_type \<Rightarrow> data_retriever \<Rightarrow> net_msg list \<Rightarrow>
   (data_retriever \<times> bytes list) result" where
  "Baseline_DataRetrieverThd_Run evp_dec dcmp method_type rt [] = Inl NetworkError"
| "Baseline_DataRetrieverThd_Run evp_dec dcmp method_type rt ((msg_type, item_num, data_buf) # msgs) =
    (if rt_batch rt * BASE_SEND_CHUNK_SIZE < length data_buf then Inl OutOfBounds
     else case msg_type of
       SERVER_RESTORE_CHUNK \<Rightarrow>
         bindR (base_restore_loop evp_dec dcmp method_type data_buf item_num (rt, 0)) (\<lambda>(rt, ds).
         bindR (Baseline_DataRetrieverThd_Run evp_dec dcmp method_type rt msgs) (\<lambda>(rt, ds'). Inr (rt, ds @ ds')))
     | SERVER_RESTORE_FINAL \<Rightarrow> Inr (rt, [])
     | _ \<Rightarrow> Inl WrongMsgType)"

subsection \<open>What the server sends for a fingerprint\<close>

lemma base_reader_read_ok:
  assumes "reader_of dw re" "dw_chunk dw a = Some d" "length d \<le> ENC_MAX_CHUNK_SIZE" "d \<noteq> []"
  obtains re' where "Baseline_reader_read re a = Inr (re', d)" "reader_of dw re'"
proof -
  obtain re' where r: "reader_read (\<lambda>_. []) re a = Inr (re', d)" "reader_of dw re'"
    by (rule reader_read_ok [OF assms])
  have n: "\<not> ENC_MAX_CHUNK_SIZE < a_len a" using r(1) by (cases "ENC_MAX_CHUNK_SIZE < a_len a") (simp_all add: reader_read_def)
  have c: "store_ok (re_store re) (re_client re)" "chunk_at (re_store re) (re_client re) a = Some d"
    using assms(1,2,4) by (simp_all add: reader_of_def)
  obtain sc cl where 1: "ReadChunk (re_store re) (re_client re) a = Inr (sc, cl, Some d)"
    using ReadChunk_returns [OF c(1)] c(2) by blast
  with r(1) n have "re' = re \<lparr> re_store := sc, re_client := cl \<rparr>" by (simp add: reader_read_def)
  with n 1 have "Baseline_reader_read re a = Inr (re', d)" by (simp add: Baseline_reader_read_def Baseline_ReadChunk_def)
  then show thesis using r(2) by (rule that)
qed

lemma base_fetch_decode:
  assumes inv: "base_inv S dw" and re: "reader_of dw re" and fp: "fp \<in> S" and d: "base_stored dcmp ddec dw fp = Some d"
  obtains re' raw where "Baseline_FetchChunk re fp = Inr (re', raw)" "reader_of dw re'"
    "\<And>de. Baseline_DecodeChunk ddec dcmp de raw = base_de_put de d"
proof -
  have idx: "re_fp_2_addr re = dw_fp_2_addr dw" using re by (simp add: reader_of_def)
  obtain a c where a: "map_of (dw_fp_2_addr dw) fp = Some a" "dw_chunk dw a = Some c" "c \<noteq> []" "length c \<le> ENC_MAX_CHUNK_SIZE"
    "a_stat a \<in> base_stats \<or> a_stat a \<in> delta_stats \<and> a_base_fp a \<in> S \<and> base_whole dw (a_base_fp a)"
    by (rule base_inv_entry [OF inv fp])
  obtain re1 where 1: "Baseline_reader_read re a = Inr (re1, c)" "reader_of dw re1" by (rule base_reader_read_ok [OF re a(2,4,3)])
  have idx1: "re_fp_2_addr re1 = dw_fp_2_addr dw" using 1(2) by (simp add: reader_of_def)
  show thesis
  proof (cases "a_stat a \<in> base_stats")
    case True
    let ?raw = "\<lparr> rd_type = a_stat a, rd_data = c, rd_base_type = UNIQUE_CHUNK, rd_base_data = [] \<rparr>"
    have "d = unpack dcmp a c" using d a(1,2) True by (simp add: base_stored_def)
    with True have "Baseline_DecodeChunk ddec dcmp de ?raw = base_de_put de d" for de
      by (auto simp: Baseline_DecodeChunk_def base_stats_def unpack_def)
    moreover have "Baseline_FetchChunk re fp = Inr (re1, ?raw)"
      using True a(1) 1(1) by (auto simp: Baseline_FetchChunk_def idx base_stats_def)
    ultimately show thesis using 1(2) by (intro that)
  next
    case False
    with a(5) have s: "a_stat a \<in> delta_stats" "a_base_fp a \<in> S" "base_whole dw (a_base_fp a)" by simp_all
    obtain b e where b: "map_of (dw_fp_2_addr dw) (a_base_fp a) = Some b" "dw_chunk dw b = Some e" "e \<noteq> []"
      "length e \<le> ENC_MAX_CHUNK_SIZE" "a_stat b \<in> base_stats" by (rule base_inv_base [OF inv s(2,3)])
    obtain re2 where 2: "Baseline_reader_read re1 b = Inr (re2, e)" "reader_of dw re2"
      by (rule base_reader_read_ok [OF 1(2) b(2,4,3)])
    have dd: "ddec (unpack dcmp b e) (unpack dcmp a c) ENC_MAX_CHUNK_SIZE = Some d"
      using d a(1,2) b(1,2) s(1) False by (simp add: base_stored_def)
    let ?raw = "\<lparr> rd_type = a_stat a, rd_data = c, rd_base_type = a_stat b, rd_base_data = e \<rparr>"
    have "Baseline_DecodeChunk ddec dcmp de ?raw = base_de_put de d" for de
      using s(1) b(5) dd by (auto simp: Baseline_DecodeChunk_def base_stats_def delta_stats_def unpack_def DeltaDecode_def)
    moreover have "Baseline_FetchChunk re fp = Inr (re2, ?raw)"
      using s(1) a(1) b(1) 1(1) 2(1) by (auto simp: Baseline_FetchChunk_def idx idx1 delta_stats_def)
    ultimately show thesis using 2(2) by (intro that)
  qed
qed

lemma base_fetch_run:
  assumes "base_inv S dw" "reader_of dw re" "\<forall>(fp, d) \<in> set xs. fp \<in> S \<and> base_stored dcmp ddec dw fp = Some d"
  shows "\<exists>re' raws. base_fetch_all re (map fst xs) = Inr (re', raws) \<and>
    list_all2 (\<lambda>raw d. \<forall>de. Baseline_DecodeChunk ddec dcmp de raw = base_de_put de d) raws (map snd xs)"
  using assms(2,3)
proof (induction xs arbitrary: re)
  case Nil
  then show ?case by simp
next
  case (Cons x xs)
  have x: "fst x \<in> S" "base_stored dcmp ddec dw (fst x) = Some (snd x)" using Cons.prems(2) by auto
  obtain re1 raw where 1: "Baseline_FetchChunk re (fst x) = Inr (re1, raw)" "reader_of dw re1"
    "\<And>de. Baseline_DecodeChunk ddec dcmp de raw = base_de_put de (snd x)"
    by (rule base_fetch_decode [OF assms(1) Cons.prems(1) x]) blast
  from Cons.IH [OF 1(2)] Cons.prems(2) obtain re2 raws where "base_fetch_all re1 (map fst xs) = Inr (re2, raws)"
    "list_all2 (\<lambda>raw d. \<forall>de. Baseline_DecodeChunk ddec dcmp de raw = base_de_put de d) raws (map snd xs)" by auto
  with 1(1,3) show ?case by auto
qed

subsection \<open>Batches\<close>

abbreviation ct_frame :: "bytes \<Rightarrow> bytes" where
  "ct_frame d \<equiv> base_frame (base_restore_frame d)"

definition base_restore_msg :: "bytes list \<Rightarrow> net_msg" where
  "base_restore_msg g = (SERVER_RESTORE_CHUNK, length g, concat (map ct_frame g))"

definition base_decoder_inv :: "data_decoder \<Rightarrow> bytes list \<Rightarrow> bool" where
  "base_decoder_inv de pend \<longleftrightarrow> de_item_num de = length pend \<and> length pend < de_batch de \<and>
     de_data de = concat (map ct_frame pend) \<and> (\<forall>d \<in> set pend. length d \<le> ENC_MAX_CHUNK_SIZE)"

lemma base_wf_restore: "length d \<le> ENC_MAX_CHUNK_SIZE \<Longrightarrow> base_wf (base_restore_frame d)"
  by (simp add: base_wf_def base_restore_frame_def SUPER_FEATURE_PER_CHUNK_def)

lemma ct_data [simp]: "sc_data (base_restore_frame d) = d"
  by (simp add: base_restore_frame_def)

lemma length_ct_frame: "length d \<le> ENC_MAX_CHUNK_SIZE \<Longrightarrow> length (ct_frame d) = BASE_HEADER_SIZE + length d"
  using length_base_frame [OF base_wf_restore] by simp

lemma ct_frames_size: "\<forall>d \<in> set g. length d \<le> ENC_MAX_CHUNK_SIZE \<Longrightarrow> length (concat (map ct_frame g)) \<le> length g * BASE_SEND_CHUNK_SIZE"
  using base_frames_size [of "map base_restore_frame g"] base_wf_restore by (simp add: comp_def)

lemma base_decoder_step:
  assumes inv: "base_decoder_inv de pend" and d: "length d \<le> ENC_MAX_CHUNK_SIZE"
    and dec: "\<And>de. Baseline_DecodeChunk ddec dcmp de raw = base_de_put de d"
  obtains de' pend' gs where "Baseline_DataDecoderThd_step ddec dcmp de raw = Inr (de', map base_restore_msg gs)"
    "base_decoder_inv de' pend'" "de_batch de' = de_batch de" "concat gs @ pend' = pend @ [d]" "\<forall>g \<in> set gs. length g = de_batch de"
proof -
  have i: "de_item_num de = length pend" "length pend < de_batch de" "de_data de = concat (map ct_frame pend)"
      "\<forall>d \<in> set pend. length d \<le> ENC_MAX_CHUNK_SIZE" using inv by (simp_all add: base_decoder_inv_def)
  have "length (de_data de @ ct_frame d) \<le> length (pend @ [d]) * BASE_SEND_CHUNK_SIZE"
    using ct_frames_size [of "pend @ [d]"] i(3,4) d by simp
  also have "\<dots> \<le> 2 * de_batch de * BASE_SEND_CHUNK_SIZE" using i(2) by (intro mult_right_mono) simp_all
  finally have "length (de_data de) + length (ct_frame d) \<le> 2 * de_batch de * BASE_SEND_CHUNK_SIZE" by simp
  then have put: "base_de_put de d = Inr (de_count (de \<lparr> de_data := de_data de @ ct_frame d \<rparr>))" by (simp add: base_de_put_def)
  show thesis
  proof (cases "length pend + 1 = de_batch de")
    case True
    then show thesis using i put
      by (intro that [of "de \<lparr> de_item_num := 0, de_data := [] \<rparr>" "[pend @ [d]]" "[]"])
        (simp_all add: Baseline_DataDecoderThd_step_def dec de_count_def Decoder_SendChunks_def base_restore_msg_def base_decoder_inv_def)
  next
    case False
    then have "(length pend + 1) mod de_batch de \<noteq> 0" using i(2) by simp
    then show thesis using False i put d
      by (intro that [of "de_count (de \<lparr> de_data := de_data de @ ct_frame d \<rparr>)" "[]" "pend @ [d]"])
        (simp_all add: Baseline_DataDecoderThd_step_def dec de_count_def base_decoder_inv_def)
  qed
qed

lemma base_decoder_run:
  assumes "list_all2 (\<lambda>raw d. \<forall>de. Baseline_DecodeChunk ddec dcmp de raw = base_de_put de d) raws ds"
    and "base_decoder_inv de pend" "\<forall>d \<in> set ds. length d \<le> ENC_MAX_CHUNK_SIZE"
  shows "\<exists>de' gs pend'. run_thd (Baseline_DataDecoderThd_step ddec dcmp) de raws = Inr (de', map base_restore_msg gs) \<and>
    base_decoder_inv de' pend' \<and> de_batch de' = de_batch de \<and> concat gs @ pend' = pend @ ds \<and> (\<forall>g \<in> set gs. length g = de_batch de)"
  using assms
proof (induction raws ds arbitrary: de pend rule: list_all2_induct)
  case Nil
  then show ?case by (intro exI [of _ de] exI [of _ "[]"] exI [of _ pend]) simp
next
  case (Cons raw raws d ds)
  have d: "length d \<le> ENC_MAX_CHUNK_SIZE" "\<forall>d \<in> set ds. length d \<le> ENC_MAX_CHUNK_SIZE" using Cons.prems(2) by simp_all
  have dec: "\<And>de. Baseline_DecodeChunk ddec dcmp de raw = base_de_put de d" using Cons.hyps(1) by blast
  obtain de1 pend1 gs1 where 1: "Baseline_DataDecoderThd_step ddec dcmp de raw = Inr (de1, map base_restore_msg gs1)"
    "base_decoder_inv de1 pend1" "de_batch de1 = de_batch de" "concat gs1 @ pend1 = pend @ [d]" "\<forall>g \<in> set gs1. length g = de_batch de"
    by (rule base_decoder_step [OF Cons.prems(1) d(1) dec])
  from Cons.IH [OF 1(2) d(2)] obtain de2 gs2 pend2 where
    2: "run_thd (Baseline_DataDecoderThd_step ddec dcmp) de1 raws = Inr (de2, map base_restore_msg gs2)"
    "base_decoder_inv de2 pend2" "de_batch de2 = de_batch de1" "concat gs2 @ pend2 = pend1 @ ds" "\<forall>g \<in> set gs2. length g = de_batch de1"
    by blast
  have "concat (gs1 @ gs2) @ pend2 = pend @ d # ds" using 1(4) 2(4) by (metis append.assoc append_Cons append_Nil concat_append)
  then show ?case using 1 2
    by (intro exI [of _ de2] exI [of _ "gs1 @ gs2"] exI [of _ pend2]) auto
qed

lemma base_server_run:
  assumes inv: "base_inv S dw" and re: "reader_of dw re" and batch: "0 < batch" "0 < recipe_batch" and head: "length head = RECIPE_HEAD_SIZE"
    and xs: "\<forall>(fp, d) \<in> set xs. fp \<in> S \<and> base_stored dcmp ddec dw fp = Some d \<and> length d \<le> ENC_MAX_CHUNK_SIZE"
  obtains re' raws gs where "Baseline_DataReaderThd_Run recipe_batch re (head @ concat (map fst xs)) = Inr (re', raws)"
    "Baseline_DataDecoderThd_Run ddec dcmp batch raws = Inr (map base_restore_msg gs @ [(SERVER_RESTORE_FINAL, 0, [])])"
    "concat gs = map snd xs" "\<forall>g \<in> set gs. length g \<le> batch"
proof -
  have "\<forall>fp \<in> set (map fst xs). length fp = CHUNK_HASH_SIZE" using inv xs by (fastforce simp: base_inv_def)
  then have rd: "read_recipe recipe_batch (concat (map fst xs), False) = map fst xs" by (rule read_recipe_concat [OF batch(2)])
  have "\<forall>(fp, d) \<in> set xs. fp \<in> S \<and> base_stored dcmp ddec dw fp = Some d" using xs by auto
  from base_fetch_run [OF inv re this] obtain re' raws where 1: "base_fetch_all re (map fst xs) = Inr (re', raws)"
    "list_all2 (\<lambda>raw d. \<forall>de. Baseline_DecodeChunk ddec dcmp de raw = base_de_put de d) raws (map snd xs)" by blast
  let ?de = "\<lparr> de_item_num = 0, de_data = [], de_batch = batch \<rparr>"
  have i: "base_decoder_inv ?de []" using batch(1) by (simp add: base_decoder_inv_def)
  have len: "\<forall>d \<in> set (map snd xs). length d \<le> ENC_MAX_CHUNK_SIZE" using xs by auto
  from base_decoder_run [OF 1(2) i len] obtain de' gs pend where
    2: "run_thd (Baseline_DataDecoderThd_step ddec dcmp) ?de raws = Inr (de', map base_restore_msg gs)" "base_decoder_inv de' pend"
    "de_batch de' = batch" "concat gs @ pend = map snd xs" "\<forall>g \<in> set gs. length g = batch" by auto
  let ?gs = "gs @ (if pend = [] then [] else [pend])"
  show thesis
  proof (rule that [of re' raws ?gs])
    show "Baseline_DataReaderThd_Run recipe_batch re (head @ concat (map fst xs)) = Inr (re', raws)"
      using 1(1) rd head by (simp add: Baseline_DataReaderThd_Run_def)
    show "Baseline_DataDecoderThd_Run ddec dcmp batch raws = Inr (map base_restore_msg ?gs @ [(SERVER_RESTORE_FINAL, 0, [])])"
      using 2(1,2) by (simp add: Baseline_DataDecoderThd_Run_def DataDecoderThd_end_def base_decoder_inv_def base_restore_msg_def
        Decoder_SendChunks_def)
    show "concat ?gs = map snd xs" using 2(4) by (cases "pend = []") simp_all
    show "\<forall>g \<in> set ?gs. length g \<le> batch" using 2(2,3,5) by (auto simp: base_decoder_inv_def)
  qed
qed

subsection \<open>What the client makes of it\<close>

text \<open>A ciphertext with its key and the chunk behind it.\<close>

definition base_opens ::
  "(evp_setup \<Rightarrow> bytes \<Rightarrow> bytes) \<Rightarrow> codec \<Rightarrow> client_enc_type \<Rightarrow> bytes \<times> bytes \<times> bytes \<Rightarrow> bool" where
  "base_opens evp_dec dcmp method_type x \<longleftrightarrow> (case x of (d, key, p) \<Rightarrow>
     length d \<le> ENC_MAX_CHUNK_SIZE \<and> Baseline_open_chunk evp_dec dcmp method_type key d = Inr p)"

lemma base_restore_batch:
  assumes "\<forall>x \<in> set xs. base_opens evp_dec dcmp m x" "key_inv rt (map (\<lambda>x. fst (snd x)) xs @ ks)"
  shows "\<exists>rt'. base_restore_loop evp_dec dcmp m (pre @ concat (map (\<lambda>x. ct_frame (fst x)) xs) @ post) (length xs) (rt, length pre) =
      Inr (rt', map (\<lambda>x. snd (snd x)) xs) \<and> rt_same rt rt' \<and> key_inv rt' ks \<and>
    rt_recv_chunk_num rt' = rt_recv_chunk_num rt + length xs \<and>
    rt_recv_data_size rt' = rt_recv_data_size rt + length (concat (map (\<lambda>x. snd (snd x)) xs))"
  using assms
proof (induction xs arbitrary: rt pre)
  case Nil
  then show ?case by (simp add: rt_same_def)
next
  case (Cons x xs)
  obtain d key p where x: "x = (d, key, p)" by (cases x)
  have o: "length d \<le> ENC_MAX_CHUNK_SIZE" "Baseline_open_chunk evp_dec dcmp m key d = Inr p"
    using Cons.prems(1) x by (simp_all add: base_opens_def)
  let ?post = "concat (map (\<lambda>x. ct_frame (fst x)) xs) @ post"
  let ?buf = "pre @ ct_frame d @ ?post"
  note wf = base_wf_restore [OF o(1)]
  have 1: "base_read_header ?buf (length pre) = Inr (length d, Some NORMAL_CHUNK)"
    using base_read_header_frame [OF wf] by (simp add: base_restore_frame_def)
  have 2: "read_data ?buf (length pre + BASE_HEADER_SIZE) (length d) = Inr d"
    using base_mem_read_data [OF wf] o(1) by (simp add: read_data_def)
  obtain rt1 where 3: "next_key rt = Inr (rt1, key)" "rt_same rt rt1" "rt_recv_chunk_num rt1 = rt_recv_chunk_num rt"
      "rt_recv_data_size rt1 = rt_recv_data_size rt" "key_inv (count_restored rt1 p) (map (\<lambda>x. fst (snd x)) xs @ ks)"
    using next_key_ok [of rt key "map (\<lambda>x. fst (snd x)) xs @ ks" p] Cons.prems(2) x by auto
  have len: "length (pre @ ct_frame d) = length pre + BASE_HEADER_SIZE + length d" using length_ct_frame [OF o(1)] by simp
  have "\<forall>x \<in> set xs. base_opens evp_dec dcmp m x" using Cons.prems(1) by simp
  from Cons.IH [OF this 3(5), of "pre @ ct_frame d"] obtain rt' where
      4: "base_restore_loop evp_dec dcmp m ((pre @ ct_frame d) @ ?post) (length xs) (count_restored rt1 p, length (pre @ ct_frame d)) =
        Inr (rt', map (\<lambda>x. snd (snd x)) xs)"
      "rt_same (count_restored rt1 p) rt'" "key_inv rt' ks"
      "rt_recv_chunk_num rt' = rt_recv_chunk_num (count_restored rt1 p) + length xs"
      "rt_recv_data_size rt' = rt_recv_data_size (count_restored rt1 p) + length (concat (map (\<lambda>x. snd (snd x)) xs))" by blast
  have "base_restore_loop evp_dec dcmp m ?buf (Suc (length xs)) (rt, length pre) = Inr (rt', p # map (\<lambda>x. snd (snd x)) xs)"
    using 1 2 3(1) o(2) 4(1) unfolding len append.assoc by simp
  with 3(2-4) 4(2-5) x show ?case by (simp add: rt_same_def count_restored_def)
qed

lemma base_retriever_run:
  assumes "\<forall>g \<in> set gs. \<forall>x \<in> set g. base_opens evp_dec dcmp m x" "key_inv rt (map (\<lambda>x. fst (snd x)) (concat gs) @ ks)"
    and "\<forall>g \<in> set gs. length g \<le> rt_batch rt"
  shows "\<exists>rt'. Baseline_DataRetrieverThd_Run evp_dec dcmp m rt
        (map (\<lambda>g. base_restore_msg (map fst g)) gs @ [(SERVER_RESTORE_FINAL, 0, [])]) = Inr (rt', map (\<lambda>x. snd (snd x)) (concat gs)) \<and>
    rt_same rt rt' \<and> rt_recv_chunk_num rt' = rt_recv_chunk_num rt + length (concat gs) \<and>
    rt_recv_data_size rt' = rt_recv_data_size rt + length (concat (map (\<lambda>x. snd (snd x)) (concat gs)))"
  using assms
proof (induction gs arbitrary: rt)
  case Nil
  then show ?case by (simp add: rt_same_def)
next
  case (Cons g gs)
  have g: "\<forall>x \<in> set g. base_opens evp_dec dcmp m x"
      "key_inv rt (map (\<lambda>x. fst (snd x)) g @ (map (\<lambda>x. fst (snd x)) (concat gs) @ ks))" using Cons.prems(1,2) by simp_all
  from base_restore_batch [OF g, of "[]" "[]"] obtain rt1 where
      1: "base_restore_loop evp_dec dcmp m (concat (map (\<lambda>x. ct_frame (fst x)) g)) (length g) (rt, 0) =
        Inr (rt1, map (\<lambda>x. snd (snd x)) g)" "rt_same rt rt1" "key_inv rt1 (map (\<lambda>x. fst (snd x)) (concat gs) @ ks)"
      "rt_recv_chunk_num rt1 = rt_recv_chunk_num rt + length g"
      "rt_recv_data_size rt1 = rt_recv_data_size rt + length (concat (map (\<lambda>x. snd (snd x)) g))"
    by auto
  have p: "\<forall>g \<in> set gs. \<forall>x \<in> set g. base_opens evp_dec dcmp m x" "\<forall>g \<in> set gs. length g \<le> rt_batch rt1"
    using Cons.prems(1,3) 1(2) by (simp_all add: rt_same_def)
  obtain rt' where 2: "Baseline_DataRetrieverThd_Run evp_dec dcmp m rt1
        (map (\<lambda>g. base_restore_msg (map fst g)) gs @ [(SERVER_RESTORE_FINAL, 0, [])]) = Inr (rt', map (\<lambda>x. snd (snd x)) (concat gs))"
      "rt_same rt1 rt'" "rt_recv_chunk_num rt' = rt_recv_chunk_num rt1 + length (concat gs)"
      "rt_recv_data_size rt' = rt_recv_data_size rt1 + length (concat (map (\<lambda>x. snd (snd x)) (concat gs)))"
    using Cons.IH [OF p(1) 1(3) p(2)] by blast
  have "\<forall>d \<in> set (map fst g). length d \<le> ENC_MAX_CHUNK_SIZE" using g(1) by (auto simp: base_opens_def)
  from ct_frames_size [OF this] have "length (concat (map (\<lambda>x. ct_frame (fst x)) g)) \<le> length g * BASE_SEND_CHUNK_SIZE"
    by (simp add: comp_def)
  also have "\<dots> \<le> rt_batch rt * BASE_SEND_CHUNK_SIZE" using Cons.prems(3) by (intro mult_right_mono) simp_all
  finally have len: "length (concat (map (\<lambda>x. ct_frame (fst x)) g)) \<le> rt_batch rt * BASE_SEND_CHUNK_SIZE" .
  have m: "base_restore_msg (map fst g) = (SERVER_RESTORE_CHUNK, length g, concat (map (\<lambda>x. ct_frame (fst x)) g))"
    by (simp add: base_restore_msg_def comp_def)
  show ?case using 1 2 len by (simp add: m rt_same_def)
qed

subsection \<open>The two sides of a download\<close>

definition Baseline_server_download ::
  "(bytes \<Rightarrow> bytes \<Rightarrow> nat \<Rightarrow> bytes option) \<Rightarrow> codec \<Rightarrow> nat \<Rightarrow> nat \<Rightarrow> data_reader \<Rightarrow> bytes \<Rightarrow> net_msg list result" where
  \<comment> \<open>the response to the login carries the head of the recipe file; then the chunks\<close>
  "Baseline_server_download ddec dcmp batch recipe_batch re recipe_file =
    bindR (Baseline_DataReaderThd_Run recipe_batch re recipe_file) (\<lambda>(re, raws).
    bindR (Baseline_DataDecoderThd_Run ddec dcmp batch raws) (\<lambda>msgs.
      Inr ((SERVER_LOGIN_RESPONSE, 0, take RECIPE_HEAD_SIZE recipe_file) # msgs)))"

fun Baseline_client_download ::
  "(evp_setup \<Rightarrow> bytes \<Rightarrow> bytes) \<Rightarrow> codec \<Rightarrow> client_enc_type \<Rightarrow> data_retriever \<Rightarrow> net_msg list \<Rightarrow>
   (data_retriever \<times> bytes) result" where
  "Baseline_client_download evp_dec dcmp method_type rt [] = Inl NetworkError"
| "Baseline_client_download evp_dec dcmp method_type rt (response # msgs) =
    bindR (DownloadLogin rt response) (\<lambda>rt.
    bindR (Baseline_DataRetrieverThd_Run evp_dec dcmp method_type rt msgs) (\<lambda>(rt, ds).
      Inr (rt, dl_file (DownloadWriterThd_Run ds))))"

definition base_restores ::
  "(evp_setup \<Rightarrow> bytes \<Rightarrow> bytes) \<Rightarrow> codec \<Rightarrow> (bytes \<Rightarrow> bytes \<Rightarrow> nat \<Rightarrow> bytes option) \<Rightarrow> (nat \<Rightarrow> bytes) \<Rightarrow> client_enc_type \<Rightarrow>
   nat \<Rightarrow> nat \<Rightarrow> nat \<Rightarrow> nat \<Rightarrow> data_writer \<Rightarrow> bytes \<Rightarrow> bytes \<Rightarrow> bytes \<Rightarrow> bool" where
  \<comment> \<open>however the next session names its container, the client writes the file and finds its size\<close>
  "base_restores evp_dec dcmp ddec junk m cache_size batch recipe_batch key_batch dw recipe_file key_file src \<longleftrightarrow>
     (\<forall>rand. disk (dw_store (DataWriterThd_end dw)) (CreateUUID rand CONTAINER_ID_LENGTH) = None \<longrightarrow>
        (\<exists>msgs rt.
           Baseline_server_download ddec dcmp batch recipe_batch (open_reader rand cache_size ic_new (DataWriterThd_end dw)) recipe_file =
             Inr msgs \<and>
           Baseline_client_download evp_dec dcmp m (data_retriever_new FULL_EDR batch key_batch key_file junk) msgs = Inr (rt, src) \<and>
           \<not> download_mismatch rt))"

text \<open>A recipe entry: fingerprint, ciphertext, key and chunk.\<close>

lemma base_session:
  assumes inv: "base_inv S dw" and size: "0 < cache_size"
    and cfg: "0 < batch" "0 < recipe_batch" "0 < key_batch" "key_batch < 2 ^ 32" and junk: "\<And>n. length (junk n) = n"
    and xs: "\<forall>(fp, d, key, p) \<in> set xs. fp \<in> S \<and> base_stored dcmp ddec dw fp = Some d \<and> length key = CHUNK_HASH_SIZE \<and>
      base_opens evp_dec dcmp m (d, key, p)"
    and src: "concat (map (\<lambda>(_, _, _, p). p) xs) = src" "length src < 2 ^ 64" "length xs < 2 ^ 64"
    and rf: "recipe_file = recipe_head_bytes \<lparr> rh_size = length src, rh_chunk_num = length xs \<rparr> @ concat (map fst xs)"
    and kf: "key_file = concat (map (\<lambda>(_, _, key, _). key) xs)"
  shows "base_restores evp_dec dcmp ddec junk m cache_size batch recipe_batch key_batch dw recipe_file key_file src"
  unfolding base_restores_def
proof (intro allI impI)
  fix rand
  assume fresh: "disk (dw_store (DataWriterThd_end dw)) (CreateUUID rand CONTAINER_ID_LENGTH) = None"
  let ?re = "open_reader rand cache_size ic_new (DataWriterThd_end dw)"
  let ?head = "\<lparr> rh_size = length src, rh_chunk_num = length xs \<rparr>"
  have ok: "store_ok (dw_store dw) (dw_client dw)" using inv by (simp add: base_inv_def)
  have re: "reader_of dw ?re" using store_session_chunks [OF ok size fresh] by (simp add: reader_of_def open_reader_def)
  have hl: "length (recipe_head_bytes ?head) = RECIPE_HEAD_SIZE" by (simp add: recipe_head_bytes_def RECIPE_HEAD_SIZE_def)
  let ?ys = "map (\<lambda>x. (fst x, fst (snd x))) xs"
  have ys: "\<forall>(fp, d) \<in> set ?ys. fp \<in> S \<and> base_stored dcmp ddec dw fp = Some d \<and> length d \<le> ENC_MAX_CHUNK_SIZE"
    using xs by (auto simp: base_opens_def)
  obtain re' raws gs where 1: "Baseline_DataReaderThd_Run recipe_batch ?re (recipe_head_bytes ?head @ concat (map fst ?ys)) = Inr (re', raws)"
    "Baseline_DataDecoderThd_Run ddec dcmp batch raws = Inr (map base_restore_msg gs @ [(SERVER_RESTORE_FINAL, 0, [])])"
    "concat gs = map snd ?ys" "\<forall>g \<in> set gs. length g \<le> batch"
    by (rule base_server_run [OF inv re cfg(1,2) hl ys])
  have fps: "map fst ?ys = map fst xs" by (simp add: comp_def)
  have srv: "Baseline_server_download ddec dcmp batch recipe_batch ?re recipe_file =
      Inr ((SERVER_LOGIN_RESPONSE, 0, recipe_head_bytes ?head) # map base_restore_msg gs @ [(SERVER_RESTORE_FINAL, 0, [])])"
    using 1(1,2) hl unfolding fps rf [symmetric] by (simp add: Baseline_server_download_def rf)
  have "concat gs = map fst (map snd xs)" using 1(3) by (simp add: comp_def)
  from group_map [OF this] obtain hs where hs: "gs = map (map fst) hs" "concat hs = map snd xs" by blast
  have all: "\<forall>x \<in> set (concat hs). base_opens evp_dec dcmp m x" unfolding hs(2) using xs by auto
  then have op: "\<forall>g \<in> set hs. \<forall>x \<in> set g. base_opens evp_dec dcmp m x" by auto
  let ?start = "data_retriever_new FULL_EDR batch key_batch key_file junk"
  let ?rt = "?start \<lparr> rt_head := ?head \<rparr>"
  have keys: "map (\<lambda>x. fst (snd x)) (concat hs) = map (\<lambda>(_, _, key, _). key) xs" "length (concat hs) = length xs"
      "map (\<lambda>x. snd (snd x)) (concat hs) = map (\<lambda>(_, _, _, p). p) xs"
    unfolding hs(2) by (auto simp: comp_def split: prod.splits)
  have kl: "\<forall>k \<in> set (map (\<lambda>(_, _, key, _). key) xs). length k = CHUNK_HASH_SIZE" using xs by auto
  have k: "key_inv ?rt (map (\<lambda>x. fst (snd x)) (concat hs) @ [])"
    using key_inv_new [OF cfg(3,4) kl junk, of FULL_EDR batch] unfolding keys kf by (simp add: key_inv_def data_retriever_new_def)
  have "\<forall>g \<in> set hs. length g \<le> rt_batch ?rt" using 1(4) by (simp add: hs(1) data_retriever_new_def)
  from base_retriever_run [OF op k this] obtain rt' where
    2: "Baseline_DataRetrieverThd_Run evp_dec dcmp m ?rt (map (\<lambda>g. base_restore_msg (map fst g)) hs @ [(SERVER_RESTORE_FINAL, 0, [])]) =
      Inr (rt', map (\<lambda>(_, _, _, p). p) xs)" "rt_head rt' = ?head" "rt_recv_chunk_num rt' = length xs"
    "rt_recv_data_size rt' = length (concat (map (\<lambda>(_, _, _, p). p) xs))"
    unfolding keys by (auto simp: rt_same_def data_retriever_new_def)
  have m: "map (\<lambda>g. base_restore_msg (map fst g)) hs = map base_restore_msg gs" by (simp add: hs(1) comp_def)
  have "DownloadLogin ?start (SERVER_LOGIN_RESPONSE, 0, recipe_head_bytes ?head) = Inr ?rt"
    by (rule login_head) (use src(2,3) in simp_all)
  with 2(1) have "Baseline_client_download evp_dec dcmp m ?start
      ((SERVER_LOGIN_RESPONSE, 0, recipe_head_bytes ?head) # map base_restore_msg gs @ [(SERVER_RESTORE_FINAL, 0, [])]) = Inr (rt', src)"
    unfolding m by (simp add: DownloadWriterThd_Run_def DownloadWriter_file src(1))
  moreover have "\<not> download_mismatch rt'" using 2(2-4) by (simp add: download_mismatch_def src(1))
  ultimately show "\<exists>msgs rt.
      Baseline_server_download ddec dcmp batch recipe_batch ?re recipe_file = Inr msgs \<and>
      Baseline_client_download evp_dec dcmp m ?start msgs = Inr (rt, src) \<and> \<not> download_mismatch rt"
    using srv by blast
qed

subsection \<open>The client of an upload\<close>

definition base_ciphers ::
  "(bytes \<Rightarrow> bytes) \<Rightarrow> (evp_setup \<Rightarrow> bytes \<Rightarrow> bytes) \<Rightarrow> codec \<Rightarrow> (nat \<Rightarrow> nat \<Rightarrow> u32) \<Rightarrow> (nat \<Rightarrow> nat) \<Rightarrow>
   client_enc_type \<Rightarrow> bytes list \<Rightarrow> bytes list" where
  "base_ciphers hash evp_enc cmp rng rand m ps = map (\<lambda>(i, p). base_cipher hash evp_enc cmp rng rand m i p) (zip [0..<length ps] ps)"

definition base_keys :: "(bytes \<Rightarrow> bytes) \<Rightarrow> (nat \<Rightarrow> nat) \<Rightarrow> client_enc_type \<Rightarrow> bytes list \<Rightarrow> bytes list" where
  "base_keys hash rand m ps = map (\<lambda>(i, p). base_key hash rand m i p) (zip [0..<length ps] ps)"

lemma list_all2_map_eq: "list_all2 P zs xs \<Longrightarrow> (\<And>z x. P z x \<Longrightarrow> g x = f z) \<Longrightarrow> map g xs = map f zs"
  by (induction rule: list_all2_induct) simp_all

lemma base_client_run:
  assumes evp: "evp_ok evp_enc evp_dec" and codec: "codec_ok cmp dcmp" and hash: "\<And>x. length (hash x) = CHUNK_HASH_SIZE"
    and cfg: "0 < batch" "0 < key_batch" and bs: "length (sc_features (s2_chunk (bs_send bs))) = SUPER_FEATURE_PER_CHUNK"
    and ps: "\<forall>p \<in> set ps. 0 < length p \<and> length p \<le> MAX_CHUNK_SIZE"
  shows "\<exists>sd gs. Baseline_client hash feat evp_enc cmp rng rand m batch key_batch feature_junk bs cm
      (map (normal_chunk_msg hash) ps @ [recipe_chunk_msg sz n]) =
      Inr (sd, map base_group_msg gs @ [(CLIENT_UPLOAD_RECIPE_END, 0, recipe_head_bytes \<lparr> rh_size = sz, rh_chunk_num = n \<rparr>)]) \<and>
    base_files (base_ciphers hash evp_enc cmp rng rand m ps) (recipe_head_bytes \<lparr> rh_size = sz, rh_chunk_num = n \<rparr>) gs \<and>
    sd_key_file sd = concat (base_keys hash rand m ps)"
proof -
  let ?fc = "\<lambda>p. chunk_t.extend (normal_chunk_msg hash p) (feature_chunk.fields (feat p)) :: feature_chunk"
  let ?h = "\<lparr> rh_size = sz, rh_chunk_num = n \<rparr>"
  obtain fs where 1: "run_thd (PlainSimilarThd_step feat) feature_junk (map (normal_chunk_msg hash) ps @ [recipe_chunk_msg sz n]) =
      Inr (fs, map ?fc ps @ [chunk_t.extend (recipe_chunk_msg sz n) (feature_chunk.fields fs)])" using plain_run by blast
  let ?rc = "chunk_t.extend (recipe_chunk_msg sz n) (feature_chunk.fields fs) :: feature_chunk"
  have rc: "c_type ?rc = RECIPE_CHUNK" "c_type (enc_of ?rc) = RECIPE_CHUNK" "c_head (enc_of ?rc) = ?h"
    by (simp_all add: recipe_chunk_msg_def chunk_t.defs feature_chunk.defs enc_of_def enc_feature_chunk.defs)
  let ?kg = "\<lparr> bk_chunk_buf = [], bk_send_buf = [], bk_batch = batch, bk_method = m, bk_km = 0, bk_finished = False \<rparr>"
  have kg: "bkg_wf ?kg" using cfg(1) by (simp add: bkg_wf_def)
  have nc: "\<forall>ch \<in> set (map ?fc ps). c_type ch = NORMAL_CHUNK \<and> length (raw_fp (c_raw ch)) = CHUNK_HASH_SIZE"
    by (auto simp: normal_chunk_msg_def chunk_t.defs hash)
  have tr: "chunk_t.truncate (?fc p) = chunk_t.truncate (normal_chunk_msg hash p)" for p by (simp add: chunk_t.defs)
  from KeyGen_run [OF kg nc rc(1), of hash evp_enc] obtain kg' where
    2: "run_thd (Baseline_KeyGenThd_step (Baseline_km_handle hash) evp_enc) ?kg (map ?fc ps @ [?rc]) =
      Inr (kg', map (\<lambda>p. key_gen_out hash evp_enc m (chunk_t.truncate (normal_chunk_msg hash p))) ps @ [enc_of ?rc])"
    by (auto simp: comp_def tr)
  have bs': "length (sc_features (s2_chunk (bs_send (bs \<lparr> bs_rand := 0 \<rparr>)))) = SUPER_FEATURE_PER_CHUNK"
    "m = ENC_COMP_MLE \<longrightarrow> bs_rand (bs \<lparr> bs_rand := 0 \<rparr>) = 0" using bs by simp_all
  from Select_run [where hash = hash and m = m and ps = ps and evp_enc = evp_enc and cmp = cmp and rng = rng and rand = rand,
      OF hash bs'(1) rc(2) bs'(2)] obtain bs1 os ro where
    3: "run_thd (Baseline_SelectCompThd_step evp_enc cmp rng rand m) (bs \<lparr> bs_rand := 0 \<rparr>)
        (map (\<lambda>p. key_gen_out hash evp_enc m (chunk_t.truncate (normal_chunk_msg hash p))) ps @ [enc_of ?rc]) = Inr (bs1, os @ [ro])"
    "list_all2 (\<lambda>(i, p) x. base_out (base_key hash rand m i p) (base_cipher hash evp_enc cmp rng rand m i p) x) (zip [0..<length ps] ps) os"
    "sc_type (s2_chunk ro) = RECIPE_CHUNK" "sc_data (s2_chunk ro) = recipe_head_bytes ?h" unfolding rc(3) by auto
  have keys: "map s2_key os = base_keys hash rand m ps"
    unfolding base_keys_def by (rule list_all2_map_eq [OF 3(2)]) (auto simp: base_out_def)
  have dat: "map (\<lambda>x. sc_data (s2_chunk x)) os = base_ciphers hash evp_enc cmp rng rand m ps"
    unfolding base_ciphers_def by (rule list_all2_map_eq [OF 3(2)]) (auto simp: base_out_def)
  have x: "\<forall>x \<in> set os. base_wf (s2_chunk x) \<and> length (s2_key x) = CHUNK_HASH_SIZE"
  proof
    fix x assume "x \<in> set os"
    then obtain j where j: "j < length os" "x = os ! j" by (metis in_set_conv_nth)
    let ?ip = "zip [0..<length ps] ps ! j"
    have len: "length (zip [0..<length ps] ps) = length os" using 3(2) by (rule list_all2_lengthD)
    obtain i p where z: "?ip = (i, p)" by (cases ?ip)
    have ip: "(i, p) \<in> set (zip [0..<length ps] ps)" "base_out (base_key hash rand m i p) (base_cipher hash evp_enc cmp rng rand m i p) x"
      using list_all2_nthD2 [OF 3(2) j(1)] nth_mem [of j "zip [0..<length ps] ps"] j len unfolding z by simp_all
    have "p \<in> set ps" using ip(1) by (rule set_zip_rightD)
    then have "length p \<le> MAX_CHUNK_SIZE" using ps by blast
    then have "length (base_cipher hash evp_enc cmp rng rand m i p) \<le> ENC_MAX_CHUNK_SIZE"
      using length_base_cipher [OF evp codec, of p hash rng rand m i] by (simp add: size_consts)
    with ip(2) length_base_key [where hash = hash and rand = rand and m = m and i = i and p = p, OF hash]
    show "base_wf (s2_chunk x) \<and> length (s2_key x) = CHUNK_HASH_SIZE" by (simp add: base_wf_def base_out_def)
  qed
  have "base_sender_inv (sender_new batch key_batch cm) [] []" using cfg by (simp add: base_sender_inv_def sender_new_def)
  from base_sender_chunks [OF this x] obtain sd1 gs pend where
    4: "run_thd Baseline_SenderThd_step (sender_new batch key_batch cm) os = Inr (sd1, map base_group_msg gs)"
    "base_sender_inv sd1 pend (map s2_key os)" "concat gs @ pend = map s2_chunk os" by auto
  have "length (sc_data (s2_chunk ro)) \<le> BASE_SEND_CHUNK_SIZE" by (simp add: 3(4) recipe_head_bytes_def BASE_SEND_CHUNK_SIZE_def)
  from base_sender_recipe [OF 4(2) 3(3) this] obtain sd where
    5: "Baseline_SenderThd_step sd1 ro = Inr (sd, map base_group_msg (if pend = [] then [] else [pend]) @
        [(CLIENT_UPLOAD_RECIPE_END, 0, recipe_head_bytes ?h)])" "sd_key_file sd = concat (map s2_key os)" unfolding 3(4) by blast
  let ?gs = "gs @ (if pend = [] then [] else [pend])"
  have gs: "concat ?gs = map s2_chunk os" using 4(3) by (cases "pend = []") simp_all
  have "run_thd Baseline_SenderThd_step (sender_new batch key_batch cm) (os @ [ro]) =
      Inr (sd, map base_group_msg ?gs @ [(CLIENT_UPLOAD_RECIPE_END, 0, recipe_head_bytes ?h)])"
    using 4(1) 5(1) by (simp add: run_thd_append)
  then have "Baseline_client hash feat evp_enc cmp rng rand m batch key_batch feature_junk bs cm
      (map (normal_chunk_msg hash) ps @ [recipe_chunk_msg sz n]) =
      Inr (sd, map base_group_msg ?gs @ [(CLIENT_UPLOAD_RECIPE_END, 0, recipe_head_bytes ?h)])"
    unfolding Baseline_client_def 1 bindR_Inr prod.case 2 3(1) .
  moreover have "base_files (base_ciphers hash evp_enc cmp rng rand m ps) (recipe_head_bytes ?h) ?gs"
    unfolding base_files_def gs using x dat by (auto simp: comp_def recipe_head_bytes_def RECIPE_HEAD_SIZE_def)
  ultimately show ?thesis using 5(2) keys by metis
qed

subsection \<open>A file goes up and comes back\<close>

definition base_uploadable ::
  "(bytes \<Rightarrow> bytes) \<Rightarrow> codec \<Rightarrow> codec \<Rightarrow> (bytes \<Rightarrow> bytes \<Rightarrow> nat \<Rightarrow> bytes option) \<Rightarrow> (bytes \<Rightarrow> bytes \<Rightarrow> nat \<Rightarrow> bytes option) \<Rightarrow>
   client_enc_type \<Rightarrow> bytes set \<Rightarrow> data_writer \<Rightarrow> bytes list \<Rightarrow> bytes list \<Rightarrow> bool" where
  \<comment> \<open>what is asked of the chunks \<open>ps\<close> and their ciphertexts \<open>ds\<close>: they fit the buffers of the codecs, no two
      of them have one fingerprint, and uncompressed chunks are not taken for compressed ones\<close>
  "base_uploadable hash cmp dcmp denc ddec m S dw ps ds \<longleftrightarrow>
     (\<forall>d \<in> set ds. base_storable denc cmp d) \<and> base_fresh hash S (base_stored dcmp ddec dw) ds \<and>
     (m = ENC_COMP_MLE \<longrightarrow> (\<forall>p \<in> set ps. raw_safe cmp dcmp p))"

definition base_kept ::
  "(bytes \<Rightarrow> bytes) \<Rightarrow> codec \<Rightarrow> (bytes \<Rightarrow> bytes \<Rightarrow> nat \<Rightarrow> bytes option) \<Rightarrow> bytes set \<Rightarrow> data_writer \<Rightarrow> bytes list \<Rightarrow> data_writer \<Rightarrow> bool" where
  \<comment> \<open>the store has its old content and the new chunks, and is as an upload needs it\<close>
  "base_kept hash dcmp ddec S dw ds dw' \<longleftrightarrow>
     (\<exists>T. S \<subseteq> T \<and> base_inv T dw' \<and> dom (map_of (dw_fp_2_addr dw')) = T \<and>
        (\<forall>g \<in> S. base_stored dcmp ddec dw' g = base_stored dcmp ddec dw g) \<and>
        (\<forall>d \<in> set ds. base_stored dcmp ddec dw' (hash d) = Some d))"

lemma base_next_session:
  assumes inv: "base_inv T dw" and size: "0 < cache_size"
    and fresh: "disk (dw_store (DataWriterThd_end dw)) (CreateUUID rand CONTAINER_ID_LENGTH) = None"
  defines "dw' \<equiv> dw_session rand cache_size (DataWriterThd_end dw)"
  shows "base_inv T dw'" "dw_fp_2_addr dw' = dw_fp_2_addr dw" "g \<in> T \<Longrightarrow> base_stored dcmp ddec dw' g = base_stored dcmp ddec dw g"
proof -
  have ok: "store_ok (dw_store dw) (dw_client dw)" using inv by (simp add: base_inv_def)
  show f: "dw_fp_2_addr dw' = dw_fp_2_addr dw" by (simp add: dw'_def dw_session_def)
  have l: "base_later T dw dw'"
    using store_session_chunks [OF ok size fresh] f by (simp add: base_later_def dw'_def dw_session_def dw_chunk_def)
  show "base_inv T dw'" by (rule base_inv_later [OF inv l]) (simp add: dw'_def dw_session_def)
  show "base_stored dcmp ddec dw' g = base_stored dcmp ddec dw g" if "g \<in> T" by (rule base_later_stored [OF inv l that])
qed

lemma base_cipher_opens:
  assumes evp: "evp_ok evp_enc evp_dec" and codec: "codec_ok cmp dcmp" and p: "length p \<le> MAX_CHUNK_SIZE"
    and safe: "m = ENC_COMP_MLE \<longrightarrow> raw_safe cmp dcmp p"
  shows "base_opens evp_dec dcmp m (base_cipher hash evp_enc cmp rng rand m i p, base_key hash rand m i p, p)"
proof -
  have "length (base_cipher hash evp_enc cmp rng rand m i p) \<le> ENC_MAX_CHUNK_SIZE"
    using length_base_cipher [OF evp codec p, of hash rng rand m i] by (simp add: size_consts)
  then show ?thesis
    using DecChunk_EncChunk [OF evp] Decompress_Baseline_CompressWithPad [OF codec p] safe
    by (cases m) (simp_all add: base_opens_def Baseline_open_chunk_def base_cipher_def Let_def)
qed

definition base_entries ::
  "(bytes \<Rightarrow> bytes) \<Rightarrow> (evp_setup \<Rightarrow> bytes \<Rightarrow> bytes) \<Rightarrow> codec \<Rightarrow> (nat \<Rightarrow> nat \<Rightarrow> u32) \<Rightarrow> (nat \<Rightarrow> nat) \<Rightarrow>
   client_enc_type \<Rightarrow> bytes list \<Rightarrow> (bytes \<times> bytes \<times> bytes \<times> bytes) list" where
  "base_entries hash evp_enc cmp rng rand m ps =
     map (\<lambda>(i, p). let d = base_cipher hash evp_enc cmp rng rand m i p in (hash d, d, base_key hash rand m i p, p)) (zip [0..<length ps] ps)"

lemma base_entries_parts:
  "map fst (base_entries hash evp_enc cmp rng rand m ps) = map hash (base_ciphers hash evp_enc cmp rng rand m ps)"
  "map (\<lambda>(_, _, key, _). key) (base_entries hash evp_enc cmp rng rand m ps) = base_keys hash rand m ps"
  "map (\<lambda>(_, _, _, p). p) (base_entries hash evp_enc cmp rng rand m ps) = ps"
  "length (base_entries hash evp_enc cmp rng rand m ps) = length ps"
proof -
  have "map (\<lambda>(_, _, _, p). p) (base_entries hash evp_enc cmp rng rand m ps) = map snd (zip [0..<length ps] ps)"
    unfolding base_entries_def map_map by (rule map_cong) (auto simp: Let_def)
  then show "map (\<lambda>(_, _, _, p). p) (base_entries hash evp_enc cmp rng rand m ps) = ps" by simp
qed (auto simp: base_entries_def base_ciphers_def base_keys_def Let_def)

lemma base_entries_in:
  assumes "x \<in> set (base_entries hash evp_enc cmp rng rand m ps)"
  obtains i p where "p \<in> set ps" "base_cipher hash evp_enc cmp rng rand m i p \<in> set (base_ciphers hash evp_enc cmp rng rand m ps)"
    "x = (hash (base_cipher hash evp_enc cmp rng rand m i p), base_cipher hash evp_enc cmp rng rand m i p, base_key hash rand m i p, p)"
proof -
  obtain i p where ip: "(i, p) \<in> set (zip [0..<length ps] ps)"
    "x = (hash (base_cipher hash evp_enc cmp rng rand m i p), base_cipher hash evp_enc cmp rng rand m i p, base_key hash rand m i p, p)"
    using assms by (auto simp: base_entries_def Let_def)
  have "base_cipher hash evp_enc cmp rng rand m i p \<in> set (base_ciphers hash evp_enc cmp rng rand m ps)"
    unfolding base_ciphers_def set_map by (rule image_eqI [OF _ ip(1)]) simp
  with set_zip_rightD [OF ip(1)] show thesis using ip(2) by (rule that)
qed

lemma base_upload_session:
  assumes evp: "evp_ok evp_enc evp_dec" and env: "base_env hash denc ddec cmp dcmp iter"
    and cfg: "0 < cache_size" "0 < batch" "0 < recipe_batch" "0 < key_batch" "key_batch < 2 ^ 32" and junk: "\<And>n. length (junk n) = n"
    and S: "base_inv S dw" "dom (map_of (dw_fp_2_addr dw)) = S"
    and ps: "\<forall>p \<in> set ps. 0 < length p \<and> length p \<le> MAX_CHUNK_SIZE" and src: "length (concat ps) < 2 ^ 64"
    and up: "base_uploadable hash cmp dcmp denc ddec m S dw ps (base_ciphers hash evp_enc cmp rng rand m ps)"
    and gs: "base_files (base_ciphers hash evp_enc cmp rng rand m ps)
      (recipe_head_bytes \<lparr> rh_size = length (concat ps), rh_chunk_num = length ps \<rparr>) gs"
    and kf: "key_file = concat (base_keys hash rand m ps)"
    and run: "(base_step hash feat denc cmp dcmp iter)\<^sup>*\<^sup>*
      (base_start (map base_group_msg gs @ [(CLIENT_UPLOAD_RECIPE_END, 0,
         recipe_head_bytes \<lparr> rh_size = length (concat ps), rh_chunk_num = length ps \<rparr>)]) recipe_batch dw) s"
  shows "\<not> base_exits hash feat denc cmp dcmp iter s"
    and "base_idle s \<Longrightarrow>
      base_restores evp_dec dcmp ddec junk m cache_size batch recipe_batch key_batch (base_writer_here s)
        (dr_recipe_file (bsv_recv s)) key_file (concat ps) \<and>
      (\<forall>rand'. disk (dw_store (DataWriterThd_end (base_writer_here s))) (CreateUUID rand' CONTAINER_ID_LENGTH) = None \<longrightarrow>
         base_kept hash dcmp ddec S dw (base_ciphers hash evp_enc cmp rng rand m ps)
           (dw_session rand' cache_size (DataWriterThd_end (base_writer_here s))))"
proof -
  let ?ds = "base_ciphers hash evp_enc cmp rng rand m ps"
  let ?h = "recipe_head_bytes \<lparr> rh_size = length (concat ps), rh_chunk_num = length ps \<rparr>"
  have hl: "length ?h = RECIPE_HEAD_SIZE" by (simp add: recipe_head_bytes_def RECIPE_HEAD_SIZE_def)
  have codec: "codec_ok cmp dcmp" and hash: "\<And>x. length (hash x) = CHUNK_HASH_SIZE" using env by (simp_all add: base_env_def)
  have st: "\<forall>d \<in> set ?ds. base_storable denc cmp d" and fr: "base_fresh hash S (base_stored dcmp ddec dw) ?ds"
    and safe: "\<forall>p \<in> set ps. m = ENC_COMP_MLE \<longrightarrow> raw_safe cmp dcmp p" using up by (auto simp: base_uploadable_def)
  from base_run [OF env gs st S run] obtain T seen where i: "base_wire hash ?ds ?h seen s"
    "base_content hash dcmp ddec S (base_stored dcmp ddec dw) ?ds T seen s" by blast
  show "\<not> base_exits hash feat denc cmp dcmp iter s" by (rule base_no_exit [OF env hl st i])
  assume idle: "base_idle s"
  note c = base_idle_content [OF i idle fr]
  let ?xs = "base_entries hash evp_enc cmp rng rand m ps"
  have xs: "\<forall>(fp, d, key, p) \<in> set ?xs. fp \<in> T \<and> base_stored dcmp ddec (base_writer_here s) fp = Some d \<and>
      length key = CHUNK_HASH_SIZE \<and> base_opens evp_dec dcmp m (d, key, p)"
  proof
    fix x assume "x \<in> set ?xs"
    then obtain i p where p: "p \<in> set ps" "base_cipher hash evp_enc cmp rng rand m i p \<in> set ?ds"
      "x = (hash (base_cipher hash evp_enc cmp rng rand m i p), base_cipher hash evp_enc cmp rng rand m i p, base_key hash rand m i p, p)"
      by (rule base_entries_in)
    have "length p \<le> MAX_CHUNK_SIZE" "m = ENC_COMP_MLE \<longrightarrow> raw_safe cmp dcmp p" using p(1) ps safe by blast+
    from base_cipher_opens [OF evp codec this] c(6) p(2,3)
      length_base_key [where hash = hash and rand = rand and m = m and i = i and p = p, OF hash]
    show "case x of (fp, d, key, p) \<Rightarrow> fp \<in> T \<and> base_stored dcmp ddec (base_writer_here s) fp = Some d \<and>
        length key = CHUNK_HASH_SIZE \<and> base_opens evp_dec dcmp m (d, key, p)" by simp
  qed
  have n: "length ps \<le> length (concat ps)" using ps
  proof (induction ps)
    case (Cons p ps)
    then show ?case by (cases p) simp_all
  qed simp
  note parts = base_entries_parts [where hash = hash and m = m and ps = ps and evp_enc = evp_enc and cmp = cmp and rng = rng and rand = rand]
  have "base_restores evp_dec dcmp ddec junk m cache_size batch recipe_batch key_batch (base_writer_here s)
        (dr_recipe_file (bsv_recv s)) key_file (concat ps)"
    by (rule base_session [OF c(2) cfg(1-5) junk xs])
      (use src n in \<open>simp_all add: parts c(1) kf\<close>)
  moreover have "base_kept hash dcmp ddec S dw ?ds (dw_session rand' cache_size (DataWriterThd_end (base_writer_here s)))"
    if fresh: "disk (dw_store (DataWriterThd_end (base_writer_here s))) (CreateUUID rand' CONTAINER_ID_LENGTH) = None" for rand'
  proof -
    note next_s = base_next_session [OF c(2) cfg(1) fresh]
    have "\<forall>g \<in> S. base_stored dcmp ddec (dw_session rand' cache_size (DataWriterThd_end (base_writer_here s))) g = base_stored dcmp ddec dw g"
      using next_s(3) c(4,5) by (metis subsetD)
    moreover have "\<forall>d \<in> set ?ds. base_stored dcmp ddec (dw_session rand' cache_size (DataWriterThd_end (base_writer_here s))) (hash d) = Some d"
      using next_s(3) c(6) by metis
    ultimately show ?thesis unfolding base_kept_def using c(3,4) next_s(1,2) by metis
  qed
  ultimately show "base_restores evp_dec dcmp ddec junk m cache_size batch recipe_batch key_batch (base_writer_here s)
        (dr_recipe_file (bsv_recv s)) key_file (concat ps) \<and>
      (\<forall>rand'. disk (dw_store (DataWriterThd_end (base_writer_here s))) (CreateUUID rand' CONTAINER_ID_LENGTH) = None \<longrightarrow>
         base_kept hash dcmp ddec S dw ?ds (dw_session rand' cache_size (DataWriterThd_end (base_writer_here s))))" by blast
qed

subsection \<open>A schedule that reaches the end\<close>

lemma base_receive_all:
  assumes "\<And>s'. (base_step hash feat denc cmp dcmp iter)\<^sup>*\<^sup>* s s' \<Longrightarrow> \<not> base_exits hash feat denc cmp dcmp iter s'"
  shows "\<exists>s'. (base_step hash feat denc cmp dcmp iter)\<^sup>*\<^sup>* s s' \<and> bsv_msgs s' = [] \<and> bsv_writer s' = bsv_writer s"
  using assms
proof (induction "bsv_msgs s" arbitrary: s)
  case Nil
  then show ?case by (intro exI [of _ s]) simp
next
  case (Cons m ms)
  note q = Cons.hyps(2) [symmetric]
  obtain dr ws where r: "Baseline_DataRecvThd_step hash feat (base_recv_here s) m = Inr (dr, ws)"
    using Cons.prems [OF rtranclp.rtrancl_refl] q
    by (cases "Baseline_DataRecvThd_step hash feat (base_recv_here s) m") (auto simp: base_exits_def)
  let ?s = "s \<lparr> bsv_msgs := ms, bsv_queue := bsv_queue s @ ws, bsv_recv := dr, bsv_fp_2_addr := dr_fp_2_addr dr \<rparr>"
  have st: "base_step hash feat denc cmp dcmp iter s ?s" by (rule base_step.base_recv [OF q r])
  have "\<not> base_exits hash feat denc cmp dcmp iter s'" if "(base_step hash feat denc cmp dcmp iter)\<^sup>*\<^sup>* ?s s'" for s'
  proof (rule Cons.prems)
    show "(base_step hash feat denc cmp dcmp iter)\<^sup>*\<^sup>* s s'" using st that by (rule converse_rtranclp_into_rtranclp)
  qed
  with Cons.hyps(1) [of ?s] obtain s' where
    s': "(base_step hash feat denc cmp dcmp iter)\<^sup>*\<^sup>* ?s s'" "bsv_msgs s' = []" "bsv_writer s' = bsv_writer ?s" by auto
  have "(base_step hash feat denc cmp dcmp iter)\<^sup>*\<^sup>* s s'" using st s'(1) by (rule converse_rtranclp_into_rtranclp)
  with s'(2,3) show ?case by auto
qed

lemma base_one_write:
  assumes safe: "\<And>s'. (base_step hash feat denc cmp dcmp iter)\<^sup>*\<^sup>* s s' \<Longrightarrow> \<not> base_exits hash feat denc cmp dcmp iter s'"
    and one: "\<And>s'. (base_step hash feat denc cmp dcmp iter)\<^sup>*\<^sup>* s s' \<Longrightarrow> length (bsv_queue s') \<le> 1"
    and fresh: "fresh_id (dw_store (bsv_writer s)) (dw_client (bsv_writer s)) rand"
  obtains s' where "(base_step hash feat denc cmp dcmp iter)\<^sup>*\<^sup>* s s'" "base_idle s'"
proof -
  from base_receive_all [OF safe] obtain s1 where
    1: "(base_step hash feat denc cmp dcmp iter)\<^sup>*\<^sup>* s s1" "bsv_msgs s1 = []" "bsv_writer s1 = bsv_writer s" by blast
  show thesis
  proof (cases "bsv_queue s1")
    case Nil
    with 1 show thesis by (intro that [of s1]) (simp_all add: base_idle_def)
  next
    case (Cons w rest)
    with one [OF 1(1)] have q: "bsv_queue s1 = [w]" by simp
    have f: "fresh_id (dw_store (bsv_writer s1)) (dw_client (bsv_writer s1)) rand" using fresh 1(3) by simp
    with safe [OF 1(1)] q obtain dw where d: "Baseline_DataWriterThd_step denc cmp dcmp iter rand (base_writer_here s1) w = Inr dw"
      by (cases "Baseline_DataWriterThd_step denc cmp dcmp iter rand (base_writer_here s1) w") (auto simp: base_exits_def)
    let ?s = "s1 \<lparr> bsv_queue := [], bsv_writer := dw, bsv_fp_2_addr := dw_fp_2_addr dw \<rparr>"
    have "base_step hash feat denc cmp dcmp iter s1 ?s" by (rule base_step.base_write [OF q f d])
    moreover have "base_idle ?s" using 1(2) by (simp add: base_idle_def)
    ultimately show thesis using that rtranclp.rtrancl_into_rtrancl [OF 1(1)] by blast
  qed
qed

lemma base_queue_one:
  assumes "base_content hash dcmp ddec S old [d] T seen s"
  shows "length (bsv_queue s) \<le> 1"
proof -
  have d: "distinct (map (\<lambda>w. ci_fp (w_info w)) (bsv_queue s))" and
    q: "\<forall>w \<in> set (bsv_queue s). ci_fp (w_info w) = hash (w_data w) \<and> w_data w \<in> set [d]"
    using assms unfolding base_content_def by blast+
  have "set (map (\<lambda>w. ci_fp (w_info w)) (bsv_queue s)) \<subseteq> {hash d}" using q by auto
  from card_mono [OF _ this] show ?thesis using distinct_card [OF d] by simp
qed

definition bs_demo :: base_select where
  "bs_demo = \<lparr> bs_rand = 0, bs_send = s2_demo NORMAL_CHUNK \<rparr>"

lemma base_demo_ciphers: "base_ciphers demo_hash demo_enc demo_cmp (\<lambda>_ _. 0) (\<lambda>_. 0) SERVER_AIDED_MLE [[5]] = [[5]]"
  by (simp add: base_ciphers_def base_cipher_def EncChunk_def EncryptWithKeyIV_def demo_enc_def encrypt_setup_def CIPHER_TYPE_def Let_def)

lemma base_demo_storable: "base_storable demo_denc demo_cmp [5]"
  by (simp add: base_storable_def fits_codec_def demo_denc_def size_consts)



end
