(* ===== verification/Spec2Isabelle.thy ===== *)
theory Spec2Isabelle
  imports Backup Finesse Msg_Queue Programs Client_Lock Queue_Types Baseline_Restore
begin

text \<open>
  Verification of EDRStore, an encrypted deduplicating backup store with similarity-based
  (resemblance) compression, \<open>src/EDRStore\<close>, and of the baseline system it is compared with,
  \<open>src/Baseline\<close>. All paths below are relative to \<open>src/EDRStore\<close> unless they say Baseline.

  \<^bold>\<open>The program.\<close> A client cuts a file into chunks (\<open>src/chunker\<close>), extracts super-features of
  each chunk, asks a key manager for a key that similar chunks share (\<open>src/key_manager\<close>),
  compresses and encrypts the chunk in two forms, or in one form when its features are in the
  client's cache table, and sends batches over TLS (\<open>src/client\<close>, \<open>src/network\<close>). The server
  parses the batches and writes the file recipe, deduplicates by a dual fingerprint, delta-encodes
  a cached chunk against its base in the informed cache, delta-encodes the others against a
  similar stored chunk, and packs them into containers (\<open>src/server\<close>, \<open>src/reduction\<close>). A restore
  walks over the recipe in the opposite direction. Threads are connected by message queues
  (\<open>include/message_queue\<close>). The baseline system stores the same chunks with conventional
  message-locked encryption or none, without a cache; its server delta-encodes and compresses what
  it receives. Most of its files are the same.

  \<^bold>\<open>How it is modelled.\<close> A class is a record of its fields, a method a function on the record, a
  function that can call \<open>exit\<close> returns \<open>Inl\<close> of the exit. An array with its length field is the
  list of its first bytes; buffers that can be overrun are written with bounds-checked accesses that
  return \<open>Inl\<close>, so that the absence of overruns is a theorem. A hash map is an association list
  with distinct keys, whose iteration order is an argument of the code that iterates. Features
  and hashes are 64-bit words, and the cut-point, Rabin and hash computations wrap as the code does.
  A thread is a function that takes one message of its queue and gives the messages for the next
  (\<open>run_thd\<close> folds it over a queue). OpenSSL, the compressors, xdelta, the clock and the random
  engine are arguments; the laws the code needs of them (decryption inverts encryption,
  decoding inverts encoding, a hash has its length, a TLS connection is a stream) are named
  predicates: \<open>evp_ok\<close>, \<open>codec_ok\<close>, \<open>delta_ok\<close>, \<open>tls_ok\<close>; every theorem that assumes
  one has a witness with a concrete function.

  \<^bold>\<open>Theories.\<close>
  \<^item> \<open>Prelude\<close>: machine types, hash maps, results, threads, little-endian integers, buffer reads.
  \<^item> \<open>Data_Types\<close>: \<open>const_var.h\<close>, \<open>data_structure.h\<close> and the helpers of \<open>namespace tool\<close>.
  \<^item> \<open>Kv_Store\<close>: \<open>AbsDatabase\<close> as the locale \<open>kv_store\<close>, interpreted on \<open>InMemoryDatabase\<close> of
    \<open>in_mem_db.cc\<close> and on the bare hash map; the format of the database file.
  \<^item> \<open>Disk_Db\<close>: \<open>rocksdb_db.cc\<close>, \<open>leveldb_db.cc\<close>, \<open>db_factory.cc\<close>; the libraries are a record of functions
    with the laws \<open>disk_lib_ok\<close>.
  \<^item> \<open>Chunker\<close>: \<open>abs_chunker.cc\<close>, \<open>fix_chunker.cc\<close>, \<open>fastcdc_chunker.cc\<close>, \<open>chunker_thd.cc\<close>; the locale
    \<open>chunker\<close> is the contract of \<open>GenerateOneChunk\<close> and gives the partition of the file for both.
  \<^item> \<open>Rabin_Poly\<close>, \<open>XXHash64\<close>, \<open>Finesse\<close>: \<open>rabin_poly.cc\<close>, \<open>xxhash64.h\<close>, \<open>finesse_util.cc\<close>: super-features.
  \<^item> \<open>Similar_Policy\<close>: \<open>similar_policy.cc\<close>, \<open>dedup_detect.cc\<close>: the choice of the base chunk.
  \<^item> \<open>Key_Manager\<close>: \<open>basic_km.cc\<close>.
  \<^item> \<open>Crypto_Comp\<close>: \<open>crypto_util.cc\<close>, \<open>two_phase_enc.cc\<close>, \<open>compress_util.cc\<close>, \<open>delta_comp.cc\<close>.
  \<^item> \<open>Lru_Cache\<close>, \<open>Storage_Core\<close>: \<open>lruCache.h\<close>, \<open>read_cache.cc\<close>, \<open>storage_core.cc\<close>: containers on disk and
    in memory.
  \<^item> \<open>Inform_Cache\<close>, \<open>Cache_Meta\<close>: the informed cache of the server and the table of the client that
    mirrors it, \<open>inform_cache.cc\<close> and \<open>cache_meta.cc\<close>.
  \<^item> \<open>Client_Upload\<close>, \<open>Sender\<close>: the threads of the client, from the chunks to the messages.
  \<^item> \<open>Data_Recv\<close>, \<open>Server_Write\<close>: the four threads of the server, from the messages to the containers.
  \<^item> \<open>Pipeline\<close>: three of them as an interleaving over their queues.
  \<^item> \<open>Queue_Types\<close>: the chunk statuses each queue of an upload may hold.
  \<^item> \<open>Restore\<close>, \<open>Retriever\<close>: \<open>data_reader_thd.cc\<close>, \<open>data_decoder_thd.cc\<close> on the server; retriever and writer of the client.
  \<^item> \<open>Rw_Queue\<close>, \<open>Msg_Queue\<close>: \<open>readerwriterqueue.h\<close> as far as it is called, \<open>lck_free_mq.h\<close>,
    \<open>blocked_mq.h\<close>, \<open>mq_factory.h\<close>; the locale \<open>spsc_queue\<close> is what the threads rely on.
  \<^item> \<open>Ssl_Conn\<close>, \<open>Login\<close>: messages over TLS, and the login exchange that opens a session.
  \<^item> \<open>Client_Lock\<close>, \<open>Server_Opt\<close>: \<open>server_opt_thd.cc\<close> and \<open>client_var.cc\<close>: one session per client, and what
    outlives a session.
  \<^item> \<open>Programs\<close>: \<open>configure.cc\<close>, and of \<open>client_main.cc\<close>, \<open>server_main.cc\<close>, \<open>km_main.cc\<close> the command line, the name
    under which a file is known to the server, the totals, start and end.
  \<^item> \<open>Upload_Run\<close>, \<open>Backup\<close>: an upload chunk by chunk through client, wire and server; the threads that
    \<open>client_main.cc\<close> and \<open>server_opt_thd.cc\<close> start, put together.
  \<^item> \<open>Baseline_Client\<close>, \<open>Baseline_Server\<close>: the threads of the baseline that differ, client and key manager
    (\<open>mle.cc\<close>, \<open>key_gen_thd.cc\<close>, \<open>select_comp_thd.cc\<close>, \<open>sender_thd.cc\<close>, \<open>basic_km.cc\<close>), receiver and writer of the
    server. \<open>Baseline_Upload\<close>: these two as an interleaving. \<open>Baseline_Restore\<close>: reader, decoder, retriever,
    and the whole way of a file.

  \<^bold>\<open>What is proved.\<close> Each theory ends with its properties; C<n> in the text before a theorem is its
  number in the manifest. They fall into groups:
  \<^item> End to end, for both systems: a file that is uploaded is restored byte for byte, under every
    schedule of the server's threads, and the store is ready for the next upload. The hypotheses
    are on the file alone: its stored forms do not collide under the digest (\<open>collision_free\<close>,
    \<open>base_fresh\<close>), chunks that were not compressed are no compressed frames (\<open>raw_safe\<close>), what the
    server knows already it holds (\<open>known_held\<close>), the counters of the cache have room
    (\<open>cache_room\<close>), and, for the baseline, ciphertexts fit the buffers of the codecs (\<open>base_storable\<close>).
  \<^item> The store. \<open>dw_inv\<close> is the invariant of index, containers and counters over the set of
    fingerprints written so far, \<open>stored\<close> the abstract content. Writing refines the update of
    that content at one fingerprint, under any schedule of the threads; reads, sealing and the
    start of a session keep it; a restore gives what each fingerprint denotes. \<open>base_inv\<close> and
    \<open>base_stored\<close> are the same for the baseline. The databases behind the indexes are
    interchangeable.
  \<^item> The wire. What the sender frames, the receiver parses, with every buffer access in bounds on both
    sides; messages over TLS and the login are read back however the library cuts the stream.
    The accesses that are out of bounds in the code are stated as such.
    A login reaches the recipe of its file and no other, unless the names of two clients clash, and
    \<open>names_clash\<close> says exactly when they do.
  \<^item> The cache protocol. \<open>cache_sync\<close> relates the client's table and the server's cache; uploads,
    evictions and the end of a session keep it, so that no lookup hits an exit.
  \<^item> Equivalences: the rolling hash against the hash of the window, the incremental hash against the
    hash of the concatenation, batched key generation against single requests, deduplication against
    the filter of first occurrences, the choice of a base against its specification.
  \<^item> Round trips of the compression, encryption, delta and file formats.
  \<^item> Concurrency. Queues are used by one producer and one consumer; a whole queue operation, a
    critical section and a thread's step are atomic. Threads hand over without loss and end
    under every interleaving; the blocking queue does not, and there is a theorem that says so.

  \<^bold>\<open>Bounds and fuel.\<close> The chunkers' loops are \<open>partial_function (option)\<close>, and the theorems show that
  they return. Buffer sizes, batch sizes, container size and header sizes are those of \<open>const_var.h\<close>.
  The hypothesis on the counters (\<open>counts_small\<close>) keeps 32-bit reference counts from wrapping.
  Loops of \<open>ssl_conn.cc\<close> recurse on the bytes left, of which every successful call of the library takes
  at least one. No theorem is about a fuel that may be too small.

  \<^bold>\<open>Not modelled.\<close> The vendored xdelta, the codecs, RocksDB and LevelDB (parameters); sockets,
  certificates and the handshake; the parser of the JSON file, signals and thread creation of the
  programs; logging and timing; the allocating operations and the memory orders of the vendored
  queue; the locks, login and statistics of the baseline's sessions, which are those of the other
  server.
\<close>

end
